(* ===== verification/Dendro_Prelude.thy ===== *)
theory Dendro_Prelude
  imports Main "HOL-Library.Word" "HOL-Library.List_Lexorder" "HOL-Library.Multiset"
begin

section \<open>Shared types, the result type and list lemmas\<close>

text \<open>
  What every component of the model uses: the names of the Rust types, the
  result type of fallible operations with its sequencing, \<open>BTreeMap\<close> as a
  list of pairs in key order, the sort that SQL's \<open>ORDER BY\<close> denotes, and the
  lemmas on lists the components share.
\<close>

subsection \<open>Types\<close>

text \<open>
  Bytes are 8-bit words. A Rust \<open>String\<close> is its UTF-8 bytes, whose
  lexicographic order is the order Rust and SQLite's \<open>BINARY\<close> collation use.
  A signed 64-bit integer is an \<open>int\<close> that satisfies \<open>i64_ok\<close>: the code only
  compares timestamps, and where it computes with one the arithmetic is written
  out in the component.
\<close>

type_synonym u8 = "8 word"
type_synonym u32 = "32 word"
type_synonym u64 = "64 word"
type_synonym bytes = "8 word list"
type_synonym rstring = "8 word list"
type_synonym i64 = int

definition i64_min :: int where "i64_min = - (2 ^ 63)"
definition i64_max :: int where "i64_max = 2 ^ 63 - 1"

definition i64_ok :: "int \<Rightarrow> bool" where
  "i64_ok x \<longleftrightarrow> i64_min \<le> x \<and> x \<le> i64_max"

definition str :: "string \<Rightarrow> rstring" where
  "str s = map of_char s"

subsection \<open>Automation shared by the components\<close>

named_theorems result_simps \<open>unfolding of the result sequencing\<close>
named_theorems wf_intros \<open>introduction of well-formedness facts\<close>
named_theorems frame_simps \<open>tables an operation does not write\<close>

subsection \<open>Results\<close>

text \<open>\<open>Inl e\<close> is \<open>Err(e)\<close>, \<open>Inr x\<close> is \<open>Ok(x)\<close>; \<open>rbind\<close> is the \<open>?\<close> operator.\<close>

fun rbind :: "'e + 'a \<Rightarrow> ('a \<Rightarrow> 'e + 'b) \<Rightarrow> 'e + 'b" where
  "rbind (Inl e) f = Inl e"
| "rbind (Inr x) f = f x"

fun rmap :: "('a \<Rightarrow> 'b) \<Rightarrow> 'e + 'a \<Rightarrow> 'e + 'b" where
  "rmap f (Inl e) = Inl e"
| "rmap f (Inr x) = Inr (f x)"

definition is_ok :: "'e + 'a \<Rightarrow> bool" where
  "is_ok r \<longleftrightarrow> (case r of Inl _ \<Rightarrow> False | Inr _ \<Rightarrow> True)"

lemma rbind_Inr_iff [result_simps]:
  "rbind m f = Inr y \<longleftrightarrow> (\<exists>x. m = Inr x \<and> f x = Inr y)"
  by (cases m) auto

lemma rbind_Inl_iff [result_simps]:
  "rbind m f = Inl e \<longleftrightarrow> m = Inl e \<or> (\<exists>x. m = Inr x \<and> f x = Inl e)"
  by (cases m) auto

lemma rmap_Inr_iff [result_simps]: "rmap f m = Inr y \<longleftrightarrow> (\<exists>x. m = Inr x \<and> y = f x)"
  by (cases m) auto

lemma rmap_Inl_iff [result_simps]: "rmap f m = Inl e \<longleftrightarrow> m = Inl e"
  by (cases m) auto

lemma is_ok_simps [simp]: "is_ok (Inr x)" "\<not> is_ok (Inl e)"
  by (simp_all add: is_ok_def)

text \<open>A loop whose body may fail: it stops at the first error, as \<open>?\<close> in a \<open>for\<close> does.\<close>

fun rfold :: "('s \<Rightarrow> 'a \<Rightarrow> 'e + 's) \<Rightarrow> 's \<Rightarrow> 'a list \<Rightarrow> 'e + 's" where
  "rfold f s [] = Inr s"
| "rfold f s (x # xs) = rbind (f s x) (\<lambda>s'. rfold f s' xs)"

lemma rfold_append: "rfold f s (xs @ ys) = rbind (rfold f s xs) (\<lambda>s'. rfold f s' ys)"
proof (induction xs arbitrary: s)
  case Nil
  then show ?case by simp
next
  case (Cons x xs)
  then show ?case by (cases "f s x") auto
qed

lemma rfold_invariant:
  assumes "rfold f s xs = Inr s'" and "I s"
    and "\<And>x s s'. x \<in> set xs \<Longrightarrow> I s \<Longrightarrow> f s x = Inr s' \<Longrightarrow> I s'"
  shows "I s'"
  using assms
proof (induction xs arbitrary: s)
  case Nil
  then show ?case by simp
next
  case (Cons x xs)
  then obtain t where "f s x = Inr t" "rfold f t xs = Inr s'"
    by (auto simp: result_simps)
  with Cons show ?case by (meson list.set_intros)
qed

subsection \<open>\<open>BTreeMap\<close>: pairs in strictly ascending key order\<close>

type_synonym ('k, 'v) btree = "('k \<times> 'v) list"
type_synonym label_map = "(rstring, rstring) btree"

fun bt_insert :: "'k::linorder \<Rightarrow> 'v \<Rightarrow> ('k, 'v) btree \<Rightarrow> ('k, 'v) btree" where
  "bt_insert k v [] = [(k, v)]"
| "bt_insert k v ((a, b) # m) =
     (if k < a then (k, v) # (a, b) # m
      else if k = a then (k, v) # m
      else (a, b) # bt_insert k v m)"

definition bt_get :: "('k, 'v) btree \<Rightarrow> 'k \<Rightarrow> 'v option" where
  "bt_get m k = map_of m k"

definition bt_ok :: "('k::linorder, 'v) btree \<Rightarrow> bool" where
  "bt_ok m \<longleftrightarrow> sorted_wrt (<) (map fst m)"

fun bt_extend :: "('k::linorder, 'v) btree \<Rightarrow> ('k \<times> 'v) list \<Rightarrow> ('k, 'v) btree" where
  "bt_extend m [] = m"
| "bt_extend m ((k, v) # kvs) = bt_extend (bt_insert k v m) kvs"

lemma bt_get_Nil [simp]: "bt_get [] k = None"
  by (simp add: bt_get_def)

lemma bt_get_insert [simp]: "bt_get (bt_insert k v m) = (bt_get m)(k := Some v)"
  unfolding bt_get_def by (induction m) (auto simp: fun_eq_iff)

lemma bt_insert_keys: "fst ` set (bt_insert k v m) = insert k (fst ` set m)"
proof (induction m)
  case Nil
  then show ?case by simp
next
  case (Cons p m)
  obtain a b where "p = (a, b)" by force
  with Cons show ?case by (simp add: insert_commute)
qed

lemma bt_ok_Nil [simp]: "bt_ok []"
  by (simp add: bt_ok_def)

lemma bt_ok_insert [wf_intros]: "bt_ok m \<Longrightarrow> bt_ok (bt_insert k v m)"
proof (induction m)
  case Nil
  then show ?case by (simp add: bt_ok_def)
next
  case (Cons p m)
  obtain a b where p: "p = (a, b)" by force
  have "bt_ok (bt_insert k v m)" using Cons by (simp add: bt_ok_def)
  moreover have "\<forall>x \<in> fst ` set (bt_insert k v m). k > a \<longrightarrow> a < x"
    using Cons.prems by (auto simp: bt_insert_keys bt_ok_def p)
  ultimately show ?case
    using Cons.prems by (auto simp: p bt_ok_def)
qed

lemma bt_ok_extend [wf_intros]: "bt_ok m \<Longrightarrow> bt_ok (bt_extend m kvs)"
  by (induction m kvs rule: bt_extend.induct) (auto intro: bt_ok_insert)

lemma bt_insert_snoc:
  "\<forall>x \<in> fst ` set m. x < k \<Longrightarrow> bt_insert k v m = m @ [(k, v)]"
  by (induction m) auto

text \<open>Inserting pairs that already come in key order rebuilds the map they came from.\<close>

lemma bt_extend_sorted:
  "bt_ok (m @ kvs) \<Longrightarrow> bt_extend m kvs = m @ kvs"
proof (induction m kvs rule: bt_extend.induct)
  case (1 m)
  then show ?case by simp
next
  case (2 m k v kvs)
  have "bt_insert k v m = m @ [(k, v)]"
    using "2.prems" by (intro bt_insert_snoc) (auto simp: bt_ok_def sorted_wrt_append)
  moreover have "bt_ok ((m @ [(k, v)]) @ kvs)"
    using "2.prems" by simp
  ultimately show ?case using "2.IH" by simp
qed

lemma bt_get_extend_notin:
  "k \<notin> fst ` set kvs \<Longrightarrow> bt_get (bt_extend m kvs) k = bt_get m k"
  by (induction m kvs rule: bt_extend.induct) auto

lemma bt_get_extend_in:
  "bt_ok kvs \<Longrightarrow> (k, v) \<in> set kvs \<Longrightarrow> bt_get (bt_extend m kvs) k = Some v"
proof (induction m kvs rule: bt_extend.induct)
  case (1 m)
  then show ?case by simp
next
  case (2 m a b kvs)
  show ?case
  proof (cases "(k, v) \<in> set kvs")
    case True
    with 2 show ?thesis by (auto simp: bt_ok_def)
  next
    case False
    with "2.prems" have kv: "k = a" "v = b" by auto
    have "k \<notin> fst ` set kvs"
      using "2.prems"(1) kv by (auto simp: bt_ok_def)
    then show ?thesis by (simp add: kv bt_get_extend_notin)
  qed
qed

lemma bt_get_map_of_in: "bt_ok m \<Longrightarrow> (k, v) \<in> set m \<Longrightarrow> bt_get m k = Some v"
proof -
  assume "bt_ok m" "(k, v) \<in> set m"
  then have "bt_get (bt_extend [] m) k = Some v" by (rule bt_get_extend_in)
  moreover have "bt_extend [] m = m" using \<open>bt_ok m\<close> by (simp add: bt_extend_sorted)
  ultimately show ?thesis by simp
qed

subsection \<open>\<open>BTreeSet\<close>: keys in strictly ascending order\<close>

fun bs_insert :: "'k::linorder \<Rightarrow> 'k list \<Rightarrow> 'k list" where
  "bs_insert k [] = [k]"
| "bs_insert k (a # s) =
     (if k < a then k # a # s else if k = a then a # s else a # bs_insert k s)"

lemma set_bs_insert [simp]: "set (bs_insert k s) = insert k (set s)"
  by (induction s) auto

text \<open>The distinct values of a column in order: \<open>SELECT DISTINCT c ... ORDER BY c\<close>.\<close>

definition distinct_sorted :: "'k::linorder list \<Rightarrow> 'k list" where
  "distinct_sorted xs = foldr bs_insert xs []"

lemma set_distinct_sorted [simp]: "set (distinct_sorted xs) = set xs"
  unfolding distinct_sorted_def by (induction xs) auto

lemma sorted_bs_insert: "sorted_wrt (<) s \<Longrightarrow> sorted_wrt (<) (bs_insert k s)"
  by (induction s) auto

lemma sorted_distinct_sorted [simp]: "sorted_wrt (<) (distinct_sorted xs)"
  unfolding distinct_sorted_def by (induction xs) (auto intro: sorted_bs_insert)

lemma distinct_distinct_sorted [simp]: "distinct (distinct_sorted xs)"
  using sorted_distinct_sorted [of xs] strict_sorted_iff by blast

subsection \<open>\<open>ORDER BY\<close>: a stable sort on a key\<close>

fun insert_by :: "('a \<Rightarrow> 'k::linorder) \<Rightarrow> 'a \<Rightarrow> 'a list \<Rightarrow> 'a list" where
  "insert_by f x [] = [x]"
| "insert_by f x (y # ys) = (if f x \<le> f y then x # y # ys else y # insert_by f x ys)"

definition order_by :: "('a \<Rightarrow> 'k::linorder) \<Rightarrow> 'a list \<Rightarrow> 'a list" where
  "order_by f xs = foldr (insert_by f) xs []"

lemma order_by_simps [simp]:
  "order_by f [] = []" "order_by f (x # xs) = insert_by f x (order_by f xs)"
  by (simp_all add: order_by_def)

lemma set_insert_by [simp]: "set (insert_by f x ys) = insert x (set ys)"
  by (induction ys) auto

lemma set_order_by [simp]: "set (order_by f xs) = set xs"
  by (induction xs) auto

lemma length_insert_by [simp]: "length (insert_by f x ys) = Suc (length ys)"
  by (induction ys) auto

lemma length_order_by [simp]: "length (order_by f xs) = length xs"
  by (induction xs) auto

lemma sorted_insert_by: "sorted (map f ys) \<Longrightarrow> sorted (map f (insert_by f x ys))"
  by (induction ys) (auto split: if_splits)

lemma sorted_order_by [simp]: "sorted (map f (order_by f xs))"
  by (induction xs) (auto intro: sorted_insert_by)

lemma order_by_Nil_iff [simp]: "order_by f xs = [] \<longleftrightarrow> xs = []"
  using length_order_by [of f xs] by (metis length_0_conv)

lemma filter_insert_by:
  "sorted (map f ys) \<Longrightarrow>
   filter P (insert_by f x ys) = (if P x then insert_by f x (filter P ys) else filter P ys)"
proof (induction ys)
  case Nil
  then show ?case by simp
next
  case (Cons y ys)
  have below: "\<forall>z \<in> set ys. f y \<le> f z" using Cons.prems by simp
  have hd_le: "insert_by f x (filter P ys) = x # filter P ys" if "f x \<le> f y"
  proof (cases "filter P ys")
    case Nil
    then show ?thesis by simp
  next
    case (Cons a list)
    then have "a \<in> set ys" by (metis filter_is_subset list.set_intros(1) subsetD)
    with below that have "f x \<le> f a" by (blast intro: order_trans)
    with Cons show ?thesis by simp
  qed
  show ?case using Cons below hd_le by auto
qed

lemma filter_order_by: "filter P (order_by f xs) = order_by f (filter P xs)"
  by (induction xs) (auto simp: filter_insert_by)

lemma distinct_insert_by: "distinct (map f (insert_by f x ys)) \<longleftrightarrow> f x \<notin> f ` set ys \<and> distinct (map f ys)"
  by (induction ys) (auto simp: image_iff)

lemma distinct_order_by: "distinct (map f (order_by f xs)) \<longleftrightarrow> distinct (map f xs)"
  by (induction xs) (auto simp: distinct_insert_by)

lemma strict_sorted_order_by:
  "distinct (map f xs) \<Longrightarrow> sorted_wrt (<) (map f (order_by f xs))"
  by (simp add: strict_sorted_iff distinct_order_by)

lemma insert_by_snoc:
  "sorted (map f ys) \<Longrightarrow> \<forall>y \<in> set ys. f y < f x \<Longrightarrow> insert_by f x ys = ys @ [x]"
  by (induction ys) auto

lemma order_by_sorted: "sorted (map f xs) \<Longrightarrow> order_by f xs = xs"
proof (induction xs)
  case Nil
  then show ?case by simp
next
  case (Cons x xs)
  then show ?case by (cases xs) auto
qed

lemma order_by_unique:
  assumes "sorted_wrt (<) (map f xs)" "distinct (map f ys)" "set ys = set xs"
  shows "order_by f ys = xs"
proof -
  have inj: "inj_on f (set xs)"
    using assms(1) strict_sorted_iff [of "map f xs"] distinct_map by blast
  have "sorted_wrt (<) (map f (order_by f ys))" using assms(2) by (rule strict_sorted_order_by)
  moreover have "set (map f (order_by f ys)) = set (map f xs)" using assms(3) by simp
  ultimately have "map f (order_by f ys) = map f xs"
    using assms(1) strict_sorted_equal by blast
  moreover have "inj_on f (set (order_by f ys) \<union> set xs)" using inj assms(3) by simp
  ultimately show ?thesis by (rule map_inj_on)
qed

lemma mset_insert_by: "mset (insert_by f x ys) = add_mset x (mset ys)"
  by (induction ys) auto

lemma mset_order_by: "mset (order_by f xs) = mset xs"
  by (induction xs) (auto simp: mset_insert_by)

lemma sum_list_order_by: "sum_list (map f (order_by g xs)) = (sum_list (map f xs) :: nat)"
  by (metis mset_map mset_order_by sum_mset_sum_list)

lemma find_append: "find P (xs @ ys) = (case find P xs of None \<Rightarrow> find P ys | Some x \<Rightarrow> Some x)"
  by (induction xs) auto

lemma insert_by_append:
  "\<forall>y \<in> set ys. f x \<le> f y \<Longrightarrow> insert_by f x (zs @ ys) = insert_by f x zs @ ys"
proof (induction zs)
  case Nil
  then show ?case by (cases ys) auto
qed simp

lemma order_by_append:
  assumes "sorted (map f ys)" and "\<forall>x \<in> set xs. \<forall>y \<in> set ys. f x \<le> f y"
  shows "order_by f (xs @ ys) = order_by f xs @ ys"
  using assms by (induction xs) (simp_all add: order_by_sorted insert_by_append)

subsection \<open>Minimum and maximum of a column: \<open>NULL\<close> on no rows\<close>

definition col_max :: "int list \<Rightarrow> int option" where
  "col_max xs = (if xs = [] then None else Some (foldr max xs (hd xs)))"

definition col_min :: "int list \<Rightarrow> int option" where
  "col_min xs = (if xs = [] then None else Some (foldr min xs (hd xs)))"

lemma foldr_max_props: "foldr max xs (a::int) \<in> insert a (set xs) \<and> a \<le> foldr max xs a \<and> (\<forall>x \<in> set xs. x \<le> foldr max xs a)"
  by (induction xs) (auto simp: max_def)

lemma foldr_min_props: "foldr min xs (a::int) \<in> insert a (set xs) \<and> foldr min xs a \<le> a \<and> (\<forall>x \<in> set xs. foldr min xs a \<le> x)"
  by (induction xs) (auto simp: min_def)

lemma col_max_None [simp]: "col_max xs = None \<longleftrightarrow> xs = []"
  by (simp add: col_max_def)

lemma col_min_None [simp]: "col_min xs = None \<longleftrightarrow> xs = []"
  by (simp add: col_min_def)

lemma col_max_Some: "col_max xs = Some m \<longleftrightarrow> m \<in> set xs \<and> (\<forall>x \<in> set xs. x \<le> m)"
proof (cases "xs = []")
  case True
  then show ?thesis by (simp add: col_max_def col_min_def)
next
  case False
  then have "hd xs \<in> set xs" by simp
  moreover note foldr_max_props [of xs "hd xs"]
  ultimately show ?thesis using False by (auto simp: col_max_def intro: antisym)
qed

lemma col_min_Some: "col_min xs = Some m \<longleftrightarrow> m \<in> set xs \<and> (\<forall>x \<in> set xs. m \<le> x)"
proof (cases "xs = []")
  case True
  then show ?thesis by (simp add: col_max_def col_min_def)
next
  case False
  then have "hd xs \<in> set xs" by simp
  moreover note foldr_min_props [of xs "hd xs"]
  ultimately show ?thesis using False by (auto simp: col_min_def intro: antisym)
qed

lemma col_max_set_eq: "set xs = set ys \<Longrightarrow> col_max xs = col_max ys"
proof (cases "col_max xs")
  case None
  assume "set xs = set ys"
  with None show ?thesis by simp
next
  case (Some m)
  assume "set xs = set ys"
  with Some have "col_max ys = Some m" by (simp add: col_max_Some)
  with Some show ?thesis by simp
qed

lemma col_min_set_eq: "set xs = set ys \<Longrightarrow> col_min xs = col_min ys"
proof (cases "col_min xs")
  case None
  assume "set xs = set ys"
  with None show ?thesis by simp
next
  case (Some m)
  assume "set xs = set ys"
  with Some have "col_min ys = Some m" by (simp add: col_min_Some)
  with Some show ?thesis by simp
qed

lemma col_max_append_above:
  "\<forall>x \<in> set xs. x \<le> m \<Longrightarrow> col_max (xs @ [m]) = Some m"
  by (auto simp: col_max_Some)

end
