(* ===== verification/Seal_Policy.thy ===== *)
theory Seal_Policy
  imports Dendro_Prelude
begin

unbundle bit_operations_syntax

section \<open>When to seal (\<open>src/seal.rs\<close>)\<close>

text \<open>
  The seal policy, the account of the open segment it is asked about, and the
  stagger hash. Counts are \<open>nat\<close> (\<open>usize\<close> values that the code adds up and
  never lets wrap), a \<open>Duration\<close> and an \<open>Instant\<close> are nanoseconds, the hash is
  on 64-bit words with wrapping multiplication.
\<close>

definition stagger_buckets :: nat where "stagger_buckets = 64"

definition single_source_key :: rstring where "single_source_key = []"

record seal_policy =
  pol_max_bytes :: nat
  pol_max_rows :: nat
  pol_max_age :: nat
  pol_align :: "i64 option"

definition default_policy :: seal_policy where
  "default_policy =
     \<lparr>pol_max_bytes = 8 * 1024 * 1024, pol_max_rows = 900,
      pol_max_age = 300 * 10 ^ 9, pol_align = None\<rparr>"

record segment_account =
  acc_align :: "i64 option"
  acc_first_bucket :: "i64 option"
  acc_last_bucket :: "i64 option"
  acc_rows :: nat
  acc_approx_bytes :: nat
  acc_opened_at :: nat
  acc_max_bytes :: nat
  acc_max_rows :: nat
  acc_max_age :: nat

subsection \<open>The stagger hash\<close>

definition fnv_prime :: u64 where "fnv_prime = 0x00000100000001b3"
definition fnv_basis :: u64 where "fnv_basis = 0xcbf29ce484222325"

definition absorb :: "u64 \<Rightarrow> u64 \<Rightarrow> u64" where
  "absorb h b = (((h XOR b) * fnv_prime) XOR drop_bit 6 b) * fnv_prime"

definition absorb_bytes :: "u64 \<Rightarrow> bytes \<Rightarrow> u64" where
  "absorb_bytes h bs = foldl (\<lambda>h b. absorb h (ucast b)) h bs"

definition stagger_bucket :: "rstring \<Rightarrow> rstring \<Rightarrow> u64" where
  "stagger_bucket stream source_key =
     absorb_bytes (absorb (absorb_bytes fnv_basis stream) 0xff) source_key
       mod of_nat stagger_buckets"

text \<open>The loop of \<open>staggers_identically\<close>: count the bit-5 flips, stop at any other difference.\<close>

fun bit5_flips :: "bytes \<Rightarrow> bytes \<Rightarrow> nat option" where
  "bit5_flips (x # xs) (y # ys) =
     (if x XOR y = 0 then bit5_flips xs ys
      else if x XOR y = 0x20 then map_option Suc (bit5_flips xs ys)
      else None)"
| "bit5_flips _ _ = Some 0"

definition staggers_identically :: "rstring \<Rightarrow> rstring \<Rightarrow> bool" where
  "staggers_identically a b =
     (if length a \<noteq> length b then False
      else case bit5_flips a b of None \<Rightarrow> False | Some n \<Rightarrow> n mod 2 = 0)"

fun render_labels :: "rstring \<Rightarrow> (rstring \<times> rstring) list \<Rightarrow> rstring" where
  "render_labels out [] = out"
| "render_labels out ((k, v) # kvs) =
     render_labels ((if out = [] then out else out @ [1]) @ k @ str ''='' @ v) kvs"

definition source_stagger_key :: "label_map \<Rightarrow> rstring" where
  "source_stagger_key labels = render_labels [] labels"

subsection \<open>The account of the open segment\<close>

definition open_first :: "rstring \<Rightarrow> rstring \<Rightarrow> seal_policy \<Rightarrow> nat \<Rightarrow> segment_account" where
  "open_first stream source_key policy now =
    (let bucket = unat (stagger_bucket stream source_key);
         row_offset = pol_max_rows policy div (2 * stagger_buckets) * bucket;
         age_offset = pol_max_age policy div (2 * stagger_buckets) * bucket;
         byte_offset = pol_max_bytes policy div (2 * stagger_buckets) * bucket
     in \<lparr>acc_align = pol_align policy, acc_first_bucket = None, acc_last_bucket = None,
         acc_rows = 0, acc_approx_bytes = 0, acc_opened_at = now,
         acc_max_bytes = max (pol_max_bytes policy - byte_offset) 1,
         acc_max_rows = max (pol_max_rows policy - row_offset) 1,
         acc_max_age = pol_max_age policy - age_offset\<rparr>)"

text \<open>\<open>div_euclid\<close> by a positive divisor is the division that rounds down.\<close>

definition bucket_of :: "segment_account \<Rightarrow> i64 \<Rightarrow> i64 option" where
  "bucket_of acc ts =
     (case acc_align acc of
        None \<Rightarrow> None
      | Some a \<Rightarrow> if a > 0 then Some (ts div a) else None)"

definition add_row :: "segment_account \<Rightarrow> nat \<Rightarrow> i64 \<Rightarrow> segment_account" where
  "add_row acc n ts =
    (let acc1 = acc\<lparr>acc_rows := acc_rows acc + 1,
                    acc_approx_bytes := acc_approx_bytes acc + n\<rparr>
     in case bucket_of acc1 ts of
          None \<Rightarrow> acc1
        | Some b \<Rightarrow>
            acc1\<lparr>acc_first_bucket :=
                   (case acc_first_bucket acc1 of None \<Rightarrow> Some b | Some f \<Rightarrow> Some f),
                 acc_last_bucket := Some b\<rparr>)"

definition starts_new_bucket :: "segment_account \<Rightarrow> i64 \<Rightarrow> bool" where
  "starts_new_bucket acc ts =
     (case (bucket_of acc ts, acc_first_bucket acc) of
        (Some next, Some first) \<Rightarrow> next \<noteq> first
      | _ \<Rightarrow> False)"

definition is_due :: "segment_account \<Rightarrow> nat \<Rightarrow> bool" where
  "is_due acc now \<longleftrightarrow>
     acc_rows acc > 0 \<and>
     (acc_approx_bytes acc \<ge> acc_max_bytes acc
      \<or> acc_rows acc \<ge> acc_max_rows acc
      \<or> now - acc_opened_at acc \<ge> acc_max_age acc
      \<or> acc_first_bucket acc \<noteq> acc_last_bucket acc)"

definition rotate_account :: "segment_account \<Rightarrow> seal_policy \<Rightarrow> nat \<Rightarrow> segment_account" where
  "rotate_account acc policy now =
     acc\<lparr>acc_rows := 0, acc_approx_bytes := 0, acc_opened_at := now,
         acc_align := pol_align policy, acc_first_bucket := None, acc_last_bucket := None,
         acc_max_bytes := pol_max_bytes policy, acc_max_rows := pol_max_rows policy,
         acc_max_age := pol_max_age policy\<rparr>"

definition account_rows :: "segment_account \<Rightarrow> nat" where
  "account_rows acc = acc_rows acc"

definition account_targets :: "segment_account \<Rightarrow> nat \<times> nat" where
  "account_targets acc = (acc_max_rows acc, acc_max_age acc)"

definition byte_target :: "segment_account \<Rightarrow> nat" where
  "byte_target acc = acc_max_bytes acc"

subsection \<open>The stagger targets\<close>

lemma stagger_bucket_lt: "unat (stagger_bucket s k) < 64"
proof -
  have "unat (stagger_bucket s k) =
        unat (absorb_bytes (absorb (absorb_bytes fnv_basis s) 0xff) k) mod 64"
    by (simp add: stagger_bucket_def stagger_buckets_def unat_mod)
  then show ?thesis by simp
qed

lemma staggered_bounds:
  fixes m b :: nat
  assumes "b < 64"
  shows "m - m div 128 * b \<le> m" "m \<le> 2 * (m - m div 128 * b)"
proof -
  have "m div 128 * b \<le> m div 128 * 64" using assms by simp
  also have "2 * (m div 128 * 64) \<le> m" by simp
  finally have "2 * (m div 128 * b) \<le> m" by simp
  then show "m \<le> 2 * (m - m div 128 * b)" by simp
qed simp

lemma open_first_simps [simp]:
  "acc_rows (open_first s k p now) = 0"
  "acc_approx_bytes (open_first s k p now) = 0"
  "acc_opened_at (open_first s k p now) = now"
  "acc_align (open_first s k p now) = pol_align p"
  "acc_first_bucket (open_first s k p now) = None"
  "acc_last_bucket (open_first s k p now) = None"
  by (simp_all add: open_first_def Let_def)

text \<open>
  The first segment of a stream closes at between half of each cap and the
  whole of it, never at zero rows or bytes, and \<open>rotate\<close> restores the policy.
\<close>

theorem first_segment_targets:
  "let a = open_first stream key policy now; r = rotate_account a policy later in
     pol_max_rows policy \<le> 2 * acc_max_rows a \<and> acc_max_rows a \<le> max (pol_max_rows policy) 1
     \<and> pol_max_bytes policy \<le> 2 * acc_max_bytes a \<and> acc_max_bytes a \<le> max (pol_max_bytes policy) 1
     \<and> pol_max_age policy \<le> 2 * acc_max_age a \<and> acc_max_age a \<le> pol_max_age policy
     \<and> 1 \<le> acc_max_rows a \<and> 1 \<le> acc_max_bytes a
     \<and> account_targets r = (pol_max_rows policy, pol_max_age policy)
     \<and> byte_target r = pol_max_bytes policy \<and> \<not> is_due r t"
proof -
  let ?b = "unat (stagger_bucket stream key)"
  note b = staggered_bounds [OF stagger_bucket_lt [of stream key]]
  have "m \<le> 2 * max (m - m div 128 * ?b) 1" for m
    using b(2) [of m] by (simp add: max_def)
  moreover have "max (m - m div 128 * ?b) 1 \<le> max m 1" for m
    by (simp add: max_def)
  ultimately show ?thesis
    using b(2) [of "pol_max_age policy"]
    by (simp add: open_first_def Let_def stagger_buckets_def account_targets_def
        byte_target_def rotate_account_def is_due_def)
qed

subsection \<open>Which keys stagger identically\<close>

text \<open>
  \<open>differ6 e x y\<close>: the low six bits of \<open>x\<close> and \<open>y\<close> are equal, up to bit 5 when
  \<open>e\<close>. Both absorb steps keep the relation and a byte that differs in bit 5
  toggles \<open>e\<close>, which is the algebra behind \<open>staggers_identically\<close>.
\<close>

definition differ6 :: "bool \<Rightarrow> u64 \<Rightarrow> u64 \<Rightarrow> bool" where
  "differ6 e x y \<longleftrightarrow> take_bit 6 (x XOR y) = (if e then 32 else 0)"

lemma differ6_refl [simp]: "differ6 False x x"
  by (simp add: differ6_def)

lemma differ6_xor:
  "differ6 e x y \<Longrightarrow> differ6 d b c \<Longrightarrow> differ6 (e \<noteq> d) (x XOR b) (y XOR c)"
proof -
  assume e: "differ6 e x y" and d: "differ6 d b c"
  have "(x XOR b) XOR (y XOR c) = (x XOR y) XOR (b XOR c)"
    by (simp add: ac_simps)
  with e d show ?thesis by (auto simp: differ6_def)
qed

lemma xor_move: "a XOR b = c \<Longrightarrow> b XOR (c::u64) = a"
  by (metis xor.assoc xor.commute xor_self_eq xor.right_neutral)

lemma xor_eq_swap: "a XOR b = c \<longleftrightarrow> a = b XOR (c::u64)"
  using xor_move by (metis xor.commute)

lemma xor_eq_0_u8: "x XOR y = 0 \<longleftrightarrow> x = (y::u8)"
  by (metis xor.assoc xor_self_eq xor.left_neutral xor.right_neutral)

lemma xor_eq_swap_u8: "x XOR y = c \<Longrightarrow> y = x XOR (c::u8)"
  by (metis xor.assoc xor.commute xor_self_eq xor.right_neutral)

lemma differ6_iff: "differ6 e x y \<longleftrightarrow> take_bit 6 x = take_bit 6 y XOR (if e then 32 else 0)"
  by (simp add: differ6_def xor_eq_swap)

lemma take_bit6_mult: "take_bit 6 (x * y) = take_bit 6 (take_bit 6 x * take_bit 6 (y::u64))"
  by transfer (simp add: take_bit_mult take_bit_eq_mod mod_mult_eq mod_mod_cancel)

lemma take_bit6_mult_prime: "take_bit 6 (x * fnv_prime) = take_bit 6 (take_bit 6 x * 51)"
  by (subst take_bit6_mult) (simp add: fnv_prime_def)

lemma flip5_mult: "n < 64 \<Longrightarrow> take_bit 6 ((of_nat n XOR 32) * 51) = take_bit 6 (of_nat n * 51) XOR (32::u64)"
proof -
  assume "n < 64"
  then have "n \<in> set [0..<64]" by simp
  moreover have "\<forall>n \<in> set [0..<64]. take_bit 6 ((of_nat n XOR 32) * 51) = take_bit 6 (of_nat n * 51) XOR (32::u64)"
    by code_simp
  ultimately show ?thesis by blast
qed

lemma take_bit6_of_nat:
  obtains n where "take_bit 6 (y::u64) = of_nat n" "n < 64"
proof
  show "take_bit 6 y = of_nat (unat (take_bit 6 y))" by simp
  show "unat (take_bit 6 y) < 64"
    using take_bit_nat_less_exp [of 6 "unat y"] by (simp add: unsigned_take_bit_eq)
qed

lemma differ6_mult: "differ6 e x y \<Longrightarrow> differ6 e (x * fnv_prime) (y * fnv_prime)"
proof -
  assume d: "differ6 e x y"
  obtain n where n: "take_bit 6 y = of_nat n" "n < 64" by (rule take_bit6_of_nat)
  show ?thesis
    using d n flip5_mult [OF n(2)] by (cases e) (simp_all add: differ6_iff take_bit6_mult_prime)
qed

lemma absorb_keeps:
  assumes "differ6 e h k" and "differ6 d b c" and "drop_bit 6 b = drop_bit 6 c"
  shows "differ6 (e \<noteq> d) (absorb h b) (absorb k c)"
proof -
  have "differ6 (e \<noteq> d) ((h XOR b) * fnv_prime) ((k XOR c) * fnv_prime)"
    using assms by (intro differ6_mult differ6_xor)
  then have "differ6 ((e \<noteq> d) \<noteq> False)
      (((h XOR b) * fnv_prime) XOR drop_bit 6 b) (((k XOR c) * fnv_prime) XOR drop_bit 6 c)"
    by (rule differ6_xor) (simp add: assms(3))
  then show ?thesis by (simp add: absorb_def differ6_mult)
qed

text \<open>A byte and the byte with its bit 5 flipped differ in bit 5 only.\<close>

lemma byte_flip5:
  assumes "x XOR y = (0x20::u8)"
  shows "differ6 True (ucast x) (ucast y)" "drop_bit 6 (ucast x :: u64) = drop_bit 6 (ucast y)"
proof -
  have y: "y = x XOR 0x20" using assms xor_eq_swap_u8 by blast
  have "ucast y = (ucast x :: u64) XOR 32"
    by (simp add: y unsigned_xor_eq)
  moreover have "drop_bit 6 (32::u64) = 0" by (simp add: drop_bit_eq_div)
  ultimately show "differ6 True (ucast x) (ucast y)" "drop_bit 6 (ucast x :: u64) = drop_bit 6 (ucast y)"
    by (simp_all only: differ6_iff drop_bit_xor) (simp_all add: ac_simps)
qed

lemma absorb_bytes_flips:
  "bit5_flips a b = Some n \<Longrightarrow> length a = length b \<Longrightarrow> differ6 e h k \<Longrightarrow>
   differ6 (e \<noteq> odd n) (absorb_bytes h a) (absorb_bytes k b)"
proof (induction a b arbitrary: h k e n rule: bit5_flips.induct)
  case (1 x xs y ys)
  consider (same) "x = y" "bit5_flips xs ys = Some n"
    | (flip) m where "x XOR y = 0x20" "bit5_flips xs ys = Some m" "n = Suc m"
    using "1.prems"(1) by (auto split: if_splits simp: xor_eq_0_u8)
  then show ?case
  proof cases
    case same
    have "differ6 (e \<noteq> False) (absorb h (ucast x)) (absorb k (ucast y))"
      using "1.prems"(3) same(1) by (intro absorb_keeps) auto
    with same "1.IH"(1) "1.prems"(2) show ?thesis
      by (auto simp: absorb_bytes_def)
  next
    case flip
    have d: "differ6 (e \<noteq> True) (absorb h (ucast x)) (absorb k (ucast y))"
      using "1.prems"(3) byte_flip5 [OF flip(1)] by (intro absorb_keeps) auto
    have "differ6 ((e \<noteq> True) \<noteq> odd m) (absorb_bytes (absorb h (ucast x)) xs)
        (absorb_bytes (absorb k (ucast y)) ys)"
      by (rule "1.IH"(2)) (use flip "1.prems"(2) d in simp_all)
    with flip show ?thesis by (simp add: absorb_bytes_def)
  qed
qed (auto simp: absorb_bytes_def)

lemma stagger_bucket_low6:
  "stagger_bucket s k = take_bit 6 (absorb_bytes (absorb (absorb_bytes fnv_basis s) 0xff) k)"
  by (simp add: stagger_bucket_def stagger_buckets_def take_bit_eq_mod)

text \<open>
  Two keys that \<open>staggers_identically\<close> accepts draw the same bucket for
  every stream name, so the warning it drives is never a false alarm.
\<close>

theorem staggers_identically_sound:
  assumes "staggers_identically a b"
  shows "stagger_bucket stream a = stagger_bucket stream b"
proof -
  obtain n where n: "length a = length b" "bit5_flips a b = Some n" "even n"
    using assms by (auto simp: staggers_identically_def split: if_splits option.splits)
  let ?h = "absorb (absorb_bytes fnv_basis stream) 0xff"
  have "differ6 (False \<noteq> odd n) (absorb_bytes ?h a) (absorb_bytes ?h b)"
    by (rule absorb_bytes_flips) (use n in simp_all)
  then show ?thesis using n(3) by (simp add: differ6_iff stagger_bucket_low6)
qed

theorem staggers_identically_sound_witness:
  "stagger_bucket (str ''cpu'') (str ''arm=valkey'') = stagger_bucket (str ''cpu'') (str ''arm=VALKEY'')"
  by (rule staggers_identically_sound) (simp add: staggers_identically_def str_def)

text \<open>
  The comment on \<open>staggers_identically\<close> states the converse too: two keys share
  every bucket exactly when they differ in an even number of bit-5 flips. Two
  label sets that differ in letters, not in case, refute it: the state of the
  hash that the bucket is read from has 64 values, so other keys coincide.
\<close>

definition adb_key :: rstring where "adb_key = str ''host=adb''"
definition bda_key :: rstring where "bda_key = str ''host=bda''"

lemma bit5_flips_self: "bit5_flips a a = Some 0"
  by (induction a) auto

lemma low6_reduce: "take_bit 6 (absorb_bytes h a) = take_bit 6 (absorb_bytes (take_bit 6 h) a)"
proof -
  have "differ6 (False \<noteq> odd (0::nat)) (absorb_bytes h a) (absorb_bytes (take_bit 6 h) a)"
    by (rule absorb_bytes_flips) (simp_all add: bit5_flips_self differ6_iff)
  then show ?thesis by (simp add: differ6_iff)
qed

lemma absorb_bytes_append: "absorb_bytes h (a @ b) = absorb_bytes (absorb_bytes h a) b"
  by (simp add: absorb_bytes_def)

lemma adb_bda_low6:
  "\<forall>n \<in> set [0..<64]. take_bit 6 (absorb_bytes (of_nat n) (str ''adb'')) = take_bit 6 (absorb_bytes (of_nat n) (str ''bda''))"
  by code_simp

lemma adb_bda_keys:
  "adb_key = str ''host='' @ str ''adb''" "bda_key = str ''host='' @ str ''bda''"
  by (simp_all add: adb_key_def bda_key_def str_def)

text \<open>
  The keys \<open>host=adb\<close> and \<open>host=bda\<close> draw the same bucket for every stream,
  and \<open>staggers_identically\<close> does not say so.
\<close>

theorem staggers_identically_not_exact:
  "\<not> staggers_identically adb_key bda_key
   \<and> (\<forall>stream. stagger_bucket stream adb_key = stagger_bucket stream bda_key)"
proof (intro conjI allI)
  show "\<not> staggers_identically adb_key bda_key" by code_simp
  fix stream
  let ?h = "absorb_bytes (absorb (absorb_bytes fnv_basis stream) 0xff) (str ''host='')"
  obtain n where n: "take_bit 6 ?h = of_nat n" "n < 64" by (rule take_bit6_of_nat)
  then have "take_bit 6 (absorb_bytes (take_bit 6 ?h) (str ''adb''))
      = take_bit 6 (absorb_bytes (take_bit 6 ?h) (str ''bda''))"
    using adb_bda_low6 by simp
  then show "stagger_bucket stream adb_key = stagger_bucket stream bda_key"
    by (simp only: stagger_bucket_low6 low6_reduce [of ?h] adb_bda_keys absorb_bytes_append)
qed

subsection \<open>Aligned segments\<close>

text \<open>
  A caller that asks \<open>starts_new_bucket\<close> before each row and seals first when it
  answers yes, and one that only asks \<open>is_due\<close> afterwards.
\<close>

fun feed :: "segment_account \<Rightarrow> (nat \<times> i64) list \<Rightarrow> segment_account" where
  "feed acc [] = acc"
| "feed acc ((n, ts) # rows) = feed (add_row acc n ts) rows"

fun never_starts_bucket :: "segment_account \<Rightarrow> (nat \<times> i64) list \<Rightarrow> bool" where
  "never_starts_bucket acc [] = True"
| "never_starts_bucket acc ((n, ts) # rows) =
     (\<not> starts_new_bucket acc ts \<and> never_starts_bucket (add_row acc n ts) rows)"

lemma add_row_frame [simp]:
  "acc_align (add_row acc n ts) = acc_align acc" "acc_rows (add_row acc n ts) = Suc (acc_rows acc)"
  "acc_approx_bytes (add_row acc n ts) = acc_approx_bytes acc + n"
  "acc_max_rows (add_row acc n ts) = acc_max_rows acc" "acc_max_bytes (add_row acc n ts) = acc_max_bytes acc"
  "acc_max_age (add_row acc n ts) = acc_max_age acc" "acc_opened_at (add_row acc n ts) = acc_opened_at acc"
  by (simp_all add: add_row_def Let_def split: option.splits)

lemma feed_counts:
  "acc_rows (feed acc rows) = acc_rows acc + length rows"
  "acc_approx_bytes (feed acc rows) = acc_approx_bytes acc + sum_list (map fst rows)"
  "acc_max_rows (feed acc rows) = acc_max_rows acc" "acc_max_bytes (feed acc rows) = acc_max_bytes acc"
  by (induction acc rows rule: feed.induct) simp_all

lemma feed_one_bucket:
  assumes "never_starts_bucket acc rows" and "acc_align acc = Some a" "a > 0"
    and "acc_first_bucket acc = acc_last_bucket acc"
  shows "acc_first_bucket (feed acc rows) = acc_last_bucket (feed acc rows)
     \<and> (\<forall>r \<in> set rows. acc_first_bucket (feed acc rows) = Some (snd r div a))
     \<and> (acc_first_bucket acc \<noteq> None \<longrightarrow> acc_first_bucket (feed acc rows) = acc_first_bucket acc)"
  using assms
proof (induction acc rows rule: feed.induct)
  case (1 acc)
  then show ?case by simp
next
  case (2 acc n ts rows)
  let ?acc = "add_row acc n ts"
  have b: "bucket_of (acc\<lparr>acc_rows := acc_rows acc + 1, acc_approx_bytes := acc_approx_bytes acc + n\<rparr>) ts
      = Some (ts div a)" "bucket_of acc ts = Some (ts div a)"
    using "2.prems"(2,3) by (simp_all add: bucket_of_def)
  have first: "acc_first_bucket ?acc = Some (ts div a)" "acc_last_bucket ?acc = Some (ts div a)"
    using "2.prems" b by (auto simp: add_row_def starts_new_bucket_def Let_def split: option.splits)
  then have "acc_first_bucket (feed ?acc rows) = acc_last_bucket (feed ?acc rows)
     \<and> (\<forall>r \<in> set rows. acc_first_bucket (feed ?acc rows) = Some (snd r div a))
     \<and> (acc_first_bucket ?acc \<noteq> None \<longrightarrow> acc_first_bucket (feed ?acc rows) = acc_first_bucket ?acc)"
    using "2.prems" by (intro "2.IH") auto
  moreover have "acc_first_bucket acc \<noteq> None \<longrightarrow> acc_first_bucket acc = Some (ts div a)"
    using "2.prems"(1) b by (auto simp: starts_new_bucket_def split: option.splits)
  ultimately show ?case using first by auto
qed

text \<open>
  C34: under an alignment \<open>a > 0\<close>, a segment whose rows were each added only when
  \<open>starts_new_bucket\<close> said no has all its rows in one bucket of width \<open>a\<close>, for
  negative timestamps too; and a segment that holds rows and has not been cut
  is not due for alignment.
\<close>

theorem aligned_segment_spans_one_bucket:
  assumes "pol_align policy = Some a" "a > 0"
    and "never_starts_bucket (open_first stream key policy now) rows"
    and "r \<in> set rows" "r' \<in> set rows"
  shows "snd r div a = snd r' div a
     \<and> acc_first_bucket (feed (open_first stream key policy now) rows)
       = acc_last_bucket (feed (open_first stream key policy now) rows)"
proof -
  let ?fed = "feed (open_first stream key policy now) rows"
  from feed_one_bucket [OF assms(3), of a] assms(1,2)
  have same: "acc_first_bucket ?fed = acc_last_bucket ?fed"
    and all: "\<forall>r \<in> set rows. acc_first_bucket ?fed = Some (snd r div a)" by auto
  from bspec [OF all assms(4)] bspec [OF all assms(5)] same show ?thesis by simp
qed

theorem aligned_segment_spans_one_bucket_witness:
  "snd (1::nat, -3::int) div 10 = snd (1::nat, -9::int) div 10
   \<and> acc_first_bucket (feed (open_first [] [] (default_policy\<lparr>pol_align := Some 10\<rparr>) 0) [(1, -3), (1, -9)])
     = acc_last_bucket (feed (open_first [] [] (default_policy\<lparr>pol_align := Some 10\<rparr>) 0) [(1, -3), (1, -9)])"
  by (rule aligned_segment_spans_one_bucket)
     (simp_all add: starts_new_bucket_def bucket_of_def add_row_def Let_def)

end
