(* ===== verification/Dendro_Error.thy ===== *)
theory Dendro_Error
  imports Dendro_Prelude
begin

section \<open>Errors (\<open>src/error.rs\<close>)\<close>

text \<open>
  The crate's error type and the classification the writer retries by. Prose is
  not modelled: a \<open>Message\<close> keeps the fixed words of its format string and
  drops the interpolated values, and an encoder's boxed error is its text.
  \<open>sqlite_code\<close> is the part of \<open>rusqlite::ErrorCode\<close> the code names, with one
  constructor for every other code; \<open>rusqlite_error\<close> separates the failures
  that carry a code from rusqlite's own conversion errors.
\<close>

datatype sqlite_code =
    DatabaseBusy | DatabaseLocked | DiskFull | SystemIoFailure | OutOfMemory
  | OperationInterrupted | SchemaChanged | ConstraintViolation
  | ReadOnlyDatabase | CannotOpen | NotADatabase | DatabaseCorrupt | OtherCode nat

datatype rusqlite_error = SqliteFailure sqlite_code | RusqliteOther string

datatype read_only = Media

datatype error =
    AlreadyExists rstring
  | ReadOnly read_only
  | UnsupportedSchema i64 i64 i64          \<comment> \<open>found, writes, reads\<close>
  | EncoderMismatch i64 rstring rstring    \<comment> \<open>source id, wrote, reading\<close>
  | TimelineBackwards i64 i64 i64          \<comment> \<open>source id, ts, floor\<close>
  | InUse rstring
  | NotAnArchive rstring string
  | Encoder rstring string                 \<comment> \<open>stream, the encoder's own error\<close>
  | EncoderContract rstring string
  | SchemaTooOld i64 i64                   \<comment> \<open>found, needs\<close>
  | DocumentConflict rstring rstring "rstring option" "rstring option"
  | Writer error
  | WriterGone
  | Sqlite string rusqlite_error           \<comment> \<open>context, source\<close>
  | Message string

type_synonym 'a result = "error + 'a"

fun root :: "error \<Rightarrow> error" where
  "root (Writer inner) = root inner"
| "root other = other"

definition sqlite_code :: "error \<Rightarrow> sqlite_code option" where
  "sqlite_code e = (case root e of Sqlite _ (SqliteFailure c) \<Rightarrow> Some c | _ \<Rightarrow> None)"

definition retryable_code :: "sqlite_code \<Rightarrow> bool" where
  "retryable_code c \<longleftrightarrow>
     c \<in> {DatabaseBusy, DatabaseLocked, DiskFull, SystemIoFailure, OutOfMemory,
          OperationInterrupted, SchemaChanged}"

definition is_retryable :: "error \<Rightarrow> bool" where
  "is_retryable e \<longleftrightarrow> (case sqlite_code e of Some c \<Rightarrow> retryable_code c | None \<Rightarrow> False)"

definition is_constraint :: "error \<Rightarrow> bool" where
  "is_constraint e \<longleftrightarrow> sqlite_code e = Some ConstraintViolation"

subsection \<open>Classification\<close>

text \<open>Wrapping on the way out of the writer thread changes no classification.\<close>

lemma sqlite_code_Writer [simp]: "sqlite_code (Writer e) = sqlite_code e"
  by (simp add: sqlite_code_def)

lemma is_retryable_Writer [simp]: "is_retryable (Writer e) = is_retryable e"
  by (simp add: is_retryable_def)

lemma is_constraint_Writer [simp]: "is_constraint (Writer e) = is_constraint e"
  by (simp add: is_constraint_def)

lemma root_not_Writer: "root e \<noteq> Writer e'"
  by (induction e rule: root.induct) auto

lemma root_root [simp]: "root (root e) = root e"
  by (induction e rule: root.induct) auto

lemma sqlite_code_Sqlite [simp]:
  "sqlite_code (Sqlite ctx (SqliteFailure c)) = Some c"
  "sqlite_code (Sqlite ctx (RusqliteOther m)) = None"
  by (simp_all add: sqlite_code_def)

lemma is_retryable_Sqlite [simp]:
  "is_retryable (Sqlite ctx (SqliteFailure c)) = retryable_code c"
  by (simp add: is_retryable_def)

lemma is_constraint_Sqlite [simp]:
  "is_constraint (Sqlite ctx (SqliteFailure c)) = (c = ConstraintViolation)"
  by (simp add: is_constraint_def)

lemma constraint_not_retryable: "is_constraint e \<Longrightarrow> \<not> is_retryable e"
  by (simp add: is_constraint_def is_retryable_def retryable_code_def)

lemma not_sqlite_not_retryable [simp]:
  "\<not> is_retryable (Message m)" "\<not> is_retryable (Encoder s m)"
  "\<not> is_retryable (EncoderContract s m)" "\<not> is_retryable (EncoderMismatch i a b)"
  "\<not> is_retryable (TimelineBackwards i t f)" "\<not> is_retryable (DocumentConflict k n x y)"
  "\<not> is_retryable (SchemaTooOld f w)" "\<not> is_retryable WriterGone"
  by (simp_all add: is_retryable_def sqlite_code_def)

lemma not_sqlite_not_constraint [simp]:
  "\<not> is_constraint (Message m)" "\<not> is_constraint (Encoder s m)"
  "\<not> is_constraint (EncoderContract s m)" "\<not> is_constraint (DocumentConflict k n x y)"
  "\<not> is_constraint (SchemaTooOld f w)" "\<not> is_constraint WriterGone"
  by (simp_all add: is_constraint_def sqlite_code_def)

end
