(* ===== verification/Segment_Contract.thy ===== *)
theory Segment_Contract
  imports Dendro_Error
begin

section \<open>The encoder boundary (\<open>src/segment.rs\<close>, \<open>src/archive/mod.rs\<close>)\<close>

text \<open>
  A segment, the context an encoder is given, and the contract every encode goes
  through. The encoder is the caller's: a record of functions that every
  definition below takes as an argument. \<open>Encode_Panic\<close> is an encoder that
  unwinds, which \<open>materialize_after\<close> catches.
\<close>

subsection \<open>Data\<close>

record segment_meta =
  meta_rows :: nat
  meta_first_ts :: i64
  meta_last_ts :: i64

record wal_row =
  row_stream :: rstring
  row_ts :: i64
  row_wall_offset :: i64
  row_payload :: bytes

record segment =
  seg_bytes :: bytes
  seg_rows :: nat
  seg_first_ts :: i64
  seg_last_ts :: i64
  seg_index :: "bytes option"

record encode_context =
  ctx_source_id :: i64
  ctx_source_uuid :: "rstring option"
  ctx_stream :: rstring

definition new_context :: "i64 \<Rightarrow> rstring \<Rightarrow> encode_context" where
  "new_context source_id stream =
     \<lparr>ctx_source_id = source_id, ctx_source_uuid = None, ctx_stream = stream\<rparr>"

definition with_source_uuid :: "encode_context \<Rightarrow> rstring option \<Rightarrow> encode_context" where
  "with_source_uuid ctx uuid = ctx\<lparr>ctx_source_uuid := uuid\<rparr>"

datatype encode_outcome =
    Encoded_Segment segment
  | Encoded_Nothing
  | Encode_Error string
  | Encode_Panic string

record encoder =
  enc_encode :: "encode_context \<Rightarrow> wal_row list \<Rightarrow> encode_outcome"
  enc_encode_after :: "encode_context \<Rightarrow> wal_row list \<Rightarrow> wal_row list \<Rightarrow> encode_outcome"
  enc_version :: "rstring option"

text \<open>The trait's provided methods: an encoder that writes neither has these.\<close>

definition default_encode_after ::
  "(encode_context \<Rightarrow> wal_row list \<Rightarrow> encode_outcome) \<Rightarrow>
   encode_context \<Rightarrow> wal_row list \<Rightarrow> wal_row list \<Rightarrow> encode_outcome" where
  "default_encode_after encode ctx before rows = encode ctx rows"

definition plain_encoder :: "(encode_context \<Rightarrow> wal_row list \<Rightarrow> encode_outcome) \<Rightarrow> encoder" where
  "plain_encoder encode =
     \<lparr>enc_encode = encode, enc_encode_after = default_encode_after encode, enc_version = None\<rparr>"

subsection \<open>The contract\<close>

definition covered_rows :: "segment \<Rightarrow> wal_row list \<Rightarrow> wal_row list" where
  "covered_rows s rows = filter (\<lambda>r. row_ts r \<ge> seg_first_ts s \<and> row_ts r \<le> seg_last_ts s) rows"

definition materialize_after ::
  "encoder \<Rightarrow> encode_context \<Rightarrow> wal_row list \<Rightarrow> wal_row list \<Rightarrow> segment option result" where
  "materialize_after encoder ctx before rows =
    (case rows of
       [] \<Rightarrow> Inr None
     | first # _ \<Rightarrow>
        (case (if before = [] then enc_encode encoder ctx rows
               else enc_encode_after encoder ctx before rows) of
           Encoded_Nothing \<Rightarrow> Inr None
         | Encode_Error e \<Rightarrow> Inl (Encoder (ctx_stream ctx) e)
         | Encode_Panic what \<Rightarrow> Inl (Encoder (ctx_stream ctx) (''the encoder panicked: '' @ what))
         | Encoded_Segment s \<Rightarrow>
             if seg_rows s = 0
                \<or> seg_first_ts s > seg_last_ts s
                \<or> seg_first_ts s < row_ts first
                \<or> seg_last_ts s > row_ts (last rows)
                \<or> seg_rows s \<noteq> length (covered_rows s rows)
             then Inl (EncoderContract (ctx_stream ctx) ''it claims rows over a span that holds another number'')
             else Inr (Some s)))"

definition materialize :: "encoder \<Rightarrow> encode_context \<Rightarrow> wal_row list \<Rightarrow> segment option result" where
  "materialize encoder ctx rows = materialize_after encoder ctx [] rows"

definition encoder_key :: rstring where "encoder_key = str ''encoder''"

definition check_encoder :: "i64 \<Rightarrow> label_map \<Rightarrow> encoder \<Rightarrow> unit result" where
  "check_encoder source_id metadata encoder =
    (case (bt_get metadata encoder_key, enc_version encoder) of
       (Some wrote, Some reading) \<Rightarrow>
         if wrote \<noteq> reading then Inl (EncoderMismatch source_id wrote reading) else Inr ()
     | _ \<Rightarrow> Inr ())"

subsection \<open>What the contract gives\<close>

text \<open>The facts every encode site relies on, as one predicate.\<close>

definition contract :: "wal_row list \<Rightarrow> segment \<Rightarrow> bool" where
  "contract rows s \<longleftrightarrow>
     rows \<noteq> [] \<and> 0 < seg_rows s \<and> seg_first_ts s \<le> seg_last_ts s
     \<and> row_ts (hd rows) \<le> seg_first_ts s \<and> seg_last_ts s \<le> row_ts (last rows)
     \<and> seg_rows s = length (covered_rows s rows)"

lemma materialize_after_Some:
  "materialize_after enc ctx before rows = Inr (Some s) \<Longrightarrow> contract rows s"
  by (auto simp: materialize_after_def contract_def
      split: list.splits encode_outcome.splits if_splits)

lemma materialize_Some: "materialize enc ctx rows = Inr (Some s) \<Longrightarrow> contract rows s"
  by (simp add: materialize_def materialize_after_Some)

lemma materialize_after_error:
  "materialize_after enc ctx before rows = Inl e \<Longrightarrow>
   (\<exists>m. e = Encoder (ctx_stream ctx) m) \<or> (\<exists>m. e = EncoderContract (ctx_stream ctx) m)"
  by (auto simp: materialize_after_def split: list.splits encode_outcome.splits if_splits)

lemma materialize_after_not_retryable:
  "materialize_after enc ctx before rows = Inl e \<Longrightarrow> \<not> is_retryable e \<and> \<not> is_constraint e"
  by (drule materialize_after_error) auto

lemma materialize_Nil [simp]: "materialize enc ctx [] = Inr None"
  by (simp add: materialize_def materialize_after_def)

text \<open>Rows the segment covers, and the three runs a sorted input falls into.\<close>

lemma covered_rows_subset: "set (covered_rows s rows) \<subseteq> set rows"
  by (auto simp: covered_rows_def)

lemma contract_covered_nonempty: "contract rows s \<Longrightarrow> covered_rows s rows \<noteq> []"
  by (auto simp: contract_def)

lemma sorted_runs:
  assumes "sorted_wrt (<) (map row_ts rows)" and "lo \<le> hi"
  shows "rows = filter (\<lambda>r. row_ts r < lo) rows
           @ filter (\<lambda>r. lo \<le> row_ts r \<and> row_ts r \<le> hi) rows
           @ filter (\<lambda>r. hi < row_ts r) rows"
  using assms
proof (induction rows)
  case Nil
  then show ?case by simp
next
  case (Cons r rows)
  consider "row_ts r < lo" | "lo \<le> row_ts r" "row_ts r \<le> hi" | "hi < row_ts r" by linarith
  then show ?case
  proof cases
    case 1
    with Cons show ?thesis by auto
  next
    case 2
    then have "filter (\<lambda>r. row_ts r < lo) rows = []"
      using Cons.prems by (auto simp: filter_empty_conv)
    with 2 Cons show ?thesis by auto
  next
    case 3
    then have "filter (\<lambda>r. row_ts r < lo) rows = []"
      "filter (\<lambda>r. lo \<le> row_ts r \<and> row_ts r \<le> hi) rows = []"
      using Cons.prems by (auto simp: filter_empty_conv)
    with 3 Cons show ?thesis by auto
  qed
qed

text \<open>
  Whatever the encoder does, a materialized segment accounts for a contiguous
  run of its input: the rows it was given are a leading run it dropped, exactly
  the \<open>seg_rows\<close> rows of its span, and a trailing run it dropped.
\<close>

theorem materialize_contiguous:
  assumes "materialize_after enc ctx before rows = Inr (Some s)"
    and "sorted_wrt (<) (map row_ts rows)"
  shows "\<exists>lead trail. rows = lead @ covered_rows s rows @ trail
     \<and> length (covered_rows s rows) = seg_rows s \<and> covered_rows s rows \<noteq> []
     \<and> (\<forall>r \<in> set lead. row_ts r < seg_first_ts s) \<and> (\<forall>r \<in> set trail. seg_last_ts s < row_ts r)"
proof -
  have c: "contract rows s" using assms(1) by (rule materialize_after_Some)
  then have "seg_first_ts s \<le> seg_last_ts s" by (simp add: contract_def)
  from sorted_runs [OF assms(2) this] show ?thesis
    using c contract_covered_nonempty [OF c]
    by (intro exI [of _ "filter (\<lambda>r. row_ts r < seg_first_ts s) rows"]
        exI [of _ "filter (\<lambda>r. seg_last_ts s < row_ts r) rows"])
       (auto simp: covered_rows_def contract_def)
qed

text \<open>An encoder that covers every row it is given, for the witnesses.\<close>

definition all_rows_encoder :: encoder where
  "all_rows_encoder = plain_encoder (\<lambda>ctx rows.
     if rows = [] then Encoded_Nothing
     else Encoded_Segment \<lparr>seg_bytes = concat (map row_payload rows), seg_rows = length rows,
            seg_first_ts = row_ts (hd rows), seg_last_ts = row_ts (last rows), seg_index = None\<rparr>)"

definition sample_row :: "i64 \<Rightarrow> wal_row" where
  "sample_row ts = \<lparr>row_stream = str ''cpu'', row_ts = ts, row_wall_offset = 0, row_payload = [7]\<rparr>"

definition sample_context :: encode_context where
  "sample_context = new_context 1 (str ''cpu'')"

definition two_row_segment :: segment where
  "two_row_segment = \<lparr>seg_bytes = [7, 7], seg_rows = 2, seg_first_ts = 10, seg_last_ts = 20, seg_index = None\<rparr>"

theorem materialize_contiguous_witness:
  "\<exists>lead trail. map sample_row [10, 20]
       = lead @ covered_rows two_row_segment (map sample_row [10, 20]) @ trail
     \<and> length (covered_rows two_row_segment (map sample_row [10, 20])) = seg_rows two_row_segment
     \<and> covered_rows two_row_segment (map sample_row [10, 20]) \<noteq> []
     \<and> (\<forall>r \<in> set lead. row_ts r < seg_first_ts two_row_segment)
     \<and> (\<forall>r \<in> set trail. seg_last_ts two_row_segment < row_ts r)"
  by (rule materialize_contiguous [where enc = all_rows_encoder and ctx = sample_context and before = "[]"])
     (simp_all add: materialize_after_def all_rows_encoder_def plain_encoder_def sample_row_def
       covered_rows_def two_row_segment_def)

text \<open>An encoder that reports a span end between two of its rows.\<close>

definition gap_end_encoder :: encoder where
  "gap_end_encoder = plain_encoder (\<lambda>ctx rows.
     Encoded_Segment \<lparr>seg_bytes = [], seg_rows = 2, seg_first_ts = 10, seg_last_ts = 25, seg_index = None\<rparr>)"

text \<open>
  The contract does not make \<open>seg_last_ts\<close> the timestamp of an input row: an
  encoder that covers two of the rows 10, 20 and 30 and reports the span
  [10, 25] passes every check.
\<close>

theorem contract_allows_last_ts_off_rows:
  "\<exists>s. materialize gap_end_encoder sample_context (map sample_row [10, 20, 30]) = Inr (Some s)
     \<and> seg_last_ts s \<notin> row_ts ` set (map sample_row [10, 20, 30])"
  by (simp add: materialize_def materialize_after_def gap_end_encoder_def plain_encoder_def
      sample_row_def covered_rows_def)

lemma check_encoder_iff:
  "check_encoder i md enc = Inr () \<longleftrightarrow>
     (\<forall>wrote reading. bt_get md encoder_key = Some wrote \<longrightarrow> enc_version enc = Some reading \<longrightarrow> wrote = reading)"
  by (auto simp: check_encoder_def split: option.splits)

end
