(* ===== verification/Archive_Store.thy ===== *)
theory Archive_Store
  imports Segment_Contract
begin

section \<open>The archive: tables and queries (\<open>src/archive/sqlite.rs\<close>)\<close>

text \<open>
  One SQLite database as a record of tables. A table is the list of its rows in
  rowid order, which is insertion order; each query is the relational meaning of
  its SQL text: \<open>filter\<close> for \<open>WHERE\<close>, \<open>order_by\<close> for \<open>ORDER BY\<close>, \<open>col_max\<close> and
  \<open>col_min\<close> for the aggregates. The JSON text of a source's labels and metadata
  is held decoded, as the map it is the text of. A read never fails here: the
  faults of the environment are those of write transactions (theory
  \<open>Archive_Ops\<close>).
\<close>

subsection \<open>Rows\<close>

record source_meta =
  sm_labels :: label_map
  sm_metadata :: label_map
  sm_clock_anchor :: i64

record source_row =
  src_id :: i64
  src_meta :: source_meta
  src_uuid :: "rstring option"
  src_complete :: bool
  src_heartbeat :: "i64 option"
  src_interval :: "i64 option"

text \<open>A row of \<open>segments\<close>; \<open>sg_column_index\<close> is schema 4's \<open>caller_index\<close> column.\<close>

record segment_table_row =
  sg_source :: i64
  sg_stream :: rstring
  sg_seq :: nat
  sg_meta :: segment_meta
  sg_bytes :: bytes
  sg_column_index :: "bytes option"

record index_table_row =
  ix_source :: i64
  ix_stream :: rstring
  ix_seq :: nat
  ix_bytes :: bytes

record caller_row =
  cr_ts :: i64
  cr_blob :: bytes

text \<open>What \<open>read_segments\<close> returns.\<close>

record segment_row =
  sr_seq :: nat
  sr_meta :: segment_meta
  sr_bytes :: bytes
  sr_caller_index :: "bytes option"

record doc_row =
  doc_id :: i64
  doc_uuid :: rstring
  doc_kind :: rstring
  doc_name :: rstring
  doc_content :: "(rstring \<times> rstring) option"   \<comment> \<open>schema and body, both or neither\<close>
  doc_created :: i64
  doc_supersedes :: "i64 option"

record span =
  span_rows :: nat
  span_first_ts :: "i64 option"
  span_last_ts :: "i64 option"

datatype index_layout = LayoutTable | LayoutColumn | LayoutAbsent

record archive =
  ar_user_version :: i64
  ar_layout :: index_layout
  ar_sources :: "source_row list"
  ar_segments :: "segment_table_row list"
  ar_indexes :: "index_table_row list"
  ar_wal :: "(i64 \<times> wal_row) list"
  ar_clock :: "(i64 \<times> i64 \<times> i64) list"
  ar_caller :: "(i64 \<times> rstring \<times> caller_row) list"
  ar_documents :: "doc_row list option"   \<comment> \<open>\<open>None\<close>: no such table (schema 4)\<close>

definition schema_version :: i64 where "schema_version = 5"
definition oldest_read_schema_version :: i64 where "oldest_read_schema_version = 4"
definition documents_schema_version :: i64 where "documents_schema_version = 5"

text \<open>A created archive: schema 5, every table empty.\<close>

definition create_archive :: archive where
  "create_archive =
     \<lparr>ar_user_version = schema_version, ar_layout = LayoutTable, ar_sources = [],
      ar_segments = [], ar_indexes = [], ar_wal = [], ar_clock = [], ar_caller = [],
      ar_documents = Some []\<rparr>"

subsection \<open>Segments of a stream\<close>

definition seg_of :: "i64 \<Rightarrow> rstring \<Rightarrow> segment_table_row \<Rightarrow> bool" where
  "seg_of sid s r \<longleftrightarrow> sg_source r = sid \<and> sg_stream r = s"

definition stream_rows :: "archive \<Rightarrow> i64 \<Rightarrow> rstring \<Rightarrow> segment_table_row list" where
  "stream_rows a sid s = filter (seg_of sid s) (ar_segments a)"

text \<open>\<open>SELECT MAX(last_ts) FROM segments WHERE source_id = ? AND stream = ?\<close>.\<close>

definition watermark :: "archive \<Rightarrow> i64 \<Rightarrow> rstring \<Rightarrow> i64 option" where
  "watermark a sid s = col_max (map (\<lambda>r. meta_last_ts (sg_meta r)) (stream_rows a sid s))"

text \<open>\<open>IndexLayout::segment_select\<close>: where a row's caller index is read from.\<close>

definition index_row_of :: "i64 \<Rightarrow> rstring \<Rightarrow> nat \<Rightarrow> index_table_row \<Rightarrow> bool" where
  "index_row_of sid s q i \<longleftrightarrow> ix_source i = sid \<and> ix_stream i = s \<and> ix_seq i = q"

definition segment_index :: "archive \<Rightarrow> segment_table_row \<Rightarrow> bytes option" where
  "segment_index a r =
    (case ar_layout a of
       LayoutTable \<Rightarrow> map_option ix_bytes
         (find (index_row_of (sg_source r) (sg_stream r) (sg_seq r)) (ar_indexes a))
     | LayoutColumn \<Rightarrow> sg_column_index r
     | LayoutAbsent \<Rightarrow> None)"

definition to_segment_row :: "archive \<Rightarrow> segment_table_row \<Rightarrow> segment_row" where
  "to_segment_row a r =
     \<lparr>sr_seq = sg_seq r, sr_meta = sg_meta r, sr_bytes = sg_bytes r,
      sr_caller_index = segment_index a r\<rparr>"

definition read_segments :: "archive \<Rightarrow> i64 \<Rightarrow> rstring \<Rightarrow> segment_row list" where
  "read_segments a sid s = map (to_segment_row a) (order_by sg_seq (stream_rows a sid s))"

definition segments_overlapping ::
  "archive \<Rightarrow> i64 \<Rightarrow> rstring \<Rightarrow> i64 \<Rightarrow> i64 \<Rightarrow> segment_row list" where
  "segments_overlapping a sid s start stop =
     map (to_segment_row a)
       (order_by sg_seq
         (filter (\<lambda>r. meta_last_ts (sg_meta r) \<ge> start \<and> meta_first_ts (sg_meta r) \<le> stop)
           (stream_rows a sid s)))"

definition read_segment_meta :: "archive \<Rightarrow> i64 \<Rightarrow> rstring \<Rightarrow> (nat \<times> segment_meta) list" where
  "read_segment_meta a sid s =
     map (\<lambda>r. (sg_seq r, sg_meta r)) (order_by sg_seq (stream_rows a sid s))"

definition read_segment_bytes :: "archive \<Rightarrow> i64 \<Rightarrow> rstring \<Rightarrow> nat \<Rightarrow> bytes option" where
  "read_segment_bytes a sid s q =
     map_option sg_bytes (find (\<lambda>r. sg_seq r = q) (stream_rows a sid s))"

definition read_segment_indexes ::
  "archive \<Rightarrow> i64 \<Rightarrow> rstring \<Rightarrow> (nat \<times> bytes option) list" where
  "read_segment_indexes a sid s =
     map (\<lambda>r. (sg_seq r, segment_index a r)) (order_by sg_seq (stream_rows a sid s))"

definition total_rows :: "archive \<Rightarrow> i64 \<Rightarrow> rstring \<Rightarrow> nat" where
  "total_rows a sid s = sum_list (map (\<lambda>r. meta_rows (sg_meta r)) (stream_rows a sid s))"

definition stream_bytes :: "archive \<Rightarrow> i64 \<Rightarrow> rstring \<Rightarrow> nat" where
  "stream_bytes a sid s = sum_list (map (\<lambda>r. length (sg_bytes r)) (stream_rows a sid s))"

definition segment_sizes :: "archive \<Rightarrow> i64 \<Rightarrow> (i64 \<times> nat) list" where
  "segment_sizes a sid =
     map (\<lambda>r. (meta_last_ts (sg_meta r), length (sg_bytes r)))
       (order_by (\<lambda>r. meta_last_ts (sg_meta r)) (filter (\<lambda>r. sg_source r = sid) (ar_segments a)))"

definition segment_span :: "archive \<Rightarrow> i64 \<Rightarrow> rstring \<Rightarrow> nat \<times> span" where
  "segment_span a sid s =
     (length (stream_rows a sid s),
      \<lparr>span_rows = total_rows a sid s,
       span_first_ts = col_min (map (\<lambda>r. meta_first_ts (sg_meta r)) (stream_rows a sid s)),
       span_last_ts = watermark a sid s\<rparr>)"

text \<open>
  The two catalog-wide maps, \<open>GROUP BY source_id, stream\<close>: a key for every
  stream that has a segment.
\<close>

definition sealed_watermarks :: "archive \<Rightarrow> i64 \<times> rstring \<Rightarrow> i64 option" where
  "sealed_watermarks a = (\<lambda>(sid, s). watermark a sid s)"

definition max_seq :: "archive \<Rightarrow> i64 \<Rightarrow> rstring \<Rightarrow> nat option" where
  "max_seq a sid s =
    (if stream_rows a sid s = [] then None
     else Some (foldr max (map sg_seq (stream_rows a sid s)) 0))"

definition next_seqs :: "archive \<Rightarrow> i64 \<times> rstring \<Rightarrow> nat option" where
  "next_seqs a = (\<lambda>(sid, s). map_option Suc (max_seq a sid s))"

subsection \<open>The write-ahead log\<close>

definition wal_of :: "archive \<Rightarrow> i64 \<Rightarrow> rstring \<Rightarrow> wal_row list" where
  "wal_of a sid s = map snd (filter (\<lambda>(i, r). i = sid \<and> row_stream r = s) (ar_wal a))"

text \<open>\<open>LIVE_WAL_PREDICATE\<close>: above the newest sealed row, or nothing sealed.\<close>

definition is_live :: "archive \<Rightarrow> i64 \<Rightarrow> rstring \<Rightarrow> i64 \<Rightarrow> bool" where
  "is_live a sid s ts \<longleftrightarrow> (case watermark a sid s of None \<Rightarrow> True | Some w \<Rightarrow> ts > w)"

definition read_wal :: "archive \<Rightarrow> i64 \<Rightarrow> rstring \<Rightarrow> wal_row list" where
  "read_wal a sid s = order_by row_ts (wal_of a sid s)"

definition live_wal :: "archive \<Rightarrow> i64 \<Rightarrow> rstring \<Rightarrow> wal_row list" where
  "live_wal a sid s = order_by row_ts (filter (\<lambda>r. is_live a sid s (row_ts r)) (wal_of a sid s))"

definition live_wal_span :: "archive \<Rightarrow> i64 \<Rightarrow> rstring \<Rightarrow> span" where
  "live_wal_span a sid s =
    (let ts = map row_ts (filter (\<lambda>r. is_live a sid s (row_ts r)) (wal_of a sid s))
     in \<lparr>span_rows = length ts, span_first_ts = col_min ts, span_last_ts = col_max ts\<rparr>)"

definition total_wal_rows :: "archive \<Rightarrow> i64 \<Rightarrow> rstring \<Rightarrow> nat" where
  "total_wal_rows a sid s = length (wal_of a sid s)"

definition all_streams :: "archive \<Rightarrow> i64 \<Rightarrow> rstring list" where
  "all_streams a sid =
     distinct_sorted
       (map sg_stream (filter (\<lambda>r. sg_source r = sid) (ar_segments a))
        @ map (row_stream \<circ> snd) (filter (\<lambda>(i, r). i = sid) (ar_wal a)))"

text \<open>\<open>LIVE_WAL_PREDICATE_FOR_ROW\<close>: the same test with the row's own stream.\<close>

definition live_for_row :: "archive \<Rightarrow> i64 \<times> wal_row \<Rightarrow> bool" where
  "live_for_row a = (\<lambda>(i, r). is_live a i (row_stream r) (row_ts r))"

definition source_time_span :: "archive \<Rightarrow> i64 \<Rightarrow> i64 option \<times> i64 option" where
  "source_time_span a sid =
    (let segs = filter (\<lambda>r. sg_source r = sid) (ar_segments a);
         live = filter (\<lambda>(i, r). i = sid \<and> live_for_row a (i, r)) (ar_wal a)
     in (col_min (map (\<lambda>r. meta_first_ts (sg_meta r)) segs @ map (row_ts \<circ> snd) live),
         col_max (map (\<lambda>r. meta_last_ts (sg_meta r)) segs @ map (row_ts \<circ> snd) live)))"

subsection \<open>Sources, clock offsets, caller rows\<close>

definition read_sources :: "archive \<Rightarrow> source_row list" where
  "read_sources a = order_by src_id (ar_sources a)"

definition find_source :: "archive \<Rightarrow> i64 \<Rightarrow> source_row option" where
  "find_source a sid = find (\<lambda>r. src_id r = sid) (ar_sources a)"

definition source_uuid :: "archive \<Rightarrow> i64 \<Rightarrow> rstring option result" where
  "source_uuid a sid =
    (case find_source a sid of
       Some r \<Rightarrow> Inr (src_uuid r)
     | None \<Rightarrow> Inl (Sqlite ''failed to read the uuid of source'' (RusqliteOther ''QueryReturnedNoRows'')))"

definition source_metadata :: "archive \<Rightarrow> i64 \<Rightarrow> label_map result" where
  "source_metadata a sid =
    (case find_source a sid of
       Some r \<Rightarrow> Inr (sm_metadata (src_meta r))
     | None \<Rightarrow> Inl (Sqlite ''failed to read the metadata of source'' (RusqliteOther ''QueryReturnedNoRows'')))"

definition is_finished :: "archive \<Rightarrow> bool" where
  "is_finished a \<longleftrightarrow> ar_sources a \<noteq> [] \<and> filter (\<lambda>r. \<not> src_complete r) (ar_sources a) = []"

definition read_clock_offsets :: "archive \<Rightarrow> i64 \<Rightarrow> (i64 \<times> i64) list" where
  "read_clock_offsets a sid = order_by fst (map snd (filter (\<lambda>(i, _). i = sid) (ar_clock a)))"

definition caller_of :: "archive \<Rightarrow> i64 \<Rightarrow> rstring \<Rightarrow> caller_row list" where
  "caller_of a sid s = map (snd \<circ> snd) (filter (\<lambda>(i, t, _). i = sid \<and> t = s) (ar_caller a))"

text \<open>\<open>ORDER BY ts, rowid\<close>: the stable sort of rows that are listed in rowid order.\<close>

definition read_caller_rows ::
  "archive \<Rightarrow> i64 \<Rightarrow> rstring \<Rightarrow> i64 \<Rightarrow> i64 \<Rightarrow> caller_row list" where
  "read_caller_rows a sid s start stop =
     order_by cr_ts (filter (\<lambda>r. cr_ts r \<ge> start \<and> cr_ts r \<le> stop) (caller_of a sid s))"

text \<open>\<open>ORDER BY ts DESC, rowid DESC\<close> is that order backwards; the first match is returned.\<close>

definition last_caller_row_at_or_before ::
  "archive \<Rightarrow> i64 \<Rightarrow> rstring \<Rightarrow> i64 \<Rightarrow> (bytes \<Rightarrow> bool) \<Rightarrow> caller_row option" where
  "last_caller_row_at_or_before a sid s bound pred =
     find (\<lambda>r. pred (cr_blob r))
       (rev (order_by cr_ts (filter (\<lambda>r. cr_ts r \<le> bound) (caller_of a sid s))))"

definition caller_row_streams :: "archive \<Rightarrow> i64 \<Rightarrow> rstring list" where
  "caller_row_streams a sid =
     distinct_sorted (map (fst \<circ> snd) (filter (\<lambda>(i, _). i = sid) (ar_caller a)))"

subsection \<open>Well-formedness: the schema's keys and references\<close>

text \<open>Primary keys and foreign keys, as SQLite enforces them on every connection that writes.\<close>

definition wal_key :: "i64 \<times> wal_row \<Rightarrow> i64 \<times> rstring \<times> i64" where
  "wal_key = (\<lambda>(i, r). (i, row_stream r, row_ts r))"

definition seg_key :: "segment_table_row \<Rightarrow> i64 \<times> rstring \<times> nat" where
  "seg_key r = (sg_source r, sg_stream r, sg_seq r)"

definition index_key :: "index_table_row \<Rightarrow> i64 \<times> rstring \<times> nat" where
  "index_key i = (ix_source i, ix_stream i, ix_seq i)"

definition source_ids :: "archive \<Rightarrow> i64 set" where
  "source_ids a = src_id ` set (ar_sources a)"

definition keys_ok :: "archive \<Rightarrow> bool" where
  "keys_ok a \<longleftrightarrow>
     distinct (map src_id (ar_sources a))
     \<and> distinct (map wal_key (ar_wal a))
     \<and> distinct (map seg_key (ar_segments a))
     \<and> distinct (map index_key (ar_indexes a))
     \<and> distinct (map (\<lambda>(i, ts, _). (i, ts)) (ar_clock a))"

definition refs_ok :: "archive \<Rightarrow> bool" where
  "refs_ok a \<longleftrightarrow>
     (\<forall>r \<in> set (ar_segments a). sg_source r \<in> source_ids a)
     \<and> (\<forall>r \<in> set (ar_wal a). fst r \<in> source_ids a)
     \<and> (\<forall>r \<in> set (ar_clock a). fst r \<in> source_ids a)
     \<and> (\<forall>r \<in> set (ar_caller a). fst r \<in> source_ids a)
     \<and> index_key ` set (ar_indexes a) \<subseteq> seg_key ` set (ar_segments a)"

definition archive_ok :: "archive \<Rightarrow> bool" where
  "archive_ok a \<longleftrightarrow> keys_ok a \<and> refs_ok a"

lemma archive_ok_create: "archive_ok create_archive"
  by (simp add: archive_ok_def keys_ok_def refs_ok_def create_archive_def)

subsection \<open>What the queries say\<close>

lemma set_stream_rows: "r \<in> set (stream_rows a sid s) \<longleftrightarrow> r \<in> set (ar_segments a) \<and> seg_of sid s r"
  by (auto simp: stream_rows_def)

lemma watermark_None: "watermark a sid s = None \<longleftrightarrow> stream_rows a sid s = []"
  by (simp add: watermark_def)

lemma watermark_Some:
  "watermark a sid s = Some w \<longleftrightarrow>
     (\<exists>r \<in> set (stream_rows a sid s). meta_last_ts (sg_meta r) = w)
     \<and> (\<forall>r \<in> set (stream_rows a sid s). meta_last_ts (sg_meta r) \<le> w)"
  by (auto simp: watermark_def col_max_Some)

lemma set_wal_of: "r \<in> set (wal_of a sid s) \<longleftrightarrow> (sid, r) \<in> set (ar_wal a) \<and> row_stream r = s"
  by (force simp: wal_of_def)

lemma set_live_wal:
  "r \<in> set (live_wal a sid s) \<longleftrightarrow>
     (sid, r) \<in> set (ar_wal a) \<and> row_stream r = s \<and> is_live a sid s (row_ts r)"
  by (auto simp: live_wal_def set_wal_of)

lemma live_wal_read_wal: "live_wal a sid s = filter (\<lambda>r. is_live a sid s (row_ts r)) (read_wal a sid s)"
  by (simp add: live_wal_def read_wal_def filter_order_by)

lemma distinct_wal_of: "keys_ok a \<Longrightarrow> distinct (map row_ts (wal_of a sid s))"
proof -
  assume "keys_ok a"
  then have d: "distinct (map wal_key (ar_wal a))" by (simp add: keys_ok_def)
  have "distinct (map row_ts (map snd (filter (\<lambda>(i, r). i = sid \<and> row_stream r = s) xs)))"
    if "distinct (map wal_key xs)" for xs
    using that by (induction xs) (auto simp: wal_key_def image_iff split: prod.splits)
  with d show ?thesis by (simp add: wal_of_def)
qed

lemma distinct_filter_map: "distinct (map f xs) \<Longrightarrow> distinct (map f (filter P xs))"
  by (induction xs) auto

lemma sorted_live_wal: "keys_ok a \<Longrightarrow> sorted_wrt (<) (map row_ts (live_wal a sid s))"
  unfolding live_wal_def
  by (intro strict_sorted_order_by distinct_filter_map distinct_wal_of)

lemma sorted_read_wal: "keys_ok a \<Longrightarrow> sorted_wrt (<) (map row_ts (read_wal a sid s))"
  unfolding read_wal_def by (intro strict_sorted_order_by distinct_wal_of)

text \<open>\<open>live_wal_span\<close> counts the same rows \<open>live_wal\<close> returns.\<close>

lemma live_wal_span_rows: "span_rows (live_wal_span a sid s) = length (live_wal a sid s)"
  by (simp add: live_wal_span_def live_wal_def Let_def)

lemma live_wal_span_first:
  "span_first_ts (live_wal_span a sid s) = Some f \<longleftrightarrow>
     f \<in> row_ts ` set (live_wal a sid s) \<and> (\<forall>r \<in> set (live_wal a sid s). f \<le> row_ts r)"
  by (auto simp: live_wal_span_def live_wal_def Let_def col_min_Some)

lemma live_wal_span_first_None:
  "span_first_ts (live_wal_span a sid s) = None \<longleftrightarrow> live_wal a sid s = []"
  by (simp add: live_wal_span_def live_wal_def Let_def)

lemma live_wal_span_last:
  "span_last_ts (live_wal_span a sid s) = Some l \<longleftrightarrow>
     l \<in> row_ts ` set (live_wal a sid s) \<and> (\<forall>r \<in> set (live_wal a sid s). row_ts r \<le> l)"
  by (auto simp: live_wal_span_def live_wal_def Let_def col_max_Some)

lemma set_all_streams:
  "s \<in> set (all_streams a sid) \<longleftrightarrow> stream_rows a sid s \<noteq> [] \<or> wal_of a sid s \<noteq> []"
  by (force simp: all_streams_def stream_rows_def wal_of_def seg_of_def filter_empty_conv)

lemma sorted_read_segments: 
  "keys_ok a \<Longrightarrow> sorted_wrt (<) (map sg_seq (order_by sg_seq (stream_rows a sid s)))"
proof -
  assume "keys_ok a"
  then have d: "distinct (map seg_key (ar_segments a))" by (simp add: keys_ok_def)
  have "distinct (map sg_seq (filter (seg_of sid s) xs))" if "distinct (map seg_key xs)" for xs
    using that by (induction xs) (auto simp: seg_key_def seg_of_def image_iff)
  with d show ?thesis by (simp add: strict_sorted_order_by stream_rows_def)
qed

lemma max_seq_None: "max_seq a sid s = None \<longleftrightarrow> stream_rows a sid s = []"
  by (simp add: max_seq_def)

lemma foldr_max_nat: "x \<in> set xs \<Longrightarrow> x \<le> foldr max xs (b::nat)"
  by (induction xs) auto

lemma max_seq_bound: "r \<in> set (stream_rows a sid s) \<Longrightarrow> max_seq a sid s = Some q \<Longrightarrow> sg_seq r \<le> q"
  by (auto simp: max_seq_def intro!: foldr_max_nat split: if_splits)

end
