(* ===== verification/Archive_Ops.thy ===== *)
theory Archive_Ops
  imports Archive_Store
begin

unbundle bit_operations_syntax

section \<open>The archive: writes (\<open>src/archive/sqlite.rs\<close>)\<close>

text \<open>
  The statements that change the archive. Each is a function of the tables that
  fails with a constraint violation where the schema's keys or references say
  so. \<open>transaction\<close> runs such a body atomically; it is also where the environment
  acts: \<open>db_faults\<close> lists, for the transactions to come, the SQLite code each
  fails with (a lock held elsewhere, a full disk), \<open>None\<close> or the end of the list
  for none. A statement outside a transaction is a transaction of its own, as
  SQLite's autocommit makes it.
\<close>

subsection \<open>Transactions\<close>

record db =
  db_archive :: archive
  db_faults :: "sqlite_code option list"

definition next_fault :: "db \<Rightarrow> sqlite_code option \<times> db" where
  "next_fault db =
    (case db_faults db of [] \<Rightarrow> (None, db) | f # fs \<Rightarrow> (f, db\<lparr>db_faults := fs\<rparr>))"

definition transaction :: "(archive \<Rightarrow> ('a \<times> archive) result) \<Rightarrow> db \<Rightarrow> 'a result \<times> db" where
  "transaction body db =
    (let (fault, db') = next_fault db
     in case fault of
          Some c \<Rightarrow> (Inl (Sqlite ''failed to commit transaction'' (SqliteFailure c)), db')
        | None \<Rightarrow>
            (case body (db_archive db) of
               Inl e \<Rightarrow> (Inl e, db')
             | Inr (x, a) \<Rightarrow> (Inr x, db'\<lparr>db_archive := a\<rparr>)))"

definition constraint_error :: "string \<Rightarrow> 'a result" where
  "constraint_error context = Inl (Sqlite context (SqliteFailure ConstraintViolation))"

text \<open>A body that returns nothing.\<close>

definition unit_body :: "(archive \<Rightarrow> archive result) \<Rightarrow> archive \<Rightarrow> (unit \<times> archive) result" where
  "unit_body f a = rmap (Pair ()) (f a)"

subsection \<open>Sources\<close>

text \<open>\<open>INTEGER PRIMARY KEY\<close>: one more than the largest id, 1 in an empty table.\<close>

definition next_rowid :: "i64 list \<Rightarrow> i64" where
  "next_rowid ids = (case col_max ids of None \<Rightarrow> 1 | Some m \<Rightarrow> m + 1)"

definition hex_digit :: "u8 \<Rightarrow> u8" where
  "hex_digit n = (if n < 10 then 48 + n else 87 + n)"

definition hex_byte :: "u8 \<Rightarrow> bytes" where
  "hex_byte b = [hex_digit (drop_bit 4 b), hex_digit (b AND 15)]"

text \<open>\<open>mint_uuid\<close>, of the bytes \<open>randomblob(16)\<close> returned.\<close>

definition mint_uuid :: "bytes \<Rightarrow> rstring result" where
  "mint_uuid blob =
    (if length blob \<noteq> 16 then Inl (Message ''randomblob(16) returned another number of bytes'')
     else let b = blob[6 := (blob ! 6 AND 0x0f) OR 0x40];
              b = b[8 := (b ! 8 AND 0x3f) OR 0x80];
              hex = concat (map hex_byte b)
          in Inr (take 8 hex @ str ''-'' @ take 4 (drop 8 hex) @ str ''-''
                  @ take 4 (drop 12 hex) @ str ''-'' @ take 4 (drop 16 hex) @ str ''-''
                  @ take 12 (drop 20 hex)))"

definition insert_source_sql ::
  "bytes \<Rightarrow> source_meta \<Rightarrow> rstring option \<Rightarrow> archive \<Rightarrow> (i64 \<times> archive) result" where
  "insert_source_sql random meta uuid a =
     rbind (case uuid of Some u \<Rightarrow> Inr u | None \<Rightarrow> mint_uuid random) (\<lambda>u.
       let sid = next_rowid (map src_id (ar_sources a)) in
       Inr (sid, a\<lparr>ar_sources := ar_sources a @
         [\<lparr>src_id = sid, src_meta = meta, src_uuid = Some u, src_complete = False,
           src_heartbeat = None, src_interval = None\<rparr>]\<rparr>))"

definition has_source :: "archive \<Rightarrow> i64 \<Rightarrow> bool" where
  "has_source a sid \<longleftrightarrow> find_source a sid \<noteq> None"

definition update_source :: "i64 \<Rightarrow> (source_row \<Rightarrow> source_row) \<Rightarrow> archive \<Rightarrow> archive" where
  "update_source sid f a =
     a\<lparr>ar_sources := map (\<lambda>r. if src_id r = sid then f r else r) (ar_sources a)\<rparr>"

definition update_existing_source ::
  "i64 \<Rightarrow> (source_row \<Rightarrow> source_row) \<Rightarrow> archive \<Rightarrow> archive result" where
  "update_existing_source sid f a =
    (if has_source a sid then Inr (update_source sid f a) else Inl (Message ''no source with id''))"

definition mark_complete :: "i64 \<Rightarrow> archive \<Rightarrow> archive" where
  "mark_complete sid = update_source sid (\<lambda>r. r\<lparr>src_complete := True\<rparr>)"

definition mark_incomplete :: "i64 \<Rightarrow> archive \<Rightarrow> archive result" where
  "mark_incomplete sid = update_existing_source sid (\<lambda>r. r\<lparr>src_complete := False\<rparr>)"

definition update_source_metadata :: "i64 \<Rightarrow> label_map \<Rightarrow> archive \<Rightarrow> archive result" where
  "update_source_metadata sid metadata =
     update_existing_source sid (\<lambda>r. r\<lparr>src_meta := (src_meta r)\<lparr>sm_metadata := metadata\<rparr>\<rparr>)"

definition update_source_labels :: "i64 \<Rightarrow> label_map \<Rightarrow> archive \<Rightarrow> archive result" where
  "update_source_labels sid labels =
     update_existing_source sid (\<lambda>r. r\<lparr>src_meta := (src_meta r)\<lparr>sm_labels := labels\<rparr>\<rparr>)"

definition patch_source_metadata :: "i64 \<Rightarrow> label_map \<Rightarrow> archive \<Rightarrow> archive result" where
  "patch_source_metadata sid patch a =
     rbind (source_metadata a sid) (\<lambda>metadata.
       update_source_metadata sid (bt_extend metadata patch) a)"

definition writer_sessions_key :: rstring where "writer_sessions_key = str ''writer_sessions''"
definition events_key :: rstring where "events_key = str ''events''"

definition keep_stored :: "label_map \<Rightarrow> label_map \<Rightarrow> rstring \<Rightarrow> label_map" where
  "keep_stored stored metadata key =
    (case bt_get stored key of Some v \<Rightarrow> bt_insert key v metadata | None \<Rightarrow> metadata)"

definition set_source_identity :: "i64 \<Rightarrow> label_map \<Rightarrow> label_map \<Rightarrow> archive \<Rightarrow> archive result" where
  "set_source_identity sid labels metadata a =
     rbind (source_metadata a sid) (\<lambda>stored.
       let metadata = keep_stored stored (keep_stored stored metadata encoder_key) writer_sessions_key
       in update_existing_source sid
            (\<lambda>r. r\<lparr>src_meta := (src_meta r)\<lparr>sm_labels := labels, sm_metadata := metadata\<rparr>\<rparr>) a)"

definition set_heartbeat :: "i64 \<Rightarrow> i64 option \<Rightarrow> i64 option \<Rightarrow> archive \<Rightarrow> archive" where
  "set_heartbeat sid heartbeat interval =
     update_source sid (\<lambda>r. r\<lparr>src_heartbeat := heartbeat, src_interval := interval\<rparr>)"

definition set_heartbeat_interval :: "i64 \<Rightarrow> i64 \<Rightarrow> archive \<Rightarrow> archive" where
  "set_heartbeat_interval sid interval = update_source sid (\<lambda>r. r\<lparr>src_interval := Some interval\<rparr>)"

definition beat :: "i64 list \<Rightarrow> archive \<Rightarrow> archive" where
  "beat ids a =
     foldl (\<lambda>a sid. update_source sid
       (\<lambda>r. r\<lparr>src_heartbeat := Some ((case src_heartbeat r of None \<Rightarrow> 0 | Some n \<Rightarrow> n) + 1)\<rparr>) a) a ids"

subsection \<open>Segments\<close>

definition segment_key_taken :: "archive \<Rightarrow> i64 \<Rightarrow> rstring \<Rightarrow> nat \<Rightarrow> bool" where
  "segment_key_taken a sid s q \<longleftrightarrow> (sid, s, q) \<in> set (map seg_key (ar_segments a))"

text \<open>
  \<open>insert_segment_sql\<close>: on schema 5 the row, then the index it replaces, then its
  own index, inside one savepoint; on schema 4 the index is a column.
\<close>

definition insert_segment_with_index ::
  "i64 \<Rightarrow> rstring \<Rightarrow> nat \<Rightarrow> segment_meta \<Rightarrow> bytes \<Rightarrow> bytes option \<Rightarrow> archive \<Rightarrow> archive result" where
  "insert_segment_with_index sid s q meta payload caller_index a =
    (if segment_key_taken a sid s q \<or> \<not> has_source a sid
     then constraint_error ''failed to insert segment''
     else
       let row = \<lparr>sg_source = sid, sg_stream = s, sg_seq = q, sg_meta = meta, sg_bytes = payload,
                  sg_column_index = (if ar_layout a = LayoutColumn then caller_index else None)\<rparr>;
           a' = a\<lparr>ar_segments := ar_segments a @ [row]\<rparr>
       in case ar_layout a of
            LayoutTable \<Rightarrow>
              Inr (a'\<lparr>ar_indexes :=
                 filter (\<lambda>i. \<not> index_row_of sid s q i) (ar_indexes a)
                 @ (case caller_index of
                      Some ix \<Rightarrow> [\<lparr>ix_source = sid, ix_stream = s, ix_seq = q, ix_bytes = ix\<rparr>]
                    | None \<Rightarrow> [])\<rparr>)
          | _ \<Rightarrow> Inr a')"

definition insert_segment ::
  "i64 \<Rightarrow> rstring \<Rightarrow> nat \<Rightarrow> segment_meta \<Rightarrow> bytes \<Rightarrow> archive \<Rightarrow> archive result" where
  "insert_segment sid s q meta payload = insert_segment_with_index sid s q meta payload None"

text \<open>\<open>ON DELETE CASCADE\<close>: an index goes with its segment.\<close>

definition delete_segments_where :: "(segment_table_row \<Rightarrow> bool) \<Rightarrow> archive \<Rightarrow> archive" where
  "delete_segments_where P a =
    (let gone = filter P (ar_segments a)
     in a\<lparr>ar_segments := filter (\<lambda>r. \<not> P r) (ar_segments a),
          ar_indexes := filter (\<lambda>i. index_key i \<notin> set (map seg_key gone)) (ar_indexes a)\<rparr>)"

definition delete_segment :: "i64 \<Rightarrow> rstring \<Rightarrow> nat \<Rightarrow> archive \<Rightarrow> archive" where
  "delete_segment sid s q =
     delete_segments_where (\<lambda>r. sg_source r = sid \<and> sg_stream r = s \<and> sg_seq r = q)"

subsection \<open>The write-ahead log\<close>

definition insert_wal_row :: "i64 \<Rightarrow> archive \<Rightarrow> wal_row \<Rightarrow> archive result" where
  "insert_wal_row sid a r =
    (if wal_key (sid, r) \<in> set (map wal_key (ar_wal a)) \<or> \<not> has_source a sid
     then constraint_error ''failed to insert WAL row''
     else Inr (a\<lparr>ar_wal := ar_wal a @ [(sid, r)]\<rparr>))"

definition insert_wal_rows :: "i64 \<Rightarrow> wal_row list \<Rightarrow> archive \<Rightarrow> archive result" where
  "insert_wal_rows sid rows a = rfold (insert_wal_row sid) a rows"

type_synonym tick = "i64 \<times> wal_row list"

definition insert_wal_rows_batch :: "tick list \<Rightarrow> archive \<Rightarrow> archive result" where
  "insert_wal_rows_batch ticks a = rfold (\<lambda>a (sid, rows). insert_wal_rows sid rows a) a ticks"

definition prune_wal :: "i64 \<Rightarrow> rstring \<Rightarrow> i64 \<Rightarrow> archive \<Rightarrow> archive" where
  "prune_wal sid s bound a =
     a\<lparr>ar_wal := filter (\<lambda>(i, r). \<not> (i = sid \<and> row_stream r = s \<and> row_ts r \<le> bound)) (ar_wal a)\<rparr>"

subsection \<open>Clock offsets and caller rows\<close>

text \<open>\<open>INSERT OR IGNORE\<close>: the first observation at a timestamp wins; a foreign key still fails.\<close>

definition insert_clock_offset :: "i64 \<Rightarrow> i64 \<Rightarrow> i64 \<Rightarrow> archive \<Rightarrow> archive result" where
  "insert_clock_offset sid ts offset a =
    (if (sid, ts) \<in> set (map (\<lambda>(i, t, _). (i, t)) (ar_clock a)) then Inr a
     else if \<not> has_source a sid then constraint_error ''failed to insert clock offset''
     else Inr (a\<lparr>ar_clock := ar_clock a @ [(sid, ts, offset)]\<rparr>))"

definition insert_caller_row :: "i64 \<Rightarrow> rstring \<Rightarrow> archive \<Rightarrow> caller_row \<Rightarrow> archive result" where
  "insert_caller_row sid s a r =
    (if has_source a sid then Inr (a\<lparr>ar_caller := ar_caller a @ [(sid, s, r)]\<rparr>)
     else constraint_error ''failed to insert a caller row'')"

definition insert_caller_rows :: "i64 \<Rightarrow> rstring \<Rightarrow> caller_row list \<Rightarrow> archive \<Rightarrow> archive result" where
  "insert_caller_rows sid s rows a = rfold (insert_caller_row sid s) a rows"

subsection \<open>Queries see what a write leaves\<close>

lemma stream_rows_wal [frame_simps]: "stream_rows (a\<lparr>ar_wal := w\<rparr>) sid s = stream_rows a sid s"
  by (simp add: stream_rows_def)

lemma stream_rows_sources [frame_simps]: "stream_rows (a\<lparr>ar_sources := w\<rparr>) sid s = stream_rows a sid s"
  by (simp add: stream_rows_def)

lemma stream_rows_clock [frame_simps]: "stream_rows (a\<lparr>ar_clock := w\<rparr>) sid s = stream_rows a sid s"
  by (simp add: stream_rows_def)

lemma stream_rows_caller [frame_simps]: "stream_rows (a\<lparr>ar_caller := w\<rparr>) sid s = stream_rows a sid s"
  by (simp add: stream_rows_def)

lemma watermark_cong: "stream_rows a sid s = stream_rows b sid s \<Longrightarrow> watermark a sid s = watermark b sid s"
  by (simp add: watermark_def)

lemma live_wal_cong:
  "watermark a sid s = watermark b sid s \<Longrightarrow> wal_of a sid s = wal_of b sid s \<Longrightarrow>
   live_wal a sid s = live_wal b sid s"
  by (simp add: live_wal_def is_live_def)

lemma watermark_wal [frame_simps]: "watermark (a\<lparr>ar_wal := w\<rparr>) sid s = watermark a sid s"
  by (intro watermark_cong) (simp add: frame_simps)

lemma wal_of_frame [frame_simps]:
  "wal_of (a\<lparr>ar_segments := x\<rparr>) sid s = wal_of a sid s" "wal_of (a\<lparr>ar_indexes := i\<rparr>) sid s = wal_of a sid s"
  "wal_of (a\<lparr>ar_clock := c\<rparr>) sid s = wal_of a sid s" "wal_of (a\<lparr>ar_sources := y\<rparr>) sid s = wal_of a sid s"
  "wal_of (a\<lparr>ar_caller := z\<rparr>) sid s = wal_of a sid s"
  by (simp_all add: wal_of_def)

lemma has_source_iff: "has_source a sid \<longleftrightarrow> sid \<in> source_ids a"
  by (auto simp: has_source_def find_source_def source_ids_def find_None_iff)

lemma stream_rows_insert_segment:
  "insert_segment_with_index sid s q m p ix a = Inr a' \<Longrightarrow>
   \<exists>row. stream_rows a' i t = stream_rows a i t @ (if i = sid \<and> t = s then [row] else [])
     \<and> sg_meta row = m \<and> sg_seq row = q \<and> sg_bytes row = p \<and> sg_source row = sid \<and> sg_stream row = s
     \<and> ar_segments a' = ar_segments a @ [row]"
  by (auto simp: insert_segment_with_index_def Let_def constraint_error_def stream_rows_def seg_of_def
      split: if_splits index_layout.splits)

lemma insert_segment_frame:
  "insert_segment_with_index sid s q m p ix a = Inr a' \<Longrightarrow>
   ar_wal a' = ar_wal a \<and> ar_sources a' = ar_sources a \<and> ar_clock a' = ar_clock a
   \<and> ar_caller a' = ar_caller a \<and> ar_documents a' = ar_documents a \<and> ar_layout a' = ar_layout a"
  by (auto simp: insert_segment_with_index_def Let_def constraint_error_def
      split: if_splits index_layout.splits)

lemma watermark_insert_segment:
  assumes "insert_segment_with_index sid s q m p ix a = Inr a'"
    and "\<And>w. watermark a sid s = Some w \<Longrightarrow> w \<le> meta_last_ts m"
  shows "watermark a' sid s = Some (meta_last_ts m)"
    and "(i, t) \<noteq> (sid, s) \<Longrightarrow> watermark a' i t = watermark a i t"
proof -
  obtain row where row: "stream_rows a' sid s = stream_rows a sid s @ [row]" "sg_meta row = m"
    using stream_rows_insert_segment [OF assms(1), of sid s] by auto
  have "\<forall>r \<in> set (stream_rows a sid s). meta_last_ts (sg_meta r) \<le> meta_last_ts m"
    using assms(2) by (cases "watermark a sid s") (auto simp: watermark_None watermark_Some)
  then show "watermark a' sid s = Some (meta_last_ts m)"
    by (simp add: watermark_def row col_max_append_above)
  assume "(i, t) \<noteq> (sid, s)"
  then have "stream_rows a' i t = stream_rows a i t"
    using stream_rows_insert_segment [OF assms(1), of i t] by auto
  then show "watermark a' i t = watermark a i t" by (rule watermark_cong)
qed

text \<open>Inserting a segment shadows exactly the rows at or below its end.\<close>

lemma live_wal_insert_segment:
  assumes "insert_segment_with_index sid s q m p ix a = Inr a'"
    and "\<And>w. watermark a sid s = Some w \<Longrightarrow> w \<le> meta_last_ts m"
  shows "live_wal a' i t =
     (if (i, t) = (sid, s) then filter (\<lambda>r. meta_last_ts m < row_ts r) (live_wal a i t)
      else live_wal a i t)"
proof -
  have wal: "wal_of a' i t = wal_of a i t"
    using insert_segment_frame [OF assms(1)] by (simp add: wal_of_def)
  show ?thesis
  proof (cases "(i, t) = (sid, s)")
    case True
    have "is_live a' i t x \<longleftrightarrow> meta_last_ts m < x \<and> is_live a i t x" for x
      using watermark_insert_segment(1) [OF assms] assms(2) True
      by (auto simp: is_live_def split: option.splits)
    with True wal show ?thesis
      by (simp add: live_wal_def filter_order_by conj_commute)
  next
    case False
    with wal watermark_insert_segment(2) [OF assms] show ?thesis
      by (auto intro: live_wal_cong)
  qed
qed

lemma wal_of_prune:
  "wal_of (prune_wal sid s b a) i t =
     (if (i, t) = (sid, s) then filter (\<lambda>r. b < row_ts r) (wal_of a i t) else wal_of a i t)"
  by (induction "ar_wal a") (auto simp: prune_wal_def wal_of_def filter_map o_def case_prod_beta
      intro!: arg_cong [where f = "map snd"] filter_cong)

lemma stream_rows_prune [frame_simps]: "stream_rows (prune_wal sid s b a) i t = stream_rows a i t"
  by (simp add: prune_wal_def frame_simps)

lemma watermark_prune [frame_simps]: "watermark (prune_wal sid s b a) i t = watermark a i t"
  by (intro watermark_cong) (simp add: frame_simps)

text \<open>Pruning up to the watermark deletes shadowed rows only.\<close>

lemma live_wal_prune:
  assumes "watermark a sid s = Some w" "b \<le> w"
  shows "live_wal (prune_wal sid s b a) i t = live_wal a i t"
proof -
  have "\<And>x. is_live (prune_wal sid s b a) i t x = is_live a i t x"
    by (simp add: is_live_def frame_simps)
  moreover have "is_live a sid s x \<Longrightarrow> b < x" for x using assms by (simp add: is_live_def)
  then have "filter (\<lambda>r. is_live a sid s (row_ts r)) (filter (\<lambda>r. b < row_ts r) rs)
      = filter (\<lambda>r. is_live a sid s (row_ts r)) rs" for rs :: "wal_row list"
    by (auto intro: filter_cong)
  ultimately show ?thesis by (auto simp: live_wal_def wal_of_prune)
qed

subsection \<open>Every write keeps the schema's keys and references\<close>

lemma source_ids_frame [simp]:
  "source_ids (a\<lparr>ar_wal := w\<rparr>) = source_ids a" "source_ids (a\<lparr>ar_segments := x\<rparr>) = source_ids a"
  "source_ids (a\<lparr>ar_indexes := i\<rparr>) = source_ids a" "source_ids (a\<lparr>ar_clock := c\<rparr>) = source_ids a"
  "source_ids (a\<lparr>ar_caller := r\<rparr>) = source_ids a" "source_ids (a\<lparr>ar_documents := d\<rparr>) = source_ids a"
  by (simp_all add: source_ids_def)

lemmas archive_ok_defs = archive_ok_def keys_ok_def refs_ok_def

lemma archive_ok_set_wal:
  "archive_ok a \<Longrightarrow> distinct (map wal_key w) \<Longrightarrow> \<forall>r \<in> set w. fst r \<in> source_ids a \<Longrightarrow>
   archive_ok (a\<lparr>ar_wal := w\<rparr>)"
  by (simp add: archive_ok_defs)

lemma archive_ok_set_clock:
  "archive_ok a \<Longrightarrow> distinct (map (\<lambda>(i, ts, _). (i, ts)) c) \<Longrightarrow> \<forall>r \<in> set c. fst r \<in> source_ids a \<Longrightarrow>
   archive_ok (a\<lparr>ar_clock := c\<rparr>)"
  by (simp add: archive_ok_defs)

lemma archive_ok_set_caller:
  "archive_ok a \<Longrightarrow> \<forall>r \<in> set c. fst r \<in> source_ids a \<Longrightarrow> archive_ok (a\<lparr>ar_caller := c\<rparr>)"
  by (simp add: archive_ok_defs)

lemma archive_ok_set_documents: "archive_ok (a\<lparr>ar_documents := d\<rparr>) = archive_ok a"
  by (simp add: archive_ok_defs)

lemma archive_ok_refs:
  assumes "archive_ok a"
  shows "\<And>r. r \<in> set (ar_wal a) \<Longrightarrow> fst r \<in> source_ids a"
    and "\<And>r. r \<in> set (ar_clock a) \<Longrightarrow> fst r \<in> source_ids a"
    and "\<And>r. r \<in> set (ar_caller a) \<Longrightarrow> fst r \<in> source_ids a"
    and "distinct (map wal_key (ar_wal a))"
    and "distinct (map (\<lambda>(i, ts, _). (i, ts)) (ar_clock a))"
  using assms by (simp_all add: archive_ok_defs)

lemma archive_ok_insert_segment [wf_intros]:
  assumes "archive_ok a" and "insert_segment_with_index sid s q m p ix a = Inr a'"
  shows "archive_ok a'"
proof -
  have free: "(sid, s, q) \<notin> seg_key ` set (ar_segments a)" and src: "sid \<in> source_ids a"
    using assms(2) by (auto simp: insert_segment_with_index_def constraint_error_def
        segment_key_taken_def has_source_iff split: if_splits)
  obtain row where row: "sg_source row = sid" "sg_stream row = s" "sg_seq row = q"
      "ar_segments a' = ar_segments a @ [row]"
    using stream_rows_insert_segment [OF assms(2)] by blast
  note frame = insert_segment_frame [OF assms(2)]
  have new_ix: "index_key ` set (ar_indexes a') \<subseteq> insert (sid, s, q) (index_key ` set (ar_indexes a))
      \<and> distinct (map index_key (ar_indexes a'))"
  proof (cases "ar_layout a")
    case LayoutTable
    let ?kept = "filter (\<lambda>i. \<not> index_row_of sid s q i) (ar_indexes a)"
    have "distinct (map index_key ?kept)"
      using assms(1) by (intro distinct_filter_map) (simp add: archive_ok_def keys_ok_def)
    moreover have "(sid, s, q) \<notin> index_key ` set ?kept"
      by (auto simp: index_row_of_def index_key_def)
    ultimately show ?thesis using assms(2) LayoutTable
      by (auto simp: insert_segment_with_index_def Let_def constraint_error_def index_key_def
          split: if_splits option.splits)
  qed (use assms in \<open>auto simp: insert_segment_with_index_def Let_def constraint_error_def
        archive_ok_def keys_ok_def split: if_splits\<close>)
  have key: "seg_key row = (sid, s, q)" using row by (simp add: seg_key_def)
  have ids: "source_ids a' = source_ids a" using frame by (simp add: source_ids_def)
  have "index_key ` set (ar_indexes a) \<subseteq> seg_key ` set (ar_segments a)"
    using assms(1) by (simp add: archive_ok_defs)
  with new_ix have "index_key ` set (ar_indexes a') \<subseteq> insert (sid, s, q) (seg_key ` set (ar_segments a))"
    by blast
  then have "index_key ` set (ar_indexes a') \<subseteq> seg_key ` set (ar_segments a')"
    by (simp add: key row(4))
  then show ?thesis
    using assms(1) frame new_ix free src row key ids
    by (simp add: archive_ok_defs)
qed

lemma insert_wal_row_Inr:
  "insert_wal_row sid a r = Inr a' \<Longrightarrow>
     a' = a\<lparr>ar_wal := ar_wal a @ [(sid, r)]\<rparr> \<and> wal_key (sid, r) \<notin> set (map wal_key (ar_wal a))
     \<and> sid \<in> source_ids a"
  by (auto simp: insert_wal_row_def constraint_error_def has_source_iff split: if_splits)

lemma archive_ok_insert_wal_row:
  "archive_ok a \<Longrightarrow> insert_wal_row sid a r = Inr a' \<Longrightarrow> archive_ok a'"
proof -
  assume ok: "archive_ok a" and "insert_wal_row sid a r = Inr a'"
  then have a': "a' = a\<lparr>ar_wal := ar_wal a @ [(sid, r)]\<rparr>"
    and fresh: "wal_key (sid, r) \<notin> set (map wal_key (ar_wal a))" "sid \<in> source_ids a"
    using insert_wal_row_Inr by blast+
  show ?thesis unfolding a'
    using fresh archive_ok_refs [OF ok] by (intro archive_ok_set_wal ok) auto
qed

lemma insert_wal_rows_eq:
  "insert_wal_rows sid rows a = Inr a' \<Longrightarrow> a' = a\<lparr>ar_wal := ar_wal a @ map (Pair sid) rows\<rparr>"
  unfolding insert_wal_rows_def
proof (induction rows arbitrary: a)
  case Nil
  then show ?case by simp
next
  case (Cons r rows)
  then obtain b where "insert_wal_row sid a r = Inr b" "rfold (insert_wal_row sid) b rows = Inr a'"
    by (auto simp: result_simps)
  then show ?case using Cons.IH insert_wal_row_Inr by fastforce
qed

lemma archive_ok_insert_wal_rows [wf_intros]:
  "archive_ok a \<Longrightarrow> insert_wal_rows sid rows a = Inr a' \<Longrightarrow> archive_ok a'"
  unfolding insert_wal_rows_def
  by (erule rfold_invariant [where I = archive_ok]) (auto intro: archive_ok_insert_wal_row)

lemma insert_wal_rows_batch_eq:
  "insert_wal_rows_batch ticks a = Inr a' \<Longrightarrow>
   a' = a\<lparr>ar_wal := ar_wal a @ concat (map (\<lambda>(sid, rows). map (Pair sid) rows) ticks)\<rparr>"
  unfolding insert_wal_rows_batch_def
proof (induction ticks arbitrary: a)
  case Nil
  then show ?case by simp
next
  case (Cons t ticks)
  obtain sid rows where t: "t = (sid, rows)" by force
  with Cons.prems obtain b where b: "insert_wal_rows sid rows a = Inr b"
      "rfold (\<lambda>a (sid, rows). insert_wal_rows sid rows a) b ticks = Inr a'"
    by (auto simp: result_simps)
  from Cons.IH [OF b(2)] insert_wal_rows_eq [OF b(1)] show ?case by (simp add: t)
qed

lemma archive_ok_insert_wal_rows_batch [wf_intros]:
  "archive_ok a \<Longrightarrow> insert_wal_rows_batch ticks a = Inr a' \<Longrightarrow> archive_ok a'"
  unfolding insert_wal_rows_batch_def
  by (erule rfold_invariant [where I = archive_ok]) (auto intro: archive_ok_insert_wal_rows)

lemma archive_ok_prune [wf_intros]: "archive_ok a \<Longrightarrow> archive_ok (prune_wal sid s b a)"
  unfolding prune_wal_def
  by (intro archive_ok_set_wal distinct_filter_map) (auto dest: archive_ok_refs)

lemma insert_clock_offset_frame:
  "insert_clock_offset sid ts off a = Inr a' \<Longrightarrow>
   \<exists>c. a' = a\<lparr>ar_clock := c\<rparr>"
  by (auto simp: insert_clock_offset_def constraint_error_def split: if_splits intro: exI [of _ "ar_clock a"])

lemma archive_ok_clock [wf_intros]:
  assumes ok: "archive_ok a" and "insert_clock_offset sid ts off a = Inr a'"
  shows "archive_ok a'"
proof (cases "a' = a")
  case False
  with assms(2) have a': "a' = a\<lparr>ar_clock := ar_clock a @ [(sid, ts, off)]\<rparr>"
    and "(sid, ts) \<notin> set (map (\<lambda>(i, t, _). (i, t)) (ar_clock a))" "sid \<in> source_ids a"
    by (auto simp: insert_clock_offset_def constraint_error_def has_source_iff split: if_splits)
  then show ?thesis unfolding a'
    using archive_ok_refs [OF ok] by (intro archive_ok_set_clock ok) auto
qed (use ok in simp)

lemma insert_caller_rows_eq:
  "insert_caller_rows sid s rows a = Inr a' \<Longrightarrow>
   a' = a\<lparr>ar_caller := ar_caller a @ map (\<lambda>r. (sid, s, r)) rows\<rparr>"
  unfolding insert_caller_rows_def
proof (induction rows arbitrary: a)
  case Nil
  then show ?case by simp
next
  case (Cons r rows)
  then obtain b where b: "insert_caller_row sid s a r = Inr b" "rfold (insert_caller_row sid s) b rows = Inr a'"
    by (auto simp: result_simps)
  have "b = a\<lparr>ar_caller := ar_caller a @ [(sid, s, r)]\<rparr>"
    using b(1) by (auto simp: insert_caller_row_def constraint_error_def split: if_splits)
  with Cons.IH [OF b(2)] show ?case by simp
qed

lemma archive_ok_insert_caller_row:
  "archive_ok a \<Longrightarrow> insert_caller_row sid s a r = Inr a' \<Longrightarrow> archive_ok a'"
  using archive_ok_refs(3) [of a]
  by (auto simp: insert_caller_row_def constraint_error_def has_source_iff split: if_splits
      intro!: archive_ok_set_caller)

lemma archive_ok_caller [wf_intros]:
  "archive_ok a \<Longrightarrow> insert_caller_rows sid s rows a = Inr a' \<Longrightarrow> archive_ok a'"
  unfolding insert_caller_rows_def
  by (erule rfold_invariant [where I = archive_ok]) (auto intro: archive_ok_insert_caller_row)

lemma update_source_ids:
  "(\<And>r. src_id (f r) = src_id r) \<Longrightarrow>
   map src_id (ar_sources (update_source sid f a)) = map src_id (ar_sources a)"
  by (simp add: update_source_def)

lemma archive_ok_update_source [wf_intros]:
  assumes "archive_ok a" and "\<And>r. src_id (f r) = src_id r"
  shows "archive_ok (update_source sid f a)"
proof -
  have "source_ids (update_source sid f a) = source_ids a"
    using update_source_ids [of f sid a] assms(2) unfolding source_ids_def by (metis set_map)
  moreover have "ar_wal (update_source sid f a) = ar_wal a" "ar_segments (update_source sid f a) = ar_segments a"
    "ar_indexes (update_source sid f a) = ar_indexes a" "ar_clock (update_source sid f a) = ar_clock a"
    "ar_caller (update_source sid f a) = ar_caller a"
    by (simp_all add: update_source_def)
  ultimately show ?thesis
    using assms update_source_ids [of f sid a]
    by (simp add: archive_ok_def keys_ok_def refs_ok_def)
qed

lemma delete_segments_where_frame [simp]:
  "ar_wal (delete_segments_where P a) = ar_wal a" "ar_clock (delete_segments_where P a) = ar_clock a"
  "ar_caller (delete_segments_where P a) = ar_caller a" "ar_sources (delete_segments_where P a) = ar_sources a"
  "ar_documents (delete_segments_where P a) = ar_documents a" "ar_layout (delete_segments_where P a) = ar_layout a"
  "ar_segments (delete_segments_where P a) = filter (\<lambda>r. \<not> P r) (ar_segments a)"
  "source_ids (delete_segments_where P a) = source_ids a"
  by (simp_all add: delete_segments_where_def Let_def source_ids_def)

lemma archive_ok_delete_segments_where [wf_intros]:
  assumes ok: "archive_ok a" shows "archive_ok (delete_segments_where P a)"
proof -
  let ?b = "delete_segments_where P a"
  have "k \<in> seg_key ` set (ar_segments ?b)" if "k \<in> index_key ` set (ar_indexes ?b)" for k
  proof -
    have "k \<in> index_key ` set (ar_indexes a)" and kept: "k \<notin> seg_key ` set (filter P (ar_segments a))"
      using that by (auto simp: delete_segments_where_def Let_def)
    then have "k \<in> seg_key ` set (ar_segments a)" using ok by (auto simp: archive_ok_defs)
    with kept show ?thesis by auto
  qed
  then have "index_key ` set (ar_indexes ?b) \<subseteq> seg_key ` set (ar_segments ?b)" by blast
  moreover have "distinct (map index_key (ar_indexes ?b))"
    using ok by (simp add: delete_segments_where_def Let_def archive_ok_defs distinct_filter_map)
  ultimately show ?thesis
    using ok by (simp add: archive_ok_defs distinct_filter_map)
qed

lemma next_rowid_fresh: "next_rowid ids \<notin> set ids"
  by (auto simp: next_rowid_def col_max_Some split: option.splits)

lemma insert_source_Inr:
  "insert_source_sql rnd meta u a = Inr (sid, a') \<Longrightarrow>
   \<exists>row. a' = a\<lparr>ar_sources := ar_sources a @ [row]\<rparr> \<and> src_id row = sid \<and> src_meta row = meta
     \<and> \<not> src_complete row \<and> sid \<notin> source_ids a"
  using next_rowid_fresh [of "map src_id (ar_sources a)"]
  by (auto simp: insert_source_sql_def Let_def result_simps source_ids_def)

lemma archive_ok_insert_source [wf_intros]:
  assumes ok: "archive_ok a" and "insert_source_sql rnd meta u a = Inr (sid, a')"
  shows "archive_ok a'"
proof -
  obtain row where a': "a' = a\<lparr>ar_sources := ar_sources a @ [row]\<rparr>" "src_id row = sid"
    and fresh: "sid \<notin> source_ids a"
    using insert_source_Inr [OF assms(2)] by blast
  have "source_ids a \<subseteq> source_ids a'" by (auto simp: a' source_ids_def)
  then have "\<forall>r \<in> set rs. f r \<in> source_ids a \<Longrightarrow> \<forall>r \<in> set rs. f r \<in> source_ids a'" for f rs
    by blast
  with ok fresh show ?thesis
    by (simp add: archive_ok_defs a' source_ids_def)
qed

subsection \<open>A sample archive\<close>

text \<open>A source with one stream sealed up to 20 and live rows at 25 and 30, for the witnesses.\<close>

definition sample_meta :: source_meta where
  "sample_meta = \<lparr>sm_labels = [], sm_metadata = [], sm_clock_anchor = 0\<rparr>"

definition sample_segment_row :: segment_table_row where
  "sample_segment_row = \<lparr>sg_source = 1, sg_stream = str ''cpu'', sg_seq = 0,
     sg_meta = \<lparr>meta_rows = 2, meta_first_ts = 10, meta_last_ts = 20\<rparr>, sg_bytes = [7, 7],
     sg_column_index = None\<rparr>"

definition sample_archive :: archive where
  "sample_archive = create_archive\<lparr>
     ar_sources := [\<lparr>src_id = 1, src_meta = sample_meta, src_uuid = None, src_complete = False,
                     src_heartbeat = None, src_interval = None\<rparr>],
     ar_segments := [sample_segment_row],
     ar_wal := map (\<lambda>ts. (1, sample_row ts)) [25, 30]\<rparr>"

definition sample_db :: db where
  "sample_db = \<lparr>db_archive = sample_archive, db_faults = []\<rparr>"

lemma sample_archive_streams:
  "stream_rows sample_archive i t = (if i = 1 \<and> t = str ''cpu'' then [sample_segment_row] else [])"
  "wal_of sample_archive i t = (if i = 1 \<and> t = str ''cpu'' then [sample_row 25, sample_row 30] else [])"
  by (auto simp: stream_rows_def wal_of_def sample_archive_def create_archive_def seg_of_def sample_segment_row_def sample_row_def)

lemma archive_ok_sample: "archive_ok sample_archive"
  by (simp add: archive_ok_def keys_ok_def refs_ok_def sample_archive_def create_archive_def wal_key_def seg_key_def
      source_ids_def sample_row_def sample_segment_row_def)

end
