(* ===== verification/Seal_Store.thy ===== *)
theory Seal_Store
  imports Archive_Ops
begin

section \<open>The interface between the writer and the archive\<close>

text \<open>
  A seal reads the live tail of a stream, installs segments and then prunes. What
  it needs of the archive is stated here as a locale, its client lemmas are
  proved once inside it, and the archive's own operations interpret it: the
  writer's lemmas rest on the interpretation.
\<close>

text \<open>\<open>Encoded\<close> of \<open>src/writer.rs\<close>: one segment of a seal batch, numbered.\<close>

record encoded =
  en_stream :: rstring
  en_seq :: nat
  en_meta :: segment_meta
  en_bytes :: bytes
  en_caller_index :: "bytes option"

text \<open>Installing a batch, and the prune that follows each stream's last segment.\<close>

definition insert_encoded :: "i64 \<Rightarrow> archive \<Rightarrow> encoded \<Rightarrow> archive result" where
  "insert_encoded sid a e =
     insert_segment_with_index sid (en_stream e) (en_seq e) (en_meta e) (en_bytes e) (en_caller_index e) a"

abbreviation en_last :: "encoded \<Rightarrow> i64" where
  "en_last e \<equiv> meta_last_ts (en_meta e)"

text \<open>The last timestamp a batch gives a stream, and the order its segments must come in.\<close>

definition last_of :: "encoded list \<Rightarrow> rstring \<Rightarrow> i64 option" where
  "last_of es s = (case rev (filter (\<lambda>e. en_stream e = s) es) of [] \<Rightarrow> None | e # _ \<Rightarrow> Some (en_last e))"

fun ascending_from :: "(rstring \<Rightarrow> i64 option) \<Rightarrow> encoded list \<Rightarrow> bool" where
  "ascending_from w [] = True"
| "ascending_from w (e # es) =
     ((\<forall>m. w (en_stream e) = Some m \<longrightarrow> m \<le> en_last e)
      \<and> ascending_from (w(en_stream e := Some (en_last e))) es)"

lemma last_of_Nil [simp]: "last_of [] s = None"
  by (simp add: last_of_def)

lemma last_of_Cons:
  "last_of (e # es) s = (case last_of es s of Some m \<Rightarrow> Some m | None \<Rightarrow>
     if en_stream e = s then Some (en_last e) else None)"
proof (cases "filter (\<lambda>e. en_stream e = s) es" rule: rev_cases)
  case Nil
  then show ?thesis by (simp add: last_of_def)
next
  case (snoc ys y)
  then show ?thesis by (simp add: last_of_def)
qed

lemma last_of_append:
  "last_of (es @ fs) s = (case last_of fs s of Some m \<Rightarrow> Some m | None \<Rightarrow> last_of es s)"
  by (induction es) (auto simp: last_of_Cons split: option.splits)

lemma last_of_None: "last_of es s = None \<longleftrightarrow> s \<notin> en_stream ` set es"
  by (induction es) (auto simp: last_of_Cons split: option.splits)

definition live_above :: "i64 option \<Rightarrow> wal_row list \<Rightarrow> wal_row list" where
  "live_above w rows = (case w of None \<Rightarrow> rows | Some m \<Rightarrow> filter (\<lambda>r. m < row_ts r) rows)"

lemma live_above_None [simp]: "live_above None rows = rows"
  by (simp add: live_above_def)

lemma live_above_Some [simp]: "live_above (Some m) rows = filter (\<lambda>r. m < row_ts r) rows"
  by (simp add: live_above_def)

subsection \<open>The contract\<close>

locale seal_store =
  fixes live :: "'a \<Rightarrow> i64 \<Rightarrow> rstring \<Rightarrow> wal_row list"
    and mark :: "'a \<Rightarrow> i64 \<Rightarrow> rstring \<Rightarrow> i64 option"
    and install :: "i64 \<Rightarrow> 'a \<Rightarrow> encoded \<Rightarrow> 'a result"
    and prune :: "i64 \<Rightarrow> rstring \<Rightarrow> i64 \<Rightarrow> 'a \<Rightarrow> 'a"
    and ok :: "'a \<Rightarrow> bool"
  assumes install_ok: "ok a \<Longrightarrow> install sid a e = Inr b \<Longrightarrow> ok b"
    and install_mark:
      "install sid a e = Inr b \<Longrightarrow> (\<And>m. mark a sid (en_stream e) = Some m \<Longrightarrow> m \<le> en_last e) \<Longrightarrow>
       mark b i t = (if i = sid \<and> t = en_stream e then Some (en_last e) else mark a i t)"
    and install_live:
      "install sid a e = Inr b \<Longrightarrow> (\<And>m. mark a sid (en_stream e) = Some m \<Longrightarrow> m \<le> en_last e) \<Longrightarrow>
       live b i t = (if i = sid \<and> t = en_stream e then filter (\<lambda>r. en_last e < row_ts r) (live a i t)
                     else live a i t)"
    and prune_ok: "ok a \<Longrightarrow> ok (prune sid s m a)"
    and prune_mark: "mark (prune sid s m a) i t = mark a i t"
    and prune_live: "mark a sid s = Some w \<Longrightarrow> m \<le> w \<Longrightarrow> live (prune sid s m a) i t = live a i t"
begin

lemma install_all:
  assumes "rfold (install sid) a es = Inr b" and "ascending_from (mark a sid) es"
  shows "mark b i t = (if i = sid then (case last_of es t of Some m \<Rightarrow> Some m | None \<Rightarrow> mark a i t)
                       else mark a i t)"
    and "live b i t = (if i = sid then live_above (last_of es t) (live a i t) else live a i t)"
    and "ok a \<Longrightarrow> ok b"
proof -
  have "mark b i t = (if i = sid then (case last_of es t of Some m \<Rightarrow> Some m | None \<Rightarrow> mark a i t)
                       else mark a i t)
      \<and> live b i t = (if i = sid then live_above (last_of es t) (live a i t) else live a i t)
      \<and> (ok a \<longrightarrow> ok b) \<and> (\<forall>m m'. last_of es t = Some m \<longrightarrow> mark a sid t = Some m' \<longrightarrow> m' \<le> m)"
    using assms
  proof (induction es arbitrary: a)
    case Nil
    then show ?case by simp
  next
    case (Cons e es)
    then obtain c where c: "install sid a e = Inr c" "rfold (install sid) c es = Inr b"
      by (auto simp: result_simps)
    have above: "\<And>m. mark a sid (en_stream e) = Some m \<Longrightarrow> m \<le> en_last e"
      using Cons.prems(2) by simp
    have mark_c: "mark c i t = (if i = sid \<and> t = en_stream e then Some (en_last e) else mark a i t)" for i t
      by (rule install_mark [OF c(1) above])
    have "mark c sid = (mark a sid)(en_stream e := Some (en_last e))" by (auto simp: mark_c)
    then have asc: "ascending_from (mark c sid) es" using Cons.prems(2) by simp
    note IH = Cons.IH [OF c(2) asc]
    have live_c: "live c i t = (if i = sid \<and> t = en_stream e then filter (\<lambda>r. en_last e < row_ts r) (live a i t)
        else live a i t)"
      by (rule install_live [OF c(1) above])
    have "filter (\<lambda>r. m < row_ts r) (filter (\<lambda>r. en_last e < row_ts r) rs) = filter (\<lambda>r. m < row_ts r) rs"
      if "en_last e \<le> m" for m and rs :: "wal_row list"
      using that by (auto intro: filter_cong)
    then show ?case
      using IH live_c mark_c install_ok [OF _ c(1)] above
      by (cases "last_of es t"; cases "i = sid"; cases "t = en_stream e") (auto simp: last_of_Cons)
  qed
  then show "mark b i t = (if i = sid then (case last_of es t of Some m \<Rightarrow> Some m | None \<Rightarrow> mark a i t)
                       else mark a i t)"
    and "live b i t = (if i = sid then live_above (last_of es t) (live a i t) else live a i t)"
    and "ok a \<Longrightarrow> ok b"
    by blast+
qed

text \<open>Pruning streams up to their marks shows nothing to a reader.\<close>

lemma prune_all:
  assumes "\<And>e. e \<in> set es \<Longrightarrow> \<exists>w. mark a sid (en_stream e) = Some w \<and> en_last e \<le> w"
  shows "mark (foldl (\<lambda>a e. prune sid (en_stream e) (en_last e) a) a es) i t = mark a i t
    \<and> live (foldl (\<lambda>a e. prune sid (en_stream e) (en_last e) a) a es) i t = live a i t
    \<and> (ok a \<longrightarrow> ok (foldl (\<lambda>a e. prune sid (en_stream e) (en_last e) a) a es))"
  using assms
proof (induction es arbitrary: a)
  case Nil
  then show ?case by simp
next
  case (Cons e es)
  obtain w where w: "mark a sid (en_stream e) = Some w" "en_last e \<le> w"
    using Cons.prems by auto
  let ?b = "prune sid (en_stream e) (en_last e) a"
  have "mark (foldl (\<lambda>a e. prune sid (en_stream e) (en_last e) a) ?b es) i t = mark ?b i t
    \<and> live (foldl (\<lambda>a e. prune sid (en_stream e) (en_last e) a) ?b es) i t = live ?b i t
    \<and> (ok ?b \<longrightarrow> ok (foldl (\<lambda>a e. prune sid (en_stream e) (en_last e) a) ?b es))"
    using Cons.prems by (intro Cons.IH) (simp add: prune_mark)
  then show ?case by (auto simp: prune_mark prune_live [OF w] prune_ok)
qed

end

subsection \<open>The archive provides it\<close>

interpretation ar: seal_store live_wal watermark insert_encoded prune_wal archive_ok
proof unfold_locales
  fix a b sid e
  assume "archive_ok a" "insert_encoded sid a e = Inr b"
  then show "archive_ok b"
    by (auto simp: insert_encoded_def intro: archive_ok_insert_segment)
next
  fix a b sid e i t
  assume ins: "insert_encoded sid a e = Inr b"
    and above: "\<And>m. watermark a sid (en_stream e) = Some m \<Longrightarrow> m \<le> en_last e"
  note ins' = ins [unfolded insert_encoded_def]
  show "watermark b i t = (if i = sid \<and> t = en_stream e then Some (en_last e) else watermark a i t)"
    using watermark_insert_segment(1) [OF ins' above]
      watermark_insert_segment(2) [OF ins' above, of i t] by auto
  show "live_wal b i t = (if i = sid \<and> t = en_stream e
      then filter (\<lambda>r. en_last e < row_ts r) (live_wal a i t) else live_wal a i t)"
    using live_wal_insert_segment [OF ins' above, of i t] by auto
qed (auto simp: frame_simps live_wal_prune intro: archive_ok_prune)

end
