(* ===== verification/Writer_Seal.thy ===== *)
theory Writer_Seal
  imports Seal_Store Segment_Contract
begin

section \<open>Sealing and adopting (\<open>src/writer.rs\<close>)\<close>

text \<open>
  \<open>split_seal\<close>, \<open>seal_batch\<close> and \<open>adopt_segment\<close>: how live rows become segments,
  and how a segment that arrives already sealed is taken. The state is what these
  functions take by \<open>&mut\<close>: the connection and the two in-memory maps, the next
  sequence number and the newest sealed timestamp of each stream. A thread that
  panics is a failure of its own, beside the errors.
\<close>

subsection \<open>State and failures\<close>

datatype failure = Fails error | Panics string

record seal_state =
  ss_db :: db
  ss_next_seq :: "i64 \<times> rstring \<Rightarrow> nat option"
  ss_watermarks :: "i64 \<times> rstring \<Rightarrow> i64 option"

abbreviation ss_archive :: "seal_state \<Rightarrow> archive" where
  "ss_archive st \<equiv> db_archive (ss_db st)"

fun lift_error :: "'a result \<Rightarrow> failure + 'a" where
  "lift_error (Inl e) = Inl (Fails e)"
| "lift_error (Inr x) = Inr x"

lemma lift_error_Inr [result_simps]: "lift_error r = Inr x \<longleftrightarrow> r = Inr x"
  by (cases r) auto

lemma lift_error_Inl [result_simps]: "lift_error r = Inl f \<longleftrightarrow> (\<exists>e. r = Inl e \<and> f = Fails e)"
  by (cases r) auto

text \<open>\<open>Option::into_iter().collect()\<close>, and the sequence number a stream writes next.\<close>

definition opt_list :: "'a option \<Rightarrow> 'a list" where
  "opt_list x = (case x of None \<Rightarrow> [] | Some y \<Rightarrow> [y])"

definition opt_holds :: "('a \<Rightarrow> bool) \<Rightarrow> 'a option \<Rightarrow> bool" where
  "opt_holds P x = (case x of None \<Rightarrow> False | Some y \<Rightarrow> P y)"

lemma opt_holds_iff: "opt_holds P x \<longleftrightarrow> (\<exists>y. x = Some y \<and> P y)"
  by (cases x) (auto simp: opt_holds_def)

definition or_zero :: "nat option \<Rightarrow> nat" where
  "or_zero x = (case x of None \<Rightarrow> 0 | Some n \<Rightarrow> n)"

subsection \<open>\<open>split_seal\<close>\<close>

text \<open>
  The loop over the parts: \<open>before\<close> is \<open>rows[..start]\<close> and \<open>rest\<close> is \<open>rows[start..]\<close>.
  \<open>None\<close> is a part that does not reach an edge it shares.
\<close>

function split_parts ::
  "encoder \<Rightarrow> encode_context \<Rightarrow> nat \<Rightarrow> wal_row list \<Rightarrow> wal_row list \<Rightarrow> segment list option result" where
  "split_parts encoder ctx n before rest =
    (if rest = [] then Inr (Some [])
     else
       let part = take (max n 1) rest; rest' = drop (max n 1) rest
       in rbind (materialize_after encoder ctx before part) (\<lambda>segment.
            case segment of
              None \<Rightarrow> Inr None
            | Some s \<Rightarrow>
                if (before = [] \<or> seg_first_ts s = row_ts (hd part))
                   \<and> (rest' = [] \<or> seg_last_ts s = row_ts (last part))
                then rmap (map_option (Cons s)) (split_parts encoder ctx n (before @ part) rest')
                else Inr None))"
  by pat_completeness auto

termination split_parts
  by (relation "measure (\<lambda>(_, _, _, _, rest). length rest)") auto

declare split_parts.simps [simp del]

definition split_seal ::
  "encoder \<Rightarrow> encode_context \<Rightarrow> wal_row list \<Rightarrow> nat \<Rightarrow> segment list result" where
  "split_seal encoder ctx rows max_rows =
    (let n = max max_rows 1
     in if length rows \<le> n then rmap opt_list (materialize encoder ctx rows)
        else rbind (split_parts encoder ctx n [] rows) (\<lambda>parts.
               case parts of
                 None \<Rightarrow> rmap opt_list (materialize encoder ctx rows)
               | Some ps \<Rightarrow> Inr ps))"

subsection \<open>\<open>seal_batch\<close>\<close>

definition encoded_part :: "rstring \<Rightarrow> nat \<Rightarrow> segment \<Rightarrow> encoded" where
  "encoded_part stream seq s =
     \<lparr>en_stream = stream, en_seq = seq,
      en_meta = \<lparr>meta_rows = seg_rows s, meta_first_ts = seg_first_ts s, meta_last_ts = seg_last_ts s\<rparr>,
      en_bytes = seg_bytes s, en_caller_index = seg_index s\<rparr>"

definition number_parts :: "rstring \<Rightarrow> nat \<Rightarrow> segment list \<Rightarrow> encoded list" where
  "number_parts stream first_seq parts =
     map2 (encoded_part stream) [first_seq ..< first_seq + length parts] parts"

text \<open>
  One stream of the batch: its live rows split and encoded, and the clock
  observation its last sealed row carries, the newest of the batch winning.
\<close>

definition encode_stream ::
  "archive \<Rightarrow> i64 \<Rightarrow> rstring option \<Rightarrow> (i64 \<times> rstring \<Rightarrow> nat option) \<Rightarrow> nat \<Rightarrow> encoder \<Rightarrow>
   encoded list \<times> (i64 \<times> i64) option \<Rightarrow> rstring \<Rightarrow> failure + encoded list \<times> (i64 \<times> i64) option" where
  "encode_stream a sid uuid next_seq max_rows encoder acc stream =
    (let rows = live_wal a sid stream
     in if rows = [] then Inr acc
        else
          rbind (lift_error (split_seal encoder (with_source_uuid (new_context sid stream) uuid) rows max_rows)) (\<lambda>parts.
            if parts = [] then Inr acc
            else
              case find (\<lambda>r. row_ts r = seg_last_ts (last parts)) (rev rows) of
                None \<Rightarrow> Inl (Panics ''the segment's last_ts is one of the rows, by the check above'')
              | Some r \<Rightarrow>
                  Inr (fst acc @ number_parts stream (or_zero (next_seq (sid, stream))) parts,
                       case snd acc of
                         None \<Rightarrow> Some (row_ts r, row_wall_offset r)
                       | Some (seen, off) \<Rightarrow>
                           if row_ts r \<ge> seen then Some (row_ts r, row_wall_offset r) else Some (seen, off))))"

definition encode_batch ::
  "archive \<Rightarrow> i64 \<Rightarrow> (i64 \<times> rstring \<Rightarrow> nat option) \<Rightarrow> nat \<Rightarrow> encoder \<Rightarrow> rstring list \<Rightarrow>
   failure + encoded list \<times> (i64 \<times> i64) option" where
  "encode_batch a sid next_seq max_rows encoder batch =
     rbind (lift_error (source_uuid a sid)) (\<lambda>uuid.
       rfold (encode_stream a sid uuid next_seq max_rows encoder) ([], None) batch)"

definition install_batch :: "i64 \<Rightarrow> encoded list \<Rightarrow> (i64 \<times> i64) option \<Rightarrow> archive \<Rightarrow> archive result" where
  "install_batch sid es observation a =
     rbind (rfold (insert_encoded sid) a es) (\<lambda>a.
       case observation of
         None \<Rightarrow> Inr a
       | Some (ts, offset) \<Rightarrow> insert_clock_offset sid ts offset a)"

text \<open>After the commit: the maps advance, then each stream's last segment prunes its rows.\<close>

definition advance_maps :: "i64 \<Rightarrow> encoded list \<Rightarrow> seal_state \<Rightarrow> seal_state" where
  "advance_maps sid es st =
     foldl (\<lambda>st e. st\<lparr>ss_next_seq := (ss_next_seq st)((sid, en_stream e) := Some (en_seq e + 1)),
                     ss_watermarks := (ss_watermarks st)((sid, en_stream e) := Some (en_last e))\<rparr>) st es"

fun prune_points :: "encoded list \<Rightarrow> encoded list" where
  "prune_points [] = []"
| "prune_points [e] = [e]"
| "prune_points (e # f # es) =
     (if en_stream f = en_stream e then prune_points (f # es) else e # prune_points (f # es))"

fun prune_batch :: "i64 \<Rightarrow> encoded list \<Rightarrow> db \<Rightarrow> unit result \<times> db" where
  "prune_batch sid [] db = (Inr (), db)"
| "prune_batch sid (e # es) db =
    (case transaction (unit_body (\<lambda>a. Inr (prune_wal sid (en_stream e) (en_last e) a))) db of
       (Inl err, db') \<Rightarrow> (Inl err, db')
     | (Inr _, db') \<Rightarrow> prune_batch sid es db')"

definition seal_batch ::
  "i64 \<Rightarrow> rstring list \<Rightarrow> nat \<Rightarrow> encoder \<Rightarrow> seal_state \<Rightarrow> (failure + unit) \<times> seal_state" where
  "seal_batch sid batch max_rows encoder st =
    (case encode_batch (ss_archive st) sid (ss_next_seq st) max_rows encoder batch of
       Inl f \<Rightarrow> (Inl f, st)
     | Inr (es, observation) \<Rightarrow>
         (case transaction (unit_body (install_batch sid es observation)) (ss_db st) of
            (Inl e, db) \<Rightarrow> (Inl (Fails e), st\<lparr>ss_db := db\<rparr>)
          | (Inr _, db) \<Rightarrow>
              let (r, db') = prune_batch sid (prune_points es) db
              in (lift_error r, (advance_maps sid es st)\<lparr>ss_db := db'\<rparr>)))"

subsection \<open>\<open>adopt_segment\<close>\<close>

text \<open>\<open>Adopted\<close>: a segment as it arrives, sealed elsewhere.\<close>

record adopted =
  ad_stream :: rstring
  ad_meta :: segment_meta
  ad_bytes :: bytes
  ad_caller_index :: "bytes option"

definition adopt_segment :: "i64 \<Rightarrow> adopted \<Rightarrow> seal_state \<Rightarrow> bool result \<times> seal_state" where
  "adopt_segment sid seg st =
    (let s = ad_stream seg; m = ad_meta seg; w = ss_watermarks st (sid, s)
     in if meta_rows m = 0 \<or> meta_first_ts m > meta_last_ts m
        then (Inl (Message ''not a segment that can exist''), st)
        else if opt_holds (\<lambda>x. meta_last_ts m \<le> x) w then (Inr False, st)
        else if opt_holds (\<lambda>x. meta_first_ts m \<le> x) w
        then (Inl (Message ''straddles the stream's newest sealed row''), st)
        else if opt_holds (\<lambda>x. x \<le> meta_last_ts m) (span_first_ts (live_wal_span (ss_archive st) sid s))
        then (Inl (Message ''ends at or after an unsealed row already in the WAL''), st)
        else
          let q = or_zero (ss_next_seq st (sid, s))
          in case transaction (unit_body (insert_segment_with_index sid s q m (ad_bytes seg) (ad_caller_index seg)))
                  (ss_db st) of
               (Inl e, db) \<Rightarrow> (Inl e, st\<lparr>ss_db := db\<rparr>)
             | (Inr _, db) \<Rightarrow>
                 (Inr True,
                  st\<lparr>ss_db := db,
                     ss_next_seq := (ss_next_seq st)((sid, s) := Some (q + 1)),
                     ss_watermarks := (ss_watermarks st)((sid, s) := Some (meta_last_ts m))\<rparr>))"

subsection \<open>The parts of a split tile the rows\<close>

text \<open>
  Spans in strictly ascending order, each within the contract over the whole run,
  and no row between the first and the last of them left out.
\<close>

definition tiles :: "wal_row list \<Rightarrow> segment list \<Rightarrow> bool" where
  "tiles rows ps \<longleftrightarrow>
     sorted_wrt (\<lambda>s t. seg_last_ts s < seg_first_ts t) ps
     \<and> (\<forall>s \<in> set ps. contract rows s)
     \<and> (ps \<noteq> [] \<longrightarrow> (\<forall>r \<in> set rows. seg_first_ts (hd ps) \<le> row_ts r \<longrightarrow> row_ts r \<le> seg_last_ts (last ps) \<longrightarrow>
           (\<exists>s \<in> set ps. r \<in> set (covered_rows s rows))))"

lemma tiles_Nil [simp]: "tiles rows []"
  by (simp add: tiles_def)

lemma covered_rows_append: "covered_rows s (xs @ ys) = covered_rows s xs @ covered_rows s ys"
  by (simp add: covered_rows_def)

lemma covered_rows_empty:
  "(\<And>r. r \<in> set xs \<Longrightarrow> row_ts r < seg_first_ts s \<or> seg_last_ts s < row_ts r) \<Longrightarrow> covered_rows s xs = []"
  by (force simp: covered_rows_def filter_empty_conv)

lemma sorted_bounds:
  assumes "sorted_wrt (<) (map row_ts (xs @ ys))" "xs \<noteq> []" "ys \<noteq> []"
  shows "row_ts (last xs) < row_ts (hd ys)" and "x \<in> set xs \<Longrightarrow> row_ts x < row_ts (hd ys)"
    and "y \<in> set ys \<Longrightarrow> row_ts (last xs) < row_ts y"
    and "x \<in> set xs \<Longrightarrow> row_ts x \<le> row_ts (last xs)"
    and "y \<in> set ys \<Longrightarrow> row_ts (hd ys) \<le> row_ts y"
proof -
  have all: "\<And>x y. x \<in> set xs \<Longrightarrow> y \<in> set ys \<Longrightarrow> row_ts x < row_ts y"
    using assms(1) by (auto simp: sorted_wrt_append)
  from all assms show "row_ts (last xs) < row_ts (hd ys)" by simp
  from all assms show "x \<in> set xs \<Longrightarrow> row_ts x < row_ts (hd ys)" by simp
  from all assms show "y \<in> set ys \<Longrightarrow> row_ts (last xs) < row_ts y" by simp
  show "x \<in> set xs \<Longrightarrow> row_ts x \<le> row_ts (last xs)"
    using assms by (cases xs rule: rev_cases) (auto simp: sorted_wrt_append)
  show "y \<in> set ys \<Longrightarrow> row_ts (hd ys) \<le> row_ts y"
    using assms by (cases ys) (auto simp: sorted_wrt_append)
qed

lemma contract_append1:
  assumes "sorted_wrt (<) (map row_ts (xs @ ys))" "contract xs s"
  shows "contract (xs @ ys) s" and "covered_rows s (xs @ ys) = covered_rows s xs"
proof -
  have "covered_rows s ys = []" 
  proof (cases "ys = []")
    case False
    then show ?thesis using sorted_bounds(3) [OF assms(1) _ False] assms(2)
      by (intro covered_rows_empty) (force simp: contract_def)
  qed (simp add: covered_rows_def)
  then show c: "covered_rows s (xs @ ys) = covered_rows s xs" by (simp add: covered_rows_append)
  have "row_ts (last xs) \<le> row_ts (last (xs @ ys))"
    using sorted_bounds(3) [OF assms(1), of "last ys"] assms(2) by (cases "ys = []") (auto simp: contract_def)
  then show "contract (xs @ ys) s" using assms(2) c by (auto simp: contract_def)
qed

lemma contract_append2:
  assumes "sorted_wrt (<) (map row_ts (xs @ ys))" "contract ys s"
  shows "contract (xs @ ys) s" and "covered_rows s (xs @ ys) = covered_rows s ys"
proof -
  have ne: "ys \<noteq> []" using assms(2) by (simp add: contract_def)
  have "covered_rows s xs = []"
  proof (cases "xs = []")
    case False
    then show ?thesis using sorted_bounds(2) [OF assms(1) False ne] assms(2)
      by (intro covered_rows_empty) (force simp: contract_def)
  qed (simp add: covered_rows_def)
  then show c: "covered_rows s (xs @ ys) = covered_rows s ys" by (simp add: covered_rows_append)
  have "row_ts (hd (xs @ ys)) \<le> row_ts (hd ys)"
    using sorted_bounds(2) [OF assms(1) _ ne, of "hd xs"] by (cases "xs = []") auto
  then show "contract (xs @ ys) s" using assms(2) c ne by (auto simp: contract_def)
qed

lemma tiles_single: "contract rows s \<Longrightarrow> tiles rows [s]"
  by (auto simp: tiles_def covered_rows_def)

text \<open>A part that reaches the edge it shares goes before a tiling of the rest that starts there.\<close>

lemma tiles_Cons:
  assumes sorted: "sorted_wrt (<) (map row_ts (xs @ ys))"
    and s: "contract xs s" "seg_last_ts s = row_ts (last xs)"
    and ps: "tiles ys ps" "ps \<noteq> []" "seg_first_ts (hd ps) = row_ts (hd ys)"
  shows "tiles (xs @ ys) (s # ps)"
proof -
  have ne: "xs \<noteq> []" "ys \<noteq> []" using s(1) ps(1,2) by (auto simp: tiles_def contract_def)
  note b = sorted_bounds [OF sorted ne]
  have above: "\<And>p. p \<in> set ps \<Longrightarrow> row_ts (hd ys) \<le> seg_first_ts p"
    using ps(1) by (auto simp: tiles_def contract_def)
  have "sorted_wrt (\<lambda>s t. seg_last_ts s < seg_first_ts t) (s # ps)"
    using above b(1) s(2) ps(1) by (force simp: tiles_def)
  moreover have "\<forall>p \<in> set (s # ps). contract (xs @ ys) p"
    using contract_append1 [OF sorted s(1)] contract_append2 [OF sorted] ps(1)
    by (auto simp: tiles_def)
  moreover have "\<exists>p \<in> set (s # ps). r \<in> set (covered_rows p (xs @ ys))"
    if r: "r \<in> set (xs @ ys)" "seg_first_ts s \<le> row_ts r" "row_ts r \<le> seg_last_ts (last ps)" for r
  proof (cases "r \<in> set xs")
    case True
    then show ?thesis using r b(4) s(2) by (auto simp: covered_rows_def)
  next
    case False
    then have "r \<in> set ys" using r(1) by simp
    then have "\<exists>p \<in> set ps. r \<in> set (covered_rows p ys)"
      using ps r(3) b(5) by (auto simp: tiles_def)
    then show ?thesis by (auto simp: covered_rows_append)
  qed
  ultimately show ?thesis using ps(2) by (simp add: tiles_def)
qed

lemma split_parts_step:
  assumes "split_parts enc ctx n before rest = Inr (Some ps)" "rest \<noteq> []"
  shows "\<exists>s ps'. materialize_after enc ctx before (take (max n 1) rest) = Inr (Some s)
    \<and> (before = [] \<or> seg_first_ts s = row_ts (hd (take (max n 1) rest)))
    \<and> (drop (max n 1) rest = [] \<or> seg_last_ts s = row_ts (last (take (max n 1) rest)))
    \<and> split_parts enc ctx n (before @ take (max n 1) rest) (drop (max n 1) rest) = Inr (Some ps') \<and> ps = s # ps'"
proof -
  obtain x where x: "materialize_after enc ctx before (take (max n 1) rest) = Inr x"
    and rest: "(case x of None \<Rightarrow> Inr None
            | Some s \<Rightarrow>
                if (before = [] \<or> seg_first_ts s = row_ts (hd (take (max n 1) rest)))
                   \<and> (drop (max n 1) rest = [] \<or> seg_last_ts s = row_ts (last (take (max n 1) rest)))
                then rmap (map_option (Cons s)) (split_parts enc ctx n (before @ take (max n 1) rest) (drop (max n 1) rest))
                else Inr None) = Inr (Some ps)"
    using assms(1) unfolding split_parts.simps [of enc ctx n before rest] Let_def
    by (simp add: assms(2) result_simps del: One_nat_def drop_eq_Nil hd_take) blast
  then obtain s where "x = Some s" by (cases x) auto
  with rest x show ?thesis
    by (simp add: result_simps del: One_nat_def drop_eq_Nil hd_take split: if_splits) (metis map_option_eq_Some)
qed

lemma split_parts_tiles:
  assumes "sorted_wrt (<) (map row_ts rest)" and "split_parts enc ctx n before rest = Inr (Some ps)"
  shows "tiles rest ps \<and> (rest \<noteq> [] \<longrightarrow> ps \<noteq> [])
    \<and> (before \<noteq> [] \<longrightarrow> rest \<noteq> [] \<longrightarrow> seg_first_ts (hd ps) = row_ts (hd rest))
    \<and> (\<forall>s \<in> set ps. seg_rows s \<le> max n 1)"
  using assms
proof (induction enc ctx n before rest arbitrary: ps rule: split_parts.induct)
  case (1 enc ctx n before rest)
  show ?case
  proof (cases "rest = []")
    case True
    with "1.prems"(2) show ?thesis by (simp add: split_parts.simps)
  next
    case False
    let ?part = "take (max n 1) rest" and ?rest' = "drop (max n 1) rest"
    obtain s ps' where s: "materialize_after enc ctx before ?part = Inr (Some s)"
      and edge: "before = [] \<or> seg_first_ts s = row_ts (hd ?part)" "?rest' = [] \<or> seg_last_ts s = row_ts (last ?part)"
      and ps': "split_parts enc ctx n (before @ ?part) ?rest' = Inr (Some ps')" "ps = s # ps'"
      using split_parts_step [OF "1.prems"(2) False] by metis
    have part: "?part \<noteq> []" using False by simp
    have con: "contract ?part s" by (rule materialize_after_Some [OF s])
    have sorted: "sorted_wrt (<) (map row_ts (?part @ ?rest'))" using "1.prems"(1) by simp
    then have sorted': "sorted_wrt (<) (map row_ts ?rest')"
      unfolding map_append sorted_wrt_append by blast
    have IH: "tiles ?rest' ps' \<and> (?rest' \<noteq> [] \<longrightarrow> ps' \<noteq> [])
      \<and> (before @ ?part \<noteq> [] \<longrightarrow> ?rest' \<noteq> [] \<longrightarrow> seg_first_ts (hd ps') = row_ts (hd ?rest'))
      \<and> (\<forall>s \<in> set ps'. seg_rows s \<le> max n 1)"
      using "1.IH" [OF False refl refl _ sorted' ps'(1)] edge by blast
    have rows: "seg_rows s \<le> max n 1"
      using con length_filter_le [of _ ?part] by (simp add: contract_def covered_rows_def)
    have hd_part: "hd ?part = hd rest" by (simp add: hd_take)
    show ?thesis
    proof (cases "?rest' = []")
      case True
      then have "ps' = []" using ps'(1) by (simp add: split_parts.simps)
      moreover have "?part = rest" using True by simp
      ultimately show ?thesis using con ps'(2) edge(1) rows tiles_single by auto
    next
      case False
      have "tiles (?part @ ?rest') (s # ps')"
        using IH edge(2) False part by (intro tiles_Cons [OF sorted con]) auto
      then show ?thesis using ps'(2) IH rows edge(1) hd_part by auto
    qed
  qed
qed

lemma tiles_unique:
  assumes "tiles rows ps" "s \<in> set ps" "t \<in> set ps" "r \<in> set (covered_rows s rows)" "r \<in> set (covered_rows t rows)"
  shows "s = t"
proof -
  have "s = t \<or> seg_last_ts s < seg_first_ts t \<or> seg_last_ts t < seg_first_ts s"
    using assms(1,2,3) unfolding tiles_def
    by (metis sorted_wrt_iff_nth_less in_set_conv_nth linorder_neqE_nat)
  with assms(4,5) show ?thesis by (auto simp: covered_rows_def)
qed

lemma split_seal_main:
  assumes "sorted_wrt (<) (map row_ts rows)" and "split_seal encoder ctx rows max_rows = Inr parts"
  shows "tiles rows parts \<and> (1 < length parts \<longrightarrow> (\<forall>s \<in> set parts. seg_rows s \<le> max max_rows 1))"
proof -
  have whole: "tiles rows parts \<and> length parts \<le> 1" if "rmap opt_list (materialize encoder ctx rows) = Inr parts"
    using that tiles_single [OF materialize_Some] by (auto simp: result_simps opt_list_def split: option.splits)
  have split: "tiles rows ps \<and> (\<forall>s \<in> set ps. seg_rows s \<le> max (max max_rows 1) 1)"
    if "split_parts encoder ctx (max max_rows 1) [] rows = Inr (Some ps)" for ps
    using split_parts_tiles [OF assms(1) that] by blast
  show ?thesis
    using assms(2) whole split
    by (fastforce simp: split_seal_def Let_def result_simps split: if_splits option.splits)
qed

text \<open>
  C4: what \<open>split_seal\<close> returns for a live run in timestamp order: segments with
  strictly ascending, disjoint spans, each claiming exactly the number of rows its
  span holds, with every row between the start of the first and the end of the last
  in exactly one of them; and where it did split, no segment over the row cap.
\<close>

theorem split_seal_tiles:
  assumes "sorted_wrt (<) (map row_ts rows)" and "split_seal encoder ctx rows max_rows = Inr parts"
  shows "sorted_wrt (\<lambda>s t. seg_last_ts s < seg_first_ts t) parts
    \<and> (\<forall>s \<in> set parts. 0 < seg_rows s \<and> seg_first_ts s \<le> seg_last_ts s \<and> seg_rows s = length (covered_rows s rows))
    \<and> (\<forall>r \<in> set rows. parts \<noteq> [] \<and> seg_first_ts (hd parts) \<le> row_ts r \<and> row_ts r \<le> seg_last_ts (last parts) \<longrightarrow>
          (\<exists>!s. s \<in> set parts \<and> r \<in> set (covered_rows s rows)))
    \<and> (1 < length parts \<longrightarrow> (\<forall>s \<in> set parts. seg_rows s \<le> max max_rows 1))"
proof -
  note main = split_seal_main [OF assms]
  have "\<exists>!s. s \<in> set parts \<and> r \<in> set (covered_rows s rows)"
    if "r \<in> set rows" "parts \<noteq> []" "seg_first_ts (hd parts) \<le> row_ts r" "row_ts r \<le> seg_last_ts (last parts)" for r
  proof -
    have "\<exists>s. s \<in> set parts \<and> r \<in> set (covered_rows s rows)"
      using main that by (auto simp: tiles_def)
    then show ?thesis using main tiles_unique by blast
  qed
  moreover have "\<forall>s \<in> set parts. 0 < seg_rows s \<and> seg_first_ts s \<le> seg_last_ts s \<and> seg_rows s = length (covered_rows s rows)"
    "sorted_wrt (\<lambda>s t. seg_last_ts s < seg_first_ts t) parts"
    using main by (auto simp: tiles_def contract_def)
  ultimately show ?thesis using main by blast
qed

definition split_sample :: "wal_row list" where
  "split_sample = [sample_row 10, sample_row 20, sample_row 30]"

theorem split_seal_tiles_witness:
  "sorted_wrt (<) (map row_ts split_sample)
    \<and> (\<exists>parts. split_seal all_rows_encoder sample_context split_sample 2 = Inr parts \<and> length parts = 2
         \<and> (\<forall>s \<in> set parts. seg_rows s \<le> 2))"
proof -
  have sorted: "sorted_wrt (<) (map row_ts split_sample)" by code_simp
  obtain parts where parts: "split_seal all_rows_encoder sample_context split_sample 2 = Inr parts" "length parts = 2"
    by (rule that [of "projr (split_seal all_rows_encoder sample_context split_sample 2)"]) code_simp+
  with split_seal_tiles [OF sorted parts(1)] sorted show ?thesis by auto
qed

end
