(* ===== verification/Seal_Seam.thy ===== *)
theory Seal_Seam
  imports Writer_Seal
begin

section \<open>What a seal and an adoption do to the archive\<close>

text \<open>
  The lemmas and properties of \<open>seal_batch\<close> and \<open>adopt_segment\<close>: the parts of a batch
  tile the live rows they came from, a committed batch leaves the live tail above
  them and nothing else changed, and the writer's maps stay in step.
\<close>

subsection \<open>What a batch encodes\<close>

definition seal_context :: "archive \<Rightarrow> i64 \<Rightarrow> rstring \<Rightarrow> encode_context" where
  "seal_context a sid s =
     with_source_uuid (new_context sid s) (case source_uuid a sid of Inl _ \<Rightarrow> None | Inr u \<Rightarrow> u)"

definition stream_parts :: "archive \<Rightarrow> i64 \<Rightarrow> nat \<Rightarrow> encoder \<Rightarrow> rstring \<Rightarrow> segment list" where
  "stream_parts a sid n enc s =
     (case split_seal enc (seal_context a sid s) (live_wal a sid s) n of Inl _ \<Rightarrow> [] | Inr ps \<Rightarrow> ps)"

definition stream_block ::
  "archive \<Rightarrow> i64 \<Rightarrow> (i64 \<times> rstring \<Rightarrow> nat option) \<Rightarrow> nat \<Rightarrow> encoder \<Rightarrow> rstring \<Rightarrow> encoded list" where
  "stream_block a sid nxt n enc s =
     number_parts s (or_zero (nxt (sid, s))) (stream_parts a sid n enc s)"

lemma number_parts_Nil [simp]: "number_parts s q [] = []"
  by (simp add: number_parts_def)

lemma number_parts_Cons [simp]:
  "number_parts s q (p # ps) = encoded_part s q p # number_parts s (Suc q) ps"
  by (simp add: number_parts_def upt_conv_Cons del: upt_Suc)

lemma encoded_part_simps [simp]:
  "en_stream (encoded_part s q p) = s" "en_seq (encoded_part s q p) = q"
  "en_last (encoded_part s q p) = seg_last_ts p" "en_bytes (encoded_part s q p) = seg_bytes p"
  "meta_first_ts (en_meta (encoded_part s q p)) = seg_first_ts p"
  "meta_rows (en_meta (encoded_part s q p)) = seg_rows p"
  "en_caller_index (encoded_part s q p) = seg_index p"
  by (simp_all add: encoded_part_def)

lemma number_parts_stream: "e \<in> set (number_parts s q ps) \<Longrightarrow> en_stream e = s"
  by (induction ps arbitrary: q) auto

lemma number_parts_Nil_iff [simp]: "number_parts s q ps = [] \<longleftrightarrow> ps = []"
  by (cases ps) auto

lemma map_last_number_parts [simp]: "map en_last (number_parts s q ps) = map seg_last_ts ps"
  by (induction ps arbitrary: q) auto

lemma number_parts_seq: "e \<in> set (number_parts s q ps) \<Longrightarrow> q \<le> en_seq e \<and> en_seq e < q + length ps"
  by (induction ps arbitrary: q) fastforce+

lemma last_number_parts: "ps \<noteq> [] \<Longrightarrow>
  en_last (last (number_parts s q ps)) = seg_last_ts (last ps)"
  by (metis last_map map_last_number_parts number_parts_Nil_iff)

lemma split_seal_Nil [simp]: "split_seal enc ctx [] n = Inr []"
  by (simp add: split_seal_def opt_list_def)

lemma encode_stream_Inr:
  assumes "source_uuid a sid = Inr uuid"
    and "encode_stream a sid uuid nxt n enc acc s = Inr acc'"
  shows "split_seal enc (seal_context a sid s) (live_wal a sid s) n = Inr (stream_parts a sid n enc s)
    \<and> fst acc' = fst acc @ stream_block a sid nxt n enc s"
  using assms
  by (auto simp: encode_stream_def stream_block_def stream_parts_def seal_context_def Let_def result_simps
      split: if_splits option.splits)

lemma encode_batch_fold:
  assumes "source_uuid a sid = Inr uuid"
    and "rfold (encode_stream a sid uuid nxt n enc) acc batch = Inr acc'"
  shows "(\<forall>s \<in> set batch. split_seal enc (seal_context a sid s) (live_wal a sid s) n
            = Inr (stream_parts a sid n enc s))
    \<and> fst acc' = fst acc @ concat (map (stream_block a sid nxt n enc) batch)"
  using assms(2)
proof (induction batch arbitrary: acc)
  case Nil
  then show ?case by simp
next
  case (Cons s batch)
  then obtain acc1 where "encode_stream a sid uuid nxt n enc acc s = Inr acc1"
    "rfold (encode_stream a sid uuid nxt n enc) acc1 batch = Inr acc'"
    by (auto simp: result_simps)
  with encode_stream_Inr [OF assms(1) this(1)] Cons.IH show ?case by auto
qed

lemma encode_batch_Inr:
  assumes "encode_batch a sid nxt n enc batch = Inr (es, obs)"
  shows "s \<in> set batch \<Longrightarrow> split_seal enc (seal_context a sid s) (live_wal a sid s) n
            = Inr (stream_parts a sid n enc s)"
    and "es = concat (map (stream_block a sid nxt n enc) batch)"
proof -
  obtain uuid where "source_uuid a sid = Inr uuid"
    "rfold (encode_stream a sid uuid nxt n enc) ([], None) batch = Inr (es, obs)"
    using assms by (auto simp: encode_batch_def result_simps)
  from encode_batch_fold [OF this]
  show "s \<in> set batch \<Longrightarrow> split_seal enc (seal_context a sid s) (live_wal a sid s) n
            = Inr (stream_parts a sid n enc s)"
    and "es = concat (map (stream_block a sid nxt n enc) batch)" by auto
qed

text \<open>A batch that installs has no two segments at one key, so each stream has one block.\<close>

lemma insert_encoded_key:
  assumes "insert_encoded sid a e = Inr b"
  shows "(sid, en_stream e, en_seq e) \<notin> seg_key ` set (ar_segments a)"
    and "seg_key ` set (ar_segments b) = insert (sid, en_stream e, en_seq e) (seg_key ` set (ar_segments a))"
  using assms
  by (auto simp: insert_encoded_def insert_segment_with_index_def Let_def constraint_error_def
      segment_key_taken_def seg_key_def split: if_splits index_layout.splits)

lemma install_distinct:
  "rfold (insert_encoded sid) a es = Inr b \<Longrightarrow>
   distinct (map (\<lambda>e. (en_stream e, en_seq e)) es)
   \<and> (\<forall>e \<in> set es. (sid, en_stream e, en_seq e) \<notin> seg_key ` set (ar_segments a))"
proof (induction es arbitrary: a)
  case Nil
  then show ?case by simp
next
  case (Cons e es)
  then obtain c where c: "insert_encoded sid a e = Inr c" "rfold (insert_encoded sid) c es = Inr b"
    by (auto simp: result_simps)
  with Cons.IH [OF c(2)] insert_encoded_key [OF c(1)] show ?case by force
qed

lemma filter_blocks:
  assumes "\<And>s e. e \<in> set (f s) \<Longrightarrow> en_stream e = s" and "distinct (concat (map f batch))"
  shows "filter (\<lambda>e. en_stream e = s) (concat (map f batch)) = (if s \<in> set batch then f s else [])"
  using assms(2)
proof (induction batch)
  case Nil
  then show ?case by simp
next
  case (Cons t batch)
  have t: "filter (\<lambda>e. en_stream e = s) (f t) = (if t = s then f s else [])"
    using assms(1) by (auto simp: filter_id_conv filter_empty_conv)
  have "f t = []" if "t \<in> set batch"
    using Cons.prems that by (cases "f t") auto
  with t Cons show ?case by auto
qed

lemma sorted_opt_Cons:
  "sorted (opt_list x @ (m :: int) # ys) \<longleftrightarrow> (\<forall>k. x = Some k \<longrightarrow> k \<le> m) \<and> sorted (m # ys)"
  by (cases x) (auto simp: opt_list_def)

lemma all_split_at:
  assumes "P t \<longleftrightarrow> A \<and> Q t" and "\<And>s. s \<noteq> t \<Longrightarrow> P s \<longleftrightarrow> Q s"
  shows "(\<forall>s. P s) \<longleftrightarrow> A \<and> (\<forall>s. Q s)"
  using assms by metis

lemma ascending_iff:
  "ascending_from w es \<longleftrightarrow> (\<forall>s. sorted (opt_list (w s) @ map en_last (filter (\<lambda>e. en_stream e = s) es)))"
proof (induction es arbitrary: w)
  case Nil
  then show ?case by (auto simp: opt_list_def split: option.splits)
next
  case (Cons e es)
  let ?t = "en_stream e" and ?F = "\<lambda>s es. map en_last (filter (\<lambda>e. en_stream e = s) es)"
  let ?S = "\<lambda>w s es. sorted (opt_list (w s) @ ?F s es)"
  have own: "?S w ?t (e # es) \<longleftrightarrow> (\<forall>m. w ?t = Some m \<longrightarrow> m \<le> en_last e) \<and> ?S (w(?t := Some (en_last e))) ?t es"
    using sorted_opt_Cons [of "w ?t" "en_last e" "?F ?t es"] by (simp add: opt_list_def)
  have other: "?S w s (e # es) \<longleftrightarrow> ?S (w(?t := Some (en_last e))) s es" if "s \<noteq> ?t" for s
    using that by simp
  have "(\<forall>s. ?S w s (e # es)) \<longleftrightarrow>
      (\<forall>m. w ?t = Some m \<longrightarrow> m \<le> en_last e) \<and> (\<forall>s. ?S (w(?t := Some (en_last e))) s es)"
    by (rule all_split_at [where t = ?t], rule own, rule other)
  then show ?case unfolding ascending_from.simps Cons.IH by (rule sym)
qed

subsection \<open>What a batch does\<close>

lemma advance_maps_watermarks:
  "ss_watermarks (advance_maps sid es st) (i, t) =
     (case (if i = sid then last_of es t else None) of Some m \<Rightarrow> Some m | None \<Rightarrow> ss_watermarks st (i, t))"
  by (induction es arbitrary: st) (auto simp: advance_maps_def last_of_Cons split: option.splits)

lemma advance_maps_next_seq:
  "ss_next_seq (advance_maps sid es st) (i, t) =
     (if i = sid \<and> filter (\<lambda>e. en_stream e = t) es \<noteq> []
      then Some (en_seq (last (filter (\<lambda>e. en_stream e = t) es)) + 1) else ss_next_seq st (i, t))"
proof (induction es rule: rev_induct)
  case Nil
  then show ?case by (simp add: advance_maps_def)
next
  case (snoc e es)
  then show ?case by (auto simp: advance_maps_def)
qed

lemma prune_points_subset: "set (prune_points es) \<subseteq> set es"
  by (induction es rule: prune_points.induct) auto

definition prune_list :: "i64 \<Rightarrow> encoded list \<Rightarrow> archive \<Rightarrow> archive" where
  "prune_list sid es a = foldl (\<lambda>a e. prune_wal sid (en_stream e) (en_last e) a) a es"

lemma transaction_unit_cases:
  obtains e where "transaction (unit_body f) d = (Inl e, d\<lparr>db_faults := tl (db_faults d)\<rparr>)"
  | a where "transaction (unit_body f) d = (Inr (), d\<lparr>db_archive := a, db_faults := tl (db_faults d)\<rparr>)"
      "f (db_archive d) = Inr a"
  by (cases "f (db_archive d)"; cases "db_faults d"; cases "hd (db_faults d)")
    (auto simp: transaction_def next_fault_def unit_body_def)

lemma prune_batch_take:
  "\<exists>k. db_archive (snd (prune_batch sid es d)) = prune_list sid (take k es) (db_archive d)
     \<and> (fst (prune_batch sid es d) = Inr () \<longrightarrow> take k es = es)"
proof (induction es arbitrary: d)
  case Nil
  then show ?case by (simp add: prune_list_def)
next
  case (Cons e es)
  show ?case
  proof (rule transaction_unit_cases [of "\<lambda>a. Inr (prune_wal sid (en_stream e) (en_last e) a)" d], goal_cases)
    case (1 err)
    then show ?case by (intro exI [of _ 0]) (simp add: prune_list_def)
  next
    case (2 a)
    let ?d = "d\<lparr>db_archive := a, db_faults := tl (db_faults d)\<rparr>"
    have step: "prune_batch sid (e # es) d = prune_batch sid es ?d"
      unfolding prune_batch.simps 2(1) by simp
    have a: "a = prune_wal sid (en_stream e) (en_last e) (db_archive d)" using 2(2) by simp
    obtain k where "db_archive (snd (prune_batch sid es ?d)) = prune_list sid (take k es) a"
      "fst (prune_batch sid es ?d) = Inr () \<longrightarrow> take k es = es"
      using Cons.IH [of ?d] by auto
    then show ?case unfolding step by (intro exI [of _ "Suc k"]) (simp add: prune_list_def a)
  qed
qed

text \<open>The two outcomes: nothing happened but the fault, or the whole batch is in.\<close>

lemma seal_batch_cases:
  assumes "seal_batch sid batch n enc st = (r, st')"
  obtains (failed) f where "r = Inl f" "ss_archive st' = ss_archive st" "ss_next_seq st' = ss_next_seq st"
      "ss_watermarks st' = ss_watermarks st"
  | (committed) es obs a k where "encode_batch (ss_archive st) sid (ss_next_seq st) n enc batch = Inr (es, obs)"
      "install_batch sid es obs (ss_archive st) = Inr a"
      "ss_archive st' = prune_list sid (take k (prune_points es)) a"
      "ss_next_seq st' = ss_next_seq (advance_maps sid es st)"
      "ss_watermarks st' = ss_watermarks (advance_maps sid es st)"
      "r = Inr () \<longrightarrow> take k (prune_points es) = prune_points es"
proof (cases "encode_batch (ss_archive st) sid (ss_next_seq st) n enc batch")
  case (Inl f)
  then have "r = Inl f" "st' = st" using assms by (auto simp: seal_batch_def)
  with failed show thesis by simp
next
  case (Inr x)
  obtain es obs where x: "x = (es, obs)" by (cases x)
  note enc = Inr [unfolded x]
  show thesis
  proof (rule transaction_unit_cases [of "install_batch sid es obs" "ss_db st"])
    fix e
    assume "transaction (unit_body (install_batch sid es obs)) (ss_db st)
      = (Inl e, (ss_db st)\<lparr>db_faults := tl (db_faults (ss_db st))\<rparr>)"
    then show thesis using assms failed enc by (auto simp: seal_batch_def)
  next
    fix a
    let ?d = "(ss_db st)\<lparr>db_archive := a, db_faults := tl (db_faults (ss_db st))\<rparr>"
    assume t: "transaction (unit_body (install_batch sid es obs)) (ss_db st) = (Inr (), ?d)"
      and i: "install_batch sid es obs (ss_archive st) = Inr a"
    obtain k where k: "db_archive (snd (prune_batch sid (prune_points es) ?d)) = prune_list sid (take k (prune_points es)) a"
      "fst (prune_batch sid (prune_points es) ?d) = Inr () \<longrightarrow> take k (prune_points es) = prune_points es"
      using prune_batch_take [of sid "prune_points es" ?d] by auto
    show thesis
    proof (rule committed [OF enc i, of k])
      show "ss_archive st' = prune_list sid (take k (prune_points es)) a"
        using assms enc t k(1) by (auto simp: seal_batch_def Let_def case_prod_beta)
      show "ss_next_seq st' = ss_next_seq (advance_maps sid es st)"
        "ss_watermarks st' = ss_watermarks (advance_maps sid es st)"
        using assms enc t by (auto simp: seal_batch_def Let_def case_prod_beta)
      show "r = Inr () \<longrightarrow> take k (prune_points es) = prune_points es"
        using assms enc t k(2) by (auto simp: seal_batch_def Let_def case_prod_beta result_simps)
    qed
  qed
qed

text \<open>What a committed batch holds of one stream.\<close>

lemma stream_block_stream: "e \<in> set (stream_block a sid nxt n enc s) \<Longrightarrow> en_stream e = s"
  by (simp add: stream_block_def number_parts_stream)

lemma sorted_chain:
  assumes "sorted_wrt (\<lambda>s t. seg_last_ts s < seg_first_ts t) ps" "\<forall>s \<in> set ps. seg_first_ts s \<le> seg_last_ts s"
  shows "sorted_wrt (<) (map seg_last_ts ps)"
  using assms by (induction ps) (auto intro: less_le_trans)

definition commits ::
  "archive \<Rightarrow> i64 \<Rightarrow> (i64 \<times> rstring \<Rightarrow> nat option) \<Rightarrow> nat \<Rightarrow> encoder \<Rightarrow> rstring list \<Rightarrow>
   encoded list \<Rightarrow> archive \<Rightarrow> bool" where
  "commits a sid nxt n enc batch es b \<longleftrightarrow>
     archive_ok a \<and> (\<exists>obs. encode_batch a sid nxt n enc batch = Inr (es, obs) \<and> install_batch sid es obs a = Inr b)"

definition batch_parts :: "archive \<Rightarrow> i64 \<Rightarrow> nat \<Rightarrow> encoder \<Rightarrow> rstring list \<Rightarrow> rstring \<Rightarrow> segment list" where
  "batch_parts a sid n enc batch s = (if s \<in> set batch then stream_parts a sid n enc s else [])"

lemma commits_inserted:
  assumes "commits a sid nxt n enc batch es b"
  shows "\<exists>c k. rfold (insert_encoded sid) a es = Inr c \<and> b = c\<lparr>ar_clock := k\<rparr> \<and> (archive_ok c \<longrightarrow> archive_ok b)"
proof -
  obtain obs c where c: "rfold (insert_encoded sid) a es = Inr c"
    and i: "(case obs of None \<Rightarrow> Inr c | Some (ts, off) \<Rightarrow> insert_clock_offset sid ts off c) = Inr b"
    using assms by (auto simp: commits_def install_batch_def result_simps)
  have "\<exists>k. b = c\<lparr>ar_clock := k\<rparr>"
    using i insert_clock_offset_frame by (cases obs) (auto intro: exI [of _ "ar_clock c"])
  moreover have "archive_ok c \<longrightarrow> archive_ok b"
    using i archive_ok_clock by (cases obs) auto
  ultimately show ?thesis using c by blast
qed

lemma commits_block:
  assumes "commits a sid nxt n enc batch es b"
  shows "filter (\<lambda>e. en_stream e = s) es =
    number_parts s (or_zero (nxt (sid, s))) (batch_parts a sid n enc batch s)"
proof -
  obtain obs c where encoded: "encode_batch a sid nxt n enc batch = Inr (es, obs)"
    and "rfold (insert_encoded sid) a es = Inr c"
    using assms commits_inserted [OF assms] by (auto simp: commits_def)
  then have "distinct es"
    using install_distinct by (metis distinct_map)
  then have "distinct (concat (map (stream_block a sid nxt n enc) batch))"
    using encode_batch_Inr(2) [OF encoded] by simp
  from filter_blocks [where s = s, OF stream_block_stream this]
  show ?thesis unfolding encode_batch_Inr(2) [OF encoded] by (simp add: batch_parts_def stream_block_def)
qed

lemma commits_tiles:
  assumes "commits a sid nxt n enc batch es b"
  shows "tiles (live_wal a sid s) (batch_parts a sid n enc batch s)"
proof (cases "s \<in> set batch")
  case True
  obtain obs where encoded: "encode_batch a sid nxt n enc batch = Inr (es, obs)" and "archive_ok a"
    using assms by (auto simp: commits_def)
  then have "sorted_wrt (<) (map row_ts (live_wal a sid s))"
    by (simp add: sorted_live_wal archive_ok_def)
  from split_seal_main [OF this encode_batch_Inr(1) [OF encoded True]] True
  show ?thesis by (simp add: batch_parts_def)
qed (simp add: batch_parts_def)

lemma tiles_ascending:
  assumes "tiles rows ps" shows "sorted_wrt (<) (map seg_last_ts ps)"
  using assms by (intro sorted_chain) (auto simp: tiles_def contract_def)

lemma tiles_last_max:
  assumes "tiles rows ps" "p \<in> set ps" shows "seg_last_ts p \<le> seg_last_ts (last ps)"
  using tiles_ascending [OF assms(1)] assms(2)
  by (cases ps rule: rev_cases) (auto simp: sorted_wrt_append)

lemma tiles_within:
  assumes "tiles rows ps" "p \<in> set ps"
  shows "\<exists>r \<in> set rows. row_ts r \<le> seg_first_ts p" "seg_first_ts p \<le> seg_last_ts p"
    "\<exists>r \<in> set rows. seg_last_ts p \<le> row_ts r"
proof -
  have "contract rows p" using assms by (simp add: tiles_def)
  then show "\<exists>r \<in> set rows. row_ts r \<le> seg_first_ts p" "seg_first_ts p \<le> seg_last_ts p"
    "\<exists>r \<in> set rows. seg_last_ts p \<le> row_ts r"
    unfolding contract_def by (auto intro: bexI [OF _ hd_in_set] bexI [OF _ last_in_set])
qed

lemma tiles_above_watermark:
  "tiles (live_wal a sid s) ps \<Longrightarrow> watermark a sid s = Some m \<Longrightarrow> p \<in> set ps \<Longrightarrow> m < seg_first_ts p"
  by (drule (1) tiles_within(1)) (auto simp: set_live_wal is_live_def)

lemma commits_last_of:
  assumes "commits a sid nxt n enc batch es b"
  shows "last_of es s = (let ps = batch_parts a sid n enc batch s
    in if ps = [] then None else Some (seg_last_ts (last ps)))"
proof -
  have "last_of es s = (if filter (\<lambda>e. en_stream e = s) es = [] then None
      else Some (en_last (last (filter (\<lambda>e. en_stream e = s) es))))"
    by (cases "filter (\<lambda>e. en_stream e = s) es" rule: rev_cases) (auto simp: last_of_def)
  then show ?thesis by (simp add: commits_block [OF assms] last_number_parts Let_def)
qed

lemma commits_ascending:
  assumes "commits a sid nxt n enc batch es b"
  shows "ascending_from (watermark a sid) es"
  unfolding ascending_iff
proof
  fix s
  let ?ps = "batch_parts a sid n enc batch s"
  note t = commits_tiles [OF assms, of s]
  have "m \<le> seg_last_ts p" if "watermark a sid s = Some m" "p \<in> set ?ps" for m p
    using tiles_above_watermark [OF t that] tiles_within(2) [OF t that(2)] by simp
  then show "sorted (opt_list (watermark a sid s) @ map en_last (filter (\<lambda>e. en_stream e = s) es))"
    unfolding commits_block [OF assms] map_last_number_parts
    using tiles_ascending [OF t]
    by (auto simp: opt_list_def strict_sorted_imp_sorted split: option.splits)
qed

lemma commits_after:
  assumes "commits a sid nxt n enc batch es b"
  shows "watermark b i t = (if i = sid then (case last_of es t of Some m \<Rightarrow> Some m | None \<Rightarrow> watermark a i t)
                            else watermark a i t)"
    and "live_wal b i t = (if i = sid then live_above (last_of es t) (live_wal a i t) else live_wal a i t)"
    and "archive_ok b"
proof -
  obtain c k where c: "rfold (insert_encoded sid) a es = Inr c" "b = c\<lparr>ar_clock := k\<rparr>" "archive_ok c \<longrightarrow> archive_ok b"
    using commits_inserted [OF assms] by blast
  note all = ar.install_all [OF c(1) commits_ascending [OF assms]]
  have w: "watermark b i t = watermark c i t" by (intro watermark_cong) (simp add: c(2) frame_simps)
  have l: "live_wal b i t = live_wal c i t"
    using w by (intro live_wal_cong) (simp_all add: c(2) frame_simps)
  show "watermark b i t = (if i = sid then (case last_of es t of Some m \<Rightarrow> Some m | None \<Rightarrow> watermark a i t)
                            else watermark a i t)"
    and "live_wal b i t = (if i = sid then live_above (last_of es t) (live_wal a i t) else live_wal a i t)"
    using w l all(1,2) by simp_all
  show "archive_ok b" using c(3) all(3) assms by (auto simp: commits_def)
qed

lemma commits_pruned:
  assumes C: "commits a sid nxt n enc batch es b" and "set ps \<subseteq> set es"
  shows "watermark (prune_list sid ps b) i t = watermark b i t"
    and "live_wal (prune_list sid ps b) i t = live_wal b i t"
    and "archive_ok (prune_list sid ps b)"
proof -
  have "\<exists>w. watermark b sid (en_stream e) = Some w \<and> en_last e \<le> w" if "e \<in> set ps" for e
  proof -
    let ?s = "en_stream e" and ?ps = "batch_parts a sid n enc batch (en_stream e)"
    have "e \<in> set (filter (\<lambda>x. en_stream x = ?s) es)" using assms(2) that by auto
    then have "en_last e \<in> set (map seg_last_ts ?ps)" unfolding commits_block [OF C]
      by (metis image_eqI list.set_map map_last_number_parts)
    then obtain p where p: "p \<in> set ?ps" "en_last e = seg_last_ts p" by auto
    with tiles_last_max [OF commits_tiles [OF C] p(1)]
    show ?thesis by (auto simp: commits_after(1) [OF C] commits_last_of [OF C] Let_def)
  qed
  from ar.prune_all [of ps b sid i t, OF this] commits_after(3) [OF C]
  show "watermark (prune_list sid ps b) i t = watermark b i t"
    and "live_wal (prune_list sid ps b) i t = live_wal b i t"
    and "archive_ok (prune_list sid ps b)" by (simp_all add: prune_list_def)
qed

subsection \<open>The seal seam\<close>

definition spans_row :: "segment_table_row \<Rightarrow> wal_row \<Rightarrow> bool" where
  "spans_row x r \<longleftrightarrow> meta_first_ts (sg_meta x) \<le> row_ts r \<and> row_ts r \<le> meta_last_ts (sg_meta x)"

lemma insert_encoded_rows:
  assumes "insert_encoded sid a e = Inr b"
  shows "\<exists>row. stream_rows b i t = stream_rows a i t @ (if i = sid \<and> t = en_stream e then [row] else [])
    \<and> sg_seq row = en_seq e \<and> sg_meta row = en_meta e \<and> sg_bytes row = en_bytes e"
  using stream_rows_insert_segment [OF assms [unfolded insert_encoded_def], of i t] by blast

lemma install_rows:
  assumes "rfold (insert_encoded sid) a es = Inr b"
  shows "\<exists>new. stream_rows b i t = stream_rows a i t @ new
    \<and> map (\<lambda>x. (sg_seq x, sg_meta x, sg_bytes x)) new =
      (if i = sid then map (\<lambda>e. (en_seq e, en_meta e, en_bytes e)) (filter (\<lambda>e. en_stream e = t) es) else [])"
  using assms
proof (induction es arbitrary: a)
  case Nil
  then show ?case by simp
next
  case (Cons e es)
  then obtain c where c: "insert_encoded sid a e = Inr c" "rfold (insert_encoded sid) c es = Inr b"
    by (auto simp: result_simps)
  obtain row where row: "stream_rows c i t = stream_rows a i t @ (if i = sid \<and> t = en_stream e then [row] else [])"
    "sg_seq row = en_seq e" "sg_meta row = en_meta e" "sg_bytes row = en_bytes e"
    using insert_encoded_rows [OF c(1), of i t] by blast
  obtain new where "stream_rows b i t = stream_rows c i t @ new"
    "map (\<lambda>x. (sg_seq x, sg_meta x, sg_bytes x)) new =
      (if i = sid then map (\<lambda>e. (en_seq e, en_meta e, en_bytes e)) (filter (\<lambda>e. en_stream e = t) es) else [])"
    using Cons.IH [OF c(2)] by blast
  with row show ?case
    by (intro exI [of _ "(if i = sid \<and> t = en_stream e then [row] else []) @ new"]) auto
qed

lemma prune_list_segments [simp]: "ar_segments (prune_list sid ps a) = ar_segments a"
  by (induction ps arbitrary: a) (auto simp: prune_list_def prune_wal_def)

lemma stream_rows_prune_list [simp]: "stream_rows (prune_list sid ps a) i t = stream_rows a i t"
  by (simp add: stream_rows_def)

lemma prune_points_take: "set (take k (prune_points es)) \<subseteq> set es"
  using set_take_subset prune_points_subset by fast

lemma commits_rows:
  assumes "commits a sid nxt n enc batch es b"
  shows "\<exists>new. stream_rows b i t = stream_rows a i t @ new
    \<and> map (\<lambda>x. (sg_seq x, sg_meta x, sg_bytes x)) new =
      (if i = sid then map (\<lambda>e. (en_seq e, en_meta e, en_bytes e))
         (number_parts t (or_zero (nxt (sid, t))) (batch_parts a sid n enc batch t)) else [])"
proof -
  obtain c k where c: "rfold (insert_encoded sid) a es = Inr c" "b = c\<lparr>ar_clock := k\<rparr>"
    using commits_inserted [OF assms] by blast
  have "stream_rows b i t = stream_rows c i t" by (simp add: c(2) frame_simps)
  then show ?thesis using install_rows [OF c(1), of i t, unfolded commits_block [OF assms]] by (simp only:)
qed

text \<open>The seam a committed batch leaves, whatever of the prunes has run.\<close>

definition seam_of ::
  "archive \<Rightarrow> archive \<Rightarrow> i64 \<Rightarrow> rstring \<Rightarrow> nat \<Rightarrow> segment list \<Rightarrow> bool" where
  "seam_of a b sid t q ps \<longleftrightarrow>
     (\<exists>new. stream_rows b sid t = stream_rows a sid t @ new
       \<and> map (\<lambda>x. (sg_seq x, sg_meta x, sg_bytes x)) new =
         map (\<lambda>e. (en_seq e, en_meta e, en_bytes e)) (number_parts t q ps)
       \<and> live_wal b sid t =
         (if ps = [] then live_wal a sid t
          else filter (\<lambda>r. seg_last_ts (last ps) < row_ts r) (live_wal a sid t))
       \<and> (\<forall>r \<in> set (live_wal a sid t).
            if r \<in> set (live_wal b sid t) then \<not> (\<exists>x \<in> set new. spans_row x r)
            else (\<exists>!x. x \<in> set new \<and> spans_row x r) \<or> row_ts r < meta_first_ts (sg_meta (hd new))))"

lemma map_meta_new:
  assumes "map (\<lambda>x. (sg_seq x, sg_meta x, sg_bytes x)) new =
         map (\<lambda>e. (en_seq e, en_meta e, en_bytes e)) (number_parts t q ps)"
  shows "map (\<lambda>x. (meta_first_ts (sg_meta x), meta_last_ts (sg_meta x))) new = map (\<lambda>p. (seg_first_ts p, seg_last_ts p)) ps"
  using assms
proof (induction ps arbitrary: q new)
  case Nil
  then show ?case by simp
next
  case (Cons p ps)
  then obtain x new' where "new = x # new'" by (cases new) auto
  with Cons.prems Cons.IH [of new' "Suc q"] show ?case by simp
qed

lemma sorted_spans_unique:
  assumes "sorted_wrt (\<lambda>x y. meta_last_ts (sg_meta x) < meta_first_ts (sg_meta y)) new"
    "x \<in> set new" "y \<in> set new" "spans_row x r" "spans_row y r"
  shows "x = y"
  using assms by (induction new) (auto simp: spans_row_def)

lemma commits_seam:
  assumes C: "commits a sid nxt n enc batch es b"
  shows "seam_of a (prune_list sid (take k (prune_points es)) b) sid t (or_zero (nxt (sid, t)))
           (batch_parts a sid n enc batch t)"
proof -
  let ?c = "prune_list sid (take k (prune_points es)) b" and ?ps = "batch_parts a sid n enc batch t"
  obtain new where new: "stream_rows b sid t = stream_rows a sid t @ new"
    "map (\<lambda>x. (sg_seq x, sg_meta x, sg_bytes x)) new =
      map (\<lambda>e. (en_seq e, en_meta e, en_bytes e)) (number_parts t (or_zero (nxt (sid, t))) ?ps)"
    using commits_rows [OF C, of sid t] by auto
  have live: "live_wal ?c sid t = (if ?ps = [] then live_wal a sid t
          else filter (\<lambda>r. seg_last_ts (last ?ps) < row_ts r) (live_wal a sid t))"
    unfolding commits_pruned(2) [OF C prune_points_take] commits_after(2) [OF C]
    by (simp add: commits_last_of [OF C] Let_def)
  note T = commits_tiles [OF C, of t]
  note M = map_meta_new [OF new(2)]
  have sorted: "sorted_wrt (\<lambda>x y. meta_last_ts (sg_meta x) < meta_first_ts (sg_meta y)) new"
  proof -
    have "sorted_wrt (\<lambda>x y. snd x < fst y) (map (\<lambda>p. (seg_first_ts p, seg_last_ts p)) ?ps)"
      using T by (simp add: tiles_def sorted_wrt_map)
    then show ?thesis unfolding M [symmetric] by (simp add: sorted_wrt_map)
  qed
  have image: "(\<lambda>x. (meta_first_ts (sg_meta x), meta_last_ts (sg_meta x))) ` set new =
      (\<lambda>p. (seg_first_ts p, seg_last_ts p)) ` set ?ps"
    using arg_cong [OF M, of set] by simp
  have new_part: "\<exists>p \<in> set ?ps. meta_first_ts (sg_meta x) = seg_first_ts p \<and> meta_last_ts (sg_meta x) = seg_last_ts p"
    if "x \<in> set new" for x
    using imageI [OF that, of "\<lambda>x. (meta_first_ts (sg_meta x), meta_last_ts (sg_meta x))"]
    unfolding image by auto
  have part_new: "\<exists>x \<in> set new. meta_first_ts (sg_meta x) = seg_first_ts p \<and> meta_last_ts (sg_meta x) = seg_last_ts p"
    if "p \<in> set ?ps" for p
    using imageI [OF that, of "\<lambda>p. (seg_first_ts p, seg_last_ts p)"]
    unfolding image [symmetric] by auto
  have row: "if r \<in> set (live_wal ?c sid t) then \<not> (\<exists>x \<in> set new. spans_row x r)
      else (\<exists>!x. x \<in> set new \<and> spans_row x r) \<or> row_ts r < meta_first_ts (sg_meta (hd new))"
    if r: "r \<in> set (live_wal a sid t)" for r
  proof (cases "?ps = [] \<or> seg_last_ts (last ?ps) < row_ts r")
    case True
    have "\<not> spans_row x r" if "x \<in> set new" for x
    proof -
      obtain p where "p \<in> set ?ps" "meta_last_ts (sg_meta x) = seg_last_ts p"
        using new_part [OF \<open>x \<in> set new\<close>] by blast
      with True tiles_last_max [OF T] show ?thesis by (fastforce simp: spans_row_def)
    qed
    with True r live show ?thesis by auto
  next
    case False
    then have gone: "r \<notin> set (live_wal ?c sid t)" and le: "row_ts r \<le> seg_last_ts (last ?ps)" and ne: "?ps \<noteq> []"
      using live by auto
    have hd: "meta_first_ts (sg_meta (hd new)) = seg_first_ts (hd ?ps)"
      using M ne by (cases new; cases ?ps) auto
    have "\<exists>!x. x \<in> set new \<and> spans_row x r" if first: "seg_first_ts (hd ?ps) \<le> row_ts r"
    proof -
      obtain p where "p \<in> set ?ps" "r \<in> set (covered_rows p (live_wal a sid t))"
        using T ne r le first by (auto simp: tiles_def)
      then obtain x where "x \<in> set new" "spans_row x r"
        using part_new by (fastforce simp: covered_rows_def spans_row_def)
      then show ?thesis using sorted_spans_unique [OF sorted] by blast
    qed
    with gone hd show ?thesis by fastforce
  qed
  show ?thesis unfolding seam_of_def
    by (rule exI [of _ new], rule conjI, simp only: stream_rows_prune_list new(1), rule conjI, rule new(2),
        rule conjI, rule live, rule ballI, rule row, assumption)
qed

lemma last_seq_number_parts: "ps \<noteq> [] \<Longrightarrow> en_seq (last (number_parts t q ps)) + 1 = q + length ps"
proof (induction ps arbitrary: q)
  case (Cons p ps)
  then show ?case by (cases "ps = []") auto
qed simp

lemma commits_maps:
  assumes C: "commits a sid (ss_next_seq st) n enc batch es b"
  shows "ss_next_seq (advance_maps sid es st) (i, t) =
      (let ps = batch_parts a sid n enc batch t
       in if i = sid \<and> ps \<noteq> [] then Some (or_zero (ss_next_seq st (sid, t)) + length ps) else ss_next_seq st (i, t))"
    and "ss_watermarks (advance_maps sid es st) (i, t) =
      (let ps = batch_parts a sid n enc batch t
       in if i = sid \<and> ps \<noteq> [] then Some (seg_last_ts (last ps)) else ss_watermarks st (i, t))"
  unfolding advance_maps_next_seq advance_maps_watermarks commits_block [OF C] commits_last_of [OF C]
  using last_seq_number_parts [of "batch_parts a sid n enc batch t"]
  by (auto simp: Let_def)

lemma batch_committed:
  fixes st st' :: seal_state
  assumes "archive_ok (ss_archive st)"
    and enc: "encode_batch (ss_archive st) sid (ss_next_seq st) n enc batch = Inr (es, obs)"
    and inst: "install_batch sid es obs (ss_archive st) = Inr b"
    and st': "ss_archive st' = prune_list sid (take k (prune_points es)) b"
      "ss_next_seq st' = ss_next_seq (advance_maps sid es st)"
      "ss_watermarks st' = ss_watermarks (advance_maps sid es st)"
  defines "ps \<equiv> batch_parts (ss_archive st) sid n enc batch"
  shows "(if t \<in> set batch
            then split_seal enc (seal_context (ss_archive st) sid t) (live_wal (ss_archive st) sid t) n = Inr (ps t)
            else ps t = [])
           \<and> seam_of (ss_archive st) (ss_archive st') sid t (or_zero (ss_next_seq st (sid, t))) (ps t)
           \<and> ss_next_seq st' (sid, t) =
               (if ps t = [] then ss_next_seq st (sid, t) else Some (or_zero (ss_next_seq st (sid, t)) + length (ps t)))
           \<and> ss_watermarks st' (sid, t) =
               (if ps t = [] then ss_watermarks st (sid, t) else Some (seg_last_ts (last (ps t))))"
    and "i \<noteq> sid \<longrightarrow> stream_rows (ss_archive st') i t = stream_rows (ss_archive st) i t
            \<and> live_wal (ss_archive st') i t = live_wal (ss_archive st) i t
            \<and> ss_next_seq st' (i, t) = ss_next_seq st (i, t) \<and> ss_watermarks st' (i, t) = ss_watermarks st (i, t)"
    and "archive_ok (ss_archive st')"
proof -
  let ?a = "ss_archive st"
  have C: "commits ?a sid (ss_next_seq st) n enc batch es b"
    using assms(1) enc inst by (auto simp: commits_def)
  have nx: "ss_next_seq st' (i, t) =
      (if i = sid \<and> ps t \<noteq> [] then Some (or_zero (ss_next_seq st (sid, t)) + length (ps t)) else ss_next_seq st (i, t))" for i t
    unfolding st'(2) commits_maps(1) [OF C] Let_def ps_def ..
  have wm: "ss_watermarks st' (i, t) =
      (if i = sid \<and> ps t \<noteq> [] then Some (seg_last_ts (last (ps t))) else ss_watermarks st (i, t))" for i t
    unfolding st'(3) commits_maps(2) [OF C] Let_def ps_def ..
  have "if t \<in> set batch then split_seal enc (seal_context ?a sid t) (live_wal ?a sid t) n = Inr (ps t) else ps t = []"
    using encode_batch_Inr(1) [OF enc, of t] by (simp add: batch_parts_def ps_def)
  moreover have "seam_of ?a (ss_archive st') sid t (or_zero (ss_next_seq st (sid, t))) (ps t)"
    unfolding st'(1) ps_def by (rule commits_seam [OF C])
  ultimately show "(if t \<in> set batch
            then split_seal enc (seal_context (ss_archive st) sid t) (live_wal (ss_archive st) sid t) n = Inr (ps t)
            else ps t = [])
           \<and> seam_of (ss_archive st) (ss_archive st') sid t (or_zero (ss_next_seq st (sid, t))) (ps t)
           \<and> ss_next_seq st' (sid, t) =
               (if ps t = [] then ss_next_seq st (sid, t) else Some (or_zero (ss_next_seq st (sid, t)) + length (ps t)))
           \<and> ss_watermarks st' (sid, t) =
               (if ps t = [] then ss_watermarks st (sid, t) else Some (seg_last_ts (last (ps t))))"
    by (simp only: nx wm) simp
  show "i \<noteq> sid \<longrightarrow> stream_rows (ss_archive st') i t = stream_rows ?a i t
            \<and> live_wal (ss_archive st') i t = live_wal ?a i t
            \<and> ss_next_seq st' (i, t) = ss_next_seq st (i, t) \<and> ss_watermarks st' (i, t) = ss_watermarks st (i, t)"
    using commits_rows [OF C, of i t] commits_pruned(2) [OF C prune_points_take] commits_after(2) [OF C]
    by (auto simp: st'(1) nx wm)
  show "archive_ok (ss_archive st')" unfolding st'(1) by (rule commits_pruned(3) [OF C prune_points_take])
qed


subsection \<open>The writer's maps agree with the archive\<close>

definition maps_ok :: "seal_state \<Rightarrow> bool" where
  "maps_ok st \<longleftrightarrow>
     (\<forall>i t m. watermark (ss_archive st) i t = Some m \<longrightarrow> (\<exists>w \<ge> m. ss_watermarks st (i, t) = Some w))
     \<and> (\<forall>i t w. ss_watermarks st (i, t) = Some w \<longrightarrow> (\<forall>r \<in> set (live_wal (ss_archive st) i t). w < row_ts r))
     \<and> (\<forall>i t. \<forall>x \<in> set (stream_rows (ss_archive st) i t). sg_seq x < or_zero (ss_next_seq st (i, t)))"

definition writer_ok :: "seal_state \<Rightarrow> bool" where
  "writer_ok st \<longleftrightarrow> archive_ok (ss_archive st) \<and> maps_ok st"

lemma maps_okD:
  assumes "maps_ok st"
  shows "watermark (ss_archive st) i t = Some m \<Longrightarrow> \<exists>w \<ge> m. ss_watermarks st (i, t) = Some w"
    and "ss_watermarks st (i, t) = Some w \<Longrightarrow> r \<in> set (live_wal (ss_archive st) i t) \<Longrightarrow> w < row_ts r"
    and "x \<in> set (stream_rows (ss_archive st) i t) \<Longrightarrow> sg_seq x < or_zero (ss_next_seq st (i, t))"
  using assms unfolding maps_ok_def by blast+

text \<open>The rows below a watermark in memory: what never becomes live again.\<close>

definition maps_grow :: "seal_state \<Rightarrow> seal_state \<Rightarrow> bool" where
  "maps_grow st st' \<longleftrightarrow>
     (\<forall>k w. ss_watermarks st k = Some w \<longrightarrow> (\<exists>w' \<ge> w. ss_watermarks st' k = Some w'))
     \<and> (\<forall>k. or_zero (ss_next_seq st k) \<le> or_zero (ss_next_seq st' k))"

lemma maps_grow_refl [simp]: "maps_grow st st"
  by (auto simp: maps_grow_def)

lemma maps_grow_trans: "maps_grow a b \<Longrightarrow> maps_grow b c \<Longrightarrow> maps_grow a c"
  unfolding maps_grow_def by (meson order_trans)

lemma commits_maps_ok:
  assumes C: "commits (ss_archive st) sid (ss_next_seq st) n enc batch es b" and ok: "maps_ok st"
    and st': "ss_archive st' = prune_list sid (take k (prune_points es)) b"
      "ss_next_seq st' = ss_next_seq (advance_maps sid es st)"
      "ss_watermarks st' = ss_watermarks (advance_maps sid es st)"
  shows "maps_ok st' \<and> maps_grow st st'"
proof -
  let ?a = "ss_archive st"
  let ?ps = "\<lambda>t. batch_parts ?a sid n enc batch t"
  have mark: "watermark (ss_archive st') i t =
      (if i = sid \<and> ?ps t \<noteq> [] then Some (seg_last_ts (last (?ps t))) else watermark ?a i t)" for i t
    unfolding st'(1) commits_pruned(1) [OF C prune_points_take] commits_after(1) [OF C]
    by (auto simp: commits_last_of [OF C] Let_def)
  have live: "live_wal (ss_archive st') i t =
      (if i = sid \<and> ?ps t \<noteq> [] then filter (\<lambda>r. seg_last_ts (last (?ps t)) < row_ts r) (live_wal ?a i t)
       else live_wal ?a i t)" for i t
    unfolding st'(1) commits_pruned(2) [OF C prune_points_take] commits_after(2) [OF C]
    by (auto simp: commits_last_of [OF C] Let_def)
  have wm: "ss_watermarks st' (i, t) =
      (if i = sid \<and> ?ps t \<noteq> [] then Some (seg_last_ts (last (?ps t))) else ss_watermarks st (i, t))" for i t
    unfolding st'(3) commits_maps(2) [OF C] Let_def ..
  have nx: "ss_next_seq st' (i, t) =
      (if i = sid \<and> ?ps t \<noteq> [] then Some (or_zero (ss_next_seq st (sid, t)) + length (?ps t)) else ss_next_seq st (i, t))" for i t
    unfolding st'(2) commits_maps(1) [OF C] Let_def ..
  have seq: "sg_seq x < or_zero (ss_next_seq st' (i, t))" if x: "x \<in> set (stream_rows (ss_archive st') i t)" for x i t
  proof -
    obtain new where new: "stream_rows b i t = stream_rows ?a i t @ new"
      "map (\<lambda>x. (sg_seq x, sg_meta x, sg_bytes x)) new =
        (if i = sid then map (\<lambda>e. (en_seq e, en_meta e, en_bytes e))
           (number_parts t (or_zero (ss_next_seq st (sid, t))) (?ps t)) else [])"
      using commits_rows [OF C, of i t] by blast
    have bound: "sg_seq y < or_zero (ss_next_seq st (sid, t)) + length (?ps t) \<and> i = sid \<and> ?ps t \<noteq> []"
      if "y \<in> set new" for y
    proof -
      have "(sg_seq y, sg_meta y, sg_bytes y) \<in> set (map (\<lambda>x. (sg_seq x, sg_meta x, sg_bytes x)) new)"
        using that by auto
      then show ?thesis unfolding new(2) by (auto dest: number_parts_seq split: if_splits)
    qed
    from x new(1) consider "x \<in> set (stream_rows ?a i t)" | "x \<in> set new" by (auto simp: st'(1))
    then show ?thesis
    proof cases
      case 1
      from maps_okD(3) [OF ok this] show ?thesis by (auto simp: nx or_zero_def split: option.splits)
    next
      case 2
      with bound show ?thesis by (simp add: nx or_zero_def)
    qed
  qed
  have grow: "\<exists>w' \<ge> w. ss_watermarks st' (i, t) = Some w'" if w: "ss_watermarks st (i, t) = Some w" for i t w
  proof (cases "i = sid \<and> ?ps t \<noteq> []")
    case True
    then obtain r where "r \<in> set (live_wal ?a sid t)" "row_ts r \<le> seg_first_ts (last (?ps t))"
      "seg_first_ts (last (?ps t)) \<le> seg_last_ts (last (?ps t))"
      using tiles_within(1,2) [OF commits_tiles [OF C, of t] last_in_set] by blast
    with maps_okD(2) [OF ok, of sid t w r] w True show ?thesis by (simp add: wm)
  qed (use w in \<open>auto simp: wm\<close>)
  have "maps_ok st'"
    unfolding maps_ok_def
  proof (intro conjI allI impI ballI)
    fix i t m assume "watermark (ss_archive st') i t = Some m"
    then show "\<exists>w \<ge> m. ss_watermarks st' (i, t) = Some w"
      using maps_okD(1) [OF ok, of i t m] by (auto simp: mark wm split: if_splits)
  next
    fix i t w r assume "ss_watermarks st' (i, t) = Some w" "r \<in> set (live_wal (ss_archive st') i t)"
    then show "w < row_ts r"
      using maps_okD(2) [OF ok, of i t w r] by (auto simp: live wm split: if_splits)
  qed (rule seq)
  moreover have "maps_grow st st'"
    unfolding maps_grow_def using grow by (auto simp: nx or_zero_def split: option.splits)
  ultimately show ?thesis ..
qed

text \<open>
  On every outcome of a seal the archive stays well formed, the in-memory
  watermark of a stream is never below its newest sealed row and never goes back,
  its live rows are above it, and its next sequence number exceeds every one stored.
\<close>

lemma seal_batch_invariant:
  assumes "writer_ok st" and "seal_batch sid batch n enc st = (r, st')"
  shows "writer_ok st' \<and> maps_grow st st'"
proof (rule seal_batch_cases [OF assms(2)])
  fix f
  assume "ss_archive st' = ss_archive st" "ss_next_seq st' = ss_next_seq st" "ss_watermarks st' = ss_watermarks st"
  with assms(1) show ?thesis by (simp add: writer_ok_def maps_ok_def maps_grow_def)
next
  fix es obs b k
  assume enc: "encode_batch (ss_archive st) sid (ss_next_seq st) n enc batch = Inr (es, obs)"
    and inst: "install_batch sid es obs (ss_archive st) = Inr b"
    and st': "ss_archive st' = prune_list sid (take k (prune_points es)) b"
      "ss_next_seq st' = ss_next_seq (advance_maps sid es st)"
      "ss_watermarks st' = ss_watermarks (advance_maps sid es st)"
  have C: "commits (ss_archive st) sid (ss_next_seq st) n enc batch es b" and ok: "maps_ok st"
    using assms(1) enc inst by (auto simp: commits_def writer_ok_def)
  from commits_maps_ok [OF C ok st'] commits_pruned(3) [OF C prune_points_take] st'(1)
  show ?thesis by (simp add: writer_ok_def)
qed

subsection \<open>A seal that nothing refuses commits\<close>

lemma install_fresh:
  assumes "has_source a sid" "distinct (map (\<lambda>e. (en_stream e, en_seq e)) es)"
    and "\<forall>e \<in> set es. (sid, en_stream e, en_seq e) \<notin> seg_key ` set (ar_segments a)"
  shows "\<exists>b. rfold (insert_encoded sid) a es = Inr b \<and> has_source b sid"
  using assms
proof (induction es arbitrary: a)
  case Nil
  then show ?case by simp
next
  case (Cons e es)
  obtain b where b: "insert_encoded sid a e = Inr b"
    using Cons.prems
    by (cases "ar_layout a") (auto simp: insert_encoded_def insert_segment_with_index_def segment_key_taken_def Let_def)
  have "has_source b sid"
    using Cons.prems(1) insert_segment_frame [OF b [unfolded insert_encoded_def]] by (simp add: has_source_iff source_ids_def)
  moreover have "\<forall>x \<in> set es. (sid, en_stream x, en_seq x) \<notin> seg_key ` set (ar_segments b)"
  proof
    fix x assume x: "x \<in> set es"
    then have "(en_stream x, en_seq x) \<noteq> (en_stream e, en_seq e)"
      using Cons.prems(2) by (metis (mono_tags, lifting) distinct.simps(2) image_eqI list.simps(9) list.set_map)
    then show "(sid, en_stream x, en_seq x) \<notin> seg_key ` set (ar_segments b)"
      unfolding insert_encoded_key(2) [OF b] using Cons.prems(3) x by simp
  qed
  ultimately show ?case using Cons.IH [of b] Cons.prems(2) b by simp
qed

lemma distinct_number_parts: "distinct (map (\<lambda>e. (en_stream e, en_seq e)) (number_parts s q ps))"
proof (induction ps arbitrary: q)
  case (Cons p ps)
  have "(s, q) \<notin> (\<lambda>e. (en_stream e, en_seq e)) ` set (number_parts s (Suc q) ps)"
    by (auto dest: number_parts_seq)
  then show ?case using Cons by simp
qed simp

lemma distinct_blocks:
  assumes "distinct batch"
  shows "distinct (map (\<lambda>e. (en_stream e, en_seq e)) (concat (map (stream_block a sid nxt n enc) batch)))"
  using assms
proof (induction batch)
  case (Cons s batch)
  have "distinct (map (\<lambda>e. (en_stream e, en_seq e)) (stream_block a sid nxt n enc s))"
    by (simp add: stream_block_def distinct_number_parts)
  then show ?case using Cons by (fastforce dest: stream_block_stream)
qed simp

lemma transaction_no_fault:
  "db_faults d = [] \<Longrightarrow> f (db_archive d) = Inr a \<Longrightarrow>
   transaction (unit_body f) d = (Inr (), d\<lparr>db_archive := a\<rparr>)"
  by (simp add: transaction_def next_fault_def unit_body_def)

lemma prune_batch_no_fault: "db_faults d = [] \<Longrightarrow> fst (prune_batch sid es d) = Inr ()"
proof (induction es arbitrary: d)
  case (Cons e es)
  then show ?case
    using transaction_no_fault [OF Cons.prems, of "\<lambda>a. Inr (prune_wal sid (en_stream e) (en_last e) a)"] by simp
qed simp

text \<open>
  In a well-formed writer state, a seal of distinct streams of a source the
  archive holds, whose rows all encode, cannot be refused: with no fault from
  SQLite it commits.
\<close>

theorem seal_batch_commits:
  assumes "writer_ok st" and "has_source (ss_archive st) sid" and "distinct batch"
    and "encode_batch (ss_archive st) sid (ss_next_seq st) n enc batch = Inr (es, obs)"
    and "db_faults (ss_db st) = []"
  shows "fst (seal_batch sid batch n enc st) = Inr ()"
proof -
  let ?a = "ss_archive st"
  have es: "es = concat (map (stream_block ?a sid (ss_next_seq st) n enc) batch)"
    by (rule encode_batch_Inr(2) [OF assms(4)])
  have fresh: "(sid, en_stream e, en_seq e) \<notin> seg_key ` set (ar_segments ?a)" if e: "e \<in> set es" for e
  proof
    assume "(sid, en_stream e, en_seq e) \<in> seg_key ` set (ar_segments ?a)"
    then obtain x where x: "x \<in> set (stream_rows ?a sid (en_stream e))" "sg_seq x = en_seq e"
      by (auto simp: seg_key_def set_stream_rows seg_of_def)
    have "or_zero (ss_next_seq st (sid, en_stream e)) \<le> en_seq e"
    proof -
      obtain s where "e \<in> set (number_parts s (or_zero (ss_next_seq st (sid, s))) (stream_parts ?a sid n enc s))"
        using e by (auto simp: es stream_block_def)
      with number_parts_seq [OF this] number_parts_stream [OF this] show ?thesis by simp
    qed
    with x maps_okD(3) [of st x sid "en_stream e"] assms(1) show False by (simp add: writer_ok_def)
  qed
  have "distinct (map (\<lambda>e. (en_stream e, en_seq e)) es)"
    unfolding es by (rule distinct_blocks [OF assms(3)])
  then obtain b where b: "rfold (insert_encoded sid) ?a es = Inr b" "has_source b sid"
    using install_fresh [OF assms(2) _ ballI [OF fresh]] by blast
  have "\<exists>c. install_batch sid es obs ?a = Inr c"
    using b by (cases obs) (simp_all add: install_batch_def insert_clock_offset_def case_prod_beta)
  then obtain c where "install_batch sid es obs ?a = Inr c" ..
  from transaction_no_fault [where f = "install_batch sid es obs" and d = "ss_db st", OF assms(5) this] assms(4,5) show ?thesis
    by (simp add: seal_batch_def prune_batch_no_fault case_prod_beta)
qed

subsection \<open>Adopting a segment\<close>

lemma adopt_accepted:
  assumes ok: "writer_ok st"
    and ins: "insert_segment_with_index sid s (or_zero (ss_next_seq st (sid, s))) m p ix (ss_archive st) = Inr b"
    and above: "\<And>x. ss_watermarks st (sid, s) = Some x \<Longrightarrow> x < meta_first_ts m"
    and below: "\<And>x. x \<in> set (live_wal (ss_archive st) sid s) \<Longrightarrow> meta_last_ts m < row_ts x"
    and m: "meta_first_ts m \<le> meta_last_ts m"
    and st': "st' = st\<lparr>ss_db := d, ss_next_seq := (ss_next_seq st)((sid, s) := Some (or_zero (ss_next_seq st (sid, s)) + 1)),
            ss_watermarks := (ss_watermarks st)((sid, s) := Some (meta_last_ts m))\<rparr>" "db_archive d = b"
  shows "writer_ok st'" and "maps_grow st st'" and "live_wal b i t = live_wal (ss_archive st) i t"
    and "\<exists>row. stream_rows b sid s = stream_rows (ss_archive st) sid s @ [row]
              \<and> sg_meta row = m \<and> sg_bytes row = p \<and> sg_seq row = or_zero (ss_next_seq st (sid, s))"
proof -
  let ?a = "ss_archive st"
  have maps: "maps_ok st" and ok_a: "archive_ok ?a" using ok by (simp_all add: writer_ok_def)
  have mark_le: "w \<le> meta_last_ts m" if "watermark ?a sid s = Some w" for w
    using maps_okD(1) [OF maps that] above m by fastforce
  note mark1 = watermark_insert_segment(1) [OF ins mark_le]
    and mark2 = watermark_insert_segment(2) [OF ins mark_le]
  have live: "live_wal b i t = live_wal ?a i t" for i t
    using live_wal_insert_segment [OF ins mark_le, of i t] below
    by (auto simp: filter_id_conv)
  then show "live_wal b i t = live_wal ?a i t" .
  have rows: "\<exists>row. stream_rows b i t = stream_rows ?a i t @ (if i = sid \<and> t = s then [row] else [])
     \<and> sg_meta row = m \<and> sg_bytes row = p \<and> sg_seq row = or_zero (ss_next_seq st (sid, s))" for i t
    using stream_rows_insert_segment [OF ins, of i t] by blast
  from rows [of sid s] show "\<exists>row. stream_rows b sid s = stream_rows ?a sid s @ [row]
              \<and> sg_meta row = m \<and> sg_bytes row = p \<and> sg_seq row = or_zero (ss_next_seq st (sid, s))" by simp
  show "maps_grow st st'"
    using above m by (fastforce simp: maps_grow_def st' or_zero_def)
  have "maps_ok st'"
    unfolding maps_ok_def
  proof (intro conjI allI impI ballI)
    fix i t w assume "watermark (ss_archive st') i t = Some w"
    then show "\<exists>v \<ge> w. ss_watermarks st' (i, t) = Some v"
      using maps_okD(1) [OF maps, of i t w] mark1 mark2 [of i t]
      by (cases "(i, t) = (sid, s)") (auto simp: st')
  next
    fix i t w r assume "ss_watermarks st' (i, t) = Some w" "r \<in> set (live_wal (ss_archive st') i t)"
    then show "w < row_ts r"
      using maps_okD(2) [OF maps, of i t w r] below [of r] by (auto simp: st' live split: if_splits)
  next
    fix i t x assume "x \<in> set (stream_rows (ss_archive st') i t)"
    then show "sg_seq x < or_zero (ss_next_seq st' (i, t))"
      using rows [of i t] maps_okD(3) [OF maps, of x i t]
      by (auto simp: st' or_zero_def split: if_splits option.splits)
  qed
  moreover have "archive_ok (ss_archive st')"
    using archive_ok_insert_segment [OF ok_a ins] by (simp add: st')
  ultimately show "writer_ok st'" by (simp add: writer_ok_def)
qed

lemma adopt_segment_cases:
  assumes "adopt_segment sid seg st = (r, st')"
  obtains (covered) w where "r = Inr False" "st' = st" "ss_watermarks st (sid, ad_stream seg) = Some w"
      "meta_last_ts (ad_meta seg) \<le> w"
  | (refused) e d where "r = Inl e" "st' = st\<lparr>ss_db := d\<rparr>" "db_archive d = ss_archive st"
  | (taken) d where "r = Inr True"
      "st' = st\<lparr>ss_db := d,
         ss_next_seq := (ss_next_seq st)((sid, ad_stream seg) := Some (or_zero (ss_next_seq st (sid, ad_stream seg)) + 1)),
         ss_watermarks := (ss_watermarks st)((sid, ad_stream seg) := Some (meta_last_ts (ad_meta seg)))\<rparr>"
      "insert_segment_with_index sid (ad_stream seg) (or_zero (ss_next_seq st (sid, ad_stream seg))) (ad_meta seg)
         (ad_bytes seg) (ad_caller_index seg) (ss_archive st) = Inr (db_archive d)"
      "\<And>x. ss_watermarks st (sid, ad_stream seg) = Some x \<Longrightarrow> x < meta_first_ts (ad_meta seg)"
      "\<And>x. x \<in> set (live_wal (ss_archive st) sid (ad_stream seg)) \<Longrightarrow> meta_last_ts (ad_meta seg) < row_ts x"
      "meta_first_ts (ad_meta seg) \<le> meta_last_ts (ad_meta seg)" "meta_rows (ad_meta seg) \<noteq> 0"
proof -
  let ?a = "ss_archive st" and ?s = "ad_stream seg" and ?m = "ad_meta seg"
  let ?q = "or_zero (ss_next_seq st (sid, ?s))"
  let ?body = "insert_segment_with_index sid ?s ?q ?m (ad_bytes seg) (ad_caller_index seg)"
  let ?refused = "meta_rows ?m = 0 \<or> meta_first_ts ?m > meta_last_ts ?m
      \<or> (\<exists>x. ss_watermarks st (sid, ?s) = Some x \<and> meta_first_ts ?m \<le> x)
      \<or> (\<exists>x. span_first_ts (live_wal_span ?a sid ?s) = Some x \<and> x \<le> meta_last_ts ?m)"
  show thesis
  proof (cases ?refused)
    case True
    then have "(\<exists>e. r = Inl e \<and> st' = st)
        \<or> (r = Inr False \<and> st' = st \<and> (\<exists>w. ss_watermarks st (sid, ?s) = Some w \<and> meta_last_ts ?m \<le> w))"
      using assms unfolding adopt_segment_def Let_def opt_holds_iff by (simp split: if_splits) auto
    then show thesis using covered refused [of _ "ss_db st"] by auto
  next
    case False
    then have m: "meta_first_ts ?m \<le> meta_last_ts ?m" and counted: "meta_rows ?m \<noteq> 0"
      and above: "\<And>x. ss_watermarks st (sid, ?s) = Some x \<Longrightarrow> x < meta_first_ts ?m"
      and span: "\<And>x. span_first_ts (live_wal_span ?a sid ?s) = Some x \<Longrightarrow> meta_last_ts ?m < x"
      by (auto simp: not_le)
    have below: "meta_last_ts ?m < row_ts x" if x: "x \<in> set (live_wal ?a sid ?s)" for x
      using x span by (cases "span_first_ts (live_wal_span ?a sid ?s)")
        (force simp: live_wal_span_first_None live_wal_span_first)+
    have "\<not> (\<exists>x. ss_watermarks st (sid, ?s) = Some x \<and> meta_last_ts ?m \<le> x)"
      using above m by fastforce
    then have step: "adopt_segment sid seg st =
      (case transaction (unit_body ?body) (ss_db st) of
         (Inl e, db) \<Rightarrow> (Inl e, st\<lparr>ss_db := db\<rparr>)
       | (Inr _, db) \<Rightarrow> (Inr True, st\<lparr>ss_db := db,
            ss_next_seq := (ss_next_seq st)((sid, ?s) := Some (?q + 1)),
            ss_watermarks := (ss_watermarks st)((sid, ?s) := Some (meta_last_ts ?m))\<rparr>))"
      unfolding adopt_segment_def Let_def opt_holds_iff
      using False by (simp del: not_ex split del: if_split)
    show thesis
    proof (rule transaction_unit_cases [of ?body "ss_db st"])
      fix e
      assume "transaction (unit_body ?body) (ss_db st) = (Inl e, (ss_db st)\<lparr>db_faults := tl (db_faults (ss_db st))\<rparr>)"
      then show thesis
        using assms step by (intro refused [of e "(ss_db st)\<lparr>db_faults := tl (db_faults (ss_db st))\<rparr>"]) auto
    next
      fix b
      assume t: "transaction (unit_body ?body) (ss_db st)
          = (Inr (), (ss_db st)\<lparr>db_archive := b, db_faults := tl (db_faults (ss_db st))\<rparr>)"
        and ins: "?body ?a = Inr b"
      show thesis
        by (rule taken [of "(ss_db st)\<lparr>db_archive := b, db_faults := tl (db_faults (ss_db st))\<rparr>"])
          (use assms step t ins above below m counted in auto)
    qed
  qed
qed

lemma adopt_stored_before:
  assumes "maps_ok st" and "\<And>x. ss_watermarks st (sid, s) = Some x \<Longrightarrow> x < first"
    and x: "x \<in> set (stream_rows (ss_archive st) sid s)"
  shows "meta_last_ts (sg_meta x) < first"
proof -
  obtain w where w: "watermark (ss_archive st) sid s = Some w"
    using x by (cases "watermark (ss_archive st) sid s") (auto simp: watermark_None)
  then obtain v where "ss_watermarks st (sid, s) = Some v" "w \<le> v"
    using maps_okD(1) [OF assms(1)] by blast
  with w x assms(2) show ?thesis by (force simp: watermark_Some)
qed

text \<open>When a segment is taken, when it is passed over, and when it is refused.\<close>

lemma adopt_fresh_key:
  assumes "maps_ok st"
  shows "\<not> segment_key_taken (ss_archive st) sid s (or_zero (ss_next_seq st (sid, s)))"
  using maps_okD(3) [OF assms] by (fastforce simp: segment_key_taken_def seg_key_def set_stream_rows seg_of_def)

lemma insert_segment_ok:
  "is_ok (insert_segment_with_index sid s q m p ix a) \<longleftrightarrow> \<not> segment_key_taken a sid s q \<and> has_source a sid"
  by (auto simp: insert_segment_with_index_def constraint_error_def Let_def split: index_layout.split)

lemma unit_transaction_ok:
  "is_ok (fst (transaction (unit_body f) db)) \<longleftrightarrow> fst (next_fault db) = None \<and> is_ok (f (db_archive db))"
  by (auto simp: transaction_def next_fault_def unit_body_def split: list.splits option.splits sum.splits; cases "f (db_archive db)"; simp)

lemma adopt_answers:
  fixes sid seg st
  defines "m \<equiv> ad_meta seg" and "w \<equiv> ss_watermarks st (sid, ad_stream seg)"
  assumes "maps_ok st"
  shows "fst (adopt_segment sid seg st) = Inr False \<longleftrightarrow>
      0 < meta_rows m \<and> meta_first_ts m \<le> meta_last_ts m \<and> (\<exists>x. w = Some x \<and> meta_last_ts m \<le> x)"
    and "fst (adopt_segment sid seg st) = Inr True \<longleftrightarrow>
      0 < meta_rows m \<and> meta_first_ts m \<le> meta_last_ts m \<and> (\<forall>x. w = Some x \<longrightarrow> x < meta_first_ts m)
      \<and> (\<forall>r \<in> set (live_wal (ss_archive st) sid (ad_stream seg)). meta_last_ts m < row_ts r)
      \<and> has_source (ss_archive st) sid \<and> fst (next_fault (ss_db st)) = None"
proof -
  let ?a = "ss_archive st" and ?s = "ad_stream seg"
  let ?q = "or_zero (ss_next_seq st (sid, ?s))"
  let ?t = "transaction (unit_body (insert_segment_with_index sid ?s ?q m (ad_bytes seg) (ad_caller_index seg))) (ss_db st)"
  have live: "(\<exists>x. span_first_ts (live_wal_span ?a sid ?s) = Some x \<and> x \<le> meta_last_ts m)
      \<longleftrightarrow> (\<exists>r \<in> set (live_wal ?a sid ?s). row_ts r \<le> meta_last_ts m)"
  proof (cases "span_first_ts (live_wal_span ?a sid ?s)")
    case None
    then show ?thesis unfolding None by (simp add: live_wal_span_first_None [THEN iffD1, OF None])
  next
    case (Some x)
    then have "x \<in> row_ts ` set (live_wal ?a sid ?s)" "\<forall>r \<in> set (live_wal ?a sid ?s). x \<le> row_ts r"
      by (simp_all add: live_wal_span_first)
    then show ?thesis unfolding Some by auto
  qed
  have t: "is_ok (fst ?t) \<longleftrightarrow> has_source ?a sid \<and> fst (next_fault (ss_db st)) = None"
    unfolding unit_transaction_ok insert_segment_ok using adopt_fresh_key [OF assms(3)] by blast
  obtain y d where td: "?t = (y, d)" by fastforce
  have step: "fst (adopt_segment sid seg st) =
    (if meta_rows m = 0 \<or> meta_first_ts m > meta_last_ts m then Inl (Message ''not a segment that can exist'')
     else if \<exists>x. w = Some x \<and> meta_last_ts m \<le> x then Inr False
     else if \<exists>x. w = Some x \<and> meta_first_ts m \<le> x then Inl (Message ''straddles the stream's newest sealed row'')
     else if \<exists>r \<in> set (live_wal ?a sid ?s). row_ts r \<le> meta_last_ts m
     then Inl (Message ''ends at or after an unsealed row already in the WAL'')
     else case fst ?t of Inl e \<Rightarrow> Inl e | Inr _ \<Rightarrow> Inr True)"
    unfolding adopt_segment_def Let_def opt_holds_iff m_def [symmetric] w_def [symmetric] live td prod.case fst_conv
    by (cases y) (simp_all only: sum.case if_distrib [of fst] fst_conv)
  show "fst (adopt_segment sid seg st) = Inr False \<longleftrightarrow>
      0 < meta_rows m \<and> meta_first_ts m \<le> meta_last_ts m \<and> (\<exists>x. w = Some x \<and> meta_last_ts m \<le> x)"
    unfolding step by (auto split: sum.splits)
  show "fst (adopt_segment sid seg st) = Inr True \<longleftrightarrow>
      0 < meta_rows m \<and> meta_first_ts m \<le> meta_last_ts m \<and> (\<forall>x. w = Some x \<longrightarrow> x < meta_first_ts m)
      \<and> (\<forall>r \<in> set (live_wal ?a sid ?s). meta_last_ts m < row_ts r)
      \<and> has_source ?a sid \<and> fst (next_fault (ss_db st)) = None"
    unfolding step t [symmetric] td fst_conv by (cases y; cases w) (auto simp: not_le, (force simp: not_less)+)
qed

lemma insert_segment_row_frame:
  assumes "insert_segment_with_index sid s q m p ix a = Inr b"
  shows "ar_wal b = ar_wal a"
    and "(i, t) \<noteq> (sid, s) \<Longrightarrow> stream_rows b i t = stream_rows a i t"
    and "stream_rows b sid s = stream_rows a sid s @ [row] \<Longrightarrow>
      segment_index b row = (if ar_layout a = LayoutAbsent then None else ix)"
proof -
  have none: "find (index_row_of sid s q) (filter (\<lambda>i. \<not> index_row_of sid s q i) xs) = None" for xs
    by (simp add: find_None_iff)
  have new: "index_row_of sid s q \<lparr>ix_source = sid, ix_stream = s, ix_seq = q, ix_bytes = x\<rparr>" for x
    by (simp add: index_row_of_def)
  show "ar_wal b = ar_wal a" "(i, t) \<noteq> (sid, s) \<Longrightarrow> stream_rows b i t = stream_rows a i t"
    "stream_rows b sid s = stream_rows a sid s @ [row] \<Longrightarrow>
      segment_index b row = (if ar_layout a = LayoutAbsent then None else ix)"
    using assms
    by (auto simp: insert_segment_with_index_def constraint_error_def Let_def stream_rows_def seg_of_def segment_index_def
        find_append none new split: if_splits index_layout.splits option.splits)
qed


subsection \<open>At a concrete state\<close>

text \<open>The writer over the sample archive: stream \<open>cpu\<close> sealed up to 20, live at 25 and 30.\<close>

definition sample_state :: seal_state where
  "sample_state = \<lparr>ss_db = sample_db, ss_next_seq = [(1, str ''cpu'') \<mapsto> 1], ss_watermarks = [(1, str ''cpu'') \<mapsto> 20]\<rparr>"

lemma sample_state_archive [simp]: "ss_archive sample_state = sample_archive"
  by (simp add: sample_state_def sample_db_def)

lemma sample_watermark:
  "watermark sample_archive i t = (if i = 1 \<and> t = str ''cpu'' then Some 20 else None)"
  by (simp add: watermark_def sample_archive_streams sample_segment_row_def col_max_def)

lemma sample_live:
  "live_wal sample_archive i t = (if i = 1 \<and> t = str ''cpu'' then [sample_row 25, sample_row 30] else [])"
  by (simp add: live_wal_def is_live_def sample_watermark sample_archive_streams sample_row_def order_by_def)

lemma writer_ok_sample: "writer_ok sample_state"
  unfolding writer_ok_def maps_ok_def sample_state_archive
  by (auto simp: archive_ok_sample sample_watermark sample_live sample_archive_streams sample_state_def
      sample_row_def sample_segment_row_def or_zero_def split: if_splits)

lemma sample_seal:
  "encode_batch sample_archive 1 (ss_next_seq sample_state) 1 all_rows_encoder [str ''cpu''] =
     Inr (number_parts (str ''cpu'') 1
            [\<lparr>seg_bytes = [7], seg_rows = 1, seg_first_ts = 25, seg_last_ts = 25, seg_index = None\<rparr>,
             \<lparr>seg_bytes = [7], seg_rows = 1, seg_first_ts = 30, seg_last_ts = 30, seg_index = None\<rparr>], Some (30, 0))"
  by code_simp

theorem seal_batch_commits_witness:
  "fst (seal_batch 1 [str ''cpu''] 1 all_rows_encoder sample_state) = Inr ()"
  by (rule seal_batch_commits [OF writer_ok_sample])
    (simp_all only: sample_state_archive sample_seal, simp_all add: has_source_iff source_ids_def sample_archive_def
      sample_state_def sample_db_def)


definition sample_adopted :: "i64 \<Rightarrow> i64 \<Rightarrow> adopted" where
  "sample_adopted lo hi = \<lparr>ad_stream = str ''cpu'', ad_meta = \<lparr>meta_rows = 2, meta_first_ts = lo, meta_last_ts = hi\<rparr>,
     ad_bytes = [1], ad_caller_index = None\<rparr>"


end
