(* ===== verification/Eviction.thy ===== *)
theory Eviction
  imports Archive_Ops
begin

section \<open>Retention (\<open>ArchiveMut::evict*\<close> of \<open>src/archive/sqlite.rs\<close>)\<close>

text \<open>
  Eviction by a cutoff, of a whole source or of the streams a predicate accepts,
  with or without a floor for the caller rows. Each function returns what it
  deleted and the tables it leaves, inside one transaction.
\<close>

type_synonym caller_row_floor = "rstring \<Rightarrow> i64 option \<Rightarrow> i64"

record evicted =
  ev_segments :: nat
  ev_wal_rows :: nat
  ev_live_rows :: nat
  ev_caller_rows :: nat
  ev_held_streams :: nat

definition no_evicted :: evicted where
  "no_evicted = \<lparr>ev_segments = 0, ev_wal_rows = 0, ev_live_rows = 0, ev_caller_rows = 0,
     ev_held_streams = 0\<rparr>"

subsection \<open>Operations\<close>

definition oldest_row :: "archive \<Rightarrow> i64 \<Rightarrow> rstring \<Rightarrow> i64 option" where
  "oldest_row a sid s =
     col_min (map (\<lambda>r. meta_first_ts (sg_meta r)) (stream_rows a sid s) @ map row_ts (wal_of a sid s))"

definition caller_rows_below :: "i64 \<Rightarrow> rstring \<Rightarrow> i64 \<Rightarrow> i64 \<times> rstring \<times> caller_row \<Rightarrow> bool" where
  "caller_rows_below sid s limit = (\<lambda>(i, t, r). i = sid \<and> t = s \<and> cr_ts r < limit)"

definition evict_caller_rows ::
  "i64 \<Rightarrow> rstring \<Rightarrow> i64 \<Rightarrow> caller_row_floor option \<Rightarrow> archive \<Rightarrow> nat \<times> archive" where
  "evict_caller_rows sid s cutoff floor a =
    (let limit = (case floor of Some f \<Rightarrow> min (f s (oldest_row a sid s)) cutoff | None \<Rightarrow> cutoff)
     in (length (filter (caller_rows_below sid s limit) (ar_caller a)),
         a\<lparr>ar_caller := filter (\<lambda>r. \<not> caller_rows_below sid s limit r) (ar_caller a)\<rparr>))"

fun evict_caller_rows_of ::
  "i64 \<Rightarrow> i64 \<Rightarrow> caller_row_floor option \<Rightarrow> rstring list \<Rightarrow> archive \<Rightarrow> nat \<times> archive" where
  "evict_caller_rows_of sid cutoff floor [] a = (0, a)"
| "evict_caller_rows_of sid cutoff floor (s # ss) a =
    (let (n, a1) = evict_caller_rows sid s cutoff floor a;
         (m, a2) = evict_caller_rows_of sid cutoff floor ss a1
     in (n + m, a2))"

text \<open>The whole source: \<open>ArchiveMut::evict\<close>.\<close>

definition expired_segment :: "i64 \<Rightarrow> i64 \<Rightarrow> segment_table_row \<Rightarrow> bool" where
  "expired_segment sid cutoff r \<longleftrightarrow> sg_source r = sid \<and> meta_last_ts (sg_meta r) < cutoff"

definition expired_wal :: "i64 \<Rightarrow> i64 \<Rightarrow> i64 \<times> wal_row \<Rightarrow> bool" where
  "expired_wal sid cutoff = (\<lambda>(i, r). i = sid \<and> row_ts r < cutoff)"

definition evict_source ::
  "i64 \<Rightarrow> i64 \<Rightarrow> caller_row_floor option \<Rightarrow> archive \<Rightarrow> evicted \<times> archive" where
  "evict_source sid cutoff floor a =
    (let names = (case floor of Some _ \<Rightarrow> caller_row_streams a sid | None \<Rightarrow> []);
         live_rows = length (filter (\<lambda>r. expired_wal sid cutoff r \<and> live_for_row a r) (ar_wal a));
         segments = length (filter (expired_segment sid cutoff) (ar_segments a));
         a1 = delete_segments_where (expired_segment sid cutoff) a;
         wal_rows = length (filter (expired_wal sid cutoff) (ar_wal a1));
         a2 = a1\<lparr>ar_wal := filter (\<lambda>r. \<not> expired_wal sid cutoff r) (ar_wal a1)\<rparr>;
         a3 = a2\<lparr>ar_clock := filter (\<lambda>(i, ts, _). \<not> (i = sid \<and> ts < cutoff)) (ar_clock a2)\<rparr>;
         (caller_rows, a4) =
           (case floor of
              None \<Rightarrow>
                (length (filter (\<lambda>(i, _, r). i = sid \<and> cr_ts r < cutoff) (ar_caller a3)),
                 a3\<lparr>ar_caller := filter (\<lambda>(i, _, r). \<not> (i = sid \<and> cr_ts r < cutoff)) (ar_caller a3)\<rparr>)
            | Some _ \<Rightarrow> evict_caller_rows_of sid cutoff floor names a3)
     in (\<lparr>ev_segments = segments, ev_wal_rows = wal_rows, ev_live_rows = live_rows,
          ev_caller_rows = caller_rows, ev_held_streams = 0\<rparr>, a4))"

definition evict_before :: "i64 \<Rightarrow> i64 \<Rightarrow> db \<Rightarrow> evicted result \<times> db" where
  "evict_before sid cutoff = transaction (\<lambda>a. Inr (evict_source sid cutoff None a))"

definition evict_before_with_floor ::
  "i64 \<Rightarrow> i64 \<Rightarrow> caller_row_floor \<Rightarrow> db \<Rightarrow> evicted result \<times> db" where
  "evict_before_with_floor sid cutoff floor =
     transaction (\<lambda>a. Inr (evict_source sid cutoff (Some floor) a))"

text \<open>One stream of \<open>evict_streams\<close>, and its loop.\<close>

definition evict_stream ::
  "i64 \<Rightarrow> i64 \<Rightarrow> caller_row_floor option \<Rightarrow> rstring \<Rightarrow> evicted \<times> archive \<Rightarrow> evicted \<times> archive" where
  "evict_stream sid cutoff floor s = (\<lambda>(total, a).
    let live_rows = length (filter (\<lambda>r. is_live a sid s (row_ts r) \<and> row_ts r < cutoff) (wal_of a sid s));
        gone = (\<lambda>r. sg_source r = sid \<and> sg_stream r = s \<and> meta_last_ts (sg_meta r) < cutoff);
        segments = length (filter gone (ar_segments a));
        a1 = delete_segments_where gone a;
        old = (\<lambda>(i, r). i = sid \<and> row_stream r = s \<and> row_ts r < cutoff);
        wal_rows = length (filter old (ar_wal a1));
        a2 = a1\<lparr>ar_wal := filter (\<lambda>r. \<not> old r) (ar_wal a1)\<rparr>;
        (caller_rows, a3) = evict_caller_rows sid s cutoff floor a2
    in (\<lparr>ev_segments = ev_segments total + segments, ev_wal_rows = ev_wal_rows total + wal_rows,
         ev_live_rows = ev_live_rows total + live_rows,
         ev_caller_rows = ev_caller_rows total + caller_rows,
         ev_held_streams = ev_held_streams total\<rparr>, a3))"

definition oldest_of_source :: "archive \<Rightarrow> i64 \<Rightarrow> i64 option" where
  "oldest_of_source a sid =
     col_min (map (\<lambda>r. meta_first_ts (sg_meta r)) (filter (\<lambda>r. sg_source r = sid) (ar_segments a))
              @ map (row_ts \<circ> snd) (filter (\<lambda>(i, r). i = sid) (ar_wal a)))"

definition evict_chosen_streams ::
  "i64 \<Rightarrow> i64 \<Rightarrow> caller_row_floor option \<Rightarrow> rstring list \<Rightarrow> archive \<Rightarrow> evicted \<times> archive" where
  "evict_chosen_streams sid cutoff floor streams a =
    (let (total, a1) = fold (evict_stream sid cutoff floor) streams (no_evicted, a);
         bound = (case oldest_of_source a1 sid of Some t \<Rightarrow> t | None \<Rightarrow> cutoff)
     in (total, a1\<lparr>ar_clock := filter (\<lambda>(i, ts, _). \<not> (i = sid \<and> ts < bound)) (ar_clock a1)\<rparr>))"

definition evictable_streams :: "archive \<Rightarrow> i64 \<Rightarrow> rstring list" where
  "evictable_streams a sid =
     all_streams a sid
     @ filter (\<lambda>n. n \<notin> set (all_streams a sid)) (caller_row_streams a sid)"

definition evict_streams ::
  "i64 \<Rightarrow> i64 \<Rightarrow> (rstring \<Rightarrow> bool) \<Rightarrow> caller_row_floor option \<Rightarrow> db \<Rightarrow> evicted result \<times> db" where
  "evict_streams sid cutoff evict floor db =
     transaction (\<lambda>a. Inr (evict_chosen_streams sid cutoff floor
         (filter evict (evictable_streams (db_archive db) sid)) a)) db"

definition evict_streams_before ::
  "i64 \<Rightarrow> i64 \<Rightarrow> (rstring \<Rightarrow> bool) \<Rightarrow> db \<Rightarrow> evicted result \<times> db" where
  "evict_streams_before sid cutoff evict = evict_streams sid cutoff evict None"

definition evict_streams_before_with_floor ::
  "i64 \<Rightarrow> i64 \<Rightarrow> (rstring \<Rightarrow> bool) \<Rightarrow> caller_row_floor \<Rightarrow> db \<Rightarrow> evicted result \<times> db" where
  "evict_streams_before_with_floor sid cutoff evict floor = evict_streams sid cutoff evict (Some floor)"

subsection \<open>What stays of a stream\<close>

text \<open>
  The tables of one stream after an eviction that took its segments wholly
  before the cutoff and its WAL rows before it.
\<close>

definition stream_evicted :: "i64 \<Rightarrow> i64 \<Rightarrow> rstring \<Rightarrow> archive \<Rightarrow> archive \<Rightarrow> bool" where
  "stream_evicted sid cutoff s a a' \<longleftrightarrow>
     stream_rows a' sid s = filter (\<lambda>r. cutoff \<le> meta_last_ts (sg_meta r)) (stream_rows a sid s)
     \<and> wal_of a' sid s = filter (\<lambda>r. cutoff \<le> row_ts r) (wal_of a sid s)"

lemma col_max_filter_ge:
  "col_max (filter (\<lambda>x. c \<le> x) xs) = (case col_max xs of Some m \<Rightarrow> if c \<le> m then Some m else None | None \<Rightarrow> None)"
proof (cases "col_max xs")
  case None
  then have "xs = []" by simp
  then show ?thesis by (simp add: col_max_def)
next
  case (Some m)
  then have m: "m \<in> set xs" "\<forall>x \<in> set xs. x \<le> m" by (simp_all add: col_max_Some)
  show ?thesis
  proof (cases "c \<le> m")
    case True
    with m have "col_max (filter (\<lambda>x. c \<le> x) xs) = Some m" by (simp add: col_max_Some)
    with Some True show ?thesis by simp
  next
    case False
    with m have "filter (\<lambda>x. c \<le> x) xs = []" by (force simp: filter_empty_conv)
    with Some False show ?thesis by simp
  qed
qed

lemma watermark_evicted:
  assumes "stream_evicted sid cutoff s a a'"
  shows "watermark a' sid s =
    (case watermark a sid s of Some m \<Rightarrow> if cutoff \<le> m then Some m else None | None \<Rightarrow> None)"
proof -
  have "map (\<lambda>r. meta_last_ts (sg_meta r)) (stream_rows a' sid s)
      = filter (\<lambda>x. cutoff \<le> x) (map (\<lambda>r. meta_last_ts (sg_meta r)) (stream_rows a sid s))"
    using assms by (simp add: stream_evicted_def filter_map o_def)
  then show ?thesis by (simp add: watermark_def col_max_filter_ge)
qed

text \<open>Deleting by one cutoff on both sides of the seam never makes a shadowed row live.\<close>

lemma live_wal_evicted:
  assumes "stream_evicted sid cutoff s a a'"
  shows "live_wal a' sid s = filter (\<lambda>r. cutoff \<le> row_ts r) (live_wal a sid s)"
proof -
  have "is_live a' sid s x \<longleftrightarrow> is_live a sid s x" if "cutoff \<le> x" for x
    using that watermark_evicted [OF assms] by (auto simp: is_live_def split: option.splits if_splits)
  then have "filter (\<lambda>r. is_live a' sid s (row_ts r)) (filter (\<lambda>r. cutoff \<le> row_ts r) rs)
      = filter (\<lambda>r. cutoff \<le> row_ts r) (filter (\<lambda>r. is_live a sid s (row_ts r)) rs)"
    for rs :: "wal_row list"
    by (auto intro: filter_cong)
  with assms show ?thesis
    by (simp add: live_wal_def stream_evicted_def filter_order_by)
qed

lemma evict_caller_rows_frame [simp]:
  "ar_wal (snd (evict_caller_rows sid s c f a)) = ar_wal a"
  "ar_segments (snd (evict_caller_rows sid s c f a)) = ar_segments a"
  "ar_indexes (snd (evict_caller_rows sid s c f a)) = ar_indexes a"
  "ar_clock (snd (evict_caller_rows sid s c f a)) = ar_clock a"
  "ar_sources (snd (evict_caller_rows sid s c f a)) = ar_sources a"
  "ar_documents (snd (evict_caller_rows sid s c f a)) = ar_documents a"
  by (simp_all add: evict_caller_rows_def Let_def)

lemma evict_caller_rows_of_frame [simp]:
  "ar_wal (snd (evict_caller_rows_of sid c f ss a)) = ar_wal a"
  "ar_segments (snd (evict_caller_rows_of sid c f ss a)) = ar_segments a"
  "ar_indexes (snd (evict_caller_rows_of sid c f ss a)) = ar_indexes a"
  "ar_clock (snd (evict_caller_rows_of sid c f ss a)) = ar_clock a"
  "ar_sources (snd (evict_caller_rows_of sid c f ss a)) = ar_sources a"
  by (induction ss arbitrary: a) (simp_all add: Let_def case_prod_beta)

lemma evict_source_segments:
  "ar_segments (snd (evict_source sid c f a)) = filter (\<lambda>r. \<not> expired_segment sid c r) (ar_segments a)"
  by (simp add: evict_source_def Let_def case_prod_beta split: option.splits)

lemma evict_source_wal:
  "ar_wal (snd (evict_source sid c f a)) = filter (\<lambda>r. \<not> expired_wal sid c r) (ar_wal a)"
  by (simp add: evict_source_def Let_def case_prod_beta split: option.splits)

lemma evict_source_sources: "ar_sources (snd (evict_source sid c f a)) = ar_sources a"
  by (simp add: evict_source_def Let_def case_prod_beta split: option.splits)

lemma evict_source_stream: "stream_evicted sid c s a (snd (evict_source sid c f a))"
proof -
  have "map snd (filter (\<lambda>(i, r). i = sid \<and> row_stream r = s) (filter (\<lambda>r. \<not> expired_wal sid c r) w))
      = filter (\<lambda>r. c \<le> row_ts r) (map snd (filter (\<lambda>(i, r). i = sid \<and> row_stream r = s) w))" for w
    by (induction w) (auto simp: expired_wal_def)
  then show ?thesis
    by (auto simp: stream_evicted_def stream_rows_def wal_of_def evict_source_segments evict_source_wal
        expired_segment_def seg_of_def intro: filter_cong)
qed

lemma evict_source_other:
  assumes "i \<noteq> sid"
  shows "stream_rows (snd (evict_source sid c f a)) i s = stream_rows a i s"
    and "wal_of (snd (evict_source sid c f a)) i s = wal_of a i s"
  using assms
  by (auto simp: stream_rows_def wal_of_def evict_source_segments evict_source_wal expired_segment_def
      expired_wal_def seg_of_def intro!: filter_cong arg_cong [where f = "map snd"])

lemma length_filter_not: "length (filter (\<lambda>x. \<not> P x) xs) + length (filter P xs) = length xs"
  by (induction xs) auto

text \<open>The oldest row a stream has, sealed or in the WAL, and below what its caller rows go.\<close>

definition oldest_ts :: "archive \<Rightarrow> i64 \<Rightarrow> rstring \<Rightarrow> i64 option" where
  "oldest_ts a sid s =
    (let T = {meta_first_ts (sg_meta g) | g. g \<in> set (ar_segments a) \<and> sg_source g = sid \<and> sg_stream g = s}
           \<union> {row_ts r | r. (sid, r) \<in> set (ar_wal a) \<and> row_stream r = s}
     in if T = {} then None else Some (Min T))"

definition caller_limit :: "i64 \<Rightarrow> i64 \<Rightarrow> caller_row_floor option \<Rightarrow> archive \<Rightarrow> rstring \<Rightarrow> i64" where
  "caller_limit sid cutoff floor a s = (case floor of None \<Rightarrow> cutoff | Some f \<Rightarrow> min (f s (oldest_ts a sid s)) cutoff)"

lemma col_min_Min: "col_min xs = (if set xs = {} then None else Some (Min (set xs)))"
proof (cases "xs = []")
  case False
  then have "foldr min xs (hd xs) \<in> set xs" "\<forall>x \<in> set xs. foldr min xs (hd xs) \<le> x"
    using foldr_min_props [of xs "hd xs"] by auto
  then show ?thesis using False by (auto simp: col_min_def intro!: Min_eqI [symmetric])
qed (simp add: col_min_def)

lemma oldest_row_ts: "oldest_row a sid s = oldest_ts a sid s"
proof -
  have "set (map (\<lambda>r. meta_first_ts (sg_meta r)) (stream_rows a sid s) @ map row_ts (wal_of a sid s))
    = {meta_first_ts (sg_meta g) | g. g \<in> set (ar_segments a) \<and> sg_source g = sid \<and> sg_stream g = s}
      \<union> {row_ts r | r. (sid, r) \<in> set (ar_wal a) \<and> row_stream r = s}"
    by (auto simp: set_stream_rows seg_of_def set_wal_of)
  then show ?thesis by (simp only: oldest_row_def col_min_Min oldest_ts_def Let_def)
qed

lemma oldest_ts_cong:
  "ar_segments a = ar_segments b \<Longrightarrow> ar_wal a = ar_wal b \<Longrightarrow> oldest_ts a sid s = oldest_ts b sid s"
  by (simp add: oldest_ts_def)

lemma caller_limit_cong:
  "ar_segments a = ar_segments b \<Longrightarrow> ar_wal a = ar_wal b \<Longrightarrow> caller_limit sid c f a = caller_limit sid c f b"
  by (simp add: caller_limit_def fun_eq_iff oldest_ts_cong [of a b] split: option.split)

lemma evict_caller_rows_limit:
  "evict_caller_rows sid s c floor a =
     (length (filter (caller_rows_below sid s (caller_limit sid c floor a s)) (ar_caller a)),
      a\<lparr>ar_caller := filter (\<lambda>r. \<not> caller_rows_below sid s (caller_limit sid c floor a s) r) (ar_caller a)\<rparr>)"
  by (simp add: evict_caller_rows_def Let_def caller_limit_def oldest_row_ts split: option.split)

lemma length_filter_two:
  "(\<And>x. x \<in> set xs \<Longrightarrow> \<not> (P x \<and> Q x)) \<Longrightarrow>
     length (filter P xs) + length (filter Q (filter (\<lambda>x. \<not> P x) xs)) = length (filter (\<lambda>x. P x \<or> Q x) xs)"
  by (induction xs) auto

definition caller_below :: "i64 \<Rightarrow> rstring set \<Rightarrow> (rstring \<Rightarrow> i64) \<Rightarrow> i64 \<times> rstring \<times> caller_row \<Rightarrow> bool" where
  "caller_below sid S L = (\<lambda>(i, t, r). i = sid \<and> t \<in> S \<and> cr_ts r < L t)"

lemma caller_below_insert:
  "caller_below sid (insert s S) L x \<longleftrightarrow> caller_rows_below sid s (L s) x \<or> caller_below sid S L x"
  by (auto simp: caller_below_def caller_rows_below_def)

lemma evict_caller_rows_of_limits:
  assumes "distinct ss"
  shows "fst (evict_caller_rows_of sid c floor ss a)
      = length (filter (caller_below sid (set ss) (caller_limit sid c floor a)) (ar_caller a))
    \<and> ar_caller (snd (evict_caller_rows_of sid c floor ss a))
      = filter (\<lambda>x. \<not> caller_below sid (set ss) (caller_limit sid c floor a) x) (ar_caller a)"
  using assms
proof (induction ss arbitrary: a)
  case Nil
  show ?case by (simp add: caller_below_def case_prod_unfold)
next
  case (Cons s ss)
  let ?L = "caller_limit sid c floor a" and ?b = "snd (evict_caller_rows sid s c floor a)"
  let ?P = "caller_rows_below sid s (?L s)" and ?Q = "caller_below sid (set ss) ?L"
  have L: "caller_limit sid c floor ?b = ?L" by (rule caller_limit_cong) simp_all
  have b: "ar_caller ?b = filter (\<lambda>x. \<not> ?P x) (ar_caller a)" by (simp add: evict_caller_rows_limit)
  have n: "fst (evict_caller_rows sid s c floor a) = length (filter ?P (ar_caller a))" by (simp add: evict_caller_rows_limit)
  have "distinct ss" using Cons.prems by simp
  note IH = Cons.IH [OF this, of ?b, unfolded L b]
  have "length (filter ?P (ar_caller a)) + length (filter ?Q (filter (\<lambda>x. \<not> ?P x) (ar_caller a)))
      = length (filter (\<lambda>x. ?P x \<or> ?Q x) (ar_caller a))"
    by (rule length_filter_two) (use Cons.prems in \<open>auto simp: caller_rows_below_def caller_below_def\<close>)
  moreover have "filter (\<lambda>x. \<not> ?Q x) (filter (\<lambda>x. \<not> ?P x) (ar_caller a)) = filter (\<lambda>x. \<not> (?P x \<or> ?Q x)) (ar_caller a)"
    by (auto intro: filter_cong)
  ultimately show ?case using IH n
    by (simp only: evict_caller_rows_of.simps Let_def case_prod_beta fst_conv snd_conv list.set caller_below_insert)
qed

lemma evict_caller_rows_of_version [simp]:
  "ar_documents (snd (evict_caller_rows_of sid c f ss a)) = ar_documents a"
  "ar_layout (snd (evict_caller_rows_of sid c f ss a)) = ar_layout a"
  "ar_user_version (snd (evict_caller_rows_of sid c f ss a)) = ar_user_version a"
  by (induction ss arbitrary: a) (simp_all add: Let_def case_prod_beta evict_caller_rows_def)

definition caller_expired :: "i64 \<Rightarrow> i64 \<Rightarrow> caller_row_floor option \<Rightarrow> archive \<Rightarrow> i64 \<times> rstring \<times> caller_row \<Rightarrow> bool" where
  "caller_expired sid c floor a' = (\<lambda>(i, t, r). i = sid \<and> cr_ts r < caller_limit sid c floor a' t)"

lemma evict_source_caller:
  fixes a sid c floor
  defines "x \<equiv> evict_source sid c floor a"
  shows "ev_caller_rows (fst x) = length (filter (caller_expired sid c floor (snd x)) (ar_caller a))"
    and "ar_caller (snd x) = filter (\<lambda>r. \<not> caller_expired sid c floor (snd x) r) (ar_caller a)"
proof -
  have L: "caller_limit sid c floor (snd x)
      = caller_limit sid c floor (a\<lparr>ar_segments := filter (\<lambda>r. \<not> expired_segment sid c r) (ar_segments a),
          ar_wal := filter (\<lambda>r. \<not> expired_wal sid c r) (ar_wal a)\<rparr>)" (is "_ = caller_limit _ _ _ ?m")
    by (rule caller_limit_cong) (simp_all add: x_def evict_source_segments evict_source_wal)
  have "ev_caller_rows (fst x) = length (filter (caller_expired sid c floor (snd x)) (ar_caller a))
    \<and> ar_caller (snd x) = filter (\<lambda>r. \<not> caller_expired sid c floor (snd x) r) (ar_caller a)"
  proof (cases floor)
    case None
    have "caller_expired sid c None a' = (\<lambda>(i, _, r). i = sid \<and> cr_ts r < c)" for a'
      by (simp add: caller_expired_def caller_limit_def)
    then show ?thesis
      by (auto simp: x_def None evict_source_def Let_def intro: filter_cong)
  next
    case (Some f)
    define names where "names = caller_row_streams a sid"
    define a3 where "a3 = (delete_segments_where (expired_segment sid c) a)\<lparr>ar_wal := filter (\<lambda>r. \<not> expired_wal sid c r) (ar_wal a),
       ar_clock := filter (\<lambda>(i, ts, _). \<not> (i = sid \<and> ts < c)) (ar_clock a)\<rparr>"
    have x: "ev_caller_rows (fst x) = fst (evict_caller_rows_of sid c floor names a3)"
      "snd x = snd (evict_caller_rows_of sid c floor names a3)"
      by (simp_all add: x_def Some evict_source_def Let_def case_prod_beta names_def a3_def)
    have L3: "caller_limit sid c floor a3 = caller_limit sid c floor (snd x)"
      unfolding L by (rule caller_limit_cong) (simp_all add: a3_def)
    have c3: "ar_caller a3 = ar_caller a" by (simp add: a3_def)
    have d: "distinct names" by (simp add: names_def caller_row_streams_def)
    have all: "t \<in> set names" if "(sid, t, r) \<in> set (ar_caller a)" for t r
      using that by (force simp: names_def caller_row_streams_def)
    have e: "caller_below sid (set names) (caller_limit sid c floor (snd x)) y = caller_expired sid c floor (snd x) y"
      if "y \<in> set (ar_caller a)" for y
      using that all by (auto simp: caller_expired_def caller_below_def)
    note of = evict_caller_rows_of_limits [OF d, of sid c floor a3, unfolded L3 c3]
    have "filter (caller_below sid (set names) (caller_limit sid c floor (snd x))) (ar_caller a)
        = filter (caller_expired sid c floor (snd x)) (ar_caller a)"
      by (rule filter_cong) (simp_all add: e)
    moreover have "filter (\<lambda>y. \<not> caller_below sid (set names) (caller_limit sid c floor (snd x)) y) (ar_caller a)
        = filter (\<lambda>y. \<not> caller_expired sid c floor (snd x) y) (ar_caller a)"
      by (rule filter_cong) (simp_all add: e)
    ultimately show ?thesis using of x by simp
  qed
  then show "ev_caller_rows (fst x) = length (filter (caller_expired sid c floor (snd x)) (ar_caller a))"
    and "ar_caller (snd x) = filter (\<lambda>r. \<not> caller_expired sid c floor (snd x) r) (ar_caller a)" by blast+
qed

lemma evict_source_frame:
  "ar_clock (snd (evict_source sid c f a)) = filter (\<lambda>(i, ts, _). \<not> (i = sid \<and> ts < c)) (ar_clock a)"
  "ar_indexes (snd (evict_source sid c f a)) = filter (\<lambda>x. index_key x \<notin> seg_key ` {g \<in> set (ar_segments a). expired_segment sid c g}) (ar_indexes a)"
  "ar_documents (snd (evict_source sid c f a)) = ar_documents a"
  "ar_layout (snd (evict_source sid c f a)) = ar_layout a"
  "ar_user_version (snd (evict_source sid c f a)) = ar_user_version a"
  by (simp_all add: evict_source_def delete_segments_where_def Let_def case_prod_beta split: option.splits)

lemma evict_source_counts:
  "ev_segments (fst (evict_source sid c f a)) = length (filter (expired_segment sid c) (ar_segments a))"
  "ev_wal_rows (fst (evict_source sid c f a)) = length (filter (expired_wal sid c) (ar_wal a))"
  "ev_live_rows (fst (evict_source sid c f a)) = length (filter (\<lambda>r. expired_wal sid c r \<and> live_for_row a r) (ar_wal a))"
  "ev_held_streams (fst (evict_source sid c f a)) = 0"
  by (simp_all add: evict_source_def Let_def case_prod_beta split: option.splits)

text \<open>
  C23: eviction of a source by a cutoff takes exactly what lies before it: the segments
  of the source that end before it, with their index rows, its WAL rows and its clock
  offsets before it, and its caller rows before it or, under a floor, before the lower of
  it and what the floor answers for the oldest row left of their stream. Every other row
  of every table stays, other sources' included. It makes no shadowed row live (the live
  tail of each stream is the old one from the cutoff on), and it reports the segments,
  the WAL rows, those of them that were live, and the caller rows it deleted.
\<close>

theorem evict_source_correct:
  "let (e, a') = evict_source sid cutoff floor a in
     stream_rows a' sid s = filter (\<lambda>r. cutoff \<le> meta_last_ts (sg_meta r)) (stream_rows a sid s)
     \<and> read_wal a' sid s = filter (\<lambda>r. cutoff \<le> row_ts r) (read_wal a sid s)
     \<and> live_wal a' sid s = filter (\<lambda>r. cutoff \<le> row_ts r) (live_wal a sid s)
     \<and> (i = sid \<or> live_wal a' i t = live_wal a i t \<and> stream_rows a' i t = stream_rows a i t)
     \<and> ar_segments a' = filter (\<lambda>g. \<not> (sg_source g = sid \<and> meta_last_ts (sg_meta g) < cutoff)) (ar_segments a)
     \<and> ar_indexes a' = filter (\<lambda>x. index_key x \<notin> seg_key ` {g \<in> set (ar_segments a). sg_source g = sid \<and> meta_last_ts (sg_meta g) < cutoff}) (ar_indexes a)
     \<and> ar_wal a' = filter (\<lambda>(i, r). \<not> (i = sid \<and> row_ts r < cutoff)) (ar_wal a)
     \<and> ar_clock a' = filter (\<lambda>(i, ts, _). \<not> (i = sid \<and> ts < cutoff)) (ar_clock a)
     \<and> ar_caller a' = filter (\<lambda>(i, t, r). \<not> (i = sid \<and> cr_ts r < caller_limit sid cutoff floor a' t)) (ar_caller a)
     \<and> ar_sources a' = ar_sources a \<and> ar_documents a' = ar_documents a
     \<and> ar_layout a' = ar_layout a \<and> ar_user_version a' = ar_user_version a
     \<and> ev_segments e + length (ar_segments a') = length (ar_segments a)
     \<and> ev_wal_rows e + length (ar_wal a') = length (ar_wal a)
     \<and> ev_live_rows e = length (filter (\<lambda>(i, r). i = sid \<and> row_ts r < cutoff \<and> is_live a sid (row_stream r) (row_ts r)) (ar_wal a))
     \<and> ev_caller_rows e + length (ar_caller a') = length (ar_caller a)
     \<and> ev_held_streams e = 0"
proof -
  let ?r = "evict_source sid cutoff floor a"
  note se = evict_source_stream [of sid cutoff s a floor]
  have "i = sid \<or> live_wal (snd ?r) i t = live_wal a i t \<and> stream_rows (snd ?r) i t = stream_rows a i t"
    using evict_source_other [of i sid cutoff floor a t] by (auto intro: live_wal_cong watermark_cong)
  moreover have "filter (\<lambda>r. expired_wal sid cutoff r \<and> live_for_row a r) (ar_wal a)
      = filter (\<lambda>(i, r). i = sid \<and> row_ts r < cutoff \<and> is_live a sid (row_stream r) (row_ts r)) (ar_wal a)"
    by (rule filter_cong) (auto simp: expired_wal_def live_for_row_def)
  moreover have "filter (\<lambda>r. \<not> expired_wal sid cutoff r) (ar_wal a) = filter (\<lambda>(i, r). \<not> (i = sid \<and> row_ts r < cutoff)) (ar_wal a)"
    by (rule filter_cong) (auto simp: expired_wal_def)
  moreover have "filter (\<lambda>r. \<not> caller_expired sid cutoff floor (snd ?r) r) (ar_caller a)
      = filter (\<lambda>(i, t, r). \<not> (i = sid \<and> cr_ts r < caller_limit sid cutoff floor (snd ?r) t)) (ar_caller a)"
    by (rule filter_cong) (auto simp: caller_expired_def)
  moreover have "ar_sources (snd ?r) = ar_sources a" by (rule evict_source_sources)
  ultimately show ?thesis
    using se live_wal_evicted [OF se] length_filter_not [of "expired_segment sid cutoff" "ar_segments a"]
      length_filter_not [of "expired_wal sid cutoff" "ar_wal a"]
      length_filter_not [of "caller_expired sid cutoff floor (snd ?r)" "ar_caller a"]
      evict_source_caller [of sid cutoff floor a] evict_source_frame [of sid cutoff floor a]
      evict_source_counts [of sid cutoff floor a] evict_source_segments [of sid cutoff floor a]
      evict_source_wal [of sid cutoff floor a]
    unfolding case_prod_beta Let_def stream_evicted_def read_wal_def filter_order_by [symmetric] expired_segment_def
    by (simp add: filter_order_by)
qed

subsection \<open>One stream at a time\<close>

lemma evict_stream_segments:
  "ar_segments (snd (evict_stream sid c f s x)) =
     filter (\<lambda>r. \<not> (sg_source r = sid \<and> sg_stream r = s \<and> meta_last_ts (sg_meta r) < c)) (ar_segments (snd x))"
  by (simp add: evict_stream_def Let_def case_prod_beta)

lemma evict_stream_wal:
  "ar_wal (snd (evict_stream sid c f s x)) =
     filter (\<lambda>(i, r). \<not> (i = sid \<and> row_stream r = s \<and> row_ts r < c)) (ar_wal (snd x))"
  by (auto simp: evict_stream_def Let_def case_prod_beta intro: filter_cong)

lemma evict_stream_own: "stream_evicted sid c s (snd x) (snd (evict_stream sid c f s x))"
proof -
  have "map snd (filter (\<lambda>(i, r). i = sid \<and> row_stream r = s)
        (filter (\<lambda>(i, r). \<not> (i = sid \<and> row_stream r = s \<and> row_ts r < c)) w))
      = filter (\<lambda>r. c \<le> row_ts r) (map snd (filter (\<lambda>(i, r). i = sid \<and> row_stream r = s) w))" for w
    by (induction w) auto
  then show ?thesis
    by (auto simp: stream_evicted_def stream_rows_def wal_of_def evict_stream_segments evict_stream_wal
        seg_of_def intro: filter_cong)
qed

lemma evict_stream_other:
  assumes "(i, t) \<noteq> (sid, s)"
  shows "stream_rows (snd (evict_stream sid c f s x)) i t = stream_rows (snd x) i t"
    and "wal_of (snd (evict_stream sid c f s x)) i t = wal_of (snd x) i t"
  using assms
  by (auto simp: stream_rows_def wal_of_def evict_stream_segments evict_stream_wal seg_of_def
      intro!: filter_cong arg_cong [where f = "map snd"])

lemma stream_evicted_refl:
  "stream_evicted sid c s a a' \<Longrightarrow> stream_evicted sid c s a' a'' \<Longrightarrow> stream_evicted sid c s a a''"
  by (auto simp: stream_evicted_def intro: filter_cong)

lemma evict_fold_other:
  "i \<noteq> sid \<or> t \<notin> set streams \<Longrightarrow>
     stream_rows (snd (fold (evict_stream sid c f) streams x)) i t = stream_rows (snd x) i t
     \<and> wal_of (snd (fold (evict_stream sid c f) streams x)) i t = wal_of (snd x) i t"
  by (induction streams arbitrary: x) (auto simp: evict_stream_other)

lemma evict_fold_own:
  "t \<in> set streams \<Longrightarrow> stream_evicted sid c t (snd x) (snd (fold (evict_stream sid c f) streams x))"
proof (induction streams arbitrary: x)
  case Nil
  then show ?case by simp
next
  case (Cons s streams)
  let ?y = "evict_stream sid c f s x"
  show ?case
  proof (cases "t \<in> set streams")
    case True
    then have later: "stream_evicted sid c t (snd ?y) (snd (fold (evict_stream sid c f) streams ?y))"
      by (rule Cons.IH)
    show ?thesis
    proof (cases "t = s")
      case True
      with later evict_stream_own [of sid c s x f] show ?thesis by (auto intro: stream_evicted_refl)
    next
      case False
      with later evict_stream_other [of sid t sid s c f x] show ?thesis by (simp add: stream_evicted_def)
    qed
  next
    case False
    with Cons.prems have "t = s" by simp
    with False evict_fold_other [of sid sid t streams c f ?y] evict_stream_own [of sid c s x f]
    show ?thesis by (simp add: stream_evicted_def)
  qed
qed

text \<open>
  Per-stream eviction keeps a stream outside the predicate whole, and does to
  one inside it what a whole-source eviction does.
\<close>

theorem evict_streams_correct:
  assumes "next_fault db = (None, db0)" and "evict_streams sid cutoff evict floor db = (r, db')"
  shows "\<exists>e. r = Inr e
     \<and> (\<not> evict s \<longrightarrow> live_wal (db_archive db') sid s = live_wal (db_archive db) sid s
          \<and> stream_rows (db_archive db') sid s = stream_rows (db_archive db) sid s)
     \<and> (evict s \<and> s \<in> set (evictable_streams (db_archive db) sid) \<longrightarrow>
          live_wal (db_archive db') sid s
            = filter (\<lambda>r. cutoff \<le> row_ts r) (live_wal (db_archive db) sid s)
          \<and> stream_rows (db_archive db') sid s
            = filter (\<lambda>r. cutoff \<le> meta_last_ts (sg_meta r)) (stream_rows (db_archive db) sid s))"
proof -
  let ?a = "db_archive db"
  let ?streams = "filter evict (evictable_streams ?a sid)"
  let ?f = "fold (evict_stream sid cutoff floor) ?streams (no_evicted, ?a)"
  have archive: "stream_rows (db_archive db') sid s = stream_rows (snd ?f) sid s"
      "wal_of (db_archive db') sid s = wal_of (snd ?f) sid s" "\<exists>e. r = Inr e"
    using assms
    by (auto simp: evict_streams_def transaction_def evict_chosen_streams_def Let_def case_prod_beta
        frame_simps)
  have w: "live_wal (db_archive db') sid s = live_wal (snd ?f) sid s"
    using archive by (intro live_wal_cong watermark_cong)
  show ?thesis
  proof (cases "evict s \<and> s \<in> set (evictable_streams ?a sid)")
    case True
    then have "stream_evicted sid cutoff s ?a (snd ?f)"
      using evict_fold_own [of s ?streams sid cutoff "(no_evicted, ?a)" floor] by simp
    with True archive w live_wal_evicted show ?thesis by (simp add: stream_evicted_def)
  next
    case False
    then have "stream_rows (snd ?f) sid s = stream_rows ?a sid s" "wal_of (snd ?f) sid s = wal_of ?a sid s"
      using evict_fold_other [of sid sid s ?streams cutoff floor "(no_evicted, ?a)"] by auto
    with False archive w show ?thesis
      by (auto intro: live_wal_cong watermark_cong)
  qed
qed

theorem evict_streams_correct_witness:
  "\<exists>e. fst (evict_streams 1 30 (\<lambda>_. True) None sample_db) = Inr e
     \<and> (\<not> True \<longrightarrow> live_wal (db_archive (snd (evict_streams 1 30 (\<lambda>_. True) None sample_db))) 1 (str ''cpu'')
            = live_wal (db_archive sample_db) 1 (str ''cpu'')
          \<and> stream_rows (db_archive (snd (evict_streams 1 30 (\<lambda>_. True) None sample_db))) 1 (str ''cpu'')
            = stream_rows (db_archive sample_db) 1 (str ''cpu''))
     \<and> (True \<and> str ''cpu'' \<in> set (evictable_streams (db_archive sample_db) 1) \<longrightarrow>
          live_wal (db_archive (snd (evict_streams 1 30 (\<lambda>_. True) None sample_db))) 1 (str ''cpu'')
            = filter (\<lambda>r. 30 \<le> row_ts r) (live_wal (db_archive sample_db) 1 (str ''cpu''))
          \<and> stream_rows (db_archive (snd (evict_streams 1 30 (\<lambda>_. True) None sample_db))) 1 (str ''cpu'')
            = filter (\<lambda>r. 30 \<le> meta_last_ts (sg_meta r)) (stream_rows (db_archive sample_db) 1 (str ''cpu'')))"
  by (rule evict_streams_correct [where evict = "\<lambda>_. True"])
     (simp_all add: next_fault_def sample_db_def)

end
