(* ===== verification/Documents.thy ===== *)
theory Documents
  imports Archive_Ops "HOL-Library.Product_Lexorder"
begin

section \<open>Documents (\<open>src/archive/sqlite/documents.rs\<close>)\<close>

text \<open>
  A document is a key, kind and name, whose revisions are appended and never
  changed: the newest by id is current, and a deletion is a revision with no body.
  What is not in the repository is a parameter: whether a text is JSON
  (\<open>serde_json\<close>), the 16 random bytes of a uuid and the wall clock.
\<close>

subsection \<open>Revisions\<close>

record document =
  dc_id :: i64
  dc_uuid :: rstring
  dc_kind :: rstring
  dc_name :: rstring
  dc_schema :: rstring
  dc_body :: rstring
  dc_created :: i64
  dc_supersedes :: "i64 option"

record deletion =
  dl_id :: i64
  dl_uuid :: rstring
  dl_kind :: rstring
  dl_name :: rstring
  dl_created :: i64
  dl_supersedes :: "i64 option"

datatype revision = Put document | Delete deletion

fun revision_id :: "revision \<Rightarrow> i64" where
  "revision_id (Put d) = dc_id d"
| "revision_id (Delete d) = dl_id d"

fun revision_supersedes :: "revision \<Rightarrow> i64 option" where
  "revision_supersedes (Put d) = dc_supersedes d"
| "revision_supersedes (Delete d) = dl_supersedes d"

record rev_id =
  rid_id :: i64
  rid_uuid :: rstring

definition revision_from_row :: "doc_row \<Rightarrow> revision" where
  "revision_from_row r =
    (case doc_content r of
       Some (schema, body) \<Rightarrow>
         Put \<lparr>dc_id = doc_id r, dc_uuid = doc_uuid r, dc_kind = doc_kind r, dc_name = doc_name r,
              dc_schema = schema, dc_body = body, dc_created = doc_created r,
              dc_supersedes = doc_supersedes r\<rparr>
     | None \<Rightarrow>
         Delete \<lparr>dl_id = doc_id r, dl_uuid = doc_uuid r, dl_kind = doc_kind r, dl_name = doc_name r,
                 dl_created = doc_created r, dl_supersedes = doc_supersedes r\<rparr>)"

subsection \<open>Lookups\<close>

text \<open>\<open>None\<close> in \<open>ar_documents\<close> is a file without the table.\<close>

definition has_documents :: "archive \<Rightarrow> bool" where
  "has_documents a \<longleftrightarrow> ar_documents a \<noteq> None"

definition doc_rows :: "archive \<Rightarrow> doc_row list" where
  "doc_rows a = (case ar_documents a of None \<Rightarrow> [] | Some rs \<Rightarrow> rs)"

definition check_writable :: "archive \<Rightarrow> unit result" where
  "check_writable a =
    (if ar_user_version a < documents_schema_version
     then Inl (SchemaTooOld (ar_user_version a) documents_schema_version) else Inr ())"

definition key_rows :: "archive \<Rightarrow> rstring \<Rightarrow> rstring \<Rightarrow> doc_row list" where
  "key_rows a kind name = order_by doc_id (filter (\<lambda>r. doc_kind r = kind \<and> doc_name r = name) (doc_rows a))"

definition newest_row :: "archive \<Rightarrow> rstring \<Rightarrow> rstring \<Rightarrow> doc_row option" where
  "newest_row a kind name = (let rs = key_rows a kind name in if rs = [] then None else Some (last rs))"

definition newest :: "archive \<Rightarrow> rstring \<Rightarrow> rstring \<Rightarrow> revision option" where
  "newest a kind name = map_option revision_from_row (newest_row a kind name)"

record head =
  hd_id :: i64
  hd_uuid :: rstring
  hd_deleted :: bool

definition head_of :: "archive \<Rightarrow> rstring \<Rightarrow> rstring \<Rightarrow> head option" where
  "head_of a kind name =
     map_option (\<lambda>r. \<lparr>hd_id = doc_id r, hd_uuid = doc_uuid r, hd_deleted = (doc_content r = None)\<rparr>)
       (newest_row a kind name)"

definition document :: "archive \<Rightarrow> rstring \<Rightarrow> rstring \<Rightarrow> document option" where
  "document a kind name =
    (if \<not> has_documents a then None
     else case newest a kind name of Some (Put d) \<Rightarrow> Some d | _ \<Rightarrow> None)"

definition documents :: "archive \<Rightarrow> rstring \<Rightarrow> document list" where
  "documents a kind =
    (if \<not> has_documents a then []
     else concat (map (\<lambda>name. case newest a kind name of Some (Put d) \<Rightarrow> [d] | _ \<Rightarrow> [])
            (distinct_sorted (map doc_name (filter (\<lambda>r. doc_kind r = kind) (doc_rows a))))))"

definition document_kinds :: "archive \<Rightarrow> rstring list" where
  "document_kinds a =
    (if \<not> has_documents a then []
     else distinct_sorted (map doc_kind
            (filter (\<lambda>r. doc_content r \<noteq> None \<and> newest_row a (doc_kind r) (doc_name r) = Some r) (doc_rows a))))"

definition document_history :: "archive \<Rightarrow> rstring \<Rightarrow> rstring \<Rightarrow> revision list" where
  "document_history a kind name =
    (if \<not> has_documents a then [] else map revision_from_row (key_rows a kind name))"

subsection \<open>Writing a revision\<close>

definition reserved_kind_prefix :: rstring where "reserved_kind_prefix = str ''dendro.''"

definition starts_with :: "rstring \<Rightarrow> rstring \<Rightarrow> bool" where
  "starts_with s p \<longleftrightarrow> take (length p) s = p"

definition check_key :: "rstring \<Rightarrow> rstring \<Rightarrow> unit result" where
  "check_key kind name =
    (if kind = [] \<or> name = [] then Inl (Message ''a document needs a kind and a name'')
     else if starts_with kind reserved_kind_prefix then Inl (Message ''document kind is reserved'')
     else Inr ())"

definition check_json :: "(rstring \<Rightarrow> bool) \<Rightarrow> rstring \<Rightarrow> unit result" where
  "check_json is_json body = (if is_json body then Inr () else Inl (Message ''the body is not JSON''))"

record new_revision =
  nr_uuid :: rstring
  nr_kind :: rstring
  nr_name :: rstring
  nr_content :: "(rstring \<times> rstring) option"
  nr_created :: i64
  nr_supersedes :: "i64 option"

text \<open>\<open>uuid UNIQUE\<close>, \<open>supersedes REFERENCES documents(id)\<close>; with no table the statement fails.\<close>

definition insert_revision :: "new_revision \<Rightarrow> archive \<Rightarrow> (i64 \<times> archive) result" where
  "insert_revision nr a =
    (case ar_documents a of
       None \<Rightarrow> Inl (Sqlite ''failed to write document'' (SqliteFailure (OtherCode 1)))
     | Some rs \<Rightarrow>
         if nr_uuid nr \<in> set (map doc_uuid rs)
            \<or> (case nr_supersedes nr of None \<Rightarrow> False | Some s \<Rightarrow> s \<notin> set (map doc_id rs))
         then constraint_error ''failed to write document''
         else
           let i = next_rowid (map doc_id rs)
           in Inr (i, a\<lparr>ar_documents := Some (rs @
                 [\<lparr>doc_id = i, doc_uuid = nr_uuid nr, doc_kind = nr_kind nr, doc_name = nr_name nr,
                   doc_content = nr_content nr, doc_created = nr_created nr,
                   doc_supersedes = nr_supersedes nr\<rparr>])\<rparr>))"

definition live_uuid :: "head option \<Rightarrow> rstring option" where
  "live_uuid h = (case h of Some x \<Rightarrow> if hd_deleted x then None else Some (hd_uuid x) | None \<Rightarrow> None)"

definition write_put ::
  "bytes \<Rightarrow> i64 \<Rightarrow> rstring \<Rightarrow> rstring \<Rightarrow> rstring \<Rightarrow> rstring \<Rightarrow> head option \<Rightarrow> archive \<Rightarrow> (rev_id \<times> archive) result" where
  "write_put rand now kind name schema body h a =
     rbind (mint_uuid rand) (\<lambda>uuid.
       rmap (\<lambda>(i, a'). (\<lparr>rid_id = i, rid_uuid = uuid\<rparr>, a'))
         (insert_revision \<lparr>nr_uuid = uuid, nr_kind = kind, nr_name = name, nr_content = Some (schema, body),
            nr_created = now, nr_supersedes = map_option hd_id h\<rparr> a))"

text \<open>\<open>put\<close>: \<open>rand\<close> is what \<open>randomblob(16)\<close> returns and \<open>now\<close> the clock.\<close>

definition put_revision ::
  "(rstring \<Rightarrow> bool) \<Rightarrow> bytes \<Rightarrow> i64 \<Rightarrow> rstring \<Rightarrow> rstring \<Rightarrow> rstring \<Rightarrow> rstring \<Rightarrow> rstring option option \<Rightarrow>
   archive \<Rightarrow> (rev_id \<times> archive) result" where
  "put_revision is_json rand now kind name schema body expected a =
     rbind (check_key kind name) (\<lambda>_.
       if schema = [] then Inl (Message ''a document needs a schema naming its body's type'')
       else rbind (check_json is_json body) (\<lambda>_.
         rbind (check_writable a) (\<lambda>_.
           let h = head_of a kind name; current = live_uuid h
           in case expected of
                Some e \<Rightarrow>
                  if current \<noteq> e then Inl (DocumentConflict kind name e current)
                  else write_put rand now kind name schema body h a
              | None \<Rightarrow> write_put rand now kind name schema body h a)))"


definition delete_revision ::
  "bytes \<Rightarrow> i64 \<Rightarrow> rstring \<Rightarrow> rstring \<Rightarrow> archive \<Rightarrow> (rev_id option \<times> archive) result" where
  "delete_revision rand now kind name a =
     rbind (check_key kind name) (\<lambda>_.
       if \<not> has_documents a then Inr (None, a)
       else case head_of a kind name of
              None \<Rightarrow> Inr (None, a)
            | Some h \<Rightarrow>
                if hd_deleted h then Inr (None, a)
                else
                  rbind (mint_uuid rand) (\<lambda>uuid.
                    rmap (\<lambda>(i, a'). (Some \<lparr>rid_id = i, rid_uuid = uuid\<rparr>, a'))
                      (insert_revision \<lparr>nr_uuid = uuid, nr_kind = kind, nr_name = name, nr_content = None,
                         nr_created = now, nr_supersedes = Some (hd_id h)\<rparr> a)))"

text \<open>The methods of \<open>Transaction\<close>, and those of \<open>ArchiveMut\<close>, each a transaction of its own.\<close>

definition tx_put_document ::
  "(rstring \<Rightarrow> bool) \<Rightarrow> bytes \<Rightarrow> i64 \<Rightarrow> rstring \<Rightarrow> rstring \<Rightarrow> rstring \<Rightarrow> rstring \<Rightarrow> archive \<Rightarrow> (rev_id \<times> archive) result" where
  "tx_put_document is_json rand now kind name schema body = put_revision is_json rand now kind name schema body None"

definition tx_put_document_if_current ::
  "(rstring \<Rightarrow> bool) \<Rightarrow> bytes \<Rightarrow> i64 \<Rightarrow> rstring \<Rightarrow> rstring \<Rightarrow> rstring \<Rightarrow> rstring \<Rightarrow> rstring option \<Rightarrow>
   archive \<Rightarrow> (rev_id \<times> archive) result" where
  "tx_put_document_if_current is_json rand now kind name schema body expected =
     put_revision is_json rand now kind name schema body (Some expected)"

definition tx_delete_document ::
  "bytes \<Rightarrow> i64 \<Rightarrow> rstring \<Rightarrow> rstring \<Rightarrow> archive \<Rightarrow> (rev_id option \<times> archive) result" where
  "tx_delete_document rand now kind name = delete_revision rand now kind name"

definition put_document ::
  "(rstring \<Rightarrow> bool) \<Rightarrow> bytes \<Rightarrow> i64 \<Rightarrow> rstring \<Rightarrow> rstring \<Rightarrow> rstring \<Rightarrow> rstring \<Rightarrow> db \<Rightarrow> rev_id result \<times> db" where
  "put_document is_json rand now kind name schema body =
     transaction (tx_put_document is_json rand now kind name schema body)"

definition put_document_if_current ::
  "(rstring \<Rightarrow> bool) \<Rightarrow> bytes \<Rightarrow> i64 \<Rightarrow> rstring \<Rightarrow> rstring \<Rightarrow> rstring \<Rightarrow> rstring \<Rightarrow> rstring option \<Rightarrow>
   db \<Rightarrow> rev_id result \<times> db" where
  "put_document_if_current is_json rand now kind name schema body expected =
     transaction (tx_put_document_if_current is_json rand now kind name schema body expected)"

definition delete_document :: "bytes \<Rightarrow> i64 \<Rightarrow> rstring \<Rightarrow> rstring \<Rightarrow> db \<Rightarrow> rev_id option result \<times> db" where
  "delete_document rand now kind name = transaction (tx_delete_document rand now kind name)"

subsection \<open>Copying every revision\<close>

text \<open>
  \<open>ancestry\<close>: the walk back over \<open>supersedes\<close> from \<open>cur\<close>, a revision seen before
  or one the table does not hold ending it.
\<close>

definition find_doc :: "doc_row list \<Rightarrow> i64 \<Rightarrow> doc_row option" where
  "find_doc rs i = find (\<lambda>r. doc_id r = i) rs"

function ancestry_from ::
  "doc_row list \<Rightarrow> i64 \<Rightarrow> i64 \<Rightarrow> i64 list \<Rightarrow> bool \<Rightarrow> i64 \<Rightarrow> bool \<times> bool" where
  "ancestry_from rs target first_new seen shares cur =
    (if cur = target then (True, True)
     else
       let shares = (shares \<or> cur < first_new)
       in if cur \<in> set seen then (False, shares)
          else case find_doc rs cur of
                 None \<Rightarrow> (False, shares)
               | Some r \<Rightarrow>
                   case doc_supersedes r of
                     None \<Rightarrow> (False, shares)
                   | Some next \<Rightarrow> ancestry_from rs target first_new (cur # seen) shares next)"
  by pat_completeness auto

lemma find_doc_Some: "find_doc rs i = Some r \<Longrightarrow> r \<in> set rs \<and> doc_id r = i"
  by (auto simp: find_doc_def find_Some_iff)

termination ancestry_from
proof (relation "measure (\<lambda>(rs, _, _, seen, _, _). card (doc_id ` set rs - set seen))", goal_cases)
  case 1
  then show ?case by simp
next
  case (2 rs target first_new seen shares cur x r nx)
  then have "cur \<in> doc_id ` set rs - set seen" using find_doc_Some by force
  then have "card (doc_id ` set rs - set (cur # seen)) < card (doc_id ` set rs - set seen)"
    by (intro psubset_card_mono) auto
  then show ?case by simp
qed

declare ancestry_from.simps [simp del]

definition ancestry :: "archive \<Rightarrow> i64 \<Rightarrow> i64 \<Rightarrow> i64 \<Rightarrow> bool \<times> bool" where
  "ancestry a i target first_new = ancestry_from (doc_rows a) target first_new [] False i"

record fork =
  fk_kind :: rstring
  fk_name :: rstring
  fk_displaced :: rstring
  fk_current :: rstring

record copied_documents =
  cd_inserted :: nat
  cd_current :: "(rstring \<times> rstring) list"
  cd_forked :: "fork list"

text \<open>
  The loop's state: the destination, source ids mapped to destination ids, for each
  key touched its head before the copy and the last id inserted, and the smallest
  id inserted.
\<close>

record copy_state =
  cs_dst :: archive
  cs_ids :: "(i64, i64) btree"
  cs_touched :: "(rstring \<times> rstring, head option \<times> i64) btree"
  cs_first :: i64
  cs_inserted :: nat

definition copy_revision :: "copy_state \<Rightarrow> doc_row \<Rightarrow> copy_state result" where
  "copy_revision cs r =
    (case find (\<lambda>x. doc_uuid x = doc_uuid r) (doc_rows (cs_dst cs)) of
       Some held \<Rightarrow>
         if doc_kind held = doc_kind r \<and> doc_name held = doc_name r \<and> doc_content held = doc_content r
         then Inr (cs\<lparr>cs_ids := bt_insert (doc_id r) (doc_id held) (cs_ids cs)\<rparr>)
         else Inl (Message ''document revision is in both archives with different contents'')
     | None \<Rightarrow>
         let supersedes = (case doc_supersedes r of None \<Rightarrow> None | Some s \<Rightarrow> bt_get (cs_ids cs) s);
             key = (doc_kind r, doc_name r);
             before = (case bt_get (cs_touched cs) key of
                         Some (before, _) \<Rightarrow> before
                       | None \<Rightarrow> head_of (cs_dst cs) (doc_kind r) (doc_name r))
         in rmap (\<lambda>(i, a'). cs\<lparr>cs_dst := a', cs_first := min (cs_first cs) i,
                              cs_ids := bt_insert (doc_id r) i (cs_ids cs),
                              cs_touched := bt_insert key (before, i) (cs_touched cs),
                              cs_inserted := cs_inserted cs + 1\<rparr>)
              (insert_revision \<lparr>nr_uuid = doc_uuid r, nr_kind = doc_kind r, nr_name = doc_name r,
                 nr_content = doc_content r, nr_created = doc_created r, nr_supersedes = supersedes\<rparr> (cs_dst cs)))"

definition fork_of ::
  "archive \<Rightarrow> i64 \<Rightarrow> (rstring \<times> rstring) \<times> (head option \<times> i64) \<Rightarrow> fork list" where
  "fork_of dst first x =
    (let kind = fst (fst x); name = snd (fst x); last_id = snd (snd x)
     in case fst (snd x) of
          None \<Rightarrow> []
        | Some before \<Rightarrow>
            let (reaches, shares) = ancestry dst last_id (hd_id before) first
            in if \<not> reaches \<and> (\<not> hd_deleted before \<or> shares)
               then [\<lparr>fk_kind = kind, fk_name = name, fk_displaced = hd_uuid before,
                      fk_current = (case head_of dst kind name of Some h \<Rightarrow> hd_uuid h | None \<Rightarrow> [])\<rparr>]
               else [])"

definition copy_documents :: "archive \<Rightarrow> archive \<Rightarrow> (copied_documents \<times> archive) result" where
  "copy_documents src dst =
    (let rows = order_by doc_id (doc_rows src)
     in if rows = [] then Inr (\<lparr>cd_inserted = 0, cd_current = [], cd_forked = []\<rparr>, dst)
        else
          rbind (check_writable dst) (\<lambda>_.
            rmap (\<lambda>cs. (\<lparr>cd_inserted = cs_inserted cs, cd_current = map fst (cs_touched cs),
                         cd_forked = concat (map (fork_of (cs_dst cs) (cs_first cs)) (cs_touched cs))\<rparr>, cs_dst cs))
              (rfold copy_revision
                 \<lparr>cs_dst = dst, cs_ids = [], cs_touched = [], cs_first = i64_max, cs_inserted = 0\<rparr> rows)))"

text \<open>\<open>Transaction::copy_documents_from\<close>.\<close>

definition tx_copy_documents_from :: "archive \<Rightarrow> archive \<Rightarrow> (copied_documents \<times> archive) result" where
  "tx_copy_documents_from src = copy_documents src"

subsection \<open>The table's invariant\<close>

definition docs_ok :: "archive \<Rightarrow> bool" where
  "docs_ok a \<longleftrightarrow>
     sorted_wrt (<) (map doc_id (doc_rows a))
     \<and> distinct (map doc_uuid (doc_rows a))
     \<and> (\<forall>r \<in> set (doc_rows a). \<forall>s. doc_supersedes r = Some s \<longrightarrow> s \<in> doc_id ` set (doc_rows a) \<and> s < doc_id r)"

lemma next_rowid_above: "i \<in> set is \<Longrightarrow> i < next_rowid is"
  by (auto simp: next_rowid_def col_max_Some split: option.splits)

lemma sorted_ids_key_rows:
  "docs_ok a \<Longrightarrow> key_rows a kind name = filter (\<lambda>r. doc_kind r = kind \<and> doc_name r = name) (doc_rows a)"
  unfolding key_rows_def docs_ok_def
  by (intro order_by_sorted strict_sorted_imp_sorted) (auto simp: sorted_wrt_map intro: sorted_wrt_filter)

lemma insert_revision_Inr:
  assumes "insert_revision nr a = Inr (i, a')"
  shows "\<exists>row. doc_rows a' = doc_rows a @ [row] \<and> doc_id row = i \<and> doc_uuid row = nr_uuid nr
      \<and> doc_kind row = nr_kind nr \<and> doc_name row = nr_name nr \<and> doc_content row = nr_content nr
      \<and> doc_created row = nr_created nr \<and> doc_supersedes row = nr_supersedes nr"
    and "i = next_rowid (map doc_id (doc_rows a))"
    and "nr_uuid nr \<notin> doc_uuid ` set (doc_rows a)"
    and "\<And>s. nr_supersedes nr = Some s \<Longrightarrow> s \<in> doc_id ` set (doc_rows a)"
    and "a' = a\<lparr>ar_documents := Some (doc_rows a')\<rparr>"
    and "has_documents a" "has_documents a'"
  using assms
  by (auto simp: insert_revision_def doc_rows_def has_documents_def constraint_error_def Let_def split: option.splits if_splits)

lemma docs_ok_insert:
  assumes ok: "docs_ok a" and ins: "insert_revision nr a = Inr (i, a')"
  shows "docs_ok a'"
proof -
  note I = insert_revision_Inr [OF ins]
  obtain row where row: "doc_rows a' = doc_rows a @ [row]" "doc_id row = i" "doc_uuid row = nr_uuid nr"
    "doc_supersedes row = nr_supersedes nr"
    using I(1) by blast
  have below: "x < i" if "x \<in> doc_id ` set (doc_rows a)" for x
    unfolding I(2) using that by (intro next_rowid_above) simp
  show ?thesis
    using ok I(3,4) below unfolding docs_ok_def row(1)
    by (auto simp: row(2-) sorted_wrt_append)
qed

lemma newest_row_append:
  assumes "docs_ok a'" and "docs_ok a" and "doc_rows a' = doc_rows a @ [row]"
  shows "newest_row a' kind name =
     (if doc_kind row = kind \<and> doc_name row = name then Some row else newest_row a kind name)"
    and "key_rows a' kind name =
     key_rows a kind name @ (if doc_kind row = kind \<and> doc_name row = name then [row] else [])"
  by (simp_all add: newest_row_def Let_def sorted_ids_key_rows [OF assms(1)] sorted_ids_key_rows [OF assms(2)] assms(3))

lemma newest_row_mem: "newest_row a kind name = Some r \<Longrightarrow>
   r \<in> set (doc_rows a) \<and> doc_kind r = kind \<and> doc_name r = name"
proof -
  assume "newest_row a kind name = Some r"
  then have "r \<in> set (key_rows a kind name)"
    by (auto simp: newest_row_def Let_def split: if_splits intro: last_in_set)
  then show ?thesis by (simp add: key_rows_def)
qed

lemma put_revision_Inr:
  assumes "put_revision is_json rand now kind name schema body expected a = Inr (rid, a')"
  shows "check_key kind name = Inr ()" "schema \<noteq> []" "is_json body" "check_writable a = Inr ()"
    and "\<And>e. expected = Some e \<Longrightarrow> live_uuid (head_of a kind name) = e"
    and "insert_revision \<lparr>nr_uuid = rid_uuid rid, nr_kind = kind, nr_name = name, nr_content = Some (schema, body),
            nr_created = now, nr_supersedes = map_option hd_id (head_of a kind name)\<rparr> a = Inr (rid_id rid, a')"
proof -
  have w: "write_put rand now kind name schema body (head_of a kind name) a = Inr (rid, a')"
    "check_key kind name = Inr ()" "schema \<noteq> []" "is_json body" "check_writable a = Inr ()"
    "\<And>e. expected = Some e \<Longrightarrow> live_uuid (head_of a kind name) = e"
    using assms by (auto simp: put_revision_def result_simps check_json_def Let_def split: if_splits option.splits)
  then show "check_key kind name = Inr ()" "schema \<noteq> []" "is_json body" "check_writable a = Inr ()"
    "\<And>e. expected = Some e \<Longrightarrow> live_uuid (head_of a kind name) = e" by blast+
  show "insert_revision \<lparr>nr_uuid = rid_uuid rid, nr_kind = kind, nr_name = name, nr_content = Some (schema, body),
            nr_created = now, nr_supersedes = map_option hd_id (head_of a kind name)\<rparr> a = Inr (rid_id rid, a')"
    using w(1) by (auto simp: write_put_def result_simps)
qed

text \<open>The newest revision of a key by what the table holds: the row with the largest id, if there is one.\<close>

definition newest_revision :: "archive \<Rightarrow> rstring \<Rightarrow> rstring \<Rightarrow> doc_row option \<Rightarrow> bool" where
  "newest_revision a kind name x \<longleftrightarrow>
     (let rows = {r \<in> set (case ar_documents a of None \<Rightarrow> [] | Some rs \<Rightarrow> rs). doc_kind r = kind \<and> doc_name r = name}
      in case x of
           None \<Rightarrow> rows = {}
         | Some r \<Rightarrow> r \<in> rows \<and> (\<forall>r' \<in> rows. doc_id r' \<le> doc_id r))"

lemma newest_row_spec:
  assumes "docs_ok a"
  shows "newest_revision a kind name (newest_row a kind name)"
proof -
  let ?rs = "filter (\<lambda>r. doc_kind r = kind \<and> doc_name r = name) (doc_rows a)"
  have k: "key_rows a kind name = ?rs" by (rule sorted_ids_key_rows [OF assms])
  have "sorted_wrt (<) (map doc_id (doc_rows a))" using assms by (simp add: docs_ok_def)
  then have s: "sorted_wrt (<) (map doc_id ?rs)" by (induction "doc_rows a") (auto simp: sorted_wrt_filter sorted_wrt_map)
  have "\<forall>r \<in> set ?rs. doc_id r \<le> doc_id (last ?rs)" if "?rs \<noteq> []"
    using s that by (cases ?rs rule: rev_cases) (auto simp: sorted_wrt_append)
  moreover have "last ?rs \<in> set ?rs" if "?rs \<noteq> []" using that by (rule last_in_set)
  ultimately show ?thesis
    by (auto simp: newest_revision_def newest_row_def Let_def k doc_rows_def filter_empty_conv)
qed

text \<open>
  C29: a save appends one revision: the row with the largest id of its key, with the body,
  the schema and the time it was given, which is what a reader of the document then finds.
  It supersedes the row that had the largest id before, if there was one; the rest of the
  history and every other document are as they were, nothing else in the archive has
  changed, and the table keeps its ids ascending, its uuids distinct and its links
  backwards. A conditional save got through only because the revision it named was that
  row and was not a tombstone, or because it named none and there was no such row.
\<close>

theorem put_revision_correct:
  assumes "docs_ok a" and "put_revision is_json rand now kind name schema body expected a = Inr (rid, a')"
  shows "docs_ok a'
    \<and> (\<exists>d row. document a' kind name = Some d \<and> dc_id d = rid_id rid \<and> dc_uuid d = rid_uuid rid
         \<and> dc_kind d = kind \<and> dc_name d = name \<and> dc_schema d = schema \<and> dc_body d = body \<and> dc_created d = now
         \<and> document_history a' kind name = document_history a kind name @ [Put d]
         \<and> newest_revision a' kind name (Some row) \<and> revision_from_row row = Put d
         \<and> (\<exists>before. newest_revision a kind name before
              \<and> dc_supersedes d = map_option doc_id before
              \<and> (\<forall>e. expected = Some e \<longrightarrow>
                   e = (case before of None \<Rightarrow> None
                        | Some r \<Rightarrow> if doc_content r = None then None else Some (doc_uuid r)))))
    \<and> (\<forall>k n. (k, n) \<noteq> (kind, name) \<longrightarrow>
         document a' k n = document a k n \<and> document_history a' k n = document_history a k n)
    \<and> a' = a\<lparr>ar_documents := Some (doc_rows a')\<rparr>"
proof -
  note P = put_revision_Inr [OF assms(2)]
  note I = insert_revision_Inr [OF P(6)]
  have ok': "docs_ok a'" by (rule docs_ok_insert [OF assms(1) P(6)])
  obtain row where row: "doc_rows a' = doc_rows a @ [row]" "doc_id row = rid_id rid" "doc_uuid row = rid_uuid rid"
    "doc_kind row = kind" "doc_name row = name" "doc_content row = Some (schema, body)" "doc_created row = now"
    "doc_supersedes row = map_option hd_id (head_of a kind name)"
    using I(1) by auto
  note has = I(6,7)
  note N = newest_row_append [OF ok' assms(1) row(1)]
  let ?before = "newest_row a kind name"
  let ?d = "\<lparr>dc_id = doc_id row, dc_uuid = doc_uuid row, dc_kind = doc_kind row, dc_name = doc_name row,
              dc_schema = schema, dc_body = body, dc_created = doc_created row, dc_supersedes = doc_supersedes row\<rparr>"
  have from_row: "revision_from_row row = Put ?d" by (simp add: revision_from_row_def row(6))
  then have d: "document a' kind name = Some ?d" "document_history a' kind name = document_history a kind name @ [Put ?d]"
    using N [of kind name] by (simp_all add: document_def newest_def document_history_def has row)
  have newest: "newest_revision a' kind name (Some row)"
    using newest_row_spec [OF ok', of kind name] N(1) [of kind name] row(4,5) by simp
  have links: "dc_supersedes ?d = map_option doc_id ?before"
    by (simp add: row(8) head_of_def option.map_comp comp_def)
  have expected: "e = (case ?before of None \<Rightarrow> None | Some r \<Rightarrow> if doc_content r = None then None else Some (doc_uuid r))"
    if "expected = Some e" for e
    using P(5) [OF that] by (auto simp: live_uuid_def head_of_def split: option.splits)
  have other: "document a' k n = document a k n \<and> document_history a' k n = document_history a k n"
    if "(k, n) \<noteq> (kind, name)" for k n
    using N [of k n] that by (auto simp: document_def newest_def document_history_def has row(4,5))
  have "\<exists>d row. document a' kind name = Some d \<and> dc_id d = rid_id rid \<and> dc_uuid d = rid_uuid rid
         \<and> dc_kind d = kind \<and> dc_name d = name \<and> dc_schema d = schema \<and> dc_body d = body \<and> dc_created d = now
         \<and> document_history a' kind name = document_history a kind name @ [Put d]
         \<and> newest_revision a' kind name (Some row) \<and> revision_from_row row = Put d
         \<and> (\<exists>before. newest_revision a kind name before
              \<and> dc_supersedes d = map_option doc_id before
              \<and> (\<forall>e. expected = Some e \<longrightarrow>
                   e = (case before of None \<Rightarrow> None
                        | Some r \<Rightarrow> if doc_content r = None then None else Some (doc_uuid r))))"
    using d newest from_row links expected newest_row_spec [OF assms(1), of kind name] row(2-7)
    by (intro exI [of _ ?d] exI [of _ row] conjI exI [of _ ?before]) auto
  then show ?thesis using ok' other I(5) by blast
qed

text \<open>
  Two conditional saves against the same revision: after the first one's
  commit the second is refused with the first one's revision as current, so neither
  overwrites the other unseen.
\<close>

theorem second_conditional_put_conflicts:
  assumes "docs_ok a"
    and "put_revision is_json rand now kind name schema body (Some e) a = Inr (rid, a')"
    and "schema' \<noteq> []" and "is_json body'"
  shows "put_revision is_json rand' now' kind name schema' body' (Some e) a'
    = Inl (DocumentConflict kind name e (Some (rid_uuid rid)))"
proof -
  note P = put_revision_Inr [OF assms(2)]
  note I = insert_revision_Inr [OF P(6)]
  have ok': "docs_ok a'" by (rule docs_ok_insert [OF assms(1) P(6)])
  obtain row where row: "doc_rows a' = doc_rows a @ [row]" "doc_uuid row = rid_uuid rid"
    "doc_kind row = kind" "doc_name row = name" "doc_content row = Some (schema, body)"
    using I(1) by auto
  have live: "live_uuid (head_of a' kind name) = Some (rid_uuid rid)"
    using newest_row_append(1) [OF ok' assms(1) row(1), of kind name] row
    by (simp add: head_of_def live_uuid_def)
  have "ar_user_version a' = ar_user_version a" using arg_cong [OF I(5), of ar_user_version] by simp
  then have wr: "check_writable a' = Inr ()" using P(4) by (simp add: check_writable_def split: if_splits)
  have "e \<noteq> Some (rid_uuid rid)"
  proof
    assume e: "e = Some (rid_uuid rid)"
    then have "live_uuid (head_of a kind name) = Some (rid_uuid rid)" using P(5) by simp
    then obtain r where "newest_row a kind name = Some r" "doc_uuid r = rid_uuid rid"
      by (auto simp: live_uuid_def head_of_def split: option.splits if_splits)
    then have "rid_uuid rid \<in> doc_uuid ` set (doc_rows a)" using newest_row_mem by force
    with I(3) show False by simp
  qed
  then show ?thesis
    using P(1) wr live assms(3,4)
    by (auto simp: put_revision_def check_json_def Let_def)
qed

text \<open>
  A deletion of a document that is there appends a revision with no body, after
  which the document reads as absent while its history keeps everything; of one that
  is not there, or in a file without the table, it writes nothing.
\<close>

theorem delete_revision_correct:
  assumes "docs_ok a" and "delete_revision rand now kind name a = Inr (r, a')"
  shows "docs_ok a' \<and> document a' kind name = None
    \<and> (\<forall>k n. (k, n) \<noteq> (kind, name) \<longrightarrow> document a' k n = document a k n)
    \<and> (case r of
         None \<Rightarrow> a' = a \<and> document a kind name = None
       | Some rid \<Rightarrow> \<exists>d. document_history a' kind name = document_history a kind name @ [Delete d]
           \<and> dl_uuid d = rid_uuid rid \<and> document a kind name \<noteq> None)"
proof (cases "\<not> has_documents a \<or> head_of a kind name = None \<or> hd_deleted (the (head_of a kind name))")
  case True
  then have r: "r = None" "a' = a"
    using assms(2) by (auto simp: delete_revision_def result_simps split: option.splits if_splits)
  have "document a kind name = None"
    using True by (auto simp: document_def newest_def head_of_def revision_from_row_def split: option.splits)
  with r assms(1) show ?thesis by simp
next
  case False
  then obtain h where h: "head_of a kind name = Some h" "\<not> hd_deleted h" "has_documents a" by auto
  obtain uuid i where ins: "insert_revision \<lparr>nr_uuid = uuid, nr_kind = kind, nr_name = name, nr_content = None,
            nr_created = now, nr_supersedes = Some (hd_id h)\<rparr> a = Inr (i, a')" and r: "r = Some \<lparr>rid_id = i, rid_uuid = uuid\<rparr>"
    using assms(2) h by (auto simp: delete_revision_def result_simps split: if_splits)
  note I = insert_revision_Inr [OF ins]
  have ok': "docs_ok a'" by (rule docs_ok_insert [OF assms(1) ins])
  obtain row where row: "doc_rows a' = doc_rows a @ [row]" "doc_uuid row = uuid" "doc_kind row = kind"
    "doc_name row = name" "doc_content row = None"
    using I(1) by auto
  note N = newest_row_append [OF ok' assms(1) row(1)]
  have "document a' kind name = None"
    using N [of kind name] row by (simp add: document_def newest_def revision_from_row_def)
  moreover have "document a' k n = document a k n" if "(k, n) \<noteq> (kind, name)" for k n
    using N [of k n] that by (auto simp: document_def newest_def I(6,7) row(3,4))
  moreover have "\<exists>d. document_history a' kind name = document_history a kind name @ [Delete d] \<and> dl_uuid d = uuid"
    using N [of kind name] row by (auto simp: document_history_def I(6,7) revision_from_row_def)
  moreover have "document a kind name \<noteq> None"
    using h by (auto simp: document_def newest_def head_of_def revision_from_row_def split: option.splits)
  ultimately show ?thesis using ok' r by auto
qed

subsection \<open>The walk back through a history\<close>

definition supersede_rel :: "doc_row list \<Rightarrow> (i64 \<times> i64) set" where
  "supersede_rel rs = {(x, y). \<exists>r. find_doc rs x = Some r \<and> doc_supersedes r = Some y}"

lemma closed_reach:
  assumes "(x, y) \<in> R\<^sup>*" "x \<in> S" "\<forall>a b. a \<in> S \<longrightarrow> (a, b) \<in> R \<longrightarrow> b \<in> S"
  shows "y \<in> S"
  using assms(1,2) by (induction rule: rtrancl_induct) (use assms(3) in blast)+

lemma ancestry_from_correct:
  assumes "\<forall>s \<in> set seen. s \<noteq> target \<and> (s < first_new \<longrightarrow> shares)
      \<and> (\<forall>y. (s, y) \<in> supersede_rel rs \<longrightarrow> y = cur \<or> y \<in> set seen)"
  shows "(fst (ancestry_from rs target first_new seen shares cur) \<longleftrightarrow> (cur, target) \<in> (supersede_rel rs)\<^sup>*)
    \<and> (\<not> fst (ancestry_from rs target first_new seen shares cur) \<longrightarrow>
        (snd (ancestry_from rs target first_new seen shares cur) \<longleftrightarrow>
           shares \<or> (\<exists>y < first_new. (cur, y) \<in> (supersede_rel rs)\<^sup>*)))"
  using assms
proof (induction rs target first_new seen shares cur rule: ancestry_from.induct)
  case (1 rs target first_new seen shares cur)
  let ?R = "supersede_rel rs"
  let ?shares = "shares \<or> cur < first_new"
  note eq = ancestry_from.simps [of rs target first_new seen shares cur]
  consider (hit) "cur = target" | (cycle) "cur \<noteq> target" "cur \<in> set seen"
    | (stop) "cur \<noteq> target" "cur \<notin> set seen" "\<And>y. (cur, y) \<notin> ?R"
    | (step) r y where "cur \<noteq> target" "cur \<notin> set seen" "find_doc rs cur = Some r" "doc_supersedes r = Some y"
    by (auto simp: supersede_rel_def)
  then show ?case
  proof cases
    case hit
    then have "ancestry_from rs target first_new seen shares cur = (True, True)" by (subst eq) simp
    with hit show ?thesis by simp
  next
    case cycle
    have closed: "\<forall>a b. a \<in> set seen \<longrightarrow> (a, b) \<in> ?R \<longrightarrow> b \<in> set seen"
      using "1.prems" cycle(2) by blast
    have no: "(cur, target) \<notin> ?R\<^sup>*"
    proof
      assume "(cur, target) \<in> ?R\<^sup>*"
      from bspec [OF "1.prems" closed_reach [OF this cycle(2) closed]] show False by simp
    qed
    have below: "y < first_new \<longrightarrow> shares" if "(cur, y) \<in> ?R\<^sup>*" for y
      using bspec [OF "1.prems" closed_reach [OF that cycle(2) closed]] by simp
    have val: "ancestry_from rs target first_new seen shares cur = (False, ?shares)"
      using cycle by (subst eq) (simp add: Let_def)
    have "cur < first_new \<longrightarrow> shares" using bspec [OF "1.prems" cycle(2)] by simp
    then show ?thesis unfolding val using no below by auto
  next
    case stop
    have reach: "(cur, y) \<in> ?R\<^sup>* \<longleftrightarrow> y = cur" for y
      using stop(3) by (auto elim: converse_rtranclE)
    have "ancestry_from rs target first_new seen shares cur = (False, ?shares)"
      using stop by (subst eq) (auto simp: Let_def supersede_rel_def split: option.splits)
    then show ?thesis using stop(1) by (auto simp: reach)
  next
    case step
    have only: "(cur, z) \<in> ?R \<longleftrightarrow> z = y" for z
      using step by (auto simp: supersede_rel_def)
    have reach: "(cur, z) \<in> ?R\<^sup>* \<longleftrightarrow> z = cur \<or> (y, z) \<in> ?R\<^sup>*" for z
      using only by (metis converse_rtranclE converse_rtrancl_into_rtrancl rtrancl.rtrancl_refl)
    have this_eq: "ancestry_from rs target first_new seen shares cur
        = ancestry_from rs target first_new (cur # seen) ?shares y"
      using step by (subst eq) (simp add: Let_def)
    have inv: "\<forall>s \<in> set (cur # seen). s \<noteq> target \<and> (s < first_new \<longrightarrow> ?shares)
        \<and> (\<forall>z. (s, z) \<in> ?R \<longrightarrow> z = y \<or> z \<in> set (cur # seen))"
      using "1.prems" step(1) only by auto
    from "1.IH" [OF step(1) refl step(2,3,4) inv] show ?thesis
      unfolding this_eq using step(1) by (auto simp: reach)
  qed
qed

text \<open>
  C30: the walk back from a revision ends, and it reports the target exactly when
  the target is the revision itself or an ancestor of it; when it is not, it reports
  whether the chain enters the revisions held before the copy. A cycle in the links,
  which a damaged file can hold, does not change either answer.
\<close>

theorem ancestry_correct:
  "(fst (ancestry a i target first_new) \<longleftrightarrow> (i, target) \<in> (supersede_rel (doc_rows a))\<^sup>*)
    \<and> (\<not> fst (ancestry a i target first_new) \<longrightarrow>
        (snd (ancestry a i target first_new) \<longleftrightarrow>
           (\<exists>y < first_new. (i, y) \<in> (supersede_rel (doc_rows a))\<^sup>*)))"
  unfolding ancestry_def
  using ancestry_from_correct [of "[]" target first_new False "doc_rows a" i] by simp

subsection \<open>A copy\<close>

definition holds_revision :: "archive \<Rightarrow> doc_row \<Rightarrow> bool" where
  "holds_revision a r \<longleftrightarrow> (\<exists>h \<in> set (doc_rows a).
     doc_uuid h = doc_uuid r \<and> doc_kind h = doc_kind r \<and> doc_name h = doc_name r \<and> doc_content h = doc_content r)"

definition extends_docs :: "archive \<Rightarrow> archive \<Rightarrow> nat \<Rightarrow> bool" where
  "extends_docs a b n \<longleftrightarrow> (\<exists>new. doc_rows b = doc_rows a @ new \<and> length new = n)
     \<and> ar_user_version b = ar_user_version a"

lemma holds_revision_mono: "extends_docs a b n \<Longrightarrow> holds_revision a r \<Longrightarrow> holds_revision b r"
  by (auto simp: extends_docs_def holds_revision_def)

lemma copy_revision_step:
  assumes "copy_revision cs r = Inr cs'" and "docs_ok (cs_dst cs)"
  shows "docs_ok (cs_dst cs') \<and> holds_revision (cs_dst cs') r \<and> cs_inserted cs \<le> cs_inserted cs'
    \<and> extends_docs (cs_dst cs) (cs_dst cs') (cs_inserted cs' - cs_inserted cs)"
proof (cases "find (\<lambda>x. doc_uuid x = doc_uuid r) (doc_rows (cs_dst cs))")
  case (Some held)
  then have "held \<in> set (doc_rows (cs_dst cs))" "doc_uuid held = doc_uuid r"
    by (auto simp: find_Some_iff)
  with Some assms show ?thesis
    by (auto simp: copy_revision_def holds_revision_def extends_docs_def split: if_splits)
next
  case None
  then obtain i a' nr where ins: "insert_revision nr (cs_dst cs) = Inr (i, a')"
    and nr: "nr_uuid nr = doc_uuid r" "nr_kind nr = doc_kind r" "nr_name nr = doc_name r" "nr_content nr = doc_content r"
    and cs': "cs_dst cs' = a'" "cs_inserted cs' = cs_inserted cs + 1"
    using assms(1) by (fastforce simp: copy_revision_def Let_def result_simps)
  note I = insert_revision_Inr [OF ins]
  have "ar_user_version a' = ar_user_version (cs_dst cs)" using arg_cong [OF I(5), of ar_user_version] by simp
  with docs_ok_insert [OF assms(2) ins] I(1) nr cs' show ?thesis
    by (auto simp: holds_revision_def extends_docs_def)
qed

lemma copy_loop:
  assumes "rfold copy_revision cs rows = Inr cs'" and "docs_ok (cs_dst cs)"
  shows "docs_ok (cs_dst cs') \<and> (\<forall>r \<in> set rows. holds_revision (cs_dst cs') r) \<and> cs_inserted cs \<le> cs_inserted cs'
    \<and> extends_docs (cs_dst cs) (cs_dst cs') (cs_inserted cs' - cs_inserted cs)"
  using assms
proof (induction rows arbitrary: cs)
  case Nil
  then show ?case by (simp add: extends_docs_def)
next
  case (Cons r rows)
  then obtain c where c: "copy_revision cs r = Inr c" "rfold copy_revision c rows = Inr cs'"
    by (auto simp: result_simps)
  note S = copy_revision_step [OF c(1) Cons.prems(2)]
  then have IH: "docs_ok (cs_dst cs') \<and> (\<forall>r \<in> set rows. holds_revision (cs_dst cs') r) \<and> cs_inserted c \<le> cs_inserted cs'
    \<and> extends_docs (cs_dst c) (cs_dst cs') (cs_inserted cs' - cs_inserted c)"
    by (intro Cons.IH [OF c(2)]) blast
  have "extends_docs (cs_dst cs) (cs_dst cs') (cs_inserted cs' - cs_inserted cs)"
    using S IH by (auto simp: extends_docs_def)
  with S IH show ?case using holds_revision_mono by auto
qed

lemma copy_held:
  assumes "docs_ok (cs_dst cs)" and "\<forall>r \<in> set rows. holds_revision (cs_dst cs) r"
  shows "\<exists>ids. rfold copy_revision cs rows = Inr (cs\<lparr>cs_ids := ids\<rparr>)"
  using assms
proof (induction rows arbitrary: cs)
  case Nil
  then show ?case by (intro exI [of _ "cs_ids cs"]) simp
next
  case (Cons r rows)
  obtain h where h: "h \<in> set (doc_rows (cs_dst cs))" "doc_uuid h = doc_uuid r" "doc_kind h = doc_kind r"
      "doc_name h = doc_name r" "doc_content h = doc_content r"
    using Cons.prems(2) by (auto simp: holds_revision_def)
  have "find (\<lambda>x. doc_uuid x = doc_uuid r) (doc_rows (cs_dst cs)) = Some h"
  proof -
    obtain x where x: "find (\<lambda>x. doc_uuid x = doc_uuid r) (doc_rows (cs_dst cs)) = Some x"
      using h(1,2) by (cases "find (\<lambda>x. doc_uuid x = doc_uuid r) (doc_rows (cs_dst cs))") (auto simp: find_None_iff)
    then have "x \<in> set (doc_rows (cs_dst cs))" "doc_uuid x = doc_uuid r" by (auto simp: find_Some_iff)
    with h(1,2) Cons.prems(1) have "x = h" by (auto simp: docs_ok_def distinct_map inj_on_def)
    with x show ?thesis by simp
  qed
  then have step: "copy_revision cs r = Inr (cs\<lparr>cs_ids := bt_insert (doc_id r) (doc_id h) (cs_ids cs)\<rparr>)"
    using h(3-5) by (simp add: copy_revision_def)
  have "\<exists>ids. rfold copy_revision (cs\<lparr>cs_ids := bt_insert (doc_id r) (doc_id h) (cs_ids cs)\<rparr>) rows
      = Inr (cs\<lparr>cs_ids := bt_insert (doc_id r) (doc_id h) (cs_ids cs)\<rparr>\<lparr>cs_ids := ids\<rparr>)"
    using Cons.prems by (intro Cons.IH) auto
  then show ?case by (simp add: step)
qed

text \<open>
  C28: a copy that succeeds keeps every revision the destination had, in front and
  untouched, appends exactly the number it reports, and leaves every revision of the
  source held under its uuid with the same key and content; and it is idempotent: a
  second copy of the same source inserts nothing, reports nothing and writes nothing.
\<close>

theorem copy_documents_correct:
  assumes "docs_ok dst" and "copy_documents src dst = Inr (rep, dst')"
  shows "docs_ok dst'
    \<and> (\<exists>new. doc_rows dst' = doc_rows dst @ new \<and> length new = cd_inserted rep)
    \<and> (\<forall>r \<in> set (doc_rows src). holds_revision dst' r)
    \<and> copy_documents src dst' = Inr (\<lparr>cd_inserted = 0, cd_current = [], cd_forked = []\<rparr>, dst')"
proof (cases "doc_rows src = []")
  case True
  with assms show ?thesis by (auto simp: copy_documents_def Let_def)
next
  case False
  let ?rows = "order_by doc_id (doc_rows src)"
  let ?init = "\<lambda>d. \<lparr>cs_dst = d, cs_ids = [], cs_touched = [], cs_first = i64_max, cs_inserted = 0\<rparr>"
  obtain cs where w: "check_writable dst = Inr ()" and cs: "rfold copy_revision (?init dst) ?rows = Inr cs"
    and rep: "cd_inserted rep = cs_inserted cs" "dst' = cs_dst cs"
    using assms(2) False by (auto simp: copy_documents_def Let_def result_simps)
  have L: "docs_ok dst' \<and> (\<forall>r \<in> set ?rows. holds_revision dst' r) \<and> extends_docs dst dst' (cs_inserted cs)"
    using copy_loop [OF cs] assms(1) rep by simp
  obtain ids where again: "rfold copy_revision (?init dst') ?rows = Inr ((?init dst')\<lparr>cs_ids := ids\<rparr>)"
    using copy_held [of "?init dst'" ?rows] L by auto
  have "check_writable dst' = Inr ()"
    using w L by (auto simp: check_writable_def extends_docs_def split: if_splits)
  then have "copy_documents src dst' = Inr (\<lparr>cd_inserted = 0, cd_current = [], cd_forked = []\<rparr>, dst')"
    using False again by (simp add: copy_documents_def Let_def)
  with L rep show ?thesis by (auto simp: extends_docs_def)
qed

subsection \<open>At a concrete archive\<close>

definition sample_doc :: "i64 \<Rightarrow> bytes \<Rightarrow> doc_row" where
  "sample_doc i u = \<lparr>doc_id = i, doc_uuid = u, doc_kind = str ''note'', doc_name = str ''a'',
     doc_content = Some (str ''v1'', str ''{}''), doc_created = 0, doc_supersedes = None\<rparr>"

definition doc_archive :: "doc_row list \<Rightarrow> archive" where
  "doc_archive rs = create_archive\<lparr>ar_documents := Some rs\<rparr>"

definition sample_random :: bytes where
  "sample_random = replicate 16 0"

lemma docs_ok_sample: "docs_ok (doc_archive [])" "docs_ok (doc_archive [sample_doc 1 [1]])"
  by (simp_all add: docs_ok_def doc_archive_def doc_rows_def sample_doc_def)

definition sample_put :: "archive \<Rightarrow> (rev_id \<times> archive) result" where
  "sample_put = put_revision (\<lambda>_. True) sample_random 0 (str ''note'') (str ''a'') (str ''v1'') (str ''{}'') (Some (Some [1]))"

lemma sample_put_ok: "\<exists>rid a'. sample_put (doc_archive [sample_doc 1 [1]]) = Inr (rid, a')"
proof -
  have "is_ok (sample_put (doc_archive [sample_doc 1 [1]]))" by code_simp
  then show ?thesis by (cases "sample_put (doc_archive [sample_doc 1 [1]])") auto
qed

theorem put_revision_correct_witness:
  "\<exists>rid a' d. sample_put (doc_archive [sample_doc 1 [1]]) = Inr (rid, a') \<and> docs_ok a'
     \<and> document a' (str ''note'') (str ''a'') = Some d \<and> dc_supersedes d = Some 1"
proof -
  let ?a = "doc_archive [sample_doc 1 [1]]"
  obtain rid a' where p: "sample_put ?a = Inr (rid, a')" using sample_put_ok by blast
  obtain d before where d: "docs_ok a'" "document a' (str ''note'') (str ''a'') = Some d"
    "newest_revision ?a (str ''note'') (str ''a'') before" "dc_supersedes d = map_option doc_id before"
    using put_revision_correct [OF docs_ok_sample(2) p [unfolded sample_put_def]] by blast
  have rows: "ar_documents ?a = Some [sample_doc 1 [1]]" by (simp add: doc_archive_def)
  have key: "doc_kind (sample_doc 1 [1]) = str ''note''" "doc_name (sample_doc 1 [1]) = str ''a''"
    by (simp_all add: sample_doc_def)
  have "before = Some (sample_doc 1 [1])"
  proof (cases before)
    case None
    then have "{r \<in> set [sample_doc 1 [1]]. doc_kind r = str ''note'' \<and> doc_name r = str ''a''} = {}"
      using d(3) by (simp only: newest_revision_def rows Let_def option.case)
    then show ?thesis using key by auto
  next
    case (Some r)
    then show ?thesis using d(3) by (simp add: newest_revision_def rows)
  qed
  then show ?thesis using p d by (auto simp: sample_doc_def)
qed

theorem second_conditional_put_conflicts_witness:
  "\<exists>rid a'. sample_put (doc_archive [sample_doc 1 [1]]) = Inr (rid, a')
     \<and> sample_put a' = Inl (DocumentConflict (str ''note'') (str ''a'') (Some [1]) (Some (rid_uuid rid)))"
proof -
  obtain rid a' where p: "sample_put (doc_archive [sample_doc 1 [1]]) = Inr (rid, a')" using sample_put_ok by blast
  have "str ''v1'' \<noteq> []" by (simp add: str_def)
  from second_conditional_put_conflicts [OF docs_ok_sample(2) p [unfolded sample_put_def] this TrueI] p
  show ?thesis unfolding sample_put_def by blast
qed

theorem delete_revision_correct_witness:
  "\<exists>r a'. delete_revision sample_random 0 (str ''note'') (str ''a'') (doc_archive [sample_doc 1 [1]]) = Inr (r, a')
     \<and> r \<noteq> None \<and> document a' (str ''note'') (str ''a'') = None"
proof -
  have c: "(case delete_revision sample_random 0 (str ''note'') (str ''a'') (doc_archive [sample_doc 1 [1]]) of
      Inl _ \<Rightarrow> False | Inr (r, _) \<Rightarrow> r \<noteq> None)" by code_simp
  then obtain r a' where d: "delete_revision sample_random 0 (str ''note'') (str ''a'') (doc_archive [sample_doc 1 [1]]) = Inr (r, a')"
    by (auto split: sum.splits)
  with delete_revision_correct [OF docs_ok_sample(2) d] c show ?thesis by auto
qed

theorem copy_documents_correct_witness:
  "\<exists>rep a'. copy_documents (doc_archive [sample_doc 1 [1]]) (doc_archive []) = Inr (rep, a')
     \<and> cd_inserted rep = 1 \<and> holds_revision a' (sample_doc 1 [1])"
proof -
  have c: "(case copy_documents (doc_archive [sample_doc 1 [1]]) (doc_archive []) of
      Inl _ \<Rightarrow> False | Inr (rep, _) \<Rightarrow> cd_inserted rep = 1)" by code_simp
  then obtain rep a' where d: "copy_documents (doc_archive [sample_doc 1 [1]]) (doc_archive []) = Inr (rep, a')"
    by (auto split: sum.splits)
  moreover have "sample_doc 1 [1] \<in> set (doc_rows (doc_archive [sample_doc 1 [1]]))"
    by (simp add: doc_rows_def doc_archive_def)
  ultimately show ?thesis using copy_documents_correct [OF docs_ok_sample(1) d] c by auto
qed

definition sample_chain :: archive where
  "sample_chain = doc_archive [sample_doc 1 [1], (sample_doc 2 [2])\<lparr>doc_supersedes := Some 1\<rparr>]"

theorem ancestry_correct_witness:
  "\<not> fst (ancestry sample_chain 2 5 2) \<and> (\<exists>y < 2. (2, y) \<in> (supersede_rel (doc_rows sample_chain))\<^sup>*)"
proof -
  have "ancestry sample_chain 2 5 2 = (False, True)" by code_simp
  with ancestry_correct [of sample_chain 2 5 2] show ?thesis by simp
qed

end
