(* ===== verification/Writer_Loop.thy ===== *)
theory Writer_Loop
  imports Seal_Seam Eviction Documents
begin

section \<open>The writer's loop (\<open>src/writer.rs\<close>)\<close>

text \<open>
  One thread owns the connection and handles messages in order. \<open>writer_state\<close> is
  what \<open>writer_loop\<close> keeps in its local variables; each arm of its \<open>match\<close> is one
  equation of \<open>handle\<close>, with the reply it sends. Warnings, and the sets that only
  decide whether to log one, are left out.
\<close>

subsection \<open>Retries\<close>

definition retry_backoff :: "nat list" where "retry_backoff = [10, 50, 250]"   \<comment> \<open>milliseconds\<close>
definition max_consecutive_dropped_ticks :: nat where "max_consecutive_dropped_ticks = 30"

text \<open>\<open>with_retries\<close>: \<open>retryable\<close> is \<open>is_retryable\<close>, lifted where a panic can pass.\<close>

fun retry_from :: "nat \<Rightarrow> ('e \<Rightarrow> bool) \<Rightarrow> ('s \<Rightarrow> ('e + 'a) \<times> 's) \<Rightarrow> 's \<Rightarrow> ('e + 'a) \<times> 's" where
  "retry_from 0 retryable op s = op s"
| "retry_from (Suc n) retryable op s =
    (case op s of
       (Inr x, s') \<Rightarrow> (Inr x, s')
     | (Inl e, s') \<Rightarrow> if retryable e then retry_from n retryable op s' else (Inl e, s'))"

definition with_retries :: "('e \<Rightarrow> bool) \<Rightarrow> ('s \<Rightarrow> ('e + 'a) \<times> 's) \<Rightarrow> 's \<Rightarrow> ('e + 'a) \<times> 's" where
  "with_retries = retry_from (length retry_backoff)"

fun failure_retryable :: "failure \<Rightarrow> bool" where
  "failure_retryable (Fails e) = is_retryable e"
| "failure_retryable (Panics _) = False"

subsection \<open>State, messages and replies\<close>

record writer_state =
  wr_seal :: seal_state
  wr_floors :: "i64 \<Rightarrow> i64 option"
  wr_deferred :: "i64 \<Rightarrow> (rstring, nat) btree"
  wr_added :: nat
  wr_finalized :: nat
  wr_dropped :: nat
  wr_shadowed :: "i64 \<Rightarrow> nat"
  wr_beating :: "i64 list"

abbreviation wr_archive :: "writer_state \<Rightarrow> archive" where
  "wr_archive w \<equiv> ss_archive (wr_seal w)"

definition set_db :: "writer_state \<Rightarrow> db \<Rightarrow> writer_state" where
  "set_db w d = w\<lparr>wr_seal := (wr_seal w)\<lparr>ss_db := d\<rparr>\<rparr>"

text \<open>An operation on the connection, run on the writer's.\<close>

definition on_db :: "(db \<Rightarrow> 'r \<times> db) \<Rightarrow> writer_state \<Rightarrow> 'r \<times> writer_state" where
  "on_db op w = (let (r, d) = op (ss_db (wr_seal w)) in (r, set_db w d))"

record document_put =
  dp_kind :: rstring
  dp_name :: rstring
  dp_schema :: rstring
  dp_body :: rstring
  dp_expected :: "rstring option option"

record resumed =
  rs_labels :: label_map
  rs_last_ts :: "i64 option"

datatype msg =
    AddSource source_meta "rstring option"
  | ResumeSource i64 i64
  | Wal "tick list"
  | Seal i64 "rstring list" nat
  | AdoptSegment i64 adopted
  | Evict i64 i64 "(rstring \<Rightarrow> bool) option" "caller_row_floor option"
  | UpdateMetadata i64 label_map
  | SetIdentity i64 label_map label_map
  | ClockOffset i64 i64 i64
  | CallerRows i64 rstring "caller_row list"
  | PutDocument document_put
  | DeleteDocument rstring rstring
  | Finalize i64 "i64 \<times> i64"
  | Shutdown
  | Sync

datatype reply =
    NoReply
  | Synced
  | SourceAdded "i64 result"
  | SourceResumed "resumed result"
  | SegmentAdopted "bool result"
  | RowsEvicted "evicted result"
  | DocumentWritten "rev_id result"
  | DocumentDeleted "rev_id option result"

datatype outcome = Running writer_state | Stopped "failure + unit" writer_state

text \<open>
  What the loop is given from outside: the caller's encoder, the JSON edits of
  \<open>record_session\<close> (\<open>serde_json\<close>), its validity check, the heartbeat interval, the
  page-level reclaim of a close, and for one step the random bytes and the clock.
\<close>

record writer_env =
  we_encoder :: encoder
  we_sessions_json :: "rstring option \<Rightarrow> rstring \<Rightarrow> i64 \<Rightarrow> i64 option option \<Rightarrow> rstring"
  we_events_json :: "rstring option \<Rightarrow> rstring \<Rightarrow> i64 \<Rightarrow> i64 option \<Rightarrow> rstring"
  we_is_json :: "rstring \<Rightarrow> bool"
  we_heartbeat_ns :: i64
  we_reclaim_all :: "archive \<Rightarrow> unit result"
  we_random :: bytes
  we_session_random :: bytes
  we_now :: i64

subsection \<open>Ticks\<close>

definition floored :: "(i64 \<Rightarrow> i64 option) \<Rightarrow> tick \<Rightarrow> bool" where
  "floored floors = (\<lambda>(sid, rows). case floors sid of None \<Rightarrow> False | Some f \<Rightarrow> \<exists>r \<in> set rows. row_ts r \<le> f)"

definition shadows :: "(i64 \<times> rstring \<Rightarrow> i64 option) \<Rightarrow> i64 \<Rightarrow> wal_row \<Rightarrow> bool" where
  "shadows watermarks sid r \<longleftrightarrow> opt_holds (\<lambda>w. row_ts r \<le> w) (watermarks (sid, row_stream r))"

definition admitted :: "(i64 \<Rightarrow> i64 option) \<Rightarrow> (i64 \<times> rstring \<Rightarrow> i64 option) \<Rightarrow> tick list \<Rightarrow> tick list" where
  "admitted floors watermarks ticks =
    (let kept = filter (\<lambda>t. \<not> floored floors t) ticks
     in if \<exists>(sid, rows) \<in> set kept. \<exists>r \<in> set rows. shadows watermarks sid r
        then filter (\<lambda>(_, rows). rows \<noteq> [])
               (map (\<lambda>(sid, rows). (sid, filter (\<lambda>r. \<not> shadows watermarks sid r) rows)) kept)
        else kept)"

definition count_shadowed ::
  "(i64 \<Rightarrow> i64 option) \<Rightarrow> (i64 \<times> rstring \<Rightarrow> i64 option) \<Rightarrow> tick list \<Rightarrow> (i64 \<Rightarrow> nat) \<Rightarrow> i64 \<Rightarrow> nat" where
  "count_shadowed floors watermarks ticks counts =
     foldl (\<lambda>c (sid, rows). c(sid := c sid + length (filter (shadows watermarks sid) rows))) counts
       (filter (\<lambda>t. \<not> floored floors t) ticks)"

text \<open>\<open>WriterHealth::committed\<close> and \<open>WriterHealth::dropped\<close>.\<close>

definition health_committed :: "writer_state \<Rightarrow> writer_state" where
  "health_committed w = w\<lparr>wr_dropped := 0\<rparr>"

definition health_dropped :: "writer_state \<Rightarrow> unit result \<times> writer_state" where
  "health_dropped w =
    (let n = wr_dropped w + 1; w' = w\<lparr>wr_dropped := n\<rparr>
     in if n \<ge> max_consecutive_dropped_ticks
        then (Inl (Message ''the archive writer dropped consecutive ticks''), w')
        else (Inr (), w'))"

text \<open>The per-source retry after a batch that collides; the flag is \<open>any\<close>.\<close>

fun commit_sources :: "tick list \<Rightarrow> bool \<Rightarrow> writer_state \<Rightarrow> bool result \<times> writer_state" where
  "commit_sources [] any w = (Inr any, w)"
| "commit_sources ((sid, rows) # ticks) any w =
    (case with_retries is_retryable (on_db (transaction (unit_body (insert_wal_rows sid rows)))) w of
       (Inr _, w') \<Rightarrow> commit_sources ticks True w'
     | (Inl e, w') \<Rightarrow>
         if is_constraint e then commit_sources ticks any w'
         else if is_retryable e
         then (case health_dropped w' of
                 (Inl err, w'') \<Rightarrow> (Inl err, w'')
               | (Inr _, w'') \<Rightarrow> commit_sources ticks any w'')
         else (Inl e, w'))"

definition commit_tick :: "tick list \<Rightarrow> writer_state \<Rightarrow> unit result \<times> writer_state" where
  "commit_tick ticks w =
    (let ts = admitted (wr_floors w) (ss_watermarks (wr_seal w)) ticks;
         w1 = w\<lparr>wr_shadowed := count_shadowed (wr_floors w) (ss_watermarks (wr_seal w)) ticks (wr_shadowed w)\<rparr>
     in if ts = [] then (Inr (), w1)
        else
          case with_retries is_retryable (on_db (transaction (unit_body (insert_wal_rows_batch ts)))) w1 of
            (Inr _, w2) \<Rightarrow> (Inr (), health_committed w2)
          | (Inl e, w2) \<Rightarrow>
              if is_constraint e
              then (case commit_sources ts False w2 of
                      (Inl err, w3) \<Rightarrow> (Inl err, w3)
                    | (Inr any, w3) \<Rightarrow> (Inr (), if any then health_committed w3 else w3))
              else if is_retryable e then health_dropped w2
              else (Inl e, w2))"

subsection \<open>Sessions\<close>

definition patch_metadata :: "i64 \<Rightarrow> label_map \<Rightarrow> db \<Rightarrow> unit result \<times> db" where
  "patch_metadata sid patch = transaction (unit_body (patch_source_metadata sid patch))"

definition record_session ::
  "writer_env \<Rightarrow> i64 \<Rightarrow> i64 \<Rightarrow> i64 option option \<Rightarrow> db \<Rightarrow> unit result \<times> db" where
  "record_session env sid anchor resumed_after d =
    (case rbind (mint_uuid (we_session_random env)) (\<lambda>session.
            rmap (\<lambda>metadata. (session, metadata)) (source_metadata (db_archive d) sid)) of
       Inl e \<Rightarrow> (Inl e, d)
     | Inr (session, metadata) \<Rightarrow>
         let events = (case resumed_after of
                         None \<Rightarrow> []
                       | Some after \<Rightarrow>
                           [(events_key, we_events_json env (bt_get metadata events_key) session anchor after)]);
             sessions = (writer_sessions_key,
               we_sessions_json env (bt_get metadata writer_sessions_key) session anchor resumed_after)
         in patch_metadata sid (bt_extend [] (events @ [sessions])) d)"

definition start_heartbeat :: "writer_env \<Rightarrow> i64 \<Rightarrow> db \<Rightarrow> db" where
  "start_heartbeat env sid d =
     snd (transaction (\<lambda>a. Inr ((), beat [sid] (set_heartbeat_interval sid (we_heartbeat_ns env) a))) d)"

definition add_source :: "writer_env \<Rightarrow> source_meta \<Rightarrow> rstring option \<Rightarrow> db \<Rightarrow> i64 result \<times> db" where
  "add_source env seed uuid d =
    (case transaction (insert_source_sql (we_random env) seed uuid) d of
       (Inl e, d1) \<Rightarrow> (Inl e, d1)
     | (Inr i, d1) \<Rightarrow>
         case record_session env i (sm_clock_anchor seed) None d1 of
           (Inl e, d2) \<Rightarrow> (Inl e, d2)
         | (Inr _, d2) \<Rightarrow>
             let d3 = start_heartbeat env i d2
             in case enc_version (we_encoder env) of
                  None \<Rightarrow> (Inr i, d3)
                | Some version \<Rightarrow>
                    case patch_metadata i [(encoder_key, version)] d3 of
                      (Inl e, d4) \<Rightarrow> (Inl e, d4)
                    | (Inr _, d4) \<Rightarrow> (Inr i, d4))"

definition resume_source :: "writer_env \<Rightarrow> i64 \<Rightarrow> i64 \<Rightarrow> db \<Rightarrow> resumed result \<times> db" where
  "resume_source env sid anchor d =
    (case find_source (db_archive d) sid of
       None \<Rightarrow> (Inl (Message ''no source with id to resume''), d)
     | Some src \<Rightarrow>
         case check_encoder sid (sm_metadata (src_meta src)) (we_encoder env) of
           Inl e \<Rightarrow> (Inl e, d)
         | Inr _ \<Rightarrow>
             let last_ts = snd (source_time_span (db_archive d) sid)
             in if opt_holds (\<lambda>f. anchor \<le> f) last_ts
                then (Inl (TimelineBackwards sid anchor (the last_ts)), d)
                else
                  case transaction (unit_body (mark_incomplete sid)) d of
                    (Inl e, d1) \<Rightarrow> (Inl e, d1)
                  | (Inr _, d1) \<Rightarrow>
                      case record_session env sid anchor (Some last_ts) d1 of
                        (Inl e, d2) \<Rightarrow> (Inl e, d2)
                      | (Inr _, d2) \<Rightarrow>
                          (Inr \<lparr>rs_labels = sm_labels (src_meta src), rs_last_ts = last_ts\<rparr>, d2))"

subsection \<open>Deferred seals\<close>

definition on_seal :: "(seal_state \<Rightarrow> 'r \<times> seal_state) \<Rightarrow> writer_state \<Rightarrow> 'r \<times> writer_state" where
  "on_seal op w = (let (r, s) = op (wr_seal w) in (r, w\<lparr>wr_seal := s\<rparr>))"

text \<open>The loop over the listed streams: \<open>held\<close> is what it has put back so far.\<close>

fun retry_listed ::
  "writer_env \<Rightarrow> i64 \<Rightarrow> (rstring, nat) btree \<Rightarrow> (rstring, nat) btree \<Rightarrow> writer_state \<Rightarrow>
   (failure + (rstring, nat) btree) \<times> writer_state" where
  "retry_listed env sid [] held w = (Inr held, w)"
| "retry_listed env sid ((s, cap) # listed) held w =
    (if held \<noteq> [] then retry_listed env sid listed (bt_insert s cap held) w
     else
       case with_retries failure_retryable (on_seal (seal_batch sid [s] cap (we_encoder env))) w of
         (Inr _, w') \<Rightarrow> retry_listed env sid listed held w'
       | (Inl (Panics p), w') \<Rightarrow> (Inl (Panics p), w')
       | (Inl (Fails e), w') \<Rightarrow>
           if is_retryable e then retry_listed env sid listed (bt_insert s cap held) w'
           else retry_listed env sid listed held w')"

text \<open>Entries that a source has none of are the empty map.\<close>

definition retry_deferred_seals ::
  "writer_env \<Rightarrow> i64 \<Rightarrow> writer_state \<Rightarrow> (failure + rstring list) \<times> writer_state" where
  "retry_deferred_seals env sid w =
    (case retry_listed env sid (wr_deferred w sid) [] (w\<lparr>wr_deferred := (wr_deferred w)(sid := [])\<rparr>) of
       (Inl f, w') \<Rightarrow> (Inl f, w')
     | (Inr held, w') \<Rightarrow> (Inr (map fst held), w'\<lparr>wr_deferred := (wr_deferred w')(sid := held)\<rparr>))"

definition should_reclaim :: "u32 \<Rightarrow> u32 \<Rightarrow> bool" where
  "should_reclaim free_pages pages \<longleftrightarrow> min (unat free_pages * 10) (2 ^ 32 - 1) > unat pages"

subsection \<open>The handlers\<close>

definition bt_remove_all :: "'k list \<Rightarrow> ('k, 'v) btree \<Rightarrow> ('k, 'v) btree" where
  "bt_remove_all ks m = filter (\<lambda>(k, _). k \<notin> set ks) m"

definition defer_stream :: "nat \<Rightarrow> (rstring, nat) btree \<Rightarrow> rstring \<Rightarrow> (rstring, nat) btree" where
  "defer_stream max_rows held s =
     bt_insert s (case bt_get held s of None \<Rightarrow> max_rows | Some cap \<Rightarrow> min cap max_rows) held"

definition handle_seal ::
  "writer_env \<Rightarrow> i64 \<Rightarrow> rstring list \<Rightarrow> nat \<Rightarrow> writer_state \<Rightarrow> outcome" where
  "handle_seal env sid batch max_rows w =
    (case with_retries failure_retryable (on_seal (seal_batch sid batch max_rows (we_encoder env))) w of
       (Inr _, w') \<Rightarrow>
         Running (w'\<lparr>wr_deferred := (wr_deferred w')(sid := bt_remove_all batch (wr_deferred w' sid))\<rparr>)
     | (Inl f, w') \<Rightarrow>
         if failure_retryable f
         then Running (w'\<lparr>wr_deferred :=
                (wr_deferred w')(sid := foldl (defer_stream max_rows) (wr_deferred w' sid) batch)\<rparr>)
         else Stopped (Inl f) w')"

definition eviction_call ::
  "i64 \<Rightarrow> i64 \<Rightarrow> (rstring \<Rightarrow> bool) option \<Rightarrow> caller_row_floor option \<Rightarrow> db \<Rightarrow> evicted result \<times> db" where
  "eviction_call sid cutoff streams floor =
    (case (streams, floor) of
       (Some evict, Some f) \<Rightarrow> evict_streams_before_with_floor sid cutoff evict f
     | (Some evict, None) \<Rightarrow> evict_streams_before sid cutoff evict
     | (None, Some f) \<Rightarrow> evict_before_with_floor sid cutoff f
     | (None, None) \<Rightarrow> evict_before sid cutoff)"

text \<open>
  Retention: the source's deferred streams seal first, and a stream that could not is
  left out of the pass. The reclaim that follows moves pages, not rows, and its
  failure is a warning.
\<close>

definition handle_evict ::
  "writer_env \<Rightarrow> i64 \<Rightarrow> i64 \<Rightarrow> (rstring \<Rightarrow> bool) option \<Rightarrow> caller_row_floor option \<Rightarrow> writer_state \<Rightarrow> outcome \<times> reply" where
  "handle_evict env sid cutoff streams floor w =
    (case retry_deferred_seals env sid w of
       (Inl f, w1) \<Rightarrow> (Stopped (Inl f) w1, NoReply)
     | (Inr deferred, w1) \<Rightarrow>
         let held = filter (\<lambda>s. case streams of None \<Rightarrow> True | Some evict \<Rightarrow> evict s) deferred;
             streams' = (if held = [] then streams
                         else Some (\<lambda>s. s \<notin> set held \<and> (case streams of None \<Rightarrow> True | Some evict \<Rightarrow> evict s)));
             (r, w2) = on_db (eviction_call sid cutoff streams' floor) w1
         in (Running w2, RowsEvicted (rmap (\<lambda>e. e\<lparr>ev_held_streams := length held\<rparr>) r)))"

text \<open>A write whose failure is a dropped tick: \<open>ClockOffset\<close> and \<open>CallerRows\<close>.\<close>

definition drop_on_retryable :: "(archive \<Rightarrow> archive result) \<Rightarrow> writer_state \<Rightarrow> outcome" where
  "drop_on_retryable body w =
    (case with_retries is_retryable (on_db (transaction (unit_body body))) w of
       (Inr _, w') \<Rightarrow> Running (health_committed w')
     | (Inl e, w') \<Rightarrow>
         if is_retryable e
         then (case health_dropped w' of
                 (Inr _, w'') \<Rightarrow> Running w''
               | (Inl err, w'') \<Rightarrow> Stopped (Inl (Fails err)) w'')
         else Stopped (Inl (Fails e)) w')"

definition handle_finalize :: "i64 \<Rightarrow> i64 \<times> i64 \<Rightarrow> writer_state \<Rightarrow> outcome" where
  "handle_finalize sid clock_offset w =
    (case with_retries is_retryable
            (on_db (transaction (unit_body (\<lambda>a.
               rmap (mark_complete sid) (insert_clock_offset sid (fst clock_offset) (snd clock_offset) a))))) w of
       (Inl e, w') \<Rightarrow> Stopped (Inl (Fails e)) w'
     | (Inr _, w') \<Rightarrow>
         Running (w'\<lparr>wr_finalized := wr_finalized w' + 1,
                    wr_beating := filter (\<lambda>i. i \<noteq> sid) (wr_beating w')\<rparr>))"

text \<open>\<open>Shutdown\<close>, and every handle dropped.\<close>

definition close_loop :: "writer_env \<Rightarrow> writer_state \<Rightarrow> outcome" where
  "close_loop env w =
     Stopped (if wr_added w > 0 \<and> wr_finalized w = wr_added w
              then lift_error (we_reclaim_all env (wr_archive w)) else Inr ()) w"

definition added_source :: "i64 \<Rightarrow> writer_state \<Rightarrow> writer_state" where
  "added_source sid w = w\<lparr>wr_added := wr_added w + 1, wr_beating := bs_insert sid (wr_beating w)\<rparr>"

definition run_tick :: "unit result \<times> writer_state \<Rightarrow> outcome" where
  "run_tick r = (case r of (Inr _, w) \<Rightarrow> Running w | (Inl e, w) \<Rightarrow> Stopped (Inl (Fails e)) w)"

text \<open>The arms that store something and answer: a source, a document, an adopted segment.\<close>

definition handle_add_source ::
  "writer_env \<Rightarrow> source_meta \<Rightarrow> rstring option \<Rightarrow> writer_state \<Rightarrow> outcome \<times> reply" where
  "handle_add_source env seed uuid w =
    (case on_db (add_source env seed uuid) w of
       (Inr i, w') \<Rightarrow> (Running (added_source i w'), SourceAdded (Inr i))
     | (Inl e, w') \<Rightarrow> (Running w', SourceAdded (Inl e)))"

definition handle_resume_source :: "writer_env \<Rightarrow> i64 \<Rightarrow> i64 \<Rightarrow> writer_state \<Rightarrow> outcome \<times> reply" where
  "handle_resume_source env sid anchor w =
    (case on_db (resume_source env sid anchor) w of
       (Inl e, w') \<Rightarrow> (Running w', SourceResumed (Inl e))
     | (Inr r, w') \<Rightarrow>
         let w1 = set_db w' (start_heartbeat env sid (ss_db (wr_seal w')));
             w2 = (case rs_last_ts r of
                     None \<Rightarrow> w1 | Some floor \<Rightarrow> w1\<lparr>wr_floors := (wr_floors w1)(sid := Some floor)\<rparr>)
         in (Running (added_source sid w2), SourceResumed (Inr r)))"

definition handle_adopt :: "i64 \<Rightarrow> adopted \<Rightarrow> writer_state \<Rightarrow> outcome \<times> reply" where
  "handle_adopt sid seg w =
    (let (r, w') = with_retries is_retryable (on_seal (adopt_segment sid seg)) w
     in (Running w', SegmentAdopted r))"

definition handle_update_metadata :: "i64 \<Rightarrow> label_map \<Rightarrow> writer_state \<Rightarrow> outcome" where
  "handle_update_metadata sid patch w =
     Running (snd (with_retries is_retryable (on_db (patch_metadata sid patch)) w))"

definition handle_set_identity :: "i64 \<Rightarrow> label_map \<Rightarrow> label_map \<Rightarrow> writer_state \<Rightarrow> outcome" where
  "handle_set_identity sid labels metadata w =
     Running (snd (with_retries is_retryable
       (on_db (transaction (unit_body (set_source_identity sid labels metadata)))) w))"

definition handle_put_document :: "writer_env \<Rightarrow> document_put \<Rightarrow> writer_state \<Rightarrow> outcome \<times> reply" where
  "handle_put_document env p w =
    (let (r, w') = with_retries is_retryable
           (on_db (transaction (put_revision (we_is_json env) (we_random env) (we_now env)
              (dp_kind p) (dp_name p) (dp_schema p) (dp_body p) (dp_expected p)))) w
     in (Running w', DocumentWritten r))"

definition handle_delete_document ::
  "writer_env \<Rightarrow> rstring \<Rightarrow> rstring \<Rightarrow> writer_state \<Rightarrow> outcome \<times> reply" where
  "handle_delete_document env kind name w =
    (let (r, w') = with_retries is_retryable
           (on_db (delete_document (we_random env) (we_now env) kind name)) w
     in (Running w', DocumentDeleted r))"

fun handle :: "writer_env \<Rightarrow> msg \<Rightarrow> writer_state \<Rightarrow> outcome \<times> reply" where
  "handle env Sync w = (Running w, Synced)"
| "handle env (AddSource seed uuid) w = handle_add_source env seed uuid w"
| "handle env (ResumeSource sid anchor) w = handle_resume_source env sid anchor w"
| "handle env (Wal ticks) w = (run_tick (commit_tick ticks w), NoReply)"
| "handle env (Seal sid batch max_rows) w = (handle_seal env sid batch max_rows w, NoReply)"
| "handle env (AdoptSegment sid seg) w = handle_adopt sid seg w"
| "handle env (Evict sid cutoff streams floor) w = handle_evict env sid cutoff streams floor w"
| "handle env (UpdateMetadata sid patch) w = (handle_update_metadata sid patch w, NoReply)"
| "handle env (SetIdentity sid labels metadata) w = (handle_set_identity sid labels metadata w, NoReply)"
| "handle env (PutDocument p) w = handle_put_document env p w"
| "handle env (DeleteDocument kind name) w = handle_delete_document env kind name w"
| "handle env (ClockOffset sid ts offset) w = (drop_on_retryable (insert_clock_offset sid ts offset) w, NoReply)"
| "handle env (CallerRows sid s rows) w = (drop_on_retryable (insert_caller_rows sid s rows) w, NoReply)"
| "handle env (Finalize sid clock_offset) w = (handle_finalize sid clock_offset w, NoReply)"
| "handle env Shutdown w = (close_loop env w, NoReply)"

declare handle_add_source_def [simp] handle_resume_source_def [simp] handle_adopt_def [simp]
  handle_update_metadata_def [simp] handle_set_identity_def [simp] handle_put_document_def [simp]
  handle_delete_document_def [simp]

text \<open>What the loop does of its own between messages: the heartbeat of the sources that beat.\<close>

definition timer_beat :: "writer_state \<Rightarrow> writer_state" where
  "timer_beat w =
    (if wr_beating w = [] then w
     else snd (on_db (transaction (\<lambda>a. Inr ((), beat (wr_beating w) a))) w))"

text \<open>The loop's first lines: every map is read from the archive that was opened.\<close>

definition start_writer :: "db \<Rightarrow> writer_state" where
  "start_writer d =
     \<lparr>wr_seal = \<lparr>ss_db = d, ss_next_seq = next_seqs (db_archive d), ss_watermarks = sealed_watermarks (db_archive d)\<rparr>,
      wr_floors = (\<lambda>_. None), wr_deferred = (\<lambda>_. []), wr_added = 0, wr_finalized = 0, wr_dropped = 0,
      wr_shadowed = (\<lambda>_. 0), wr_beating = []\<rparr>"

inductive writer_step :: "writer_state \<Rightarrow> writer_state \<Rightarrow> bool" where
  message: "handle env m w = (Running w', r) \<Longrightarrow> writer_step w w'"
| timer: "writer_step w (timer_beat w)"

inductive_cases writer_stepE: "writer_step w w'"

end
