(* ===== verification/Writer_Invariant.thy ===== *)
theory Writer_Invariant
  imports Writer_Loop
begin

section \<open>What every reachable writer state satisfies\<close>

text \<open>
  The archive is well formed, the writer's maps are in step with it, and the
  segments of every stream ascend: their sequence numbers rise and each starts
  after the one before it ended. Every handler keeps this, and the maps only grow.
\<close>

subsection \<open>The invariant and its steps\<close>

definition before_segment :: "segment_table_row \<Rightarrow> segment_table_row \<Rightarrow> bool" where
  "before_segment x y \<longleftrightarrow> sg_seq x < sg_seq y \<and> meta_last_ts (sg_meta x) < meta_first_ts (sg_meta y)"

definition meta_ok :: "segment_meta \<Rightarrow> bool" where
  "meta_ok m \<longleftrightarrow> meta_first_ts m \<le> meta_last_ts m \<and> meta_rows m \<noteq> 0"

definition segments_ascend :: "archive \<Rightarrow> bool" where
  "segments_ascend a \<longleftrightarrow> (\<forall>i t. sorted_wrt before_segment (stream_rows a i t)
     \<and> (\<forall>x \<in> set (stream_rows a i t). meta_ok (sg_meta x)))"

definition good :: "seal_state \<Rightarrow> bool" where
  "good st \<longleftrightarrow> writer_ok st \<and> segments_ascend (ss_archive st)"

definition good_step :: "seal_state \<Rightarrow> seal_state \<Rightarrow> bool" where
  "good_step st st' \<longleftrightarrow> (good st \<longrightarrow> good st' \<and> maps_grow st st')"

lemma good_step_refl [simp]: "good_step st st"
  by (simp add: good_step_def)

lemma good_step_trans: "good_step a b \<Longrightarrow> good_step b c \<Longrightarrow> good_step a c"
  unfolding good_step_def using maps_grow_trans by blast

text \<open>A write that leaves the segments and rows of no stream changed but fewer.\<close>

definition shrinks :: "archive \<Rightarrow> archive \<Rightarrow> bool" where
  "shrinks a b \<longleftrightarrow> archive_ok b
     \<and> (\<forall>i t. (\<exists>P. stream_rows b i t = filter P (stream_rows a i t)) \<and> set (live_wal b i t) \<subseteq> set (live_wal a i t))"

lemma sorted_wrt_filter_rows: "sorted_wrt R xs \<Longrightarrow> sorted_wrt R (filter P xs)"
  by (rule sorted_wrt_filter)

lemma shrinks_good:
  assumes "good st" and S: "shrinks (ss_archive st) (db_archive d)"
  shows "good (st\<lparr>ss_db := d\<rparr>)"
proof -
  let ?a = "ss_archive st" and ?b = "db_archive d"
  have maps: "maps_ok st" using assms(1) by (simp add: good_def writer_ok_def)
  have rows: "set (stream_rows ?b i t) \<subseteq> set (stream_rows ?a i t)" for i t
    using S by (metis filter_is_subset shrinks_def)
  have "maps_ok (st\<lparr>ss_db := d\<rparr>)"
    unfolding maps_ok_def
  proof (intro conjI allI impI ballI; simp)
    fix i t m assume m: "watermark ?b i t = Some m"
    then obtain x where x: "x \<in> set (stream_rows ?a i t)" "meta_last_ts (sg_meta x) = m"
      using rows by (fastforce simp: watermark_Some)
    then obtain w where w: "watermark ?a i t = Some w"
      by (cases "watermark ?a i t") (auto simp: watermark_None)
    with x have "m \<le> w" by (auto simp: watermark_Some)
    with maps_okD(1) [OF maps w] show "\<exists>w \<ge> m. ss_watermarks st (i, t) = Some w" by force
  next
    fix i t w r assume "ss_watermarks st (i, t) = Some w" "r \<in> set (live_wal ?b i t)"
    then show "w < row_ts r" using maps_okD(2) [OF maps, of i t w r] S by (auto simp: shrinks_def)
  next
    fix i t x assume "x \<in> set (stream_rows ?b i t)"
    then show "sg_seq x < or_zero (ss_next_seq st (i, t))" using maps_okD(3) [OF maps] rows by blast
  qed
  moreover have "segments_ascend ?b"
    unfolding segments_ascend_def
  proof (intro allI)
    fix i t
    obtain P where P: "stream_rows ?b i t = filter P (stream_rows ?a i t)" using S unfolding shrinks_def by blast
    show "sorted_wrt before_segment (stream_rows ?b i t)
      \<and> (\<forall>x \<in> set (stream_rows ?b i t). meta_ok (sg_meta x))"
      using assms(1) by (auto simp: P good_def segments_ascend_def intro: sorted_wrt_filter)
  qed
  ultimately show ?thesis using S by (simp add: good_def writer_ok_def shrinks_def)
qed

lemma maps_grow_set_db [simp]: "maps_grow st (st\<lparr>ss_db := d\<rparr>)"
  by (auto simp: maps_grow_def)

lemma shrinks_refl: "archive_ok a \<Longrightarrow> shrinks a a"
  unfolding shrinks_def by (auto intro!: exI [of _ "\<lambda>_. True"])

text \<open>Tables no stream's rows are in.\<close>

lemma shrinks_same:
  assumes "archive_ok b" "ar_segments b = ar_segments a" "ar_wal b = ar_wal a"
  shows "shrinks a b"
proof -
  have rows: "stream_rows b i t = stream_rows a i t" for i t using assms(2) by (simp add: stream_rows_def)
  have wal: "wal_of b i t = wal_of a i t" for i t using assms(3) by (simp add: wal_of_def)
  have live: "live_wal b i t = live_wal a i t" for i t
    by (rule live_wal_cong) (simp_all add: wal watermark_cong [OF rows])
  show ?thesis unfolding shrinks_def using assms(1)
    by (auto simp: rows live intro!: exI [of _ "\<lambda>_. True"])
qed

lemma unit_body_Inr: "unit_body f a = Inr (x, b) \<longleftrightarrow> f a = Inr b"
  by (auto simp: unit_body_def result_simps)

lemma transaction_cases:
  obtains e where "transaction f d = (Inl e, d\<lparr>db_faults := tl (db_faults d)\<rparr>)"
  | x a where "transaction f d = (Inr x, d\<lparr>db_archive := a, db_faults := tl (db_faults d)\<rparr>)" "f (db_archive d) = Inr (x, a)"
  by (cases "f (db_archive d)"; cases "db_faults d"; cases "hd (db_faults d)")
    (auto simp: transaction_def next_fault_def)

lemma good_step_transaction:
  assumes "\<And>x b. archive_ok (ss_archive st) \<Longrightarrow> f (ss_archive st) = Inr (x, b) \<Longrightarrow> shrinks (ss_archive st) b"
  shows "good_step st (st\<lparr>ss_db := snd (transaction f (ss_db st))\<rparr>)"
  unfolding good_step_def
proof (rule impI, rule conjI)
  assume g: "good st"
  then have ok: "archive_ok (ss_archive st)" by (simp add: good_def writer_ok_def)
  show "good (st\<lparr>ss_db := snd (transaction f (ss_db st))\<rparr>)"
  proof (rule shrinks_good [OF g], rule transaction_cases [of f "ss_db st"])
    fix e assume "transaction f (ss_db st) = (Inl e, ss_db st\<lparr>db_faults := tl (db_faults (ss_db st))\<rparr>)"
    then show "shrinks (ss_archive st) (db_archive (snd (transaction f (ss_db st))))"
      using shrinks_refl [OF ok] by simp
  next
    fix x b
    assume "transaction f (ss_db st) = (Inr x, ss_db st\<lparr>db_archive := b, db_faults := tl (db_faults (ss_db st))\<rparr>)"
      and "f (ss_archive st) = Inr (x, b)"
    then show "shrinks (ss_archive st) (db_archive (snd (transaction f (ss_db st))))"
      using assms [OF ok] by simp
  qed
qed simp

lemma retry_from_rel:
  assumes "\<And>s. R s (snd (op s))" and "\<And>a b c. R a b \<Longrightarrow> R b c \<Longrightarrow> R a c"
  shows "R s (snd (retry_from n retryable op s))"
proof (induction n arbitrary: s)
  case 0
  then show ?case using assms(1) by simp
next
  case (Suc n)
  obtain r s' where o: "op s = (r, s')" by (cases "op s")
  have "R s s'" using assms(1) [of s] o by simp
  with Suc.IH [of s'] assms(2) o show ?case by (cases r) auto
qed

lemma with_retries_rel:
  assumes "\<And>s. R s (snd (op s))" and "\<And>a b c. R a b \<Longrightarrow> R b c \<Longrightarrow> R a c"
  shows "R s (snd (with_retries retryable op s))"
  unfolding with_retries_def using assms by (rule retry_from_rel)

text \<open>The same at the level of the loop's state.\<close>

definition wr_step :: "writer_state \<Rightarrow> writer_state \<Rightarrow> bool" where
  "wr_step w w' \<longleftrightarrow> good_step (wr_seal w) (wr_seal w')"

lemma wr_step_refl [simp]: "wr_step w w"
  by (simp add: wr_step_def)

lemma wr_step_trans: "wr_step a b \<Longrightarrow> wr_step b c \<Longrightarrow> wr_step a c"
  unfolding wr_step_def by (rule good_step_trans)

lemma wr_step_on_db:
  assumes "\<And>x b. archive_ok (wr_archive w) \<Longrightarrow> f (wr_archive w) = Inr (x, b) \<Longrightarrow> shrinks (wr_archive w) b"
  shows "wr_step w (snd (on_db (transaction f) w))"
  using good_step_transaction [of "wr_seal w" f, OF assms]
  by (simp add: wr_step_def on_db_def set_db_def case_prod_beta)

lemma wr_step_retry_db:
  assumes "\<And>a x b. archive_ok a \<Longrightarrow> f a = Inr (x, b) \<Longrightarrow> shrinks a b"
  shows "wr_step w (snd (with_retries retryable (on_db (transaction f)) w))"
  by (rule with_retries_rel [where R = wr_step, OF wr_step_on_db wr_step_trans]) (rule assms)


subsection \<open>Seals and adoptions\<close>

lemma number_parts_before:
  assumes "sorted_wrt (\<lambda>s t. seg_last_ts s < seg_first_ts t) ps"
  shows "sorted_wrt (\<lambda>e f. en_seq e < en_seq f \<and> en_last e < meta_first_ts (en_meta f)) (number_parts s q ps)"
  using assms
proof (induction ps arbitrary: q)
  case Nil
  then show ?case by simp
next
  case (Cons p ps)
  have "seg_last_ts p < meta_first_ts (en_meta f) \<and> q < en_seq f" if f: "f \<in> set (number_parts s (Suc q) ps)" for f
  proof -
    have "\<exists>x \<in> set ps. meta_first_ts (en_meta f) = seg_first_ts x"
      using f by (induction ps arbitrary: q) auto
    then show ?thesis using Cons.prems number_parts_seq [OF f] by auto
  qed
  then show ?case using Cons by auto
qed

lemma tiles_counted: "tiles rows ps \<Longrightarrow> p \<in> set ps \<Longrightarrow> seg_rows p \<noteq> 0"
  by (auto simp: tiles_def contract_def)

lemma commits_segments_ascend:
  assumes C: "commits (ss_archive st) sid (ss_next_seq st) n enc batch es b"
    and maps: "maps_ok st" and asc: "segments_ascend (ss_archive st)"
  shows "segments_ascend b"
  unfolding segments_ascend_def
proof (intro allI)
  fix i t
  let ?a = "ss_archive st" and ?ps = "batch_parts (ss_archive st) sid n enc batch t"
  let ?q = "or_zero (ss_next_seq st (sid, t))"
  let ?key = "\<lambda>x. (sg_seq x, sg_meta x, sg_bytes x)"
  obtain new where new: "stream_rows b i t = stream_rows ?a i t @ new"
    "map ?key new = (if i = sid then map (\<lambda>e. (en_seq e, en_meta e, en_bytes e)) (number_parts t ?q ?ps) else [])"
    using commits_rows [OF C, of i t] by blast
  have old: "sorted_wrt before_segment (stream_rows ?a i t)"
    "\<forall>x \<in> set (stream_rows ?a i t). meta_ok (sg_meta x)"
    using asc by (simp_all add: segments_ascend_def)
  note T = commits_tiles [OF C, of t]
  show "sorted_wrt before_segment (stream_rows b i t)
      \<and> (\<forall>x \<in> set (stream_rows b i t). meta_ok (sg_meta x))"
  proof (cases "i = sid")
    case False
    then show ?thesis using new old by simp
  next
    case True
    have part: "\<exists>e p. e \<in> set (number_parts t ?q ?ps) \<and> p \<in> set ?ps \<and> sg_seq y = en_seq e
        \<and> meta_first_ts (sg_meta y) = seg_first_ts p \<and> meta_last_ts (sg_meta y) = seg_last_ts p
        \<and> meta_rows (sg_meta y) = seg_rows p" if "y \<in> set new" for y
    proof -
      have "?key y \<in> set (map ?key new)" using that by simp
      then obtain e where e: "e \<in> set (number_parts t ?q ?ps)" "sg_seq y = en_seq e" "sg_meta y = en_meta e"
        unfolding new(2) using True by auto
      have "\<exists>p \<in> set ps. meta_first_ts (en_meta e) = seg_first_ts p \<and> en_last e = seg_last_ts p
          \<and> meta_rows (en_meta e) = seg_rows p"
        if "e \<in> set (number_parts t q ps)" for q ps
        using that by (induction ps arbitrary: q) auto
      from this [OF e(1)] e show ?thesis by auto
    qed
    have "sorted_wrt (\<lambda>x y. fst x < fst y \<and> meta_last_ts (fst (snd x)) < meta_first_ts (fst (snd y))) (map ?key new)"
      unfolding new(2) using True number_parts_before [of ?ps t ?q] T by (simp add: sorted_wrt_map tiles_def)
    then have "sorted_wrt before_segment new" by (simp add: sorted_wrt_map before_segment_def [abs_def])
    moreover have "before_segment x y" if x: "x \<in> set (stream_rows ?a i t)" and y: "y \<in> set new" for x y
    proof -
      obtain e p where e: "e \<in> set (number_parts t ?q ?ps)" "p \<in> set ?ps" "sg_seq y = en_seq e"
        "meta_first_ts (sg_meta y) = seg_first_ts p" using part [OF y] by blast
      obtain w where w: "watermark ?a sid t = Some w" "meta_last_ts (sg_meta x) \<le> w"
        using x True by (cases "watermark ?a sid t") (auto simp: watermark_None watermark_Some)
      have "sg_seq x < ?q" using maps_okD(3) [OF maps x] True by simp
      with number_parts_seq [OF e(1)] tiles_above_watermark [OF T w(1) e(2)] w(2) e(3,4)
      show ?thesis by (simp add: before_segment_def)
    qed
    moreover have "meta_ok (sg_meta y)" if "y \<in> set new" for y
      using part [OF that] tiles_within(2) [OF T] tiles_counted [OF T] by (fastforce simp: meta_ok_def)
    ultimately show ?thesis using new(1) old by (auto simp: sorted_wrt_append)
  qed
qed

lemma segments_ascend_cong:
  "ar_segments b = ar_segments a \<Longrightarrow> segments_ascend b = segments_ascend a"
  by (simp add: segments_ascend_def stream_rows_def)

lemma good_step_seal: "good_step st (snd (seal_batch sid batch n enc st))"
  unfolding good_step_def
proof
  assume g: "good st"
  obtain r st' where s: "seal_batch sid batch n enc st = (r, st')" by fastforce
  have ok: "writer_ok st" and asc: "segments_ascend (ss_archive st)" using g by (simp_all add: good_def)
  note K = seal_batch_invariant [OF ok s]
  have "segments_ascend (ss_archive st')"
  proof (rule seal_batch_cases [OF s])
    assume "ss_archive st' = ss_archive st"
    with asc show ?thesis by simp
  next
    fix es obs b k
    assume "encode_batch (ss_archive st) sid (ss_next_seq st) n enc batch = Inr (es, obs)"
      "install_batch sid es obs (ss_archive st) = Inr b"
      and st': "ss_archive st' = prune_list sid (take k (prune_points es)) b"
    then have "commits (ss_archive st) sid (ss_next_seq st) n enc batch es b"
      using ok by (auto simp: commits_def writer_ok_def)
    from commits_segments_ascend [OF this] ok asc have "segments_ascend b" by (simp add: writer_ok_def)
    then show ?thesis using segments_ascend_cong [of "ss_archive st'" b] st' by simp
  qed
  with K show "good (snd (seal_batch sid batch n enc st)) \<and> maps_grow st (snd (seal_batch sid batch n enc st))"
    by (simp add: s good_def)
qed

lemma good_step_adopt: "good_step st (snd (adopt_segment sid seg st))"
  unfolding good_step_def
proof
  assume g: "good st"
  obtain r st' where s: "adopt_segment sid seg st = (r, st')" by fastforce
  have ok: "writer_ok st" and maps: "maps_ok st" and arch: "archive_ok (ss_archive st)"
    and asc: "segments_ascend (ss_archive st)" using g by (simp_all add: good_def writer_ok_def)
  have "good st' \<and> maps_grow st st'"
  proof (rule adopt_segment_cases [OF s])
    assume "st' = st"
    with g show ?thesis by simp
  next
    fix d assume "st' = st\<lparr>ss_db := d\<rparr>" "db_archive d = ss_archive st"
    with shrinks_good [OF g, of d] shrinks_refl [OF arch] show ?thesis by simp
  next
    fix d
    let ?s = "ad_stream seg" and ?m = "ad_meta seg"
    assume st': "st' = st\<lparr>ss_db := d,
         ss_next_seq := (ss_next_seq st)((sid, ?s) := Some (or_zero (ss_next_seq st (sid, ?s)) + 1)),
         ss_watermarks := (ss_watermarks st)((sid, ?s) := Some (meta_last_ts ?m))\<rparr>"
      and ins: "insert_segment_with_index sid ?s (or_zero (ss_next_seq st (sid, ?s))) ?m
         (ad_bytes seg) (ad_caller_index seg) (ss_archive st) = Inr (db_archive d)"
      and above: "\<And>x. ss_watermarks st (sid, ?s) = Some x \<Longrightarrow> x < meta_first_ts ?m"
      and below: "\<And>x. x \<in> set (live_wal (ss_archive st) sid ?s) \<Longrightarrow> meta_last_ts ?m < row_ts x"
      and m: "meta_first_ts ?m \<le> meta_last_ts ?m" and counted: "meta_rows ?m \<noteq> 0"
    note acc = adopt_accepted [OF ok ins above below m st' refl]
    have stored: "meta_last_ts (sg_meta x) < meta_first_ts ?m" if "x \<in> set (stream_rows (ss_archive st) sid ?s)" for x
      by (rule adopt_stored_before [OF maps _ that]) (rule above)
    have "segments_ascend (db_archive d)"
      unfolding segments_ascend_def
    proof (intro allI)
      fix i t
      obtain row where row: "stream_rows (db_archive d) i t = stream_rows (ss_archive st) i t @ (if i = sid \<and> t = ?s then [row] else [])"
        "sg_meta row = ?m" "sg_seq row = or_zero (ss_next_seq st (sid, ?s))"
        using stream_rows_insert_segment [OF ins, of i t] by blast
      have "before_segment x row" if "x \<in> set (stream_rows (ss_archive st) sid ?s)" for x
        using maps_okD(3) [OF maps that] stored [OF that] by (simp add: before_segment_def row)
      moreover have "sorted_wrt before_segment (stream_rows (ss_archive st) i t)
          \<and> (\<forall>x \<in> set (stream_rows (ss_archive st) i t). meta_ok (sg_meta x))"
        using asc by (simp add: segments_ascend_def)
      ultimately show "sorted_wrt before_segment (stream_rows (db_archive d) i t)
          \<and> (\<forall>x \<in> set (stream_rows (db_archive d) i t). meta_ok (sg_meta x))"
        using m counted by (auto simp: row(1,2) sorted_wrt_append meta_ok_def)
    qed
    with acc(1,2) show ?thesis by (simp add: good_def st')
  qed
  then show "good (snd (adopt_segment sid seg st)) \<and> maps_grow st (snd (adopt_segment sid seg st))"
    by (simp add: s)
qed

lemma wr_step_on_seal:
  assumes "\<And>st. good_step st (snd (op st))"
  shows "wr_step w (snd (with_retries retryable (on_seal op) w))"
  by (rule with_retries_rel [where R = wr_step, OF _ wr_step_trans])
    (use assms in \<open>simp_all add: wr_step_def on_seal_def case_prod_beta\<close>)

subsection \<open>Eviction\<close>

lemma archive_ok_filter:
  assumes "archive_ok a"
  shows "archive_ok (a\<lparr>ar_wal := filter P (ar_wal a)\<rparr>)" "archive_ok (a\<lparr>ar_clock := filter Q (ar_clock a)\<rparr>)"
    "archive_ok (a\<lparr>ar_caller := filter R (ar_caller a)\<rparr>)"
  using archive_ok_refs [OF assms]
  by (auto intro!: archive_ok_set_wal archive_ok_set_clock archive_ok_set_caller assms distinct_filter_map)

lemma archive_ok_evict_caller: "archive_ok a \<Longrightarrow> archive_ok (snd (evict_caller_rows sid s c f a))"
  by (simp add: evict_caller_rows_def Let_def archive_ok_filter)

lemma archive_ok_evict_caller_of: "archive_ok a \<Longrightarrow> archive_ok (snd (evict_caller_rows_of sid c f ss a))"
proof (induction ss arbitrary: a)
  case (Cons s ss)
  then show ?case using archive_ok_evict_caller [of a sid s c f] by (auto simp: Let_def case_prod_beta)
qed simp

text \<open>The two deletes every eviction starts with.\<close>

lemma archive_ok_delete_both:
  assumes "archive_ok a"
  shows "archive_ok ((delete_segments_where P a)\<lparr>ar_wal := filter Q (ar_wal (delete_segments_where P a))\<rparr>)"
  by (rule archive_ok_filter(1) [OF archive_ok_delete_segments_where [OF assms]])

lemma archive_ok_evict_source:
  assumes "archive_ok a"
  shows "archive_ok (snd (evict_source sid c f a))"
proof -
  let ?a2 = "(delete_segments_where (expired_segment sid c) a)
    \<lparr>ar_wal := filter (\<lambda>r. \<not> expired_wal sid c r) (ar_wal (delete_segments_where (expired_segment sid c) a))\<rparr>"
  let ?a3 = "?a2\<lparr>ar_clock := filter (\<lambda>(i, ts, _). \<not> (i = sid \<and> ts < c)) (ar_clock ?a2)\<rparr>"
  have "archive_ok ?a3"
    by (rule archive_ok_filter(2) [OF archive_ok_delete_both [OF assms]])
  then show ?thesis
    using archive_ok_filter(3) [of ?a3] archive_ok_evict_caller_of [of ?a3]
    by (cases f) (simp_all add: evict_source_def Let_def case_prod_beta)
qed

lemma archive_ok_evict_stream:
  assumes "archive_ok (snd x)"
  shows "archive_ok (snd (evict_stream sid c f s x))"
  using archive_ok_evict_caller [OF archive_ok_delete_both [OF assms]]
  by (simp add: evict_stream_def Let_def case_prod_beta)

lemma archive_ok_evict_fold: "archive_ok (snd x) \<Longrightarrow> archive_ok (snd (fold (evict_stream sid c f) ss x))"
proof (induction ss arbitrary: x)
  case (Cons s ss)
  then show ?case using archive_ok_evict_stream [OF Cons.prems] by simp
qed simp

lemma stream_evicted_shrinks:
  assumes "archive_ok b" and "\<And>i t. (\<exists>c. stream_evicted i c t a b) \<or> (stream_rows b i t = stream_rows a i t \<and> wal_of b i t = wal_of a i t)"
  shows "shrinks a b"
  unfolding shrinks_def
proof (intro conjI allI)
  fix i t
  consider c where "stream_evicted i c t a b" | "stream_rows b i t = stream_rows a i t" "wal_of b i t = wal_of a i t"
    using assms(2) by blast
  then have "(\<exists>P. stream_rows b i t = filter P (stream_rows a i t)) \<and> set (live_wal b i t) \<subseteq> set (live_wal a i t)"
  proof cases
    case 1
    with live_wal_evicted [OF 1] show ?thesis by (auto simp: stream_evicted_def)
  next
    case 2
    then have "live_wal b i t = live_wal a i t" by (intro live_wal_cong watermark_cong)
    with 2 show ?thesis by (auto intro!: exI [of _ "\<lambda>_. True"])
  qed
  then show "\<exists>P. stream_rows b i t = filter P (stream_rows a i t)" "set (live_wal b i t) \<subseteq> set (live_wal a i t)"
    by blast+
qed (rule assms(1))

lemma shrinks_evict_source: "archive_ok a \<Longrightarrow> shrinks a (snd (evict_source sid c f a))"
proof (rule stream_evicted_shrinks [OF archive_ok_evict_source])
  fix i t
  show "(\<exists>c'. stream_evicted i c' t a (snd (evict_source sid c f a)))
    \<or> (stream_rows (snd (evict_source sid c f a)) i t = stream_rows a i t
       \<and> wal_of (snd (evict_source sid c f a)) i t = wal_of a i t)"
    using evict_source_stream [of sid c t a f] evict_source_other [of i sid c f a t] by (cases "i = sid") auto
qed

lemma shrinks_evict_chosen:
  assumes "archive_ok a"
  shows "shrinks a (snd (evict_chosen_streams sid c f ss a))"
proof -
  let ?b = "snd (fold (evict_stream sid c f) ss (no_evicted, a))"
  let ?bound = "(case oldest_of_source ?b sid of Some t \<Rightarrow> t | None \<Rightarrow> c)"
  have res: "snd (evict_chosen_streams sid c f ss a) = ?b\<lparr>ar_clock := filter (\<lambda>(i, ts, _). \<not> (i = sid \<and> ts < ?bound)) (ar_clock ?b)\<rparr>"
    by (simp add: evict_chosen_streams_def Let_def case_prod_beta)
  have ok: "archive_ok ?b" by (rule archive_ok_evict_fold) (simp add: assms)
  show ?thesis unfolding res
  proof (rule stream_evicted_shrinks [OF archive_ok_filter(2) [OF ok]])
    fix i t
    have "(\<exists>c. stream_evicted i c t a ?b) \<or> (stream_rows ?b i t = stream_rows a i t \<and> wal_of ?b i t = wal_of a i t)"
    proof (cases "i = sid \<and> t \<in> set ss")
      case True
      then have "stream_evicted sid c t a ?b"
        using evict_fold_own [of t ss sid c "(no_evicted, a)" f] by simp
      with True show ?thesis by blast
    next
      case False
      then show ?thesis using evict_fold_other [of i sid t ss c f "(no_evicted, a)"] by auto
    qed
    then show "(\<exists>c'. stream_evicted i c' t a (?b\<lparr>ar_clock := filter (\<lambda>(i, ts, _). \<not> (i = sid \<and> ts < ?bound)) (ar_clock ?b)\<rparr>))
      \<or> (stream_rows (?b\<lparr>ar_clock := filter (\<lambda>(i, ts, _). \<not> (i = sid \<and> ts < ?bound)) (ar_clock ?b)\<rparr>) i t = stream_rows a i t
         \<and> wal_of (?b\<lparr>ar_clock := filter (\<lambda>(i, ts, _). \<not> (i = sid \<and> ts < ?bound)) (ar_clock ?b)\<rparr>) i t = wal_of a i t)"
      by (simp add: stream_evicted_def frame_simps)
  qed
qed

lemma wr_step_eviction: "wr_step w (snd (on_db (eviction_call sid cutoff streams floor) w))"
proof -
  have "\<exists>f. eviction_call sid cutoff streams floor (ss_db (wr_seal w)) = transaction f (ss_db (wr_seal w))
      \<and> (\<forall>a x b. archive_ok a \<longrightarrow> f a = Inr (x, b) \<longrightarrow> shrinks a b)"
    using shrinks_evict_source shrinks_evict_chosen
    by (cases streams; cases floor)
      (auto simp: eviction_call_def evict_streams_before_with_floor_def evict_streams_before_def evict_streams_def
        evict_before_with_floor_def evict_before_def intro!: exI,
        (metis snd_conv)+)
  then obtain f where f: "eviction_call sid cutoff streams floor (ss_db (wr_seal w)) = transaction f (ss_db (wr_seal w))"
    and S: "\<And>a x b. archive_ok a \<Longrightarrow> f a = Inr (x, b) \<Longrightarrow> shrinks a b" by blast
  have "snd (on_db (eviction_call sid cutoff streams floor) w) = snd (on_db (transaction f) w)"
    by (simp add: on_db_def f)
  then show ?thesis using wr_step_on_db [of w f] S by simp
qed

subsection \<open>Ticks\<close>

text \<open>Rows above every watermark of their stream: a tick that \<open>admitted\<close> let through.\<close>

definition above_marks :: "(i64 \<times> rstring \<Rightarrow> i64 option) \<Rightarrow> tick list \<Rightarrow> bool" where
  "above_marks m ticks \<longleftrightarrow> (\<forall>(sid, rows) \<in> set ticks. \<forall>r \<in> set rows. \<not> shadows m sid r)"

lemma admitted_above: "above_marks m (admitted floors m ticks)"
  by (auto simp: above_marks_def admitted_def Let_def)

lemma good_append_wal:
  assumes g: "good st" and ok: "archive_ok (db_archive d)"
    and app: "db_archive d = (ss_archive st)\<lparr>ar_wal := ar_wal (ss_archive st) @ concat (map (\<lambda>(sid, rows). map (Pair sid) rows) ticks)\<rparr>"
    and above: "above_marks (ss_watermarks st) ticks"
  shows "good (st\<lparr>ss_db := d\<rparr>)"
proof -
  let ?a = "ss_archive st" and ?b = "db_archive d"
  have maps: "maps_ok st" using g by (simp add: good_def writer_ok_def)
  have rows: "stream_rows ?b i t = stream_rows ?a i t" for i t by (simp add: app frame_simps)
  then have mark: "watermark ?b i t = watermark ?a i t" for i t by (intro watermark_cong)
  have live: "r \<in> set (live_wal ?b i t) \<Longrightarrow> r \<in> set (live_wal ?a i t)
      \<or> (\<exists>rs. (i, rs) \<in> set ticks \<and> r \<in> set rs \<and> row_stream r = t)" for r i t
    by (auto simp: set_live_wal is_live_def app frame_simps)
  have "maps_ok (st\<lparr>ss_db := d\<rparr>)"
    unfolding maps_ok_def
  proof (intro conjI allI impI ballI; simp)
    fix i t m assume "watermark ?b i t = Some m"
    then show "\<exists>w \<ge> m. ss_watermarks st (i, t) = Some w" using maps_okD(1) [OF maps] by (simp add: mark)
  next
    fix i t w r assume w: "ss_watermarks st (i, t) = Some w" and r: "r \<in> set (live_wal ?b i t)"
    from live [OF r] show "w < row_ts r"
    proof
      assume "r \<in> set (live_wal ?a i t)" then show ?thesis using maps_okD(2) [OF maps w] by simp
    next
      assume "\<exists>rs. (i, rs) \<in> set ticks \<and> r \<in> set rs \<and> row_stream r = t"
      then have "\<not> shadows (ss_watermarks st) i r" "row_stream r = t" using above by (auto simp: above_marks_def)
      then show ?thesis using w by (simp add: shadows_def opt_holds_def not_le)
    qed
  next
    fix i t x assume "x \<in> set (stream_rows ?b i t)"
    then show "sg_seq x < or_zero (ss_next_seq st (i, t))" using maps_okD(3) [OF maps] by (simp add: rows)
  qed
  moreover have "segments_ascend ?b" using g segments_ascend_cong [of ?b ?a] by (simp add: good_def app)
  ultimately show ?thesis using ok by (simp add: good_def writer_ok_def)
qed

text \<open>Steps that leave the marks as they are, so that what was admitted stays admitted.\<close>

definition wal_step :: "writer_state \<Rightarrow> writer_state \<Rightarrow> bool" where
  "wal_step w w' \<longleftrightarrow> wr_step w w' \<and> ss_watermarks (wr_seal w') = ss_watermarks (wr_seal w)"

lemma wal_step_refl [simp]: "wal_step w w"
  by (simp add: wal_step_def)

lemma wal_step_trans: "wal_step a b \<Longrightarrow> wal_step b c \<Longrightarrow> wal_step a c"
  unfolding wal_step_def using wr_step_trans by auto

lemma wal_step_insert:
  assumes "above_marks (ss_watermarks (wr_seal w)) ticks"
    and "\<And>a b. f a = Inr b \<Longrightarrow> b = a\<lparr>ar_wal := ar_wal a @ concat (map (\<lambda>(sid, rows). map (Pair sid) rows) ticks)\<rparr>"
    and "\<And>a b. archive_ok a \<Longrightarrow> f a = Inr b \<Longrightarrow> archive_ok b"
  shows "wal_step w (snd (on_db (transaction (unit_body f)) w))"
proof -
  let ?st = "wr_seal w"
  let ?d = "snd (transaction (unit_body f) (ss_db ?st))"
  have "good_step ?st (?st\<lparr>ss_db := ?d\<rparr>)"
    unfolding good_step_def
  proof (rule impI, rule conjI)
    assume g: "good ?st"
    then have ok: "archive_ok (ss_archive ?st)" by (simp add: good_def writer_ok_def)
    show "good (?st\<lparr>ss_db := ?d\<rparr>)"
    proof (rule transaction_unit_cases [of f "ss_db ?st"])
      fix e assume "transaction (unit_body f) (ss_db ?st) = (Inl e, ss_db ?st\<lparr>db_faults := tl (db_faults (ss_db ?st))\<rparr>)"
      then show ?thesis using shrinks_good [OF g] shrinks_refl [OF ok] by simp
    next
      fix b
      assume t: "transaction (unit_body f) (ss_db ?st) = (Inr (), ss_db ?st\<lparr>db_archive := b, db_faults := tl (db_faults (ss_db ?st))\<rparr>)"
        and b: "f (ss_archive ?st) = Inr b"
      have d: "db_archive ?d = b" by (simp add: t)
      show ?thesis
        by (rule good_append_wal [OF g]) (use assms(1,2) assms(3) [OF ok b] b d in auto)
    qed
  qed simp
  then show ?thesis by (simp add: wal_step_def wr_step_def on_db_def set_db_def case_prod_beta)
qed

lemma wal_step_retry_insert:
  assumes "above_marks (ss_watermarks (wr_seal w)) ticks"
    and "\<And>a b. f a = Inr b \<Longrightarrow> b = a\<lparr>ar_wal := ar_wal a @ concat (map (\<lambda>(sid, rows). map (Pair sid) rows) ticks)\<rparr>"
    and "\<And>a b. archive_ok a \<Longrightarrow> f a = Inr b \<Longrightarrow> archive_ok b"
  shows "wal_step w (snd (with_retries retryable (on_db (transaction (unit_body f))) w))"
proof -
  let ?m = "ss_watermarks (wr_seal w)"
  let ?R = "\<lambda>a b. ss_watermarks (wr_seal a) = ?m \<longrightarrow> wal_step a b"
  have "?R w (snd (with_retries retryable (on_db (transaction (unit_body f))) w))"
  proof (rule with_retries_rel [where R = ?R])
    fix s show "?R s (snd (on_db (transaction (unit_body f)) s))"
      using wal_step_insert [OF _ assms(2,3), of s] assms(1) by simp
  next
    fix a b c assume "?R a b" "?R b c"
    then show "?R a c" using wal_step_trans by (auto simp: wal_step_def)
  qed
  then show ?thesis by simp
qed

lemma wal_step_health [simp]: "wal_step w (health_committed w)" "wal_step w (snd (health_dropped w))"
  by (simp_all add: wal_step_def wr_step_def health_committed_def health_dropped_def Let_def)

lemma wal_step_commit_sources:
  assumes "above_marks (ss_watermarks (wr_seal w)) ticks"
  shows "wal_step w (snd (commit_sources ticks any w))"
  using assms
proof (induction ticks arbitrary: any w)
  case Nil
  then show ?case by simp
next
  case (Cons t ticks)
  obtain sid rows where t: "t = (sid, rows)" by force
  have head: "above_marks (ss_watermarks (wr_seal w)) [(sid, rows)]" and tail: "above_marks (ss_watermarks (wr_seal w)) ticks"
    using Cons.prems by (auto simp: above_marks_def t)
  let ?r = "with_retries is_retryable (on_db (transaction (unit_body (insert_wal_rows sid rows)))) w"
  have step: "wal_step w (snd ?r)"
    by (rule wal_step_retry_insert [OF head]) (auto dest: insert_wal_rows_eq intro: archive_ok_insert_wal_rows)
  have IH: "wal_step w' (snd (commit_sources ticks any' w'))" if "wal_step w w'" for w' any'
    using Cons.IH [of w' any'] tail that by (simp add: wal_step_def)
  obtain x w1 where r: "?r = (x, w1)" by fastforce
  have w1: "wal_step w w1" using step r by simp
  obtain y w2 where h: "health_dropped w1 = (y, w2)" by fastforce
  have w2: "wal_step w w2" using wal_step_trans [OF w1, of w2] wal_step_health(2) [of w1] h by simp
  show ?case
    using r h w1 w2 wal_step_trans [OF w1 IH [OF w1]] wal_step_trans [OF w2 IH [OF w2]]
    by (cases x; cases y) (simp_all add: t)
qed

lemma wal_step_commit_tick: "wal_step w (snd (commit_tick ticks w))"
proof -
  let ?ts = "admitted (wr_floors w) (ss_watermarks (wr_seal w)) ticks"
  let ?w1 = "w\<lparr>wr_shadowed := count_shadowed (wr_floors w) (ss_watermarks (wr_seal w)) ticks (wr_shadowed w)\<rparr>"
  let ?r = "with_retries is_retryable (on_db (transaction (unit_body (insert_wal_rows_batch ?ts)))) ?w1"
  have w1: "wal_step w ?w1" by (simp add: wal_step_def wr_step_def)
  have above: "above_marks (ss_watermarks (wr_seal ?w1)) ?ts" by (simp add: admitted_above)
  have "wal_step ?w1 (snd ?r)"
    by (rule wal_step_retry_insert [OF above]) (auto dest: insert_wal_rows_batch_eq intro: archive_ok_insert_wal_rows_batch)
  then have w2: "wal_step w (snd ?r)" by (rule wal_step_trans [OF w1])
  obtain x w2 where r: "?r = (x, w2)" by fastforce
  have a2: "above_marks (ss_watermarks (wr_seal w2)) ?ts" using above w2 r by (simp add: wal_step_def)
  obtain y w3 where c: "commit_sources ?ts False w2 = (y, w3)" by fastforce
  have w3: "wal_step w w3" using wal_step_trans [OF w2] wal_step_commit_sources [OF a2, of False] r c by simp
  have w2': "wal_step w w2" using w2 r by simp
  show ?thesis
    using r c w1 w2' w3 wal_step_trans [OF w2' wal_step_health(1)] wal_step_trans [OF w2' wal_step_health(2)]
      wal_step_trans [OF w3 wal_step_health(1)]
    by (cases x; cases y) (auto simp: commit_tick_def Let_def)
qed

subsection \<open>Every other handler\<close>

lemma shrinks_update_source:
  assumes "archive_ok a" "\<And>r. src_id (f r) = src_id r"
  shows "shrinks a (update_source sid f a)"
  by (rule shrinks_same [OF archive_ok_update_source]) (use assms in \<open>simp_all add: update_source_def\<close>)

lemma shrinks_trans: "shrinks a b \<Longrightarrow> shrinks b c \<Longrightarrow> shrinks a c"
  unfolding shrinks_def by (metis (no_types, lifting) filter_filter subset_trans)

lemma shrinks_ok: "shrinks a b \<Longrightarrow> archive_ok b"
  by (simp add: shrinks_def)

lemma shrinks_update_existing:
  "archive_ok a \<Longrightarrow> update_existing_source sid f a = Inr b \<Longrightarrow> (\<And>r. src_id (f r) = src_id r) \<Longrightarrow> shrinks a b"
  by (auto simp: update_existing_source_def split: if_splits intro: shrinks_update_source)

lemma shrinks_patch: "archive_ok a \<Longrightarrow> patch_source_metadata sid p a = Inr b \<Longrightarrow> shrinks a b"
  by (auto simp: patch_source_metadata_def update_source_metadata_def result_simps intro: shrinks_update_existing)

lemma shrinks_identity: "archive_ok a \<Longrightarrow> set_source_identity sid l m a = Inr b \<Longrightarrow> shrinks a b"
  by (auto simp: set_source_identity_def result_simps Let_def intro: shrinks_update_existing)

lemma shrinks_beat: "archive_ok a \<Longrightarrow> shrinks a (beat ids a)"
proof (induction ids arbitrary: a)
  case Nil
  then show ?case by (simp add: beat_def shrinks_refl)
next
  case (Cons i ids)
  let ?f = "\<lambda>r. r\<lparr>src_heartbeat := Some ((case src_heartbeat r of None \<Rightarrow> 0 | Some n \<Rightarrow> n) + 1)\<rparr>"
  have "shrinks a (update_source i ?f a)" by (rule shrinks_update_source [OF Cons.prems]) simp
  with Cons.IH [OF shrinks_ok [OF this]] show ?case unfolding beat_def by (simp add: shrinks_trans)
qed

lemma shrinks_clock: "archive_ok a \<Longrightarrow> insert_clock_offset sid ts off a = Inr b \<Longrightarrow> shrinks a b"
  using insert_clock_offset_frame [of sid ts off a b] by (auto intro: shrinks_same archive_ok_clock)

lemma shrinks_caller: "archive_ok a \<Longrightarrow> insert_caller_rows sid s rows a = Inr b \<Longrightarrow> shrinks a b"
  by (rule shrinks_same) (auto dest: insert_caller_rows_eq intro: archive_ok_caller)

lemma shrinks_insert_source: "archive_ok a \<Longrightarrow> insert_source_sql rand m u a = Inr (i, b) \<Longrightarrow> shrinks a b"
  using insert_source_Inr [of rand m u a i b] by (auto intro: shrinks_same archive_ok_insert_source)

lemma shrinks_documents: "archive_ok a \<Longrightarrow> b = a\<lparr>ar_documents := d\<rparr> \<Longrightarrow> shrinks a b"
  by (rule shrinks_same) (simp_all add: archive_ok_set_documents)

lemma shrinks_put: "archive_ok a \<Longrightarrow> put_revision j rand now k n s body e a = Inr (rid, b) \<Longrightarrow> shrinks a b"
  by (rule shrinks_documents [OF _ insert_revision_Inr(5) [OF put_revision_Inr(6)]])

lemma shrinks_delete: "archive_ok a \<Longrightarrow> delete_revision rand now k n a = Inr (rid, b) \<Longrightarrow> shrinks a b"
  by (auto simp: delete_revision_def result_simps split: if_splits option.splits
      intro: shrinks_refl shrinks_documents [OF _ insert_revision_Inr(5)])

text \<open>Operations on the connection that run several transactions.\<close>

definition db_step :: "db \<Rightarrow> db \<Rightarrow> bool" where
  "db_step d d' \<longleftrightarrow> (archive_ok (db_archive d) \<longrightarrow> shrinks (db_archive d) (db_archive d'))"

lemma db_step_refl [simp]: "db_step d d"
  by (simp add: db_step_def shrinks_refl)

lemma db_step_trans: "db_step a b \<Longrightarrow> db_step b c \<Longrightarrow> db_step a c"
  unfolding db_step_def using shrinks_trans shrinks_ok by blast

lemma db_step_transaction:
  assumes "\<And>a x b. archive_ok a \<Longrightarrow> f a = Inr (x, b) \<Longrightarrow> shrinks a b" and "transaction f d = (r, d')"
  shows "db_step d d'"
  using assms by (cases rule: transaction_cases [of f d]) (auto simp: db_step_def shrinks_refl)

lemma wr_step_db_step:
  assumes "\<And>d. db_step d (snd (op d))"
  shows "wr_step w (snd (on_db op w))"
proof -
  have "good_step (wr_seal w) ((wr_seal w)\<lparr>ss_db := snd (op (ss_db (wr_seal w)))\<rparr>)"
    unfolding good_step_def
    using shrinks_good [of "wr_seal w" "snd (op (ss_db (wr_seal w)))"] assms [of "ss_db (wr_seal w)"]
    by (auto simp: db_step_def good_def writer_ok_def)
  then show ?thesis by (simp add: wr_step_def on_db_def set_db_def case_prod_beta)
qed

lemma db_step_patch: "patch_metadata sid p d = (r, d') \<Longrightarrow> db_step d d'"
  unfolding patch_metadata_def
  by (rule db_step_transaction) (auto simp: unit_body_def result_simps intro: shrinks_patch)

lemma db_step_session: "record_session env sid anchor after d = (r, d') \<Longrightarrow> db_step d d'"
  by (auto simp: record_session_def Let_def split: sum.splits prod.splits intro: db_step_patch)

lemma db_step_heartbeat: "db_step d (start_heartbeat env sid d)"
proof -
  let ?f = "\<lambda>a. Inr ((), beat [sid] (set_heartbeat_interval sid (we_heartbeat_ns env) a))"
  have "shrinks a (beat [sid] (set_heartbeat_interval sid (we_heartbeat_ns env) a))" if "archive_ok a" for a
  proof -
    have "shrinks a (set_heartbeat_interval sid (we_heartbeat_ns env) a)"
      unfolding set_heartbeat_interval_def by (rule shrinks_update_source [OF that]) simp
    then show ?thesis using shrinks_beat [OF shrinks_ok] shrinks_trans by blast
  qed
  then show ?thesis
    unfolding start_heartbeat_def
    by (intro db_step_transaction [of ?f d "fst (transaction ?f d)"]) auto
qed

lemma db_step_add_source: "db_step d (snd (add_source env seed uuid d))"
proof -
  obtain r1 d1 where t1: "transaction (insert_source_sql (we_random env) seed uuid) d = (r1, d1)" by fastforce
  have s1: "db_step d d1" by (rule db_step_transaction [OF shrinks_insert_source t1])
  show ?thesis
  proof (cases r1)
    case (Inl e)
    with t1 s1 show ?thesis by (simp add: add_source_def)
  next
    case (Inr i)
    obtain r2 d2 where t2: "record_session env i (sm_clock_anchor seed) None d1 = (r2, d2)" by fastforce
    have s2: "db_step d d2" by (rule db_step_trans [OF s1 db_step_session [OF t2]])
    have s3: "db_step d (start_heartbeat env i d2)" by (rule db_step_trans [OF s2 db_step_heartbeat])
    have s4: "db_step d (snd (patch_metadata i p (start_heartbeat env i d2)))" for p
      by (rule db_step_trans [OF s3 db_step_patch [of i p _ "fst (patch_metadata i p (start_heartbeat env i d2))"]]) simp
    show ?thesis
      using t1 t2 s2 s3 s4 Inr
      by (cases r2) (auto simp: add_source_def Let_def split: option.splits sum.splits prod.splits, (metis snd_conv)+)
  qed
qed

lemma db_step_resume: "db_step d (snd (resume_source env sid anchor d))"
proof -
  obtain r1 d1 where t1: "transaction (unit_body (mark_incomplete sid)) d = (r1, d1)" by fastforce
  have s1: "db_step d d1"
    by (rule db_step_transaction [OF _ t1])
      (auto simp: unit_body_def result_simps mark_incomplete_def intro: shrinks_update_existing)
  have s2: "db_step d (snd (record_session env sid anchor after d1))" for after
    by (rule db_step_trans [OF s1 db_step_session [of env sid anchor after d1 "fst (record_session env sid anchor after d1)"]]) simp
  show ?thesis
    using s1 t1 s2
    by (auto simp: resume_source_def Let_def split: option.splits sum.splits prod.splits, (metis snd_conv)+)
qed

lemma wr_step_seal_same: "wr_seal w' = wr_seal w'' \<Longrightarrow> wr_step w w'' \<Longrightarrow> wr_step w w'"
  by (simp add: wr_step_def)

lemma wr_step_retry_seal:
  "with_retries f (on_seal (seal_batch sid batch n enc)) w = (r, w') \<Longrightarrow> wr_step w w'"
  using wr_step_on_seal [where op = "seal_batch sid batch n enc" and retryable = f and w = w, OF good_step_seal] by simp

lemma wr_step_retry_listed: "wr_step w (snd (retry_listed env sid listed held w))"
proof (induction listed arbitrary: held w)
  case Nil
  then show ?case by simp
next
  case (Cons x listed)
  obtain s cap where x: "x = (s, cap)" by force
  obtain r w' where s: "with_retries failure_retryable (on_seal (seal_batch sid [s] cap (we_encoder env))) w = (r, w')"
    by fastforce
  note step = wr_step_trans [OF wr_step_retry_seal [OF s] Cons.IH]
  show ?case
  proof (cases "held = []")
    case False
    then show ?thesis using Cons.IH by (simp add: x)
  next
    case True
    then show ?thesis
      using s step wr_step_retry_seal [OF s] by (cases r) (auto simp: x split: failure.splits)
  qed
qed

lemma wr_step_retry_deferred: "wr_step w (snd (retry_deferred_seals env sid w))"
proof -
  let ?w = "w\<lparr>wr_deferred := (wr_deferred w)(sid := [])\<rparr>"
  have "wr_step w (snd (retry_listed env sid (wr_deferred w sid) [] ?w))"
    using wr_step_retry_listed [of ?w env sid "wr_deferred w sid" "[]"] by (simp add: wr_step_def)
  then show ?thesis
    by (auto simp: retry_deferred_seals_def wr_step_def split: sum.splits prod.splits)
qed

lemma wr_step_drop:
  assumes "\<And>a b. archive_ok a \<Longrightarrow> body a = Inr b \<Longrightarrow> shrinks a b" and "drop_on_retryable body w = Running w'"
  shows "wr_step w w'"
proof -
  obtain r w1 where r: "with_retries is_retryable (on_db (transaction (unit_body body))) w = (r, w1)" by fastforce
  have "wr_step w (snd (with_retries is_retryable (on_db (transaction (unit_body body))) w))"
    by (rule wr_step_retry_db) (auto simp: unit_body_def result_simps intro: assms(1))
  with r assms(2) show ?thesis
    by (auto simp: drop_on_retryable_def wr_step_def health_committed_def health_dropped_def Let_def
        split: sum.splits if_splits)
qed

lemma shrinks_finalize:
  "archive_ok a \<Longrightarrow> rmap (mark_complete sid) (insert_clock_offset sid ts off a) = Inr b \<Longrightarrow> shrinks a b"
proof -
  assume ok: "archive_ok a" and "rmap (mark_complete sid) (insert_clock_offset sid ts off a) = Inr b"
  then obtain c where c: "insert_clock_offset sid ts off a = Inr c" "b = mark_complete sid c"
    by (auto simp: result_simps)
  have s: "shrinks a c" by (rule shrinks_clock [OF ok c(1)])
  have "shrinks c b" unfolding c(2) mark_complete_def by (rule shrinks_update_source [OF shrinks_ok [OF s]]) simp
  with s show "shrinks a b" by (rule shrinks_trans)
qed

lemma wr_step_handle_evict:
  assumes "handle_evict env sid cutoff streams floor w = (Running w', r)" shows "wr_step w w'"
proof -
  obtain x w1 where d: "retry_deferred_seals env sid w = (x, w1)" by fastforce
  have "wr_step w w1" using wr_step_retry_deferred [of w env sid] d by simp
  note evicted = wr_step_trans [OF this wr_step_eviction]
  show ?thesis
  proof (cases x)
    case (Inl f)
    with assms d show ?thesis by (simp add: handle_evict_def)
  next
    case (Inr deferred)
    let ?held = "filter (\<lambda>s. case streams of None \<Rightarrow> True | Some evict \<Rightarrow> evict s) deferred"
    let ?streams = "if ?held = [] then streams
      else Some (\<lambda>s. s \<notin> set ?held \<and> (case streams of None \<Rightarrow> True | Some evict \<Rightarrow> evict s))"
    have "fst (handle_evict env sid cutoff streams floor w) = Running (snd (on_db (eviction_call sid cutoff ?streams floor) w1))"
      unfolding handle_evict_def Let_def case_prod_beta d Inr by simp
    then have "w' = snd (on_db (eviction_call sid cutoff ?streams floor) w1)" unfolding assms by simp
    with evicted show ?thesis by simp
  qed
qed

lemma wr_step_resume:
  "wr_step w w1 \<Longrightarrow> wr_step w (set_db w1 (start_heartbeat env sid (ss_db (wr_seal w1))))"
proof -
  assume "wr_step w w1"
  moreover have "wr_step w1 (snd (on_db (\<lambda>d. ((), start_heartbeat env sid d)) w1))"
    by (rule wr_step_db_step) (simp add: db_step_heartbeat)
  ultimately show ?thesis using wr_step_trans by (simp add: on_db_def)
qed

lemma wr_step_handle:
  assumes "handle env m w = (Running w', r)" shows "wr_step w w'"
proof (cases m)
  case (AddSource seed uuid)
  obtain x w1 where "on_db (add_source env seed uuid) w = (x, w1)" by fastforce
  with wr_step_db_step [of "add_source env seed uuid" w, OF db_step_add_source] assms AddSource show ?thesis
    by (cases x) (auto simp: wr_step_def added_source_def)
next
  case (ResumeSource sid anchor)
  obtain x w1 where o: "on_db (resume_source env sid anchor) w = (x, w1)" by fastforce
  have "wr_step w w1" using wr_step_db_step [of "resume_source env sid anchor" w, OF db_step_resume] o by simp
  with wr_step_resume [OF this, of env sid] o assms ResumeSource show ?thesis
    by (cases x) (auto simp: wr_step_def added_source_def Let_def split: option.splits)
next
  case (Wal ticks)
  obtain x w1 where "commit_tick ticks w = (x, w1)" by fastforce
  with wal_step_commit_tick [of w ticks] assms Wal show ?thesis
    by (cases x) (auto simp: run_tick_def wal_step_def)
next
  case (Seal sid batch n)
  obtain x w1 where s: "with_retries failure_retryable (on_seal (seal_batch sid batch n (we_encoder env))) w = (x, w1)" by fastforce
  with wr_step_retry_seal [OF s] assms Seal show ?thesis
    by (cases x) (auto simp: handle_seal_def wr_step_def split: if_splits)
next
  case (AdoptSegment sid seg)
  with wr_step_on_seal [where op = "adopt_segment sid seg" and retryable = is_retryable and w = w, OF good_step_adopt] assms
  show ?thesis
    by (auto split: prod.splits)
next
  case (Evict sid cutoff streams floor)
  with assms wr_step_handle_evict show ?thesis by simp
next
  case (UpdateMetadata sid patch)
  have "wr_step w (snd (with_retries is_retryable (on_db (patch_metadata sid patch)) w))"
    unfolding patch_metadata_def
    by (rule wr_step_retry_db) (auto simp: unit_body_def result_simps intro: shrinks_patch)
  with UpdateMetadata assms show ?thesis by auto
next
  case (SetIdentity sid l md)
  have "wr_step w (snd (with_retries is_retryable (on_db (transaction (unit_body (set_source_identity sid l md)))) w))"
    by (rule wr_step_retry_db) (auto simp: unit_body_def result_simps intro: shrinks_identity)
  with SetIdentity assms show ?thesis by auto
next
  case (ClockOffset sid ts off)
  then have "drop_on_retryable (insert_clock_offset sid ts off) w = Running w'" using assms by simp
  then show ?thesis by (rule wr_step_drop [rotated]) (rule shrinks_clock)
next
  case (CallerRows sid s rows)
  then have "drop_on_retryable (insert_caller_rows sid s rows) w = Running w'" using assms by simp
  then show ?thesis by (rule wr_step_drop [rotated]) (rule shrinks_caller)
next
  case (PutDocument p)
  have "wr_step w (snd (with_retries is_retryable
           (on_db (transaction (put_revision (we_is_json env) (we_random env) (we_now env)
              (dp_kind p) (dp_name p) (dp_schema p) (dp_body p) (dp_expected p)))) w))"
    by (rule wr_step_retry_db) (rule shrinks_put)
  with PutDocument assms show ?thesis by (auto split: prod.splits)
next
  case (DeleteDocument k n)
  have "wr_step w (snd (with_retries is_retryable (on_db (delete_document (we_random env) (we_now env) k n)) w))"
    unfolding delete_document_def tx_delete_document_def by (rule wr_step_retry_db) (rule shrinks_delete)
  with DeleteDocument assms show ?thesis by (auto split: prod.splits)
next
  case (Finalize sid off)
  let ?f = "\<lambda>a. rmap (mark_complete sid) (insert_clock_offset sid (fst off) (snd off) a)"
  obtain x w1 where x: "with_retries is_retryable (on_db (transaction (unit_body ?f))) w = (x, w1)" by fastforce
  have "wr_step w (snd (with_retries is_retryable (on_db (transaction (unit_body ?f))) w))"
    by (rule wr_step_retry_db) (simp only: unit_body_Inr, rule shrinks_finalize)
  with x Finalize assms show ?thesis
    by (cases x) (auto simp: handle_finalize_def wr_step_def)
qed (use assms in \<open>auto simp: close_loop_def\<close>)

lemma wr_step_timer: "wr_step w (timer_beat w)"
  by (auto simp: timer_beat_def intro: wr_step_on_db shrinks_beat)

lemma writer_step_good: "writer_step w w' \<Longrightarrow> wr_step w w'"
  by (auto elim!: writer_stepE intro: wr_step_handle wr_step_timer)

lemma good_start: "archive_ok (db_archive d) \<Longrightarrow> segments_ascend (db_archive d) \<Longrightarrow> good (wr_seal (start_writer d))"
proof -
  let ?a = "db_archive d"
  assume ok: "archive_ok ?a" and asc: "segments_ascend ?a"
  have "maps_ok (wr_seal (start_writer d))"
    unfolding maps_ok_def
  proof (intro conjI allI impI ballI; simp add: start_writer_def)
    fix i t m assume "watermark ?a i t = Some m"
    then show "\<exists>w \<ge> m. sealed_watermarks ?a (i, t) = Some w" by (simp add: sealed_watermarks_def)
  next
    fix i t w r assume "sealed_watermarks ?a (i, t) = Some w" "r \<in> set (live_wal ?a i t)"
    then show "w < row_ts r" by (auto simp: sealed_watermarks_def set_live_wal is_live_def)
  next
    fix i t x assume x: "x \<in> set (stream_rows ?a i t)"
    then obtain q where q: "max_seq ?a i t = Some q" by (cases "max_seq ?a i t") (auto simp: max_seq_None)
    with max_seq_bound [OF x q] show "sg_seq x < or_zero (next_seqs ?a (i, t))"
      by (simp add: next_seqs_def or_zero_def)
  qed
  with ok asc show ?thesis by (simp add: good_def writer_ok_def start_writer_def)
qed

lemma writer_reachable_good:
  assumes "writer_step\<^sup>*\<^sup>* (start_writer d) w" and "archive_ok (db_archive d)" and "segments_ascend (db_archive d)"
  shows "good (wr_seal w)"
  using assms(1)
proof (induction rule: rtranclp_induct)
  case base
  then show ?case by (rule good_start [OF assms(2,3)])
next
  case (step w w')
  then show ?case using writer_step_good [OF step.hyps(2)] by (simp add: wr_step_def good_step_def)
qed

text \<open>
  C1: whatever messages a writer handles, with whatever faults SQLite raises, in
  every state it reaches from the archive it opened: the tables' keys and references
  hold, each stream's segments have rising sequence numbers and disjoint ascending
  spans that claim rows, every live row lies above them all, the in-memory watermark is at or above
  the newest sealed row and below every live row, and the next sequence number is
  one no stored segment has.
\<close>

theorem writer_reachable_invariant:
  assumes "writer_step\<^sup>*\<^sup>* (start_writer d) w" and "archive_ok (db_archive d)" and "segments_ascend (db_archive d)"
  shows "archive_ok (wr_archive w) \<and> segments_ascend (wr_archive w)
    \<and> (\<forall>i t. \<forall>x \<in> set (stream_rows (wr_archive w) i t). \<forall>r \<in> set (live_wal (wr_archive w) i t).
         meta_last_ts (sg_meta x) < row_ts r)
    \<and> maps_ok (wr_seal w)"
proof -
  have "good (wr_seal w)" by (rule writer_reachable_good [OF assms])
  moreover have "meta_last_ts (sg_meta x) < row_ts r"
    if "x \<in> set (stream_rows (wr_archive w) i t)" "r \<in> set (live_wal (wr_archive w) i t)" for i t x r
    using that by (cases "watermark (wr_archive w) i t") (force simp: watermark_None watermark_Some set_live_wal is_live_def)+
  ultimately show ?thesis by (auto simp: good_def writer_ok_def)
qed

end
