(* ===== verification/Writer_Properties.thy ===== *)
theory Writer_Properties
  imports Writer_Invariant
begin

section \<open>What the handlers promise\<close>

text \<open>
  The properties of single messages: how often an operation is tried, which rows a
  tick stores, when the writer gives up, what a deferred seal keeps from retention
  and what resuming and finalizing a source do.
\<close>

subsection \<open>Retries\<close>

text \<open>The state after \<open>k\<close> runs of an operation.\<close>

primrec after_runs :: "nat \<Rightarrow> ('s \<Rightarrow> 'r \<times> 's) \<Rightarrow> 's \<Rightarrow> 's" where
  "after_runs 0 op s = s"
| "after_runs (Suc k) op s = after_runs k op (snd (op s))"

lemma retry_from_attempts:
  "\<exists>k \<le> n. retry_from n retryable op s = op (after_runs k op s)
     \<and> (\<forall>j < k. \<exists>e. fst (op (after_runs j op s)) = Inl e \<and> retryable e)
     \<and> (\<forall>e. fst (retry_from n retryable op s) = Inl e \<longrightarrow> retryable e \<longrightarrow> k = n)"
proof (induction n arbitrary: s)
  case 0
  show ?case by (intro exI [of _ 0]) simp
next
  case (Suc n)
  obtain r s' where o: "op s = (r, s')" by fastforce
  show ?case
  proof (cases "\<exists>e. r = Inl e \<and> retryable e")
    case True
    then have step: "retry_from (Suc n) retryable op s = retry_from n retryable op s'" using o by auto
    obtain k where k: "k \<le> n" "retry_from n retryable op s' = op (after_runs k op s')"
      "\<forall>j < k. \<exists>e. fst (op (after_runs j op s')) = Inl e \<and> retryable e"
      "\<forall>e. fst (retry_from n retryable op s') = Inl e \<longrightarrow> retryable e \<longrightarrow> k = n"
      using Suc.IH [of s'] by blast
    have "\<exists>e. fst (op (after_runs j op s)) = Inl e \<and> retryable e" if "j < Suc k" for j
      using that True o k(3) by (cases j) auto
    then show ?thesis using k(1,2,4) step o by (intro exI [of _ "Suc k"]) auto
  next
    case False
    then have "retry_from (Suc n) retryable op s = op s" using o by (cases r) auto
    then show ?thesis using False o by (intro exI [of _ 0]) auto
  qed
qed

text \<open>
  \<open>with_retries\<close> runs its operation at most four times, each after the first
  only because the one before failed retryably; it returns the last run's result,
  and a retryable error only once all four have failed.
\<close>

theorem with_retries_bounded:
  "\<exists>k \<le> 3. with_retries retryable op s = op (after_runs k op s)
     \<and> (\<forall>j < k. \<exists>e. fst (op (after_runs j op s)) = Inl e \<and> retryable e)
     \<and> (\<forall>e. fst (with_retries retryable op s) = Inl e \<longrightarrow> retryable e \<longrightarrow> k = 3)"
  using retry_from_attempts [of 3 retryable op s] by (simp add: with_retries_def retry_backoff_def numeral_3_eq_3)

subsection \<open>Ticks\<close>

text \<open>The rows of a tick list, and what a step may add to the WAL.\<close>

definition tick_rows :: "tick list \<Rightarrow> (i64 \<times> wal_row) list" where
  "tick_rows ticks = concat (map (\<lambda>(sid, rows). map (Pair sid) rows) ticks)"

definition adds_only :: "(i64 \<times> wal_row) set \<Rightarrow> writer_state \<Rightarrow> writer_state \<Rightarrow> bool" where
  "adds_only S w w' \<longleftrightarrow> ar_segments (wr_archive w') = ar_segments (wr_archive w)
     \<and> set (ar_wal (wr_archive w)) \<subseteq> set (ar_wal (wr_archive w'))
     \<and> set (ar_wal (wr_archive w')) \<subseteq> set (ar_wal (wr_archive w)) \<union> S"

lemma adds_only_refl [simp]: "adds_only S w w"
  by (simp add: adds_only_def)

lemma adds_only_trans: "adds_only S a b \<Longrightarrow> adds_only S b c \<Longrightarrow> adds_only S a c"
  by (auto simp: adds_only_def)

lemma adds_only_health [simp]: "adds_only S w (health_committed w)" "adds_only S w (snd (health_dropped w))"
  by (simp_all add: adds_only_def health_committed_def health_dropped_def Let_def)

lemma adds_only_retry:
  assumes "\<And>a b. f a = Inr b \<Longrightarrow> b = a\<lparr>ar_wal := ar_wal a @ tick_rows ts\<rparr>" and "set (tick_rows ts) \<subseteq> S"
  shows "adds_only S w (snd (with_retries retryable (on_db (transaction (unit_body f))) w))"
proof (rule with_retries_rel [where R = "adds_only S", OF _ adds_only_trans])
  fix s
  show "adds_only S s (snd (on_db (transaction (unit_body f)) s))"
    by (rule transaction_unit_cases [of f "ss_db (wr_seal s)"])
      (use assms(2) in \<open>auto dest!: assms(1) simp: adds_only_def on_db_def set_db_def\<close>)
qed

lemma adds_only_commit_sources:
  "set (tick_rows ticks) \<subseteq> S \<Longrightarrow> adds_only S w (snd (commit_sources ticks any w))"
proof (induction ticks arbitrary: any w)
  case Nil
  then show ?case by simp
next
  case (Cons t ticks)
  obtain sid rows where t: "t = (sid, rows)" by force
  have sub: "set (tick_rows [(sid, rows)]) \<subseteq> S" "set (tick_rows ticks) \<subseteq> S"
    using Cons.prems by (auto simp: tick_rows_def t)
  let ?r = "with_retries is_retryable (on_db (transaction (unit_body (insert_wal_rows sid rows)))) w"
  obtain x w1 where r: "?r = (x, w1)" by fastforce
  have "adds_only S w (snd ?r)"
    by (rule adds_only_retry [OF _ sub(1)]) (auto dest: insert_wal_rows_eq simp: tick_rows_def)
  then have w1: "adds_only S w w1" using r by simp
  obtain y w2 where h: "health_dropped w1 = (y, w2)" by fastforce
  have w2: "adds_only S w w2" using adds_only_trans [OF w1, of w2] adds_only_health(2) [of S w1] h by simp
  show ?case
    using r h w1 w2 adds_only_trans [OF w1 Cons.IH [OF sub(2)]] adds_only_trans [OF w2 Cons.IH [OF sub(2)]]
    by (cases x; cases y) (simp_all add: t)
qed

lemma adds_only_commit_tick:
  "adds_only (set (tick_rows (admitted (wr_floors w) (ss_watermarks (wr_seal w)) ticks))) w (snd (commit_tick ticks w))"
proof -
  let ?ts = "admitted (wr_floors w) (ss_watermarks (wr_seal w)) ticks"
  let ?S = "set (tick_rows ?ts)"
  let ?w1 = "w\<lparr>wr_shadowed := count_shadowed (wr_floors w) (ss_watermarks (wr_seal w)) ticks (wr_shadowed w)\<rparr>"
  let ?r = "with_retries is_retryable (on_db (transaction (unit_body (insert_wal_rows_batch ?ts)))) ?w1"
  obtain x w2 where r: "?r = (x, w2)" by fastforce
  obtain y w3 where c: "commit_sources ?ts False w2 = (y, w3)" by fastforce
  have w1: "adds_only ?S w ?w1" by (simp add: adds_only_def)
  have "adds_only ?S ?w1 (snd ?r)"
    by (rule adds_only_retry) (auto dest: insert_wal_rows_batch_eq simp: tick_rows_def)
  then have w2: "adds_only ?S w w2" using adds_only_trans [OF w1] r by simp
  have w3: "adds_only ?S w w3"
    using adds_only_trans [OF w2] adds_only_commit_sources [of ?ts ?S w2 False] c by simp
  show ?thesis
    using r c w1 w2 w3 adds_only_trans [OF w2 adds_only_health(1)] adds_only_trans [OF w2 adds_only_health(2)]
      adds_only_trans [OF w3 adds_only_health(1)]
    by (cases x; cases y) (auto simp: commit_tick_def Let_def)
qed

lemma admitted_rows:
  assumes "(sid, r) \<in> set (tick_rows (admitted floors m ticks))"
  shows "\<exists>rows. (sid, rows) \<in> set ticks \<and> r \<in> set rows \<and> \<not> floored floors (sid, rows) \<and> \<not> shadows m sid r"
  using assms
  by (fastforce simp: tick_rows_def admitted_def Let_def split: if_splits)

text \<open>
  C6: every row a tick adds to the WAL is one the tick carried, is above its
  source's floor, and is live the moment it is stored: no reader's answer misses a
  row the writer accepted. No segment and no stored row is touched.
\<close>

theorem commit_tick_stores_live_rows:
  assumes "maps_ok (wr_seal w)" and "commit_tick ticks w = (r, w')"
  shows "ar_segments (wr_archive w') = ar_segments (wr_archive w)
    \<and> set (ar_wal (wr_archive w)) \<subseteq> set (ar_wal (wr_archive w'))
    \<and> (\<forall>sid x. (sid, x) \<in> set (ar_wal (wr_archive w')) - set (ar_wal (wr_archive w)) \<longrightarrow>
         (\<exists>rows. (sid, rows) \<in> set ticks \<and> x \<in> set rows
            \<and> (\<forall>f. wr_floors w sid = Some f \<longrightarrow> (\<forall>y \<in> set rows. f < row_ts y)))
         \<and> x \<in> set (live_wal (wr_archive w') sid (row_stream x)))"
proof -
  let ?m = "ss_watermarks (wr_seal w)"
  note A = adds_only_commit_tick [of w ticks, unfolded assms(2) snd_conv adds_only_def]
  have new: "(\<exists>rows. (sid, rows) \<in> set ticks \<and> x \<in> set rows
            \<and> (\<forall>f. wr_floors w sid = Some f \<longrightarrow> (\<forall>y \<in> set rows. f < row_ts y)))
         \<and> x \<in> set (live_wal (wr_archive w') sid (row_stream x))"
    if x: "(sid, x) \<in> set (ar_wal (wr_archive w')) - set (ar_wal (wr_archive w))" for sid x
  proof -
    have "(sid, x) \<in> set (tick_rows (admitted (wr_floors w) ?m ticks))" using A x by blast
    from admitted_rows [OF this] obtain rows where rows: "(sid, rows) \<in> set ticks" "x \<in> set rows"
      "\<not> floored (wr_floors w) (sid, rows)" "\<not> shadows ?m sid x" by blast
    have mark: "watermark (wr_archive w') sid (row_stream x) = watermark (wr_archive w) sid (row_stream x)"
      by (rule watermark_cong) (use A in \<open>simp add: stream_rows_def\<close>)
    have "is_live (wr_archive w') sid (row_stream x) (row_ts x)"
      using maps_okD(1) [OF assms(1), of sid "row_stream x"] rows(4)
      by (auto simp: is_live_def mark shadows_def opt_holds_iff not_le split: option.splits)
    then have "x \<in> set (live_wal (wr_archive w') sid (row_stream x))" using x by (auto simp: set_live_wal)
    with rows(1-3) show ?thesis by (fastforce simp: floored_def not_le)
  qed
  with A show ?thesis by blast
qed

subsection \<open>Dropped ticks\<close>

definition drops_kept :: "writer_state \<Rightarrow> writer_state \<Rightarrow> bool" where
  "drops_kept w w' \<longleftrightarrow> wr_dropped w' = wr_dropped w"

lemma drops_kept_trans: "drops_kept a b \<Longrightarrow> drops_kept b c \<Longrightarrow> drops_kept a c"
  by (simp add: drops_kept_def)

lemma drops_on_db [simp]: "wr_dropped (snd (on_db op w)) = wr_dropped w"
  by (simp add: on_db_def set_db_def case_prod_beta)

lemma drops_retry_db [simp]: "wr_dropped (snd (with_retries f (on_db op) w)) = wr_dropped w"
  using with_retries_rel [where R = drops_kept and op = "on_db op", OF _ drops_kept_trans] by (simp add: drops_kept_def)

lemma drops_retry_seal [simp]: "wr_dropped (snd (with_retries f (on_seal op) w)) = wr_dropped w"
  using with_retries_rel [where R = drops_kept and op = "on_seal op", OF _ drops_kept_trans]
  by (simp add: drops_kept_def on_seal_def case_prod_beta)

lemma drops_of_retry:
  "with_retries f (on_db op) w = (r, w') \<Longrightarrow> wr_dropped w' = wr_dropped w"
  "with_retries g (on_seal op') w = (r', w') \<Longrightarrow> wr_dropped w' = wr_dropped w"
  using drops_retry_db [of f op w] drops_retry_seal [of g op' w] by auto

lemma drops_retry_listed: "wr_dropped (snd (retry_listed env sid listed held w)) = wr_dropped w"
proof (induction listed arbitrary: held w)
  case (Cons x listed)
  obtain s cap where x: "x = (s, cap)" by force
  obtain r w' where s: "with_retries failure_retryable (on_seal (seal_batch sid [s] cap (we_encoder env))) w = (r, w')"
    by fastforce
  show ?case using drops_of_retry(2) [OF s] Cons.IH s
    by (cases r) (auto simp: x split: failure.splits)
qed simp

lemma drops_retry_deferred: "retry_deferred_seals env sid w = (r, w') \<Longrightarrow> wr_dropped w' = wr_dropped w"
  using drops_retry_listed [of env sid "wr_deferred w sid" "[]" "w\<lparr>wr_deferred := (wr_deferred w)(sid := [])\<rparr>"]
  by (auto simp: retry_deferred_seals_def split: sum.splits prod.splits)

lemma drops_commit_sources:
  "commit_sources ticks any w = (Inr b, w') \<Longrightarrow> wr_dropped w < 30 \<Longrightarrow> wr_dropped w' < 30"
proof (induction ticks arbitrary: any w)
  case (Cons t ticks)
  obtain sid rows where t: "t = (sid, rows)" by force
  obtain x w1 where r: "with_retries is_retryable (on_db (transaction (unit_body (insert_wal_rows sid rows)))) w = (x, w1)"
    by fastforce
  show ?case
    using Cons.prems Cons.IH [of _ w1] Cons.IH [of any "w1\<lparr>wr_dropped := wr_dropped w1 + 1\<rparr>"] r drops_of_retry(1) [OF r]
    by (cases x) (auto simp: t health_dropped_def max_consecutive_dropped_ticks_def Let_def split: if_splits)
qed simp

lemma drops_commit_tick: "commit_tick ticks w = (Inr b, w') \<Longrightarrow> wr_dropped w < 30 \<Longrightarrow> wr_dropped w' < 30"
proof -
  assume c: "commit_tick ticks w = (Inr b, w')" and w: "wr_dropped w < 30"
  let ?ts = "admitted (wr_floors w) (ss_watermarks (wr_seal w)) ticks"
  let ?w1 = "w\<lparr>wr_shadowed := count_shadowed (wr_floors w) (ss_watermarks (wr_seal w)) ticks (wr_shadowed w)\<rparr>"
  obtain x w2 where r: "with_retries is_retryable (on_db (transaction (unit_body (insert_wal_rows_batch ?ts)))) ?w1 = (x, w2)"
    by fastforce
  obtain y w3 where s: "commit_sources ?ts False w2 = (y, w3)" by fastforce
  have w2: "wr_dropped w2 < 30" using drops_of_retry(1) [OF r] w by simp
  have w3: "wr_dropped w3 < 30" if "y = Inr z" for z using drops_commit_sources [of ?ts False w2 z w3] s w2 that by simp
  show "wr_dropped w' < 30"
    using c w w2 w3 r s
    by (cases x; cases y)
      (auto simp: commit_tick_def Let_def health_committed_def health_dropped_def max_consecutive_dropped_ticks_def
        split: if_splits)
qed

lemma drops_drop_on_retryable:
  "drop_on_retryable body w = Running w' \<Longrightarrow> wr_dropped w < 30 \<Longrightarrow> wr_dropped w' < 30"
proof -
  assume d: "drop_on_retryable body w = Running w'" and w: "wr_dropped w < 30"
  obtain x w1 where r: "with_retries is_retryable (on_db (transaction (unit_body body))) w = (x, w1)" by fastforce
  show "wr_dropped w' < 30" using d w r drops_of_retry(1) [OF r]
    by (cases x) (auto simp: drop_on_retryable_def health_committed_def health_dropped_def Let_def
        max_consecutive_dropped_ticks_def split: if_splits)
qed

lemma drops_evict: "handle_evict env sid cutoff streams floor w = (Running w', r) \<Longrightarrow> wr_dropped w' = wr_dropped w"
proof -
  assume h: "handle_evict env sid cutoff streams floor w = (Running w', r)"
  obtain x w1 where d: "retry_deferred_seals env sid w = (x, w1)" by fastforce
  show ?thesis
    using h drops_retry_deferred [OF d] d
    by (cases x) (auto simp: handle_evict_def Let_def case_prod_beta)
qed

lemma drops_handle:
  assumes "handle env m w = (Running w', r)" "wr_dropped w < 30"
  shows "wr_dropped w' < 30"
proof (cases m)
  case (AddSource seed uuid)
  obtain x w1 where o: "on_db (add_source env seed uuid) w = (x, w1)" by fastforce
  then have "wr_dropped w1 = wr_dropped w" using drops_on_db [of "add_source env seed uuid" w] by simp
  with o assms AddSource show ?thesis by (cases x) (auto simp: added_source_def)
next
  case (ResumeSource sid anchor)
  obtain x w1 where o: "on_db (resume_source env sid anchor) w = (x, w1)" by fastforce
  then have "wr_dropped w1 = wr_dropped w" using drops_on_db [of "resume_source env sid anchor" w] by simp
  with o assms ResumeSource show ?thesis
    by (cases x) (auto simp: added_source_def set_db_def Let_def split: option.splits)
next
  case (Wal ticks)
  obtain x w1 where "commit_tick ticks w = (x, w1)" by fastforce
  with drops_commit_tick [of ticks w _ w1] assms Wal show ?thesis by (cases x) (auto simp: run_tick_def)
next
  case (Seal sid batch n)
  obtain x w1 where s: "with_retries failure_retryable (on_seal (seal_batch sid batch n (we_encoder env))) w = (x, w1)" by fastforce
  with drops_of_retry(2) [OF s] assms Seal show ?thesis by (cases x) (auto simp: handle_seal_def split: if_splits)
next
  case (Evict sid cutoff streams floor)
  with assms drops_evict [of env sid cutoff streams floor w w' r] show ?thesis by simp
next
  case (Finalize sid off)
  let ?f = "\<lambda>a. rmap (mark_complete sid) (insert_clock_offset sid (fst off) (snd off) a)"
  obtain x w1 where s: "with_retries is_retryable (on_db (transaction (unit_body ?f))) w = (x, w1)" by fastforce
  with drops_of_retry(1) [OF s] assms Finalize show ?thesis by (cases x) (auto simp: handle_finalize_def)
next
  case (ClockOffset sid ts off)
  with assms drops_drop_on_retryable show ?thesis by simp blast
next
  case (CallerRows sid s rows)
  with assms drops_drop_on_retryable show ?thesis by simp blast
qed (use assms drops_of_retry in \<open>auto simp: close_loop_def Let_def case_prod_beta\<close>)

text \<open>
  A writer that still runs has dropped fewer than thirty ticks in a row: no
  message leaves it running at the bound.
\<close>

theorem dropped_ticks_bounded:
  assumes "writer_step\<^sup>*\<^sup>* (start_writer d) w"
  shows "wr_dropped w < 30"
  using assms
proof (induction rule: rtranclp_induct)
  case base
  then show ?case by (simp add: start_writer_def)
next
  case (step w w')
  from step.hyps(2) step.IH show ?case
    by (auto elim!: writer_stepE intro: drops_handle simp: timer_beat_def)
qed

subsection \<open>Retention and deferred seals\<close>

lemma evict_streams_spares:
  assumes "\<not> evict s" and "eviction_call sid cutoff (Some evict) floor d = (r, d')"
  shows "stream_rows (db_archive d') sid s = stream_rows (db_archive d) sid s
    \<and> live_wal (db_archive d') sid s = live_wal (db_archive d) sid s"
proof -
  let ?streams = "filter evict (evictable_streams (db_archive d) sid)"
  have t: "transaction (\<lambda>a. Inr (evict_chosen_streams sid cutoff floor ?streams a)) d = (r, d')"
    using assms(2)
    by (cases floor) (simp_all add: eviction_call_def evict_streams_before_with_floor_def evict_streams_before_def evict_streams_def)
  let ?f = "fold (evict_stream sid cutoff floor) ?streams (no_evicted, db_archive d)"
  have other: "stream_rows (snd ?f) sid s = stream_rows (db_archive d) sid s \<and> wal_of (snd ?f) sid s = wal_of (db_archive d) sid s"
    using evict_fold_other [of sid sid s ?streams cutoff floor "(no_evicted, db_archive d)"] assms(1) by simp
  have "stream_rows (db_archive d') sid s = stream_rows (db_archive d) sid s \<and> wal_of (db_archive d') sid s = wal_of (db_archive d) sid s"
    using other
    by (rule_tac transaction_cases [of "\<lambda>a. Inr (evict_chosen_streams sid cutoff floor ?streams a)" d])
      (use t in \<open>auto simp: evict_chosen_streams_def Let_def case_prod_beta frame_simps\<close>)
  then show ?thesis by (auto intro: live_wal_cong watermark_cong)
qed

text \<open>
  C13: retention never takes a row of a stream whose seal is still deferred: the
  streams that could not be sealed before the pass keep every segment and every live
  row through it, whatever the cutoff and whatever the caller's own filter said.
\<close>

theorem evict_spares_deferred:
  assumes "retry_deferred_seals env sid w = (Inr held, w1)" and "s \<in> set held"
    and "handle_evict env sid cutoff streams floor w = (Running w2, r)"
  shows "live_wal (wr_archive w2) sid s = live_wal (wr_archive w1) sid s
    \<and> stream_rows (wr_archive w2) sid s = stream_rows (wr_archive w1) sid s"
proof -
  let ?held = "filter (\<lambda>s. case streams of None \<Rightarrow> True | Some evict \<Rightarrow> evict s) held"
  let ?streams = "if ?held = [] then streams
      else Some (\<lambda>s. s \<notin> set ?held \<and> (case streams of None \<Rightarrow> True | Some evict \<Rightarrow> evict s))"
  have "fst (handle_evict env sid cutoff streams floor w) = Running (snd (on_db (eviction_call sid cutoff ?streams floor) w1))"
    unfolding handle_evict_def Let_def case_prod_beta assms(1) by simp
  then have w2: "w2 = snd (on_db (eviction_call sid cutoff ?streams floor) w1)" unfolding assms(3) by simp
  have "\<exists>evict. ?streams = Some evict \<and> \<not> evict s"
  proof (cases "?held = []")
    case True
    with assms(2) show ?thesis by (cases streams) (auto simp: filter_empty_conv)
  next
    case False
    with assms(2) show ?thesis by (cases streams) simp_all
  qed
  then obtain evict where e: "?streams = Some evict" "\<not> evict s" by blast
  obtain x d where d: "eviction_call sid cutoff (Some evict) floor (ss_db (wr_seal w1)) = (x, d)" by fastforce
  have "wr_archive w2 = db_archive d" unfolding w2 e(1) by (simp add: on_db_def set_db_def d)
  with evict_streams_spares [of evict s, OF e(2) d] show ?thesis by simp
qed

subsection \<open>Resuming and finalizing a source\<close>

lemma find_source_update:
  assumes "\<And>r. src_id (f r) = src_id r"
  shows "find_source (update_source sid f a) i = (if i = sid then map_option f (find_source a i) else find_source a i)"
proof -
  have "find (\<lambda>r. src_id r = i) (map (\<lambda>r. if src_id r = sid then f r else r) rs)
      = (if i = sid then map_option f (find (\<lambda>r. src_id r = i) rs) else find (\<lambda>r. src_id r = i) rs)" for rs
    by (induction rs) (auto simp: assms)
  then show ?thesis by (simp add: find_source_def update_source_def)
qed

lemma session_keys: "events_key < writer_sessions_key"
  by code_simp

lemma record_session_writes:
  assumes "record_session env sid anchor (Some after) d = (Inr u, d')" and "find_source (db_archive d) sid = Some src"
  shows "\<exists>session md. mint_uuid (we_session_random env) = Inr session
    \<and> bt_get md = (bt_get (sm_metadata (src_meta src)))
        (events_key \<mapsto> we_events_json env (bt_get (sm_metadata (src_meta src)) events_key) session anchor after,
         writer_sessions_key \<mapsto> we_sessions_json env (bt_get (sm_metadata (src_meta src)) writer_sessions_key)
           session anchor (Some after))
    \<and> db_archive d' = update_source sid (\<lambda>r. r\<lparr>src_meta := (src_meta r)\<lparr>sm_metadata := md\<rparr>\<rparr>) (db_archive d)"
proof -
  let ?old = "sm_metadata (src_meta src)"
  obtain session where session: "mint_uuid (we_session_random env) = Inr session"
    using assms(1) by (auto simp: record_session_def split: sum.splits simp: result_simps)
  let ?p = "[(events_key, we_events_json env (bt_get ?old events_key) session anchor after),
      (writer_sessions_key, we_sessions_json env (bt_get ?old writer_sessions_key) session anchor (Some after))]"
  have meta: "source_metadata (db_archive d) sid = Inr ?old" by (simp add: source_metadata_def assms(2))
  have "bt_extend [] ?p = ?p" using session_keys less_not_sym [OF session_keys] by auto
  then have p: "transaction (unit_body (patch_source_metadata sid ?p)) d = (Inr u, d')"
    using assms(1) by (simp add: record_session_def session meta Let_def patch_metadata_def del: bt_extend.simps)
  then have "patch_source_metadata sid ?p (db_archive d) = Inr (db_archive d')"
    by (auto simp: transaction_def next_fault_def unit_body_Inr split: list.splits option.splits sum.splits)
  then have "db_archive d' = update_source sid (\<lambda>r. r\<lparr>src_meta := (src_meta r)\<lparr>sm_metadata := bt_extend ?old ?p\<rparr>\<rparr>) (db_archive d)"
    by (auto simp: patch_source_metadata_def update_source_metadata_def update_existing_source_def meta
        simp del: bt_extend.simps split: if_splits)
  then show ?thesis using session by (intro exI [of _ session] exI [of _ "bt_extend ?old ?p"]) simp
qed

lemma col_max_Max: "col_max xs = (if set xs = {} then None else Some (Max (set xs)))"
proof (cases "col_max xs")
  case (Some m)
  then have "m \<in> set xs" "\<forall>x \<in> set xs. x \<le> m" by (auto simp: col_max_Some)
  then show ?thesis using Some Max_eqI [of "set xs" m] by auto
qed simp

text \<open>The newest row of a source: the last of its sealed rows and of the rows a reader is handed live.\<close>

definition row_times :: "archive \<Rightarrow> i64 \<Rightarrow> i64 set" where
  "row_times a sid =
     {meta_last_ts (sg_meta g) | g. g \<in> set (ar_segments a) \<and> sg_source g = sid}
     \<union> {row_ts r | r s. r \<in> set (live_wal a sid s)}"

lemma source_span_newest:
  "snd (source_time_span a sid) = (if row_times a sid = {} then None else Some (Max (row_times a sid)))"
proof -
  let ?segs = "filter (\<lambda>r. sg_source r = sid) (ar_segments a)"
  let ?live = "filter (\<lambda>(i, r). i = sid \<and> live_for_row a (i, r)) (ar_wal a)"
  let ?xs = "map (\<lambda>r. meta_last_ts (sg_meta r)) ?segs @ map (row_ts \<circ> snd) ?live"
  have "set ?xs = row_times a sid"
    by (force simp: row_times_def set_live_wal live_for_row_def)
  moreover have "snd (source_time_span a sid) = col_max ?xs" by (simp add: source_time_span_def Let_def)
  ultimately show ?thesis by (simp only: col_max_Max)
qed

lemma finite_row_times [simp]: "finite (row_times a sid)"
proof -
  have "{row_ts r | r s. r \<in> set (live_wal a sid s)} \<subseteq> (row_ts \<circ> snd) ` set (ar_wal a)"
    by (force simp: set_live_wal)
  moreover have "{meta_last_ts (sg_meta g) | g. g \<in> set (ar_segments a) \<and> sg_source g = sid}
      \<subseteq> (meta_last_ts \<circ> sg_meta) ` set (ar_segments a)" by auto
  ultimately show ?thesis unfolding row_times_def by (meson finite_Un finite_imageI finite_set finite_subset)
qed

text \<open>
  C31: a source resumes only if it is there, no other encoder version wrote it, and
  the new session's clock starts after its last row. The floor handed back is the newest
  of its sealed and live rows, and there is none only if the source has no such row. The
  source is incomplete again, its metadata has gained the session and the event of its
  resuming and is otherwise what it was, and nothing else in the archive has changed.
\<close>

theorem resume_source_correct:
  assumes "resume_source env sid anchor d = (Inr r, d')"
  shows "\<exists>src session md. find_source (db_archive d) sid = Some src
    \<and> (\<forall>wrote reading. bt_get (sm_metadata (src_meta src)) encoder_key = Some wrote \<longrightarrow>
         enc_version (we_encoder env) = Some reading \<longrightarrow> wrote = reading)
    \<and> (\<forall>f \<in> row_times (db_archive d) sid. f < anchor)
    \<and> rs_labels r = sm_labels (src_meta src)
    \<and> rs_last_ts r = (if row_times (db_archive d) sid = {} then None else Some (Max (row_times (db_archive d) sid)))
    \<and> mint_uuid (we_session_random env) = Inr session
    \<and> bt_get md = (bt_get (sm_metadata (src_meta src)))
        (events_key \<mapsto> we_events_json env (bt_get (sm_metadata (src_meta src)) events_key) session anchor (rs_last_ts r),
         writer_sessions_key \<mapsto> we_sessions_json env (bt_get (sm_metadata (src_meta src)) writer_sessions_key)
           session anchor (Some (rs_last_ts r)))
    \<and> find_source (db_archive d') sid =
        Some (src\<lparr>src_complete := False, src_meta := (src_meta src)\<lparr>sm_metadata := md\<rparr>\<rparr>)
    \<and> (\<forall>i. i \<noteq> sid \<longrightarrow> find_source (db_archive d') i = find_source (db_archive d) i)
    \<and> db_archive d' = (db_archive d)\<lparr>ar_sources := ar_sources (db_archive d')\<rparr>"
proof -
  let ?a = "db_archive d"
  let ?last = "snd (source_time_span ?a sid)"
  obtain src d1 where src: "find_source ?a sid = Some src" "check_encoder sid (sm_metadata (src_meta src)) (we_encoder env) = Inr ()"
    and later: "\<not> opt_holds (\<lambda>f. anchor \<le> f) ?last"
    and t1: "transaction (unit_body (mark_incomplete sid)) d = (Inr (), d1)"
    and t2: "fst (record_session env sid anchor (Some ?last) d1) = Inr ()"
    and r: "r = \<lparr>rs_labels = sm_labels (src_meta src), rs_last_ts = ?last\<rparr>"
    and d': "d' = snd (record_session env sid anchor (Some ?last) d1)"
    using assms by (auto simp: resume_source_def Let_def split: option.splits sum.splits if_splits prod.splits)
  have a1: "db_archive d1 = update_source sid (\<lambda>r. r\<lparr>src_complete := False\<rparr>) ?a"
    using t1 by (rule_tac transaction_cases [of "unit_body (mark_incomplete sid)" d])
      (auto simp: unit_body_Inr mark_incomplete_def update_existing_source_def split: if_splits)
  have run: "record_session env sid anchor (Some ?last) d1 = (Inr (), d')" using t2 d' by (metis prod.collapse)
  have src1: "find_source (db_archive d1) sid = Some (src\<lparr>src_complete := False\<rparr>)"
    by (simp add: a1 find_source_update src(1))
  obtain session md where session: "mint_uuid (we_session_random env) = Inr session"
    and md: "bt_get md = (bt_get (sm_metadata (src_meta src)))
        (events_key \<mapsto> we_events_json env (bt_get (sm_metadata (src_meta src)) events_key) session anchor ?last,
         writer_sessions_key \<mapsto> we_sessions_json env (bt_get (sm_metadata (src_meta src)) writer_sessions_key)
           session anchor (Some ?last))"
    and a2: "db_archive d' = update_source sid (\<lambda>r. r\<lparr>src_meta := (src_meta r)\<lparr>sm_metadata := md\<rparr>\<rparr>) (db_archive d1)"
    using record_session_writes [OF run src1] by auto
  have found: "find_source (db_archive d') sid =
        Some (src\<lparr>src_complete := False, src_meta := (src_meta src)\<lparr>sm_metadata := md\<rparr>\<rparr>)"
    by (simp add: a2 find_source_update src1)
  have others: "find_source (db_archive d') i = find_source ?a i" if "i \<noteq> sid" for i
    using that by (simp add: a1 a2 find_source_update)
  have tables: "db_archive d' = ?a\<lparr>ar_sources := ar_sources (db_archive d')\<rparr>"
    by (simp add: a1 a2 update_source_def)
  have last: "?last = (if row_times ?a sid = {} then None else Some (Max (row_times ?a sid)))"
    by (rule source_span_newest)
  have later': "f < anchor" if f: "f \<in> row_times ?a sid" for f
  proof -
    have "f \<le> Max (row_times ?a sid)" by (rule Max_ge [OF finite_row_times f])
    moreover have "Max (row_times ?a sid) < anchor"
      using later f unfolding last by (cases "row_times ?a sid = {}") (auto simp: opt_holds_def not_le)
    ultimately show ?thesis by simp
  qed
  show ?thesis
    using src check_encoder_iff later' session md found others tables r last
    by (intro exI [of _ src] exI [of _ session] exI [of _ md]) simp
qed

lemma retry_db_runs:
  assumes "retry_from n p (on_db (transaction (unit_body f))) w = (Inr (), w1)"
  shows "f (wr_archive w) = Inr (wr_archive w1) \<and> wr_finalized w1 = wr_finalized w \<and> wr_beating w1 = wr_beating w"
  using assms
proof (induction n arbitrary: w)
  case 0
  then show ?case
    by (rule_tac transaction_unit_cases [of f "ss_db (wr_seal w)"]) (auto simp: on_db_def set_db_def)
next
  case (Suc n)
  show ?case
  proof (rule transaction_unit_cases [of f "ss_db (wr_seal w)"])
    fix e assume "transaction (unit_body f) (ss_db (wr_seal w)) = (Inl e, (ss_db (wr_seal w))\<lparr>db_faults := tl (db_faults (ss_db (wr_seal w)))\<rparr>)"
    then obtain v where o: "on_db (transaction (unit_body f)) w = (Inl e, v)"
      and keep: "wr_archive v = wr_archive w" "wr_finalized v = wr_finalized w" "wr_beating v = wr_beating w"
      by (simp add: on_db_def set_db_def)
    have "retry_from n p (on_db (transaction (unit_body f))) v = (Inr (), w1)"
      using Suc.prems by (simp add: o split: if_splits)
    from Suc.IH [OF this] show ?thesis unfolding keep .
  next
    fix b assume "transaction (unit_body f) (ss_db (wr_seal w)) = (Inr (), (ss_db (wr_seal w))\<lparr>db_archive := b, db_faults := tl (db_faults (ss_db (wr_seal w)))\<rparr>)"
      "f (db_archive (ss_db (wr_seal w))) = Inr b"
    with Suc.prems show ?thesis by (auto simp: on_db_def set_db_def)
  qed
qed

lemma insert_clock_offset_Inr:
  assumes "insert_clock_offset sid ts off a = Inr c"
  shows "c = a\<lparr>ar_clock := ar_clock a @ (if \<exists>o'. (sid, ts, o') \<in> set (ar_clock a) then [] else [(sid, ts, off)])\<rparr>"
  using assms by (force simp: insert_clock_offset_def constraint_error_def image_iff split: if_splits)

text \<open>
  Finalizing a source marks it complete and stops its heartbeat; the clock
  observation it carries is stored unless one at that timestamp was already, which
  then stays as it was.
\<close>

theorem finalize_correct:
  assumes "handle env (Finalize sid (ts, off)) w = (Running w', r)" and "find_source (wr_archive w) sid = Some src"
  shows "(\<exists>src'. find_source (wr_archive w') sid = Some src' \<and> src_complete src')
    \<and> sid \<notin> set (wr_beating w') \<and> wr_finalized w' = wr_finalized w + 1
    \<and> ar_clock (wr_archive w') = ar_clock (wr_archive w)
        @ (if \<exists>o'. (sid, ts, o') \<in> set (ar_clock (wr_archive w)) then [] else [(sid, ts, off)])
    \<and> ar_segments (wr_archive w') = ar_segments (wr_archive w) \<and> ar_wal (wr_archive w') = ar_wal (wr_archive w)"
proof -
  let ?f = "\<lambda>a. rmap (mark_complete sid) (insert_clock_offset sid ts off a)"
  obtain x w1 where x: "with_retries is_retryable (on_db (transaction (unit_body ?f))) w = (x, w1)" by fastforce
  with assms(1) have xi: "x = Inr ()"
    and w': "w' = w1\<lparr>wr_finalized := wr_finalized w1 + 1, wr_beating := filter (\<lambda>i. i \<noteq> sid) (wr_beating w1)\<rparr>"
    by (auto simp: handle_finalize_def split: sum.splits)
  have R: "?f (wr_archive w) = Inr (wr_archive w1)" "wr_finalized w1 = wr_finalized w" "wr_beating w1 = wr_beating w"
    using retry_db_runs [of "length retry_backoff" is_retryable ?f w w1] x xi by (simp_all add: with_retries_def)
  then obtain c where c: "insert_clock_offset sid ts off (wr_archive w) = Inr c" "wr_archive w1 = mark_complete sid c"
    by (auto simp: result_simps)
  note clock = insert_clock_offset_Inr [OF c(1)]
  have "find_source c sid = Some src" using assms(2) by (simp add: clock find_source_def)
  then have "find_source (wr_archive w1) sid = Some (src\<lparr>src_complete := True\<rparr>)"
    by (simp add: c(2) mark_complete_def find_source_update)
  then show ?thesis
    using R(2,3) by (simp add: w' c(2) mark_complete_def update_source_def clock)
qed

subsection \<open>At concrete states\<close>

text \<open>A writer opened on the sample archive, its environment and a busy database.\<close>

definition sample_env :: writer_env where
  "sample_env = \<lparr>we_encoder = all_rows_encoder, we_sessions_json = (\<lambda>_ s _ _. s), we_events_json = (\<lambda>_ s _ _. s),
     we_is_json = (\<lambda>_. True), we_heartbeat_ns = 5000000000, we_reclaim_all = (\<lambda>_. Inr ()),
     we_random = sample_random, we_session_random = sample_random, we_now = 0\<rparr>"

definition sample_writer :: "sqlite_code option list \<Rightarrow> writer_state" where
  "sample_writer faults = start_writer (sample_db\<lparr>db_faults := faults\<rparr>)"

lemma segments_ascend_sample: "segments_ascend sample_archive"
  by (auto simp: segments_ascend_def meta_ok_def sample_archive_streams sample_segment_row_def)

lemma sample_writer_archive [simp]: "wr_archive (sample_writer fs) = sample_archive"
  by (simp add: sample_writer_def start_writer_def sample_db_def)

lemma maps_ok_sample_writer: "maps_ok (wr_seal (sample_writer fs))"
proof -
  have "good (wr_seal (sample_writer fs))" unfolding sample_writer_def
    by (rule good_start) (simp_all add: sample_db_def archive_ok_sample segments_ascend_sample)
  then show ?thesis by (simp add: good_def writer_ok_def)
qed

lemma sample_seal_step:
  "\<exists>w. writer_step (sample_writer []) w \<and> live_wal (wr_archive w) 1 (str ''cpu'') = []"
proof -
  have "(case handle sample_env (Seal 1 [str ''cpu''] 10) (sample_writer []) of
      (Running w, _) \<Rightarrow> live_wal (wr_archive w) 1 (str ''cpu'') = [] | _ \<Rightarrow> False)" by code_simp
  then obtain w r where "handle sample_env (Seal 1 [str ''cpu''] 10) (sample_writer []) = (Running w, r)"
    "live_wal (wr_archive w) 1 (str ''cpu'') = []"
    by (auto split: prod.splits outcome.splits)
  then show ?thesis using writer_step.message by blast
qed

theorem writer_reachable_invariant_witness:
  "\<exists>w. writer_step\<^sup>*\<^sup>* (sample_writer []) w \<and> live_wal (wr_archive w) 1 (str ''cpu'') = []
     \<and> segments_ascend (wr_archive w)"
proof -
  obtain w where w: "writer_step (sample_writer []) w" "live_wal (wr_archive w) 1 (str ''cpu'') = []"
    using sample_seal_step by blast
  then have "writer_step\<^sup>*\<^sup>* (start_writer (sample_db\<lparr>db_faults := []\<rparr>)) w" by (auto simp: sample_writer_def)
  from writer_reachable_invariant [OF this] w show ?thesis
    by (auto simp: sample_db_def archive_ok_sample segments_ascend_sample)
qed

theorem dropped_ticks_bounded_witness:
  "\<exists>w. writer_step\<^sup>*\<^sup>* (sample_writer []) w \<and> live_wal (wr_archive w) 1 (str ''cpu'') = [] \<and> wr_dropped w < 30"
proof -
  obtain w where w: "writer_step (sample_writer []) w" "live_wal (wr_archive w) 1 (str ''cpu'') = []"
    using sample_seal_step by blast
  then have "writer_step\<^sup>*\<^sup>* (start_writer (sample_db\<lparr>db_faults := []\<rparr>)) w" by (auto simp: sample_writer_def)
  from dropped_ticks_bounded [OF this] w show ?thesis by (auto simp: sample_writer_def)
qed

definition sample_tick :: "tick list" where
  "sample_tick = [(1, [sample_row 15, sample_row 40])]"

theorem commit_tick_stores_live_rows_witness:
  "\<exists>w. commit_tick sample_tick (sample_writer []) = (Inr (), w)
     \<and> (1, sample_row 40) \<in> set (ar_wal (wr_archive w)) \<and> (1, sample_row 15) \<notin> set (ar_wal (wr_archive w))
     \<and> sample_row 40 \<in> set (live_wal (wr_archive w) 1 (str ''cpu''))"
proof -
  have "is_ok (fst (commit_tick sample_tick (sample_writer [])))"
    and wal: "ar_wal (wr_archive (snd (commit_tick sample_tick (sample_writer [])))) = map (\<lambda>ts. (1, sample_row ts)) [25, 30, 40]"
    by code_simp+
  then obtain w where w: "commit_tick sample_tick (sample_writer []) = (Inr (), w)"
    by (cases "commit_tick sample_tick (sample_writer [])"; cases "fst (commit_tick sample_tick (sample_writer []))") auto
  have w2: "ar_wal (wr_archive w) = map (\<lambda>ts. (1, sample_row ts)) [25, 30, 40]" using wal unfolding w by simp
  have rows: "(1, sample_row 40) \<in> set (ar_wal (wr_archive w)) - set (ar_wal (wr_archive (sample_writer [])))"
    "(1, sample_row 15) \<notin> set (ar_wal (wr_archive w))"
    by (simp_all add: w2, simp_all add: sample_archive_def sample_row_def)
  have "sample_row 40 \<in> set (live_wal (wr_archive w) 1 (row_stream (sample_row 40)))"
    using commit_tick_stores_live_rows [OF maps_ok_sample_writer w] rows(1) by blast
  then have "sample_row 40 \<in> set (live_wal (wr_archive w) 1 (str ''cpu''))" by (simp add: sample_row_def)
  with rows w show ?thesis by blast
qed

definition deferring_writer :: writer_state where
  "deferring_writer = (sample_writer (replicate 4 (Some DatabaseBusy)))
     \<lparr>wr_deferred := (\<lambda>_. [])(1 := [(str ''cpu'', 10)])\<rparr>"

theorem evict_spares_deferred_witness:
  "\<exists>w2 r. handle_evict sample_env 1 100 None None deferring_writer = (Running w2, r)
     \<and> live_wal (wr_archive w2) 1 (str ''cpu'') = [sample_row 25, sample_row 30]"
proof -
  have "(case retry_deferred_seals sample_env 1 deferring_writer of
      (Inr held, w1) \<Rightarrow> held = [str ''cpu''] \<and> live_wal (wr_archive w1) 1 (str ''cpu'') = [sample_row 25, sample_row 30]
    | _ \<Rightarrow> False)" by code_simp
  then obtain w1 where w1: "retry_deferred_seals sample_env 1 deferring_writer = (Inr [str ''cpu''], w1)"
    "live_wal (wr_archive w1) 1 (str ''cpu'') = [sample_row 25, sample_row 30]"
    by (auto split: prod.splits sum.splits)
  have "(case fst (handle_evict sample_env 1 100 None None deferring_writer) of Running _ \<Rightarrow> True | _ \<Rightarrow> False)" by code_simp
  then obtain w2 r where w2: "handle_evict sample_env 1 100 None None deferring_writer = (Running w2, r)"
    by (cases "handle_evict sample_env 1 100 None None deferring_writer") (auto split: outcome.splits)
  from evict_spares_deferred [OF w1(1) _ w2, of "str ''cpu''"] w1(2) w2 show ?thesis by simp
qed

theorem resume_source_correct_witness:
  "\<exists>r d' src. resume_source sample_env 1 50 sample_db = (Inr r, d') \<and> rs_last_ts r = Some 30
     \<and> find_source (db_archive d') 1 = Some src \<and> \<not> src_complete src
     \<and> row_times (db_archive sample_db) 1 \<noteq> {} \<and> Max (row_times (db_archive sample_db) 1) = 30"
proof -
  have "(case resume_source sample_env 1 50 sample_db of (Inr r, _) \<Rightarrow> rs_last_ts r = Some 30 | _ \<Rightarrow> False)" by code_simp
  then obtain r d' where r: "resume_source sample_env 1 50 sample_db = (Inr r, d')" "rs_last_ts r = Some 30"
    by (auto split: prod.splits sum.splits)
  from resume_source_correct [OF r(1)] r show ?thesis by (auto split: if_splits)
qed

lemma encode_off_row:
  assumes "find_source a sid = Some src" and "live_wal a sid s \<noteq> []" and "length (live_wal a sid s) \<le> max_rows"
    and "enc_encode encoder (with_source_uuid (new_context sid s) (src_uuid src)) (live_wal a sid s) = Encoded_Segment g"
    and "contract (live_wal a sid s) g" and "\<forall>r \<in> set (live_wal a sid s). row_ts r \<noteq> seg_last_ts g"
  shows "encode_batch a sid next_seq max_rows encoder (s # batch)
    = Inl (Panics ''the segment's last_ts is one of the rows, by the check above'')"
proof -
  let ?ctx = "with_source_uuid (new_context sid s) (src_uuid src)"
  have "materialize encoder ?ctx (live_wal a sid s) = Inr (Some g)"
    using assms(2,4,5) by (auto simp: materialize_def materialize_after_def contract_def neq_Nil_conv)
  then have "split_seal encoder ?ctx (live_wal a sid s) max_rows = Inr [g]"
    using assms(3) by (simp add: split_seal_def Let_def opt_list_def le_max_iff_disj)
  moreover have "find (\<lambda>r. row_ts r = seg_last_ts g) (rev (live_wal a sid s)) = None"
    using assms(6) by (simp add: find_None_iff)
  ultimately show ?thesis
    using assms(1,2) by (simp add: encode_batch_def source_uuid_def encode_stream_def)
qed

text \<open>
  C36: a segment within the encoder's contract whose end is the timestamp of no row ends
  the writer. Whatever the writer has stored, whichever stream it seals and whatever
  SQLite would answer: if the encoder, given the live rows of the first stream of the
  batch whole, returns a segment that passes every check of the contract but ends between
  two of the rows, the seal panics, the thread stops and nothing was written.
\<close>

theorem off_row_segment_ends_writer:
  assumes "find_source (wr_archive w) sid = Some src"
    and "live_wal (wr_archive w) sid s \<noteq> []" and "length (live_wal (wr_archive w) sid s) \<le> max_rows"
    and "enc_encode (we_encoder env) (with_source_uuid (new_context sid s) (src_uuid src))
           (live_wal (wr_archive w) sid s) = Encoded_Segment g"
    and "contract (live_wal (wr_archive w) sid s) g"
    and "\<forall>r \<in> set (live_wal (wr_archive w) sid s). row_ts r \<noteq> seg_last_ts g"
  shows "handle env (Seal sid (s # batch) max_rows) w =
    (Stopped (Inl (Panics ''the segment's last_ts is one of the rows, by the check above'')) w, NoReply)"
  using encode_off_row [OF assms, of "ss_next_seq (wr_seal w)" batch]
  by (simp add: handle_seal_def with_retries_def retry_backoff_def on_seal_def seal_batch_def Let_def numeral_eq_Suc)

definition gap_end_writer :: writer_state where
  "gap_end_writer = start_writer \<lparr>db_archive =
     sample_archive\<lparr>ar_segments := [], ar_indexes := [], ar_wal := map (\<lambda>ts. (1, sample_row ts)) [10, 20, 30]\<rparr>, db_faults = []\<rparr>"

lemma off_row_segment_ends_writer_witness:
  "\<exists>p w. handle (sample_env\<lparr>we_encoder := gap_end_encoder\<rparr>) (Seal 1 [str ''cpu''] 100) gap_end_writer
     = (Stopped (Inl (Panics p)) w, NoReply)"
proof -
  let ?g = "\<lparr>seg_bytes = [], seg_rows = 2, seg_first_ts = 10, seg_last_ts = 25, seg_index = None\<rparr>"
  obtain src where src: "find_source (wr_archive gap_end_writer) 1 = Some src"
    by (simp add: find_source_def gap_end_writer_def start_writer_def sample_archive_def)
  have live: "live_wal (wr_archive gap_end_writer) 1 (str ''cpu'') = map sample_row [10, 20, 30]" by code_simp
  have "contract (map sample_row [10, 20, 30]) ?g" by (simp add: contract_def covered_rows_def sample_row_def)
  from off_row_segment_ends_writer [OF src, of "str ''cpu''" 100 "sample_env\<lparr>we_encoder := gap_end_encoder\<rparr>" ?g "[]"] this
  show ?thesis by (auto simp: live gap_end_encoder_def plain_encoder_def sample_row_def)
qed

theorem finalize_correct_witness:
  "\<exists>w'. fst (handle sample_env (Finalize 1 (30, 7)) (sample_writer [])) = Running w'
     \<and> (\<exists>src'. find_source (wr_archive w') 1 = Some src' \<and> src_complete src') \<and> wr_finalized w' = 1"
proof -
  have "(case fst (handle sample_env (Finalize 1 (30, 7)) (sample_writer [])) of Running _ \<Rightarrow> True | _ \<Rightarrow> False)" by code_simp
  then obtain w' r where w': "handle sample_env (Finalize 1 (30, 7)) (sample_writer []) = (Running w', r)"
    by (cases "handle sample_env (Finalize 1 (30, 7)) (sample_writer [])") (auto split: outcome.splits)
  have "\<exists>src. find_source (wr_archive (sample_writer [])) 1 = Some src"
    by (simp add: find_source_def sample_archive_def)
  then obtain src where "find_source (wr_archive (sample_writer [])) 1 = Some src" ..
  from finalize_correct [OF w' this] w' show ?thesis by (simp add: sample_writer_def start_writer_def)
qed

text \<open>A database that stays busy for every attempt at every source.\<close>

lemma busy_attempts:
  assumes "db_faults (ss_db (wr_seal w)) = replicate 4 (Some DatabaseBusy) @ fs"
  shows "\<exists>e w'. with_retries is_retryable (on_db (transaction (unit_body f))) w = (Inl e, w') \<and> is_retryable e
     \<and> \<not> is_constraint e \<and> db_faults (ss_db (wr_seal w')) = fs \<and> wr_dropped w' = wr_dropped w"
proof -
  have busy: "\<exists>e s'. on_db (transaction (unit_body f)) s = (Inl e, s') \<and> is_retryable e \<and> \<not> is_constraint e
      \<and> db_faults (ss_db (wr_seal s')) = gs \<and> wr_dropped s' = wr_dropped s"
    if "db_faults (ss_db (wr_seal s)) = Some DatabaseBusy # gs" for s gs
    using that
    by (simp add: on_db_def transaction_def next_fault_def set_db_def retryable_code_def)
  have "\<exists>e w'. retry_from n is_retryable (on_db (transaction (unit_body f))) w = (Inl e, w') \<and> is_retryable e
     \<and> \<not> is_constraint e \<and> db_faults (ss_db (wr_seal w')) = fs \<and> wr_dropped w' = wr_dropped w"
    if "db_faults (ss_db (wr_seal w)) = replicate (Suc n) (Some DatabaseBusy) @ fs" for n w
    using that
  proof (induction n arbitrary: w)
    case 0
    then show ?case using busy [of w fs] by simp
  next
    case (Suc n)
    then obtain e s' where s': "on_db (transaction (unit_body f)) w = (Inl e, s')" "is_retryable e"
      "db_faults (ss_db (wr_seal s')) = replicate (Suc n) (Some DatabaseBusy) @ fs" "wr_dropped s' = wr_dropped w"
      using busy [of w "replicate (Suc n) (Some DatabaseBusy) @ fs"] by auto
    from Suc.IH [OF s'(3)] s' show ?case by simp
  qed
  from this [of w 3] assms show ?thesis by (simp add: with_retries_def retry_backoff_def numeral_3_eq_3 eval_nat_numeral)
qed

lemma busy_sources:
  assumes "ticks \<noteq> []" "wr_dropped w + length ticks \<ge> 30"
    and "db_faults (ss_db (wr_seal w)) = concat (replicate (length ticks) (replicate 4 (Some DatabaseBusy)))"
  shows "\<not> is_ok (fst (commit_sources ticks any w))"
  using assms
proof (induction ticks arbitrary: w)
  case Nil
  then show ?case by simp
next
  case (Cons t ticks)
  obtain sid rows where t: "t = (sid, rows)" by force
  obtain e w' where w': "with_retries is_retryable (on_db (transaction (unit_body (insert_wal_rows sid rows)))) w = (Inl e, w')"
    "is_retryable e" "\<not> is_constraint e" "wr_dropped w' = wr_dropped w"
    "db_faults (ss_db (wr_seal w')) = concat (replicate (length ticks) (replicate 4 (Some DatabaseBusy)))"
    using busy_attempts [of w "concat (replicate (length ticks) (replicate 4 (Some DatabaseBusy)))" "insert_wal_rows sid rows"]
      Cons.prems(3) by auto
  let ?w = "w'\<lparr>wr_dropped := wr_dropped w' + 1\<rparr>"
  show ?case
  proof (cases "wr_dropped w + 1 \<ge> 30")
    case True
    then show ?thesis using w' by (simp add: t health_dropped_def max_consecutive_dropped_ticks_def)
  next
    case False
    then have "ticks \<noteq> []" using Cons.prems(2) by auto
    with False w' Cons.IH [of ?w] Cons.prems(2) show ?thesis
      by (simp add: t health_dropped_def max_consecutive_dropped_ticks_def)
  qed
qed

text \<open>Thirty sources, each with one row in the tick; the first one's row is already stored.\<close>

definition thirty_sources :: writer_state where
  "thirty_sources = start_writer \<lparr>db_archive = create_archive\<lparr>
       ar_sources := map (\<lambda>i. \<lparr>src_id = int i, src_meta = sample_meta, src_uuid = None, src_complete = False,
                     src_heartbeat = None, src_interval = None\<rparr>) [1 ..< 31],
       ar_wal := [(1, sample_row 25)]\<rparr>,
     db_faults = None # concat (replicate 30 (replicate 4 (Some DatabaseBusy)))\<rparr>"

definition thirty_rows :: "tick list" where
  "thirty_rows = map (\<lambda>i. (int i, [sample_row 25])) [1 ..< 31]"

lemma thirty_batch:
  "\<exists>e w. with_retries is_retryable (on_db (transaction (unit_body (insert_wal_rows_batch thirty_rows)))) thirty_sources = (Inl e, w)
    \<and> is_constraint e \<and> wr_dropped w = 0
    \<and> db_faults (ss_db (wr_seal w)) = concat (replicate 30 (replicate 4 (Some DatabaseBusy)))"
proof -
  have rows: "thirty_rows = (1, [sample_row 25]) # map (\<lambda>i. (int i, [sample_row 25])) [2 ..< 31]"
    by (simp add: thirty_rows_def upt_conv_Cons del: upt_Suc)
  have "insert_wal_rows_batch thirty_rows (wr_archive thirty_sources) = constraint_error ''failed to insert WAL row''"
    by (simp add: rows insert_wal_rows_batch_def insert_wal_rows_def insert_wal_row_def constraint_error_def
        thirty_sources_def start_writer_def)
  then show ?thesis
    by (simp add: with_retries_def retry_backoff_def on_db_def transaction_def unit_body_def next_fault_def set_db_def
        constraint_error_def retryable_code_def thirty_sources_def start_writer_def)
qed

text \<open>
  The bound on consecutive dropped ticks counts sources, not ticks: one tick of
  thirty sources whose batch collides, followed by a busy database, ends a writer
  that had dropped nothing.
\<close>

theorem one_tick_can_stop_the_writer:
  "wr_dropped thirty_sources = 0 \<and> \<not> is_ok (fst (commit_tick thirty_rows thirty_sources))"
proof -
  have marks: "wr_floors thirty_sources = (\<lambda>_. None)" "ss_watermarks (wr_seal thirty_sources) = (\<lambda>_. None)"
    by (auto simp: thirty_sources_def start_writer_def sealed_watermarks_def watermark_None stream_rows_def create_archive_def)
  have adm: "admitted (wr_floors thirty_sources) (ss_watermarks (wr_seal thirty_sources)) thirty_rows = thirty_rows"
    unfolding marks by (simp add: admitted_def floored_def shadows_def opt_holds_def Let_def case_prod_beta)
  have cnt: "thirty_sources\<lparr>wr_shadowed := count_shadowed (wr_floors thirty_sources) (ss_watermarks (wr_seal thirty_sources))
      thirty_rows (wr_shadowed thirty_sources)\<rparr> = thirty_sources"
  proof -
    have "foldl (\<lambda>c (sid, rows). c(sid := c sid + length (filter (shadows (\<lambda>_. None) sid) rows))) c ts = c" for c ts
      by (induction ts arbitrary: c) (auto simp: shadows_def opt_holds_def)
    then show ?thesis unfolding marks by (simp add: count_shadowed_def)
  qed
  obtain e w where w: "with_retries is_retryable (on_db (transaction (unit_body (insert_wal_rows_batch thirty_rows)))) thirty_sources = (Inl e, w)"
    "is_constraint e" "wr_dropped w = 0" "db_faults (ss_db (wr_seal w)) = concat (replicate 30 (replicate 4 (Some DatabaseBusy)))"
    using thirty_batch by blast
  have len: "length thirty_rows = 30" "thirty_rows \<noteq> []" by (simp_all add: thirty_rows_def)
  have "\<not> is_ok (fst (commit_sources thirty_rows False w))"
    by (rule busy_sources) (simp_all add: len w(3,4))
  then obtain e' w3 where "commit_sources thirty_rows False w = (Inl e', w3)"
    by (cases "commit_sources thirty_rows False w"; cases "fst (commit_sources thirty_rows False w)") auto
  then have "fst (commit_tick thirty_rows thirty_sources) = Inl e'"
    unfolding commit_tick_def Let_def adm cnt w(1) using w(2) len(2) by simp
  then show ?thesis by (simp add: thirty_sources_def start_writer_def)
qed

definition busy_countdown :: "nat \<Rightarrow> unit result \<times> nat" where
  "busy_countdown n = (if n = 0 then Inr () else Inl (Sqlite ''busy'' (SqliteFailure DatabaseBusy)), n - 1)"

theorem with_retries_bounded_witness:
  "with_retries is_retryable busy_countdown 9 = busy_countdown (after_runs 3 busy_countdown 9)
     \<and> \<not> is_ok (fst (with_retries is_retryable busy_countdown 9))"
proof -
  have w: "with_retries is_retryable busy_countdown 9 = (Inl (Sqlite ''busy'' (SqliteFailure DatabaseBusy)), 5)"
    by code_simp
  have r: "is_retryable (Sqlite ''busy'' (SqliteFailure DatabaseBusy))" by code_simp
  obtain k where k: "with_retries is_retryable busy_countdown 9 = busy_countdown (after_runs k busy_countdown 9)"
    "\<forall>e. fst (with_retries is_retryable busy_countdown 9) = Inl e \<longrightarrow> is_retryable e \<longrightarrow> k = 3"
    using with_retries_bounded [of is_retryable busy_countdown 9] by blast
  have "k = 3" using k(2) [unfolded w] r by auto
  with k(1) have "with_retries is_retryable busy_countdown 9 = busy_countdown (after_runs 3 busy_countdown 9)"
    by simp
  moreover have "\<not> is_ok (fst (with_retries is_retryable busy_countdown 9))" unfolding w by simp
  ultimately show ?thesis by (intro conjI)
qed

end
