(* ===== verification/Frames.thy ===== *)
theory Frames
  imports Segment_Contract
begin

section \<open>Replication frames (\<open>src/replicate/frame.rs\<close>)\<close>

text \<open>
  What a publisher emits and a subscriber applies: one constructor per variant of
  \<open>Frame\<close>, its fields in the order the source declares them. \<open>frame_ok\<close> is what
  the Rust types say of a frame: integers at their width, strings that are UTF-8,
  maps in key order.
\<close>

type_synonym index_state = "u64 \<times> u64"

definition no_index_state :: index_state where "no_index_state = (0, 0)"

datatype index_kind = Full | Delta

datatype frame =
    Handshake u32 "rstring option" label_map label_map i64 bool
      \<comment> \<open>source, uuid, labels, metadata, clock anchor, complete\<close>
  | Index u32 rstring i64 index_kind index_state bytes
      \<comment> \<open>source, stream, ts, kind, state, blob\<close>
  | Rows u32 u64 index_state "wal_row list"
      \<comment> \<open>source, seq, index state, rows\<close>
  | Segment u32 rstring segment_meta bytes "bytes option"
      \<comment> \<open>source, stream, meta, bytes, caller index\<close>
  | ClockOffset u32 i64 i64
      \<comment> \<open>source, ts, offset\<close>
  | SourceUpdate u32 i64 label_map label_map
      \<comment> \<open>source, ts, labels, metadata\<close>

fun frame_source :: "frame \<Rightarrow> u32" where
  "frame_source (Handshake source _ _ _ _ _) = source"
| "frame_source (Index source _ _ _ _ _) = source"
| "frame_source (Rows source _ _ _) = source"
| "frame_source (Segment source _ _ _ _) = source"
| "frame_source (ClockOffset source _ _) = source"
| "frame_source (SourceUpdate source _ _ _) = source"

subsection \<open>UTF-8\<close>

text \<open>
  \<open>String::from_utf8\<close> of the standard library: the well-formed byte sequences of
  the Unicode standard. \<open>utf8_step\<close> drops one encoded scalar value.
\<close>

definition between :: "u8 \<Rightarrow> u8 \<Rightarrow> u8 \<Rightarrow> bool" where
  "between lo b hi \<longleftrightarrow> lo \<le> b \<and> b \<le> hi"

fun continuation :: "nat \<Rightarrow> bytes \<Rightarrow> bytes option" where
  "continuation 0 bs = Some bs"
| "continuation (Suc n) [] = None"
| "continuation (Suc n) (b # bs) = (if between 0x80 b 0xBF then continuation n bs else None)"

fun second_between :: "u8 \<Rightarrow> u8 \<Rightarrow> nat \<Rightarrow> bytes \<Rightarrow> bytes option" where
  "second_between lo hi n [] = None"
| "second_between lo hi n (b # bs) = (if between lo b hi then continuation n bs else None)"

fun utf8_step :: "bytes \<Rightarrow> bytes option" where
  "utf8_step [] = None"
| "utf8_step (b # bs) =
    (if b < 0x80 then Some bs
     else if between 0xC2 b 0xDF then continuation 1 bs
     else if b = 0xE0 then second_between 0xA0 0xBF 1 bs
     else if b = 0xED then second_between 0x80 0x9F 1 bs
     else if between 0xE1 b 0xEF then continuation 2 bs
     else if b = 0xF0 then second_between 0x90 0xBF 2 bs
     else if b = 0xF4 then second_between 0x80 0x8F 2 bs
     else if between 0xF1 b 0xF3 then continuation 3 bs
     else None)"

lemma continuation_length: "continuation n bs = Some rest \<Longrightarrow> length bs = length rest + n"
  by (induction n bs rule: continuation.induct) (auto split: if_splits)

lemma second_between_length: "second_between lo hi n bs = Some rest \<Longrightarrow> length bs = Suc (length rest + n)"
  by (cases bs) (auto split: if_splits dest: continuation_length)

lemma utf8_step_length: "utf8_step bs = Some rest \<Longrightarrow> length rest < length bs"
  by (cases bs) (auto split: if_splits dest: continuation_length second_between_length)

function utf8_ok :: "bytes \<Rightarrow> bool" where
  "utf8_ok bs =
    (if bs = [] then True
     else case utf8_step bs of None \<Rightarrow> False | Some rest \<Rightarrow> utf8_ok rest)"
  by pat_completeness auto

termination utf8_ok
  by (relation "measure length") (auto dest: utf8_step_length)

declare utf8_ok.simps [simp del]

lemma utf8_ok_Nil [simp]: "utf8_ok []"
  by (simp add: utf8_ok.simps)

lemma utf8_ok_ascii: "\<forall>b \<in> set bs. b < 0x80 \<Longrightarrow> utf8_ok bs"
  by (induction bs) (simp_all add: utf8_ok.simps)

subsection \<open>Well-formed frames\<close>

definition map_ok :: "label_map \<Rightarrow> bool" where
  "map_ok m \<longleftrightarrow> bt_ok m \<and> (\<forall>(k, v) \<in> set m. utf8_ok k \<and> utf8_ok v)"

definition row_ok :: "wal_row \<Rightarrow> bool" where
  "row_ok r \<longleftrightarrow> utf8_ok (row_stream r) \<and> i64_ok (row_ts r) \<and> i64_ok (row_wall_offset r)"

definition meta_ok :: "segment_meta \<Rightarrow> bool" where
  "meta_ok m \<longleftrightarrow> meta_rows m < 2 ^ 64 \<and> i64_ok (meta_first_ts m) \<and> i64_ok (meta_last_ts m)"

fun frame_ok :: "frame \<Rightarrow> bool" where
  "frame_ok (Handshake _ uuid labels metadata anchor _) \<longleftrightarrow>
     (\<forall>u. uuid = Some u \<longrightarrow> utf8_ok u) \<and> map_ok labels \<and> map_ok metadata \<and> i64_ok anchor"
| "frame_ok (Index _ stream ts _ _ _) \<longleftrightarrow> utf8_ok stream \<and> i64_ok ts"
| "frame_ok (Rows _ _ _ rows) \<longleftrightarrow> (\<forall>r \<in> set rows. row_ok r)"
| "frame_ok (Segment _ stream meta _ _) \<longleftrightarrow> utf8_ok stream \<and> meta_ok meta"
| "frame_ok (ClockOffset _ ts offset) \<longleftrightarrow> i64_ok ts \<and> i64_ok offset"
| "frame_ok (SourceUpdate _ ts labels metadata) \<longleftrightarrow> i64_ok ts \<and> map_ok labels \<and> map_ok metadata"

end
