(* ===== verification/Wire.thy ===== *)
theory Wire
  imports Frames
begin

section \<open>Frames as bytes (\<open>src/replicate/wire.rs\<close>)\<close>

text \<open>
  The codec and its reader. An encoder appends to the caller's buffer and keeps
  what it had appended when it fails, so a \<open>put\<close> returns the buffer beside its
  result. A decoder moves a cursor over one payload.
\<close>

subsection \<open>Constants\<close>

definition magic :: bytes where "magic = str ''dendro-repl'' @ [0]"
definition protocol_version :: nat where "protocol_version = 1"
definition max_frame_bytes :: nat where "max_frame_bytes = 64 * 1024 * 1024"
definition length_prefix_bytes :: nat where "length_prefix_bytes = 4"

definition kind_handshake :: u8 where "kind_handshake = 1"
definition kind_index :: u8 where "kind_index = 2"
definition kind_rows :: u8 where "kind_rows = 3"
definition kind_segment :: u8 where "kind_segment = 4"
definition kind_clock_offset :: u8 where "kind_clock_offset = 5"
definition kind_source_update :: u8 where "kind_source_update = 6"

lemmas kind_defs = kind_handshake_def kind_index_def kind_rows_def kind_segment_def
  kind_clock_offset_def kind_source_update_def

definition index_full :: u8 where "index_full = 0"
definition index_delta :: u8 where "index_delta = 1"

definition malformed :: "string \<Rightarrow> error" where
  "malformed what = Message (''malformed replication frame: '' @ what)"

text \<open>A slice is indexed by a 64-bit \<open>usize\<close>.\<close>

definition usize_max :: nat where "usize_max = 2 ^ 64 - 1"

subsection \<open>Little-endian integers\<close>

text \<open>\<open>to_le_bytes\<close> of a value below \<open>256 ^ n\<close>, and \<open>from_le_bytes\<close>.\<close>

fun le_bytes :: "nat \<Rightarrow> nat \<Rightarrow> bytes" where
  "le_bytes 0 v = []"
| "le_bytes (Suc n) v = of_nat (v mod 256) # le_bytes n (v div 256)"

fun from_le :: "bytes \<Rightarrow> nat" where
  "from_le [] = 0"
| "from_le (b # bs) = unat b + 256 * from_le bs"

text \<open>Two's complement.\<close>

definition i64_bits :: "i64 \<Rightarrow> nat" where
  "i64_bits v = nat (v mod 2 ^ 64)"

definition i64_of_bits :: "nat \<Rightarrow> i64" where
  "i64_of_bits n = (if n < 2 ^ 63 then int n else int n - 2 ^ 64)"

subsection \<open>Encoding\<close>

type_synonym put = "bytes \<Rightarrow> unit result \<times> bytes"

definition then_put :: "put \<Rightarrow> put \<Rightarrow> put" where
  "then_put p q = (\<lambda>out. case p out of (Inl e, o1) \<Rightarrow> (Inl e, o1) | (Inr _, o1) \<Rightarrow> q o1)"

definition done_put :: put where "done_put = (\<lambda>out. (Inr (), out))"

fun put_all :: "put list \<Rightarrow> put" where
  "put_all [] = done_put"
| "put_all (p # ps) = then_put p (put_all ps)"

definition put_raw :: "bytes \<Rightarrow> put" where "put_raw v out = (Inr (), out @ v)"

definition put_u8 :: "u8 \<Rightarrow> put" where "put_u8 v = put_raw [v]"
definition put_u32 :: "u32 \<Rightarrow> put" where "put_u32 v = put_raw (le_bytes 4 (unat v))"
definition put_u64 :: "u64 \<Rightarrow> put" where "put_u64 v = put_raw (le_bytes 8 (unat v))"
definition put_i64 :: "i64 \<Rightarrow> put" where "put_i64 v = put_raw (le_bytes 8 (i64_bits v))"

text \<open>\<open>u32::try_from\<close> of a length, written by \<open>put_u32\<close>.\<close>

definition put_length :: "string \<Rightarrow> nat \<Rightarrow> put" where
  "put_length what n =
    (if n < 2 ^ 32 then put_u32 (of_nat n) else (\<lambda>out. (Inl (Message what), out)))"

definition put_bytes :: "bytes \<Rightarrow> put" where
  "put_bytes v = put_all [put_length ''a replication field is too large to encode'' (length v), put_raw v]"

definition put_str :: "rstring \<Rightarrow> put" where "put_str v = put_bytes v"

definition put_entry :: "rstring \<times> rstring \<Rightarrow> put" where
  "put_entry = (\<lambda>(k, v). put_all [put_str k, put_str v])"

definition put_map :: "label_map \<Rightarrow> put" where
  "put_map m =
     then_put (put_length ''a replication map is too large to encode'' (length m))
       (put_all (map put_entry m))"

definition put_opt_bytes :: "bytes option \<Rightarrow> put" where
  "put_opt_bytes v = (case v of None \<Rightarrow> put_u8 0 | Some b \<Rightarrow> put_all [put_u8 1, put_bytes b])"

definition put_bool :: "bool \<Rightarrow> put" where
  "put_bool b = put_u8 (if b then 1 else 0)"

definition put_index_kind :: "index_kind \<Rightarrow> put" where
  "put_index_kind k = put_u8 (case k of Full \<Rightarrow> index_full | Delta \<Rightarrow> index_delta)"

definition put_row :: "wal_row \<Rightarrow> put" where
  "put_row r = put_all [put_str (row_stream r), put_i64 (row_ts r), put_i64 (row_wall_offset r),
     put_bytes (row_payload r)]"

fun put_payload :: "frame \<Rightarrow> put" where
  "put_payload (Handshake source uuid labels metadata anchor complete) =
     put_all [put_u8 kind_handshake, put_u32 source, put_opt_bytes uuid, put_map labels,
       put_map metadata, put_i64 anchor, put_bool complete]"
| "put_payload (Index source stream ts kind state blob) =
     put_all [put_u8 kind_index, put_u32 source, put_str stream, put_i64 ts, put_index_kind kind,
       put_u64 (fst state), put_u64 (snd state), put_bytes blob]"
| "put_payload (Rows source seq state rows) =
     put_all [put_u8 kind_rows, put_u32 source, put_u64 seq, put_u64 (fst state), put_u64 (snd state),
       put_length ''a replication frame holds too many rows to encode'' (length rows),
       put_all (map put_row rows)]"
| "put_payload (Segment source stream meta body index) =
     put_all [put_u8 kind_segment, put_u32 source, put_str stream, put_u64 (of_nat (meta_rows meta)),
       put_i64 (meta_first_ts meta), put_i64 (meta_last_ts meta), put_bytes body, put_opt_bytes index]"
| "put_payload (ClockOffset source ts offset) =
     put_all [put_u8 kind_clock_offset, put_u32 source, put_i64 ts, put_i64 offset]"
| "put_payload (SourceUpdate source ts labels metadata) =
     put_all [put_u8 kind_source_update, put_u32 source, put_i64 ts, put_map labels, put_map metadata]"

text \<open>
  The length is reserved, the payload appended, and the length filled in. A payload
  over the limit is taken off the buffer again; a field that cannot be encoded
  returns with what was appended before it.
\<close>

definition encode_frame :: "frame \<Rightarrow> put" where
  "encode_frame f out =
    (let len_at = length out; body_at = len_at + length_prefix_bytes
     in case then_put (put_u32 0) (put_payload f) out of
          (Inl e, o1) \<Rightarrow> (Inl e, o1)
        | (Inr _, o1) \<Rightarrow>
            let body = length o1 - body_at
            in if body > max_frame_bytes
               then (Inl (Message ''a replication frame exceeds the limit''), take len_at o1)
               else (Inr (), take len_at o1 @ le_bytes 4 body @ drop body_at o1))"

definition encode :: "frame \<Rightarrow> bytes result" where
  "encode f = (case encode_frame f [] of (Inl e, _) \<Rightarrow> Inl e | (Inr _, out) \<Rightarrow> Inr out)"

definition write_preamble :: "bytes \<Rightarrow> bytes" where
  "write_preamble out = out @ magic @ le_bytes 2 protocol_version"

subsection \<open>Decoding\<close>

record cursor =
  cur_bytes :: bytes
  cur_at :: nat

type_synonym 'a get = "cursor \<Rightarrow> ('a \<times> cursor) result"

definition new_cursor :: "bytes \<Rightarrow> cursor" where
  "new_cursor bs = \<lparr>cur_bytes = bs, cur_at = 0\<rparr>"

definition forward :: "nat \<Rightarrow> cursor \<Rightarrow> cursor" where
  "forward n c = c\<lparr>cur_at := cur_at c + n\<rparr>"

definition get_take :: "nat \<Rightarrow> bytes get" where
  "get_take n c =
    (if cur_at c + n > usize_max then Inl (malformed ''a length overflowed'')
     else if cur_at c + n > length (cur_bytes c) then Inl (malformed ''it ends early'')
     else Inr (take n (drop (cur_at c) (cur_bytes c)), forward n c))"

definition then_get :: "'a get \<Rightarrow> ('a \<Rightarrow> 'b get) \<Rightarrow> 'b get" where
  "then_get g h = (\<lambda>c. rbind (g c) (\<lambda>(x, c'). h x c'))"

definition return_get :: "'a \<Rightarrow> 'a get" where "return_get x = (\<lambda>c. Inr (x, c))"
definition fail_get :: "error \<Rightarrow> 'a get" where "fail_get e = (\<lambda>c. Inl e)"

definition get_u8 :: "u8 get" where "get_u8 = then_get (get_take 1) (\<lambda>b. return_get (hd b))"
definition get_u32 :: "u32 get" where
  "get_u32 = then_get (get_take 4) (\<lambda>b. return_get (of_nat (from_le b)))"
definition get_u64 :: "u64 get" where
  "get_u64 = then_get (get_take 8) (\<lambda>b. return_get (of_nat (from_le b)))"
definition get_i64 :: "i64 get" where
  "get_i64 = then_get (get_take 8) (\<lambda>b. return_get (i64_of_bits (from_le b)))"

definition get_bytes :: "bytes get" where "get_bytes = then_get get_u32 (\<lambda>n. get_take (unat n))"

definition from_utf8 :: "string \<Rightarrow> bytes \<Rightarrow> rstring get" where
  "from_utf8 what raw = (if utf8_ok raw then return_get raw else fail_get (malformed what))"

definition get_string :: "rstring get" where
  "get_string = then_get get_bytes (from_utf8 ''a string field is not UTF-8'')"

fun get_entries :: "nat \<Rightarrow> label_map \<Rightarrow> label_map get" where
  "get_entries 0 m = return_get m"
| "get_entries (Suc n) m =
     then_get get_string (\<lambda>k. then_get get_string (\<lambda>v. get_entries n (bt_insert k v m)))"

definition get_map :: "label_map get" where
  "get_map = then_get get_u32 (\<lambda>n. get_entries (unat n) [])"

definition get_opt_bytes :: "bytes option get" where
  "get_opt_bytes = then_get get_u8 (\<lambda>b.
     if b = 0 then return_get None
     else if b = 1 then then_get get_bytes (\<lambda>v. return_get (Some v))
     else fail_get (malformed ''not a presence byte; it is 0 or 1''))"

definition get_bool :: "bool get" where
  "get_bool = then_get get_u8 (\<lambda>b.
     if b = 0 then return_get False
     else if b = 1 then return_get True
     else fail_get (malformed ''not a boolean; it is 0 or 1''))"

definition get_uuid :: "rstring option get" where
  "get_uuid = then_get get_opt_bytes (\<lambda>raw. case raw of
     None \<Rightarrow> return_get None
   | Some b \<Rightarrow> then_get (from_utf8 ''a uuid is not UTF-8'' b) (\<lambda>u. return_get (Some u)))"

definition get_index_kind :: "index_kind get" where
  "get_index_kind = then_get get_u8 (\<lambda>b.
     if b = index_full then return_get Full
     else if b = index_delta then return_get Delta
     else fail_get (malformed ''not an index kind''))"

definition get_row :: "wal_row get" where
  "get_row = then_get get_string (\<lambda>stream. then_get get_i64 (\<lambda>ts. then_get get_i64 (\<lambda>offset.
     then_get get_bytes (\<lambda>row. return_get
       \<lparr>row_stream = stream, row_ts = ts, row_wall_offset = offset, row_payload = row\<rparr>))))"

fun get_rows :: "nat \<Rightarrow> wal_row list \<Rightarrow> wal_row list get" where
  "get_rows 0 rows = return_get rows"
| "get_rows (Suc n) rows = then_get get_row (\<lambda>r. get_rows n (rows @ [r]))"

definition get_handshake :: "frame get" where
  "get_handshake = then_get get_u32 (\<lambda>source. then_get get_uuid (\<lambda>uuid. then_get get_map (\<lambda>labels.
     then_get get_map (\<lambda>metadata. then_get get_i64 (\<lambda>anchor. then_get get_bool (\<lambda>complete.
       return_get (Handshake source uuid labels metadata anchor complete)))))))"

definition get_index :: "frame get" where
  "get_index = then_get get_u32 (\<lambda>source. then_get get_string (\<lambda>stream. then_get get_i64 (\<lambda>ts.
     then_get get_index_kind (\<lambda>kind. then_get get_u64 (\<lambda>s0. then_get get_u64 (\<lambda>s1.
       then_get get_bytes (\<lambda>blob. return_get (Index source stream ts kind (s0, s1) blob))))))))"

definition get_rows_frame :: "frame get" where
  "get_rows_frame = then_get get_u32 (\<lambda>source. then_get get_u64 (\<lambda>seq. then_get get_u64 (\<lambda>s0.
     then_get get_u64 (\<lambda>s1. then_get get_u32 (\<lambda>count. then_get (get_rows (unat count) [])
       (\<lambda>rows. return_get (Rows source seq (s0, s1) rows)))))))"

definition get_segment :: "frame get" where
  "get_segment = then_get get_u32 (\<lambda>source. then_get get_string (\<lambda>stream. then_get get_u64 (\<lambda>rows.
     then_get get_i64 (\<lambda>first. then_get get_i64 (\<lambda>last. then_get get_bytes (\<lambda>body.
       then_get get_opt_bytes (\<lambda>index. return_get (Segment source stream
         \<lparr>meta_rows = unat rows, meta_first_ts = first, meta_last_ts = last\<rparr> body index))))))))"

definition get_clock_offset :: "frame get" where
  "get_clock_offset = then_get get_u32 (\<lambda>source. then_get get_i64 (\<lambda>ts. then_get get_i64 (\<lambda>offset.
     return_get (ClockOffset source ts offset))))"

definition get_source_update :: "frame get" where
  "get_source_update = then_get get_u32 (\<lambda>source. then_get get_i64 (\<lambda>ts. then_get get_map (\<lambda>labels.
     then_get get_map (\<lambda>metadata. return_get (SourceUpdate source ts labels metadata)))))"

definition finish :: "cursor \<Rightarrow> unit result" where
  "finish c = (if cur_at c \<noteq> length (cur_bytes c) then Inl (malformed ''trailing bytes after its fields'') else Inr ())"

definition fields_of :: "u8 \<Rightarrow> frame get option" where
  "fields_of kind =
    (if kind = kind_handshake then Some get_handshake
     else if kind = kind_index then Some get_index
     else if kind = kind_rows then Some get_rows_frame
     else if kind = kind_segment then Some get_segment
     else if kind = kind_clock_offset then Some get_clock_offset
     else if kind = kind_source_update then Some get_source_update
     else None)"

definition decode_known :: "bytes \<Rightarrow> frame option result" where
  "decode_known payload =
     rbind (get_u8 (new_cursor payload)) (\<lambda>(kind, c).
       case fields_of kind of
         None \<Rightarrow> Inr None
       | Some decode \<Rightarrow> rbind (decode c) (\<lambda>(f, c'). rbind (finish c') (\<lambda>_. Inr (Some f))))"

definition decode_payload :: "bytes \<Rightarrow> frame result" where
  "decode_payload payload =
     rbind (decode_known payload) (\<lambda>known. case known of
       Some f \<Rightarrow> Inr f
     | None \<Rightarrow> Inl (malformed ''not a frame kind this build reads''))"

subsection \<open>Reading a byte stream\<close>

text \<open>
  \<open>R: Read\<close>: the bytes the transport still delivers, and how it ends: the end of
  the stream, or an I/O error. \<open>read_exact\<close> takes all of its buffer or fails.
\<close>

datatype io_error = UnexpectedEof | IoError string

record byte_source =
  io_bytes :: bytes
  io_fault :: "string option"

definition read_exact :: "nat \<Rightarrow> byte_source \<Rightarrow> (io_error + bytes) \<times> byte_source" where
  "read_exact n s =
    (if n \<le> length (io_bytes s)
     then (Inr (take n (io_bytes s)), s\<lparr>io_bytes := drop n (io_bytes s)\<rparr>)
     else (Inl (case io_fault s of None \<Rightarrow> UnexpectedEof | Some e \<Rightarrow> IoError e), s\<lparr>io_bytes := []\<rparr>))"

record frame_reader =
  fr_inner :: byte_source
  fr_buf :: bytes
  fr_skipped :: nat

definition new_reader :: "byte_source \<Rightarrow> frame_reader result" where
  "new_reader inner =
    (case read_exact 12 inner of
       (Inl _, _) \<Rightarrow> Inl (Message ''failed to read the replication preamble'')
     | (Inr m, inner1) \<Rightarrow>
         if m \<noteq> magic then Inl (Message ''this is not a dendro replication stream: the magic does not match'')
         else case read_exact 2 inner1 of
           (Inl _, _) \<Rightarrow> Inl (Message ''failed to read the replication preamble'')
         | (Inr v, inner2) \<Rightarrow>
             if from_le v \<noteq> protocol_version then Inl (Message ''replication protocol version: this build speaks v1'')
             else Inr \<lparr>fr_inner = inner2, fr_buf = [], fr_skipped = 0\<rparr>)"

definition read_payload :: "frame_reader \<Rightarrow> unit option result \<times> frame_reader" where
  "read_payload r =
    (case read_exact length_prefix_bytes (fr_inner r) of
       (Inl UnexpectedEof, s) \<Rightarrow> (Inr None, r\<lparr>fr_inner := s\<rparr>)
     | (Inl (IoError _), s) \<Rightarrow> (Inl (Message ''failed to read a replication frame length''), r\<lparr>fr_inner := s\<rparr>)
     | (Inr prefix, s) \<Rightarrow>
         let len = from_le prefix
         in if len > max_frame_bytes
            then (Inl (Message ''a replication frame claims bytes above the limit''), r\<lparr>fr_inner := s\<rparr>)
            else case read_exact len s of
              (Inl _, s') \<Rightarrow> (Inl (Message ''failed to read a replication frame''),
                 r\<lparr>fr_inner := s', fr_buf := io_bytes s @ replicate (len - length (io_bytes s)) 0\<rparr>)
            | (Inr body, s') \<Rightarrow> (Inr (Some ()), r\<lparr>fr_inner := s', fr_buf := body\<rparr>))"

lemma read_payload_shrinks:
  "fst (read_payload r) = Inr (Some u) \<Longrightarrow>
   length (io_bytes (fr_inner (snd (read_payload r)))) < length (io_bytes (fr_inner r))"
  by (auto simp: read_payload_def read_exact_def Let_def length_prefix_bytes_def
      split: if_splits option.splits)

function next_frame :: "frame_reader \<Rightarrow> frame option result \<times> frame_reader" where
  "next_frame r =
    (case fst (read_payload r) of
       Inl e \<Rightarrow> (Inl e, snd (read_payload r))
     | Inr None \<Rightarrow> (Inr None, snd (read_payload r))
     | Inr (Some _) \<Rightarrow>
         case decode_known (fr_buf (snd (read_payload r))) of
           Inl e \<Rightarrow> (Inl e, snd (read_payload r))
         | Inr (Some f) \<Rightarrow> (Inr (Some f), snd (read_payload r))
         | Inr None \<Rightarrow> next_frame ((snd (read_payload r))\<lparr>fr_skipped := fr_skipped (snd (read_payload r)) + 1\<rparr>))"
  by pat_completeness auto

termination next_frame
  by (relation "measure (\<lambda>r. length (io_bytes (fr_inner r)))") (auto dest: read_payload_shrinks)

declare next_frame.simps [simp del]

end
