(* ===== verification/Wire_Codec.thy ===== *)
theory Wire_Codec
  imports Wire
begin

section \<open>The wire format: round trips, truncation, well-formedness\<close>

text \<open>
  A field's encoder and decoder as the locale \<open>field_codec\<close>, interpreted on every
  field of the wire; the round trip of each frame and of a stream of frames rests
  on its laws.
\<close>

subsection \<open>Little-endian integers\<close>

lemma length_le_bytes [simp]: "length (le_bytes n v) = n"
  by (induction n arbitrary: v) auto

lemma from_le_le_bytes: "from_le (le_bytes n v) = v mod 256 ^ n"
proof (induction n arbitrary: v)
  case 0
  then show ?case by simp
next
  case (Suc n)
  have "v mod (256 * 256 ^ n) = v mod 256 + 256 * (v div 256 mod 256 ^ n)"
    by (metis add.commute mod_mult2_eq)
  then show ?case using Suc by (simp add: unat_of_nat)
qed

lemma from_le_lt: "from_le bs < 256 ^ length bs"
proof (induction bs)
  case Nil
  then show ?case by simp
next
  case (Cons b bs)
  have "unat b < 256" using unsigned_less [of b] by simp
  then have "unat b + 256 * from_le bs < 256 + 256 * from_le bs" by simp
  also have "\<dots> \<le> 256 * 256 ^ length bs" using Cons by simp
  finally show ?case by simp
qed

lemma i64_roundtrip: "i64_ok v \<Longrightarrow> i64_of_bits (i64_bits v) = v"
proof -
  assume v: "i64_ok v"
  show ?thesis
  proof (cases "0 \<le> v")
    case True
    then have "v mod 2 ^ 64 = v" using v by (intro mod_pos_pos_trivial) (auto simp: i64_ok_def i64_max_def)
    then show ?thesis using True v by (auto simp: i64_of_bits_def i64_bits_def i64_ok_def i64_max_def)
  next
    case False
    then have m: "v mod 2 ^ 64 = v + 2 ^ 64"
      using v mod_pos_pos_trivial [of "v + 2 ^ 64" "2 ^ 64"]
      by (auto simp: i64_ok_def i64_min_def)
    then show ?thesis using False v
      by (auto simp: i64_of_bits_def i64_bits_def i64_ok_def i64_min_def)
  qed
qed

lemma i64_of_bits_ok: "n < 2 ^ 64 \<Longrightarrow> i64_ok (i64_of_bits n)"
  by (auto simp: i64_of_bits_def i64_ok_def i64_min_def i64_max_def)

lemma i64_bits_lt: "i64_bits v < 2 ^ 64"
  unfolding i64_bits_def by (simp add: nat_less_iff)

subsection \<open>Puts append\<close>

text \<open>A put whose result and bytes do not depend on what the buffer holds.\<close>

definition appends :: "put \<Rightarrow> bool" where
  "appends p \<longleftrightarrow> (\<exists>r w. \<forall>out. p out = (r, out @ w))"

definition emits :: "put \<Rightarrow> bytes option" where
  "emits p = (if is_ok (fst (p [])) then Some (snd (p [])) else None)"

lemma appendsE:
  assumes "appends p"
  obtains r w where "\<forall>out. p out = (r, out @ w)"
  using assms by (auto simp: appends_def)

lemma appends_emits:
  assumes "appends p"
  shows "case emits p of Some bs \<Rightarrow> p out = (Inr (), out @ bs)
    | None \<Rightarrow> \<exists>e w. \<forall>out. p out = (Inl e, out @ w)"
proof -
  obtain r w where "\<forall>out. p out = (r, out @ w)" using assms by (rule appendsE)
  then show ?thesis by (cases r) (auto simp: emits_def)
qed

lemma appends_simps [simp]: "appends done_put" "appends (put_raw v)" "appends (\<lambda>out. (Inl e, out))"
  by (auto simp: appends_def done_put_def put_raw_def)

lemma appends_then [simp, intro]:
  assumes "appends p" and "appends q"
  shows "appends (then_put p q)"
proof -
  obtain r w where p: "\<forall>out. p out = (r, out @ w)" using assms(1) by (rule appendsE)
  obtain r' w' where q: "\<forall>out. q out = (r', out @ w')" using assms(2) by (rule appendsE)
  show ?thesis by (cases r) (auto simp: appends_def then_put_def p q)
qed

lemma appends_all [simp]: "\<forall>p \<in> set ps. appends p \<Longrightarrow> appends (put_all ps)"
  by (induction ps) simp_all

lemma emits_then:
  assumes "appends p" and "appends q"
  shows "emits (then_put p q) = Some bs \<longleftrightarrow>
    (\<exists>b1 b2. emits p = Some b1 \<and> emits q = Some b2 \<and> bs = b1 @ b2)"
proof -
  obtain r w where p: "\<forall>out. p out = (r, out @ w)" using assms(1) by (rule appendsE)
  obtain r' w' where q: "\<forall>out. q out = (r', out @ w')" using assms(2) by (rule appendsE)
  show ?thesis by (cases r; cases r') (auto simp: emits_def then_put_def p q)
qed

lemma emits_done [simp]: "emits done_put = Some []"
  by (simp add: emits_def done_put_def)

lemma emits_raw [simp]: "emits (put_raw v) = Some v"
  by (simp add: emits_def put_raw_def)

lemma emits_fail [simp]: "emits (\<lambda>out. (Inl e, out)) = None"
  by (simp add: emits_def)

subsection \<open>Reading back\<close>

definition cursor_ok :: "cursor \<Rightarrow> bool" where
  "cursor_ok c \<longleftrightarrow> cur_at c \<le> length (cur_bytes c) \<and> length (cur_bytes c) \<le> usize_max"

definition remaining :: "cursor \<Rightarrow> bytes" where
  "remaining c = drop (cur_at c) (cur_bytes c)"

text \<open>
  \<open>g\<close> reads \<open>bs\<close> back as \<open>x\<close>, whatever follows it, and refuses every strict
  prefix of it at the end of the payload.
\<close>

definition reads :: "'a get \<Rightarrow> bytes \<Rightarrow> 'a \<Rightarrow> bool" where
  "reads g bs x \<longleftrightarrow>
     (\<forall>c rest. cursor_ok c \<longrightarrow> remaining c = bs @ rest \<longrightarrow> g c = Inr (x, forward (length bs) c))
     \<and> (\<forall>c k. cursor_ok c \<longrightarrow> k < length bs \<longrightarrow> remaining c = take k bs \<longrightarrow> \<not> is_ok (g c))"

lemma readsD: "reads g bs x \<Longrightarrow> cursor_ok c \<Longrightarrow> remaining c = bs @ rest \<Longrightarrow> g c = Inr (x, forward (length bs) c)"
  by (simp add: reads_def)

lemma reads_short: "reads g bs x \<Longrightarrow> cursor_ok c \<Longrightarrow> k < length bs \<Longrightarrow> remaining c = take k bs \<Longrightarrow> \<not> is_ok (g c)"
  by (simp add: reads_def)

lemma length_remaining: "cursor_ok c \<Longrightarrow> length (remaining c) = length (cur_bytes c) - cur_at c"
  by (simp add: remaining_def)

lemma cursor_ok_forward: "cursor_ok c \<Longrightarrow> remaining c = bs @ rest \<Longrightarrow> cursor_ok (forward (length bs) c)"
  using length_remaining [of c] by (auto simp: cursor_ok_def forward_def)

lemma remaining_forward: "remaining c = bs @ rest \<Longrightarrow> remaining (forward (length bs) c) = rest"
  by (metis append_eq_conv_conj cursor.select_convs(1,2) cursor.surjective cursor.update_convs(2)
      drop_drop add.commute forward_def remaining_def)

lemma forward_forward [simp]: "forward m (forward n c) = forward (n + m) c"
  by (simp add: forward_def add.assoc)

lemma forward_0 [simp]: "forward 0 c = c"
  by (simp add: forward_def)

lemma reads_return [intro]: "reads (return_get x) [] x"
  by (simp add: reads_def return_get_def)

lemma reads_then [intro]:
  assumes g: "reads g bs x" and h: "reads (h x) bs' y"
  shows "reads (then_get g h) (bs @ bs') y"
  unfolding reads_def
proof (intro conjI allI impI)
  fix c rest
  assume c: "cursor_ok c" and r: "remaining c = (bs @ bs') @ rest"
  then have r': "remaining c = bs @ (bs' @ rest)" by simp
  have "g c = Inr (x, forward (length bs) c)" using g c r' by (rule readsD)
  moreover have "h x (forward (length bs) c) = Inr (y, forward (length bs') (forward (length bs) c))"
    by (rule readsD [OF h cursor_ok_forward [OF c r'] remaining_forward [OF r']])
  ultimately show "then_get g h c = Inr (y, forward (length (bs @ bs')) c)"
    by (simp add: then_get_def)
next
  fix c k
  assume c: "cursor_ok c" and k: "k < length (bs @ bs')" and r: "remaining c = take k (bs @ bs')"
  show "\<not> is_ok (then_get g h c)"
  proof (cases "k < length bs")
    case True
    then have "\<not> is_ok (g c)" using reads_short [OF g c True] r by simp
    then show ?thesis by (cases "g c") (auto simp: then_get_def)
  next
    case False
    then have r': "remaining c = bs @ take (k - length bs) bs'" using r by simp
    have "g c = Inr (x, forward (length bs) c)" using g c r' by (rule readsD)
    moreover have "\<not> is_ok (h x (forward (length bs) c))"
      by (rule reads_short [OF h cursor_ok_forward [OF c r'] _ remaining_forward [OF r']])
        (use k False in simp)
    ultimately show ?thesis by (simp add: then_get_def)
  qed
qed

lemma reads_map: "reads g bs x \<Longrightarrow> h x = return_get y \<Longrightarrow> reads (then_get g h) bs y"
  using reads_then [of g bs x h "[]" y] by auto

lemma reads_take: "length bs = n \<Longrightarrow> reads (get_take n) bs bs"
proof -
  assume n: "length bs = n"
  show ?thesis
    unfolding reads_def
  proof (intro conjI allI impI)
    fix c rest
    assume c: "cursor_ok c" and r: "remaining c = bs @ rest"
    have l: "cur_at c + n \<le> length (cur_bytes c)"
      using arg_cong [OF r, of length] length_remaining [OF c] c n by (auto simp: cursor_ok_def)
    then have "cur_at c + n \<le> usize_max" using c by (simp add: cursor_ok_def)
    then show "get_take n c = Inr (bs, forward (length bs) c)"
      using l n r by (simp add: get_take_def remaining_def)
  next
    fix c k
    assume c: "cursor_ok c" and k: "k < length bs" and r: "remaining c = take k bs"
    have "length (cur_bytes c) < cur_at c + n"
      using arg_cong [OF r, of length] length_remaining [OF c] c n k by (simp add: cursor_ok_def)
    then show "\<not> is_ok (get_take n c)" by (simp add: get_take_def)
  qed
qed

text \<open>What a get that succeeds leaves: a cursor in bounds, and a value that satisfies \<open>P\<close>.\<close>

definition gets :: "'a get \<Rightarrow> ('a \<Rightarrow> bool) \<Rightarrow> bool" where
  "gets g P \<longleftrightarrow> (\<forall>c x c'. cursor_ok c \<longrightarrow> g c = Inr (x, c') \<longrightarrow> cursor_ok c' \<and> P x)"

lemma getsD: "gets g P \<Longrightarrow> cursor_ok c \<Longrightarrow> g c = Inr (x, c') \<Longrightarrow> cursor_ok c' \<and> P x"
  by (simp add: gets_def)

lemma gets_return [simp]: "gets (return_get x) P \<longleftrightarrow> P x \<or> (\<forall>c. \<not> cursor_ok c)"
  by (auto simp: gets_def return_get_def)

lemma gets_fail [simp]: "gets (fail_get e) P"
  by (simp add: gets_def fail_get_def)

lemma gets_then: "gets g P \<Longrightarrow> (\<And>x. P x \<Longrightarrow> gets (h x) Q) \<Longrightarrow> gets (then_get g h) Q"
  unfolding gets_def then_get_def
proof (intro allI impI)
  fix c y c'
  assume g: "\<forall>c x c'. cursor_ok c \<longrightarrow> g c = Inr (x, c') \<longrightarrow> cursor_ok c' \<and> P x"
    and h: "\<And>x. P x \<Longrightarrow> \<forall>c y c'. cursor_ok c \<longrightarrow> h x c = Inr (y, c') \<longrightarrow> cursor_ok c' \<and> Q y"
    and c: "cursor_ok c" and r: "rbind (g c) (\<lambda>(x, c'). h x c') = Inr (y, c')"
  obtain x c1 where "g c = Inr (x, c1)" "h x c1 = Inr (y, c')"
    using r by (auto simp: rbind_Inr_iff)
  with g h c show "cursor_ok c' \<and> Q y" by blast
qed

lemma gets_weaken: "gets g P \<Longrightarrow> (\<And>x. P x \<Longrightarrow> Q x) \<Longrightarrow> gets g Q"
  by (auto simp: gets_def)

lemma gets_take: "gets (get_take n) (\<lambda>b. length b = n)"
  by (auto simp: gets_def get_take_def cursor_ok_def forward_def split: if_splits)

subsection \<open>A field\<close>

locale field_codec =
  fixes put :: "'a \<Rightarrow> put" and get :: "'a get" and ok :: "'a \<Rightarrow> bool"
  assumes put_appends: "appends (put x)"
    and reads_back: "ok x \<Longrightarrow> emits (put x) = Some bs \<Longrightarrow> reads get bs x"
    and get_ok: "gets get ok"
begin

text \<open>The step of every record's codec: a field, then the fields after it.\<close>

lemma then_field:
  assumes "emits (then_put (put x) q) = Some bs" and "appends q" and "ok x"
    and "\<And>bs2. emits q = Some bs2 \<Longrightarrow> reads (h x) bs2 y"
  shows "reads (then_get get h) bs y"
  using assms by (auto simp: emits_then [OF put_appends] dest: reads_back)

lemma gets_field: "(\<And>x. ok x \<Longrightarrow> gets (h x) Q) \<Longrightarrow> gets (then_get get h) Q"
  by (rule gets_then [OF get_ok])

lemma appends_fields: "appends (put_all (map put xs))"
  by (rule appends_all) (auto intro: put_appends)

end

definition any :: "'a \<Rightarrow> bool" where "any x = True"

lemma any [simp, intro]: "any x" by (simp add: any_def)

interpretation u8: field_codec put_u8 get_u8 any
proof
  show "appends (put_u8 x)" for x by (simp add: put_u8_def)
  show "reads get_u8 bs x" if "emits (put_u8 x) = Some bs" for x bs
  proof -
    have "bs = [x]" using that by (simp add: put_u8_def)
    then show ?thesis unfolding get_u8_def using reads_take [of "[x]" 1] by (intro reads_map) auto
  qed
  show "gets get_u8 any" unfolding get_u8_def by (rule gets_then [OF gets_take]) simp
qed

interpretation u32: field_codec put_u32 get_u32 any
proof
  show "appends (put_u32 x)" for x by (simp add: put_u32_def)
  show "reads get_u32 bs x" if "emits (put_u32 x) = Some bs" for x bs
  proof -
    have bs: "bs = le_bytes 4 (unat x)" using that by (simp add: put_u32_def)
    have "unat x < 2 ^ 32" using unsigned_less [of x] by simp
    then have "(of_nat (from_le bs) :: u32) = x" by (simp add: bs from_le_le_bytes)
    then show ?thesis unfolding get_u32_def by (intro reads_map [OF reads_take]) (simp_all add: bs)
  qed
  show "gets get_u32 any" unfolding get_u32_def by (rule gets_then [OF gets_take]) simp
qed

interpretation u64: field_codec put_u64 get_u64 any
proof
  show "appends (put_u64 x)" for x by (simp add: put_u64_def)
  show "reads get_u64 bs x" if "emits (put_u64 x) = Some bs" for x bs
  proof -
    have bs: "bs = le_bytes 8 (unat x)" using that by (simp add: put_u64_def)
    have "unat x < 2 ^ 64" using unsigned_less [of x] by simp
    then have "(of_nat (from_le bs) :: u64) = x" by (simp add: bs from_le_le_bytes)
    then show ?thesis unfolding get_u64_def by (intro reads_map [OF reads_take]) (simp_all add: bs)
  qed
  show "gets get_u64 any" unfolding get_u64_def by (rule gets_then [OF gets_take]) simp
qed

interpretation i64: field_codec put_i64 get_i64 i64_ok
proof
  show "appends (put_i64 x)" for x by (simp add: put_i64_def)
  show "reads get_i64 bs x" if "i64_ok x" "emits (put_i64 x) = Some bs" for x bs
  proof -
    have bs: "bs = le_bytes 8 (i64_bits x)" using that by (simp add: put_i64_def)
    have "i64_of_bits (from_le bs) = x"
      using i64_bits_lt [of x] i64_roundtrip [OF that(1)] by (simp add: bs from_le_le_bytes)
    then show ?thesis unfolding get_i64_def by (intro reads_map [OF reads_take]) (simp_all add: bs)
  qed
  show "gets get_i64 i64_ok"
    unfolding get_i64_def
  proof (rule gets_then [OF gets_take])
    fix b :: bytes
    assume "length b = 8"
    then have "from_le b < 2 ^ 64" using from_le_lt [of b] by simp
    then show "gets (return_get (i64_of_bits (from_le b))) i64_ok" by (simp add: i64_of_bits_ok)
  qed
qed

text \<open>A length that fits is read back as the number of items that follow.\<close>

lemma put_length_appends [simp]: "appends (put_length what n)"
  using u32.put_appends by (simp add: put_length_def)

lemma length_fits:
  assumes "emits (then_put (put_length what n) q) = Some bs" and "appends q"
  shows "n < 2 ^ 32"
proof -
  obtain b where "emits (put_length what n) = Some b"
    using assms by (auto simp: emits_then [OF put_length_appends assms(2)])
  then show ?thesis by (auto simp: put_length_def split: if_splits)
qed

lemma then_length:
  assumes "emits (then_put (put_length what n) q) = Some bs" and "appends q"
    and "\<And>bs2. emits q = Some bs2 \<Longrightarrow> reads (h (of_nat n)) bs2 y"
  shows "reads (then_get get_u32 h) bs y"
proof -
  have "emits (then_put (put_u32 (of_nat n)) q) = Some bs"
    using assms(1) length_fits [OF assms(1,2)] by (simp add: put_length_def)
  then show ?thesis by (rule u32.then_field) (use assms(2,3) in simp_all)
qed

lemma unat_length: "n < 2 ^ 32 \<Longrightarrow> unat (of_nat n :: u32) = n"
  by (simp add: unat_of_nat)

lemma put_all_two [simp]: "put_all [p, q] = then_put p (then_put q done_put)"
  by simp

interpretation blob: field_codec put_bytes get_bytes any
proof
  show ap: "appends (put_bytes x)" for x by (auto simp: put_bytes_def)
  show "reads get_bytes bs x" if "emits (put_bytes x) = Some bs" for x bs
  proof -
    have e: "emits (then_put (put_length ''a replication field is too large to encode'' (length x))
        (then_put (put_raw x) done_put)) = Some bs"
      using that by (simp add: put_bytes_def)
    have a: "appends (then_put (put_raw x) done_put)" by auto
    have n: "length x < 2 ^ 32" using length_fits [OF e a] .
    show ?thesis
      unfolding get_bytes_def
    proof (rule then_length [OF e a])
      fix bs2
      assume "emits (then_put (put_raw x) done_put) = Some bs2"
      then have "bs2 = x" by (auto simp: emits_then)
      moreover note unat_length [OF n]
      ultimately show "reads (get_take (unat (of_nat (length x) :: u32))) bs2 x" by (simp add: reads_take)
    qed
  qed
  show "gets get_bytes any" unfolding get_bytes_def
    by (rule u32.gets_field) (rule gets_weaken [OF gets_take], simp)
qed

lemma reads_from_utf8: "utf8_ok raw \<Longrightarrow> reads (from_utf8 what raw) [] raw"
  by (auto simp: from_utf8_def)

lemma gets_from_utf8: "gets (from_utf8 what raw) (\<lambda>u. u = raw \<and> utf8_ok u)"
  by (simp add: from_utf8_def)

lemma gets_string: "gets (then_get get_bytes (from_utf8 what)) utf8_ok"
  by (rule blob.gets_field) (rule gets_weaken [OF gets_from_utf8], simp)

interpretation label: field_codec put_str get_string utf8_ok
proof
  show "appends (put_str x)" for x using blob.put_appends by (simp add: put_str_def)
  show "reads get_string bs x" if "utf8_ok x" "emits (put_str x) = Some bs" for x bs
    using reads_then [where h = "from_utf8 ''a string field is not UTF-8''",
        OF blob.reads_back [OF any that(2) [unfolded put_str_def]] reads_from_utf8 [OF that(1)]]
    by (simp add: get_string_def)
  show "gets get_string utf8_ok" unfolding get_string_def by (rule gets_string)
qed

interpretation flag: field_codec put_bool get_bool any
proof
  show "appends (put_bool x)" for x using u8.put_appends by (simp add: put_bool_def)
  show "reads get_bool bs x" if "emits (put_bool x) = Some bs" for x bs
    using u8.reads_back [OF any that [unfolded put_bool_def]] unfolding get_bool_def
    by (rule reads_map) simp
  show "gets get_bool any" unfolding get_bool_def by (rule u8.gets_field) simp
qed

interpretation entry_kind: field_codec put_index_kind get_index_kind any
proof
  show "appends (put_index_kind x)" for x using u8.put_appends by (simp add: put_index_kind_def)
  show "reads get_index_kind bs x" if "emits (put_index_kind x) = Some bs" for x bs
    using u8.reads_back [OF any that [unfolded put_index_kind_def]] unfolding get_index_kind_def
    by (rule reads_map) (cases x; simp add: index_full_def index_delta_def)
  show "gets get_index_kind any" unfolding get_index_kind_def by (rule u8.gets_field) simp
qed

interpretation opt_blob: field_codec put_opt_bytes get_opt_bytes any
proof
  show ap: "appends (put_opt_bytes x)" for x
    using u8.put_appends blob.put_appends by (auto simp: put_opt_bytes_def split: option.split)
  show "reads get_opt_bytes bs x" if "emits (put_opt_bytes x) = Some bs" for x bs
  proof (cases x)
    case None
    show ?thesis
      unfolding get_opt_bytes_def
      by (rule reads_map [OF u8.reads_back [OF any, of 0]]) (use that None in \<open>simp_all add: put_opt_bytes_def\<close>)
  next
    case (Some b)
    then have e: "emits (then_put (put_u8 1) (then_put (put_bytes b) done_put)) = Some bs"
      using that by (simp add: put_opt_bytes_def)
    have a: "appends (then_put (put_bytes b) done_put)" using blob.put_appends by auto
    show ?thesis
      unfolding get_opt_bytes_def
    proof (rule u8.then_field [OF e a any])
      fix bs2
      assume e2: "emits (then_put (put_bytes b) done_put) = Some bs2"
      have "reads (then_get get_bytes (\<lambda>v. return_get (Some v))) bs2 x"
        by (rule blob.then_field [OF e2]) (auto simp: Some)
      then show "reads (if (1::u8) = 0 then return_get None
          else if (1::u8) = 1 then then_get get_bytes (\<lambda>v. return_get (Some v))
          else fail_get (malformed ''not a presence byte; it is 0 or 1'')) bs2 x" by simp
    qed
  qed
  show "gets get_opt_bytes any" unfolding get_opt_bytes_def
    by (rule u8.gets_field) (auto intro: blob.gets_field)
qed

definition uuid_ok :: "rstring option \<Rightarrow> bool" where
  "uuid_ok u \<longleftrightarrow> (\<forall>s. u = Some s \<longrightarrow> utf8_ok s)"

interpretation opt_label: field_codec put_opt_bytes get_uuid uuid_ok
proof
  show "appends (put_opt_bytes x)" for x by (rule opt_blob.put_appends)
  show "reads get_uuid bs x" if "uuid_ok x" "emits (put_opt_bytes x) = Some bs" for x bs
  proof (cases x)
    case None
    then show ?thesis
      unfolding get_uuid_def by (intro reads_map [OF opt_blob.reads_back [OF any that(2)]]) simp
  next
    case (Some u)
    then have "utf8_ok u" using that(1) by (simp add: uuid_ok_def)
    then have "then_get (from_utf8 ''a uuid is not UTF-8'' u) (\<lambda>u. return_get (Some u)) = return_get x"
      by (auto simp: from_utf8_def then_get_def return_get_def Some)
    then show ?thesis
      unfolding get_uuid_def
      by (intro reads_map [OF opt_blob.reads_back [OF any that(2)]]) (simp add: Some)
  qed
  show "gets get_uuid uuid_ok"
    unfolding get_uuid_def
    by (rule opt_blob.gets_field)
      (auto simp: uuid_ok_def split: option.split intro!: gets_then [OF gets_from_utf8])
qed

subsection \<open>Maps\<close>

lemma set_bt_insert_subset: "set (bt_insert k v m) \<subseteq> insert (k, v) (set m)"
  by (induction m) (auto split: if_splits)

lemma bt_ok_snoc: "bt_ok (m @ (k, v) # kvs) \<Longrightarrow> bt_insert k v m = m @ [(k, v)]"
  by (rule bt_insert_snoc) (auto simp: bt_ok_def sorted_wrt_append)

lemma entry_appends [simp]: "appends (put_entry e)"
  by (cases e) (simp add: put_entry_def label.put_appends)

lemma emits_all_Cons:
  "appends p \<Longrightarrow> \<forall>q \<in> set ps. appends q \<Longrightarrow> emits (put_all (p # ps)) = Some bs \<Longrightarrow>
   \<exists>b1 b2. emits p = Some b1 \<and> emits (put_all ps) = Some b2 \<and> bs = b1 @ b2"
  by (simp add: emits_then)

lemma reads_entries:
  assumes "bt_ok (m @ kvs)" and "\<forall>(k, v) \<in> set kvs. utf8_ok k \<and> utf8_ok v"
    and "emits (put_all (map put_entry kvs)) = Some bs"
  shows "reads (get_entries (length kvs) m) bs (m @ kvs)"
  using assms
proof (induction kvs arbitrary: m bs)
  case Nil
  then show ?case by auto
next
  case (Cons e kvs)
  obtain k v where e: "e = (k, v)" by force
  let ?rest = "put_all (map put_entry kvs)"
  have ap: "appends ?rest" by simp
  obtain b1 b2 where b: "emits (put_entry (k, v)) = Some b1" "emits ?rest = Some b2" "bs = b1 @ b2"
    using emits_all_Cons [of "put_entry e" "map put_entry kvs" bs] Cons.prems(3) e by auto
  obtain bk bv where kv: "emits (put_str k) = Some bk" "emits (put_str v) = Some bv" "b1 = bk @ bv"
    using b(1) by (auto simp: put_entry_def emits_then label.put_appends)
  have ok: "utf8_ok k" "utf8_ok v" using Cons.prems(2) e by auto
  have ins: "bt_insert k v m = m @ [(k, v)]" using Cons.prems(1) e by (intro bt_ok_snoc) simp
  have "reads (get_entries (length kvs) (bt_insert k v m)) b2 (m @ e # kvs)"
    using Cons.IH [of "m @ [(k, v)]" b2] Cons.prems(1,2) b(2) e by (simp add: ins)
  then have "reads (then_get get_string (\<lambda>v. get_entries (length kvs) (bt_insert k v m))) (bv @ b2) (m @ e # kvs)"
    by (rule reads_then [OF label.reads_back [OF ok(2) kv(2)]])
  then have "reads (get_entries (length (e # kvs)) m) (bk @ (bv @ b2)) (m @ e # kvs)"
    unfolding length_Cons get_entries.simps by (rule reads_then [OF label.reads_back [OF ok(1) kv(1)]])
  then show ?case by (simp add: b(3) kv(3))
qed

lemma gets_entries: "map_ok m \<Longrightarrow> gets (get_entries n m) map_ok"
proof (induction n arbitrary: m)
  case 0
  then show ?case by simp
next
  case (Suc n)
  have "map_ok (bt_insert k v m)" if "utf8_ok k" "utf8_ok v" for k v
    using Suc.prems that set_bt_insert_subset [of k v m] bt_ok_insert [of m k v]
    by (fastforce simp: map_ok_def)
  then show ?case by (auto intro!: label.gets_field Suc.IH)
qed

interpretation label_fields: field_codec put_map get_map map_ok
proof
  show ap: "appends (put_map x)" for x by (simp add: put_map_def)
  show "reads get_map bs x" if "map_ok x" "emits (put_map x) = Some bs" for x bs
  proof -
    have e: "emits (then_put (put_length ''a replication map is too large to encode'' (length x))
        (put_all (map put_entry x))) = Some bs"
      using that(2) by (simp add: put_map_def)
    have a: "appends (put_all (map put_entry x))" by simp
    show ?thesis
      unfolding get_map_def
    proof (rule then_length [OF e a])
      fix bs2
      assume "emits (put_all (map put_entry x)) = Some bs2"
      then show "reads (get_entries (unat (of_nat (length x) :: u32)) []) bs2 x"
        using reads_entries [of "[]" x bs2] that(1) unat_length [OF length_fits [OF e a]]
        by (simp add: map_ok_def)
    qed
  qed
  show "gets get_map map_ok"
    unfolding get_map_def by (rule u32.gets_field) (auto intro: gets_entries simp: map_ok_def)
qed

subsection \<open>Rows\<close>

lemma row_appends [simp]: "appends (put_row r)"
  by (simp add: put_row_def label.put_appends i64.put_appends blob.put_appends)

interpretation row: field_codec put_row get_row row_ok
proof
  show "appends (put_row r)" for r by simp
  show "reads get_row bs r" if "row_ok r" "emits (put_row r) = Some bs" for r bs
  proof -
    have ok: "utf8_ok (row_stream r)" "i64_ok (row_ts r)" "i64_ok (row_wall_offset r)"
      using that(1) by (simp_all add: row_ok_def)
    have r: "\<lparr>row_stream = row_stream r, row_ts = row_ts r, row_wall_offset = row_wall_offset r,
        row_payload = row_payload r\<rparr> = r" by simp
    note e = that(2) [unfolded put_row_def put_all.simps]
    show ?thesis
      unfolding get_row_def
      by (rule label.then_field [OF e _ ok(1)], simp add: i64.put_appends blob.put_appends,
          erule i64.then_field [OF _ _ ok(2)], simp add: i64.put_appends blob.put_appends,
          erule i64.then_field [OF _ _ ok(3)], simp add: blob.put_appends,
          erule blob.then_field, simp_all add: r)
        (auto simp: r)
  qed
  show "gets get_row row_ok"
    unfolding get_row_def
    by (intro label.gets_field i64.gets_field blob.gets_field) (simp add: row_ok_def)
qed

lemma reads_rows:
  assumes "\<forall>r \<in> set rows. row_ok r" and "emits (put_all (map put_row rows)) = Some bs"
  shows "reads (get_rows (length rows) acc) bs (acc @ rows)"
  using assms
proof (induction rows arbitrary: acc bs)
  case Nil
  then show ?case by auto
next
  case (Cons r rows)
  obtain b1 b2 where b: "emits (put_row r) = Some b1" "emits (put_all (map put_row rows)) = Some b2" "bs = b1 @ b2"
    using emits_all_Cons [of "put_row r" "map put_row rows" bs] Cons.prems(2) by auto
  have "reads (get_rows (length rows) (acc @ [r])) b2 (acc @ r # rows)"
    using Cons.IH [of b2 "acc @ [r]"] Cons.prems(1) b(2) by simp
  then show ?case
    unfolding length_Cons get_rows.simps b(3)
    by (rule reads_then [OF row.reads_back [OF _ b(1)], rotated]) (use Cons.prems(1) in simp)
qed

lemma gets_rows: "\<forall>r \<in> set rows. row_ok r \<Longrightarrow> gets (get_rows n rows) (\<lambda>rs. \<forall>r \<in> set rs. row_ok r)"
proof (induction n arbitrary: rows)
  case 0
  then show ?case by simp
next
  case (Suc n)
  show ?case
    unfolding get_rows.simps by (rule row.gets_field, rule Suc.IH) (use Suc.prems in simp)
qed

end
