(* ===== verification/Wire_Frames.thy ===== *)
theory Wire_Frames
  imports Wire_Codec
begin

section \<open>Frames and streams of frames through the wire\<close>

text \<open>
  The round trip of every frame and of a stream, what a cut or a trailing byte
  does, and that whatever decodes is well formed.
\<close>

subsection \<open>Frames\<close>

lemma payload_appends [simp]: "appends (put_payload f)"
  by (cases f) (simp_all add: u8.put_appends u32.put_appends u64.put_appends i64.put_appends
      blob.put_appends label.put_appends flag.put_appends entry_kind.put_appends
      opt_blob.put_appends label_fields.put_appends)

lemmas field_appends = u8.put_appends u32.put_appends u64.put_appends i64.put_appends
  blob.put_appends label.put_appends flag.put_appends entry_kind.put_appends
  opt_blob.put_appends label_fields.put_appends

text \<open>The kind byte and the decoder of its fields.\<close>

fun kind_of :: "frame \<Rightarrow> u8" where
  "kind_of (Handshake _ _ _ _ _ _) = kind_handshake"
| "kind_of (Index _ _ _ _ _ _) = kind_index"
| "kind_of (Rows _ _ _ _) = kind_rows"
| "kind_of (Segment _ _ _ _ _) = kind_segment"
| "kind_of (ClockOffset _ _ _) = kind_clock_offset"
| "kind_of (SourceUpdate _ _ _ _) = kind_source_update"

text \<open>A record's decoder is its fields' decoders in order; each step is one of these.\<close>

lemmas then_fields = u8.then_field u32.then_field u64.then_field i64.then_field
  blob.then_field label.then_field flag.then_field entry_kind.then_field
  opt_label.then_field opt_blob.then_field label_fields.then_field

lemma emits_return: "emits done_put = Some bs \<Longrightarrow> x = y \<Longrightarrow> reads (return_get x) bs y"
  by auto

lemma handshake_reads:
  assumes "frame_ok (Handshake source uuid labels metadata anchor complete)"
    and "emits (put_all [put_u32 source, put_opt_bytes uuid, put_map labels,
       put_map metadata, put_i64 anchor, put_bool complete]) = Some bs"
  shows "reads get_handshake bs (Handshake source uuid labels metadata anchor complete)"
  unfolding get_handshake_def
  by (insert assms(2) [unfolded put_all.simps],
      (erule then_fields, simp add: field_appends, use assms(1) in \<open>simp add: uuid_ok_def meta_ok_def\<close>)+,
      erule emits_return, simp)

lemma index_reads:
  assumes "frame_ok (Index source stream ts kind state blob)"
    and "emits (put_all [put_u32 source, put_str stream, put_i64 ts, put_index_kind kind,
       put_u64 (fst state), put_u64 (snd state), put_bytes blob]) = Some bs"
  shows "reads get_index bs (Index source stream ts kind state blob)"
  unfolding get_index_def
  by (insert assms(2) [unfolded put_all.simps],
      (erule then_fields, simp add: field_appends, use assms(1) in \<open>simp add: uuid_ok_def meta_ok_def\<close>)+,
      erule emits_return, simp)

lemma segment_reads:
  assumes "frame_ok (Segment source stream meta body index)"
    and "emits (put_all [put_u32 source, put_str stream, put_u64 (of_nat (meta_rows meta)),
       put_i64 (meta_first_ts meta), put_i64 (meta_last_ts meta), put_bytes body, put_opt_bytes index]) = Some bs"
  shows "reads get_segment bs (Segment source stream meta body index)"
  unfolding get_segment_def
  by (insert assms(2) [unfolded put_all.simps],
      (erule then_fields, simp add: field_appends, use assms(1) in \<open>simp add: uuid_ok_def meta_ok_def\<close>)+,
      erule emits_return, use assms(1) in \<open>simp add: meta_ok_def unat_of_nat\<close>)

lemma clock_offset_reads:
  assumes "frame_ok (ClockOffset source ts offset)"
    and "emits (put_all [put_u32 source, put_i64 ts, put_i64 offset]) = Some bs"
  shows "reads get_clock_offset bs (ClockOffset source ts offset)"
  unfolding get_clock_offset_def
  by (insert assms(2) [unfolded put_all.simps],
      (erule then_fields, simp add: field_appends, use assms(1) in \<open>simp add: uuid_ok_def meta_ok_def\<close>)+,
      erule emits_return, simp)

lemma source_update_reads:
  assumes "frame_ok (SourceUpdate source ts labels metadata)"
    and "emits (put_all [put_u32 source, put_i64 ts, put_map labels, put_map metadata]) = Some bs"
  shows "reads get_source_update bs (SourceUpdate source ts labels metadata)"
  unfolding get_source_update_def
  by (insert assms(2) [unfolded put_all.simps],
      (erule then_fields, simp add: field_appends, use assms(1) in \<open>simp add: uuid_ok_def meta_ok_def\<close>)+,
      erule emits_return, simp)

lemma rows_reads:
  assumes "frame_ok (Rows source seq state rows)"
    and "emits (put_all [put_u32 source, put_u64 seq, put_u64 (fst state), put_u64 (snd state),
       put_length what (length rows), put_all (map put_row rows)]) = Some bs"
  shows "reads get_rows_frame bs (Rows source seq state rows)"
proof -
  have ap: "appends (then_put (put_all (map put_row rows)) done_put)" by simp
  have tail: "reads (then_get get_u32 (\<lambda>count. then_get (get_rows (unat count) [])
       (\<lambda>rows. return_get (Rows source seq (s0, s1) rows)))) b (Rows source seq (s0, s1) rows)"
    if e: "emits (then_put (put_length what (length rows)) (then_put (put_all (map put_row rows)) done_put)) = Some b"
    for b s0 s1
  proof (rule then_length [OF e ap])
    fix b2
    assume "emits (then_put (put_all (map put_row rows)) done_put) = Some b2"
    then have "emits (put_all (map put_row rows)) = Some b2" by (auto simp: emits_then)
    then have "reads (get_rows (unat (of_nat (length rows) :: u32)) []) b2 rows"
      using reads_rows [of rows b2 "[]"] assms(1) unat_length [OF length_fits [OF e ap]] by simp
    then show "reads (then_get (get_rows (unat (of_nat (length rows) :: u32)) [])
        (\<lambda>rows. return_get (Rows source seq (s0, s1) rows))) b2 (Rows source seq (s0, s1) rows)"
      by (rule reads_map) simp
  qed
  show ?thesis
    unfolding get_rows_frame_def
    by (insert assms(2) [unfolded put_all.simps],
        (erule then_fields, simp add: field_appends, simp)+, use tail [of _ "fst state" "snd state"] in simp)
qed

text \<open>What follows the kind byte of an encoded frame is read back by that kind's decoder.\<close>

lemma payload_reads:
  assumes "frame_ok f" and "emits (put_payload f) = Some bs"
  shows "\<exists>g body. bs = kind_of f # body \<and> fields_of (kind_of f) = Some g \<and> reads g body f"
proof -
  have kinds: "fields_of kind_handshake = Some get_handshake" "fields_of kind_index = Some get_index"
    "fields_of kind_rows = Some get_rows_frame" "fields_of kind_segment = Some get_segment"
    "fields_of kind_clock_offset = Some get_clock_offset"
    "fields_of kind_source_update = Some get_source_update"
    by (simp_all add: fields_of_def kind_defs)
  have first: "\<exists>body. bs = k # body \<and> emits q = Some body"
    if "emits (then_put (put_u8 k) q) = Some bs" "appends q" for k q
    using that by (auto simp: emits_then u8.put_appends put_u8_def)
  show ?thesis
    by (insert assms, cases f;
        simp del: put_all.simps frame_ok.simps add: put_all.simps(2) [of "put_u8 k" for k] kinds;
        drule first, simp add: field_appends, elim exE conjE, hypsubst;
        simp add: handshake_reads index_reads segment_reads clock_offset_reads source_update_reads rows_reads
          del: put_all.simps frame_ok.simps)
qed

definition decodes :: "bytes \<Rightarrow> frame \<Rightarrow> bool" where
  "decodes payload f \<longleftrightarrow> payload \<noteq> [] \<and> decode_known payload = Inr (Some f)
     \<and> (\<forall>k < length payload. \<not> is_ok (decode_known (take k payload)))
     \<and> (\<forall>extra. extra \<noteq> [] \<longrightarrow> length payload + length extra \<le> usize_max \<longrightarrow>
          \<not> is_ok (decode_known (payload @ extra)))"

lemma new_cursor_simps [simp]:
  "cursor_ok (new_cursor bs) \<longleftrightarrow> length bs \<le> usize_max" "remaining (new_cursor bs) = bs"
  by (simp_all add: cursor_ok_def new_cursor_def remaining_def)

lemma get_u8_Cons:
  assumes "length (b # bs) \<le> usize_max"
  shows "get_u8 (new_cursor (b # bs)) = Inr (b, forward 1 (new_cursor (b # bs)))"
    and "cursor_ok (forward 1 (new_cursor (b # bs)))" and "remaining (forward 1 (new_cursor (b # bs))) = bs"
  using assms
  by (simp_all add: get_u8_def then_get_def get_take_def return_get_def new_cursor_def forward_def
      cursor_ok_def remaining_def)

lemma get_u8_Nil: "\<not> is_ok (get_u8 (new_cursor []))"
  by (simp add: get_u8_def then_get_def get_take_def new_cursor_def)

lemma decode_known_Cons:
  assumes "length (b # bs) \<le> usize_max"
  shows "decode_known (b # bs) =
    (case fields_of b of
       None \<Rightarrow> Inr None
     | Some g \<Rightarrow> rbind (g (forward 1 (new_cursor (b # bs)))) (\<lambda>(f, c). rbind (finish c) (\<lambda>_. Inr (Some f))))"
  by (simp only: decode_known_def get_u8_Cons(1) [OF assms] rbind.simps prod.case)

lemma decode_known_Nil: "\<not> is_ok (decode_known [])"
  using get_u8_Nil by (cases "get_u8 (new_cursor [])") (simp_all add: decode_known_def)

lemma payload_decodes:
  assumes "frame_ok f" and "emits (put_payload f) = Some bs" and "length bs \<le> usize_max"
  shows "decodes bs f"
proof -
  obtain g body where bs: "bs = kind_of f # body" and g: "fields_of (kind_of f) = Some g" and r: "reads g body f"
    using payload_reads [OF assms(1,2)] by blast
  have whole: "decode_known (kind_of f # body @ extra) =
      (if extra = [] then Inr (Some f) else Inl (malformed ''trailing bytes after its fields''))"
    if len: "length (kind_of f # body @ extra) \<le> usize_max" for extra
  proof -
    let ?c = "new_cursor (kind_of f # body @ extra)"
    note u = get_u8_Cons [OF len]
    have "g (forward 1 ?c) = Inr (f, forward (1 + length body) ?c)" using readsD [OF r u(2,3)] by simp
    then have "decode_known (kind_of f # body @ extra)
        = rbind (finish (forward (1 + length body) ?c)) (\<lambda>_. Inr (Some f))"
      by (simp only: decode_known_Cons [OF len] g option.case rbind.simps prod.case)
    then show ?thesis by (simp add: finish_def forward_def new_cursor_def)
  qed
  have short: "\<not> is_ok (decode_known (take k bs))" if k: "k < length bs" for k
  proof (cases k)
    case 0
    then show ?thesis using decode_known_Nil by simp
  next
    case (Suc n)
    have len: "length (kind_of f # take n body) \<le> usize_max" using assms(3) by (simp add: bs)
    note u = get_u8_Cons [OF len]
    have "\<not> is_ok (g (forward 1 (new_cursor (kind_of f # take n body))))"
      by (rule reads_short [OF r u(2) _ u(3)]) (use k Suc in \<open>simp add: bs\<close>)
    then obtain e where "g (forward 1 (new_cursor (kind_of f # take n body))) = Inl e"
      by (cases "g (forward 1 (new_cursor (kind_of f # take n body)))") auto
    then have "decode_known (kind_of f # take n body) = Inl e"
      by (simp only: decode_known_Cons [OF len] g option.case rbind.simps)
    then show ?thesis by (simp add: bs Suc)
  qed
  have "decode_known bs = Inr (Some f)" using whole [of "[]"] assms(3) by (simp add: bs)
  moreover have "\<not> is_ok (decode_known (bs @ extra))"
    if "extra \<noteq> []" "length bs + length extra \<le> usize_max" for extra
    using whole [of extra] that by (simp add: bs)
  ultimately show ?thesis using short by (simp add: decodes_def bs)
qed

subsection \<open>Encoding a frame\<close>

lemma encode_frame_cases:
  "encode_frame f out =
    (case emits (put_payload f) of
       None \<Rightarrow> (fst (put_payload f []), out @ le_bytes 4 0 @ snd (put_payload f []))
     | Some bs \<Rightarrow>
         if length bs > max_frame_bytes
         then (Inl (Message ''a replication frame exceeds the limit''), out)
         else (Inr (), out @ le_bytes 4 (length bs) @ bs))"
proof -
  obtain r w where p: "\<forall>out. put_payload f out = (r, out @ w)" using payload_appends by (rule appendsE)
  define z where "z = le_bytes 4 0"
  have z: "length z = 4" by (simp add: z_def)
  have t: "then_put (put_u32 0) (put_payload f) out = (r, (out @ z) @ w)"
    using p by (simp add: then_put_def put_u32_def put_raw_def z_def)
  have e: "emits (put_payload f) = (if is_ok r then Some w else None)" "fst (put_payload f []) = r"
    "snd (put_payload f []) = w"
    using p by (simp_all add: emits_def)
  show ?thesis
  proof (cases r)
    case (Inl x)
    then show ?thesis by (simp add: encode_frame_def t e z_def)
  next
    case (Inr x)
    have "length ((out @ z) @ w) - (length out + length_prefix_bytes) = length w"
      "take (length out) ((out @ z) @ w) = out" "drop (length out + length_prefix_bytes) ((out @ z) @ w) = w"
      by (simp_all add: z length_prefix_bytes_def)
    then show ?thesis by (simp add: encode_frame_def t e Inr Let_def del: append_assoc)
  qed
qed

lemma encode_Inr:
  "encode f = Inr bs \<longleftrightarrow> (\<exists>p. emits (put_payload f) = Some p \<and> length p \<le> max_frame_bytes
     \<and> bs = le_bytes 4 (length p) @ p)"
proof -
  have "\<not> is_ok (fst (put_payload f []))" if "emits (put_payload f) = None"
    using that by (simp add: emits_def split: if_splits)
  then show ?thesis
    by (cases "fst (put_payload f [])") (auto simp: encode_def encode_frame_cases split: option.splits)
qed

lemma max_frame_usize: "n \<le> max_frame_bytes \<Longrightarrow> n \<le> usize_max"
  by (simp add: max_frame_bytes_def usize_max_def)

text \<open>
  C11: an encoded frame decodes to the frame it came from; its prefix is the length
  of the payload, which is within the limit; and a payload that is cut anywhere or
  followed by more bytes is an error, never another frame.
\<close>

theorem frame_roundtrip:
  assumes "frame_ok f" and "encode f = Inr bs"
  shows "decode_payload (drop length_prefix_bytes bs) = Inr f
    \<and> from_le (take length_prefix_bytes bs) = length bs - length_prefix_bytes
    \<and> length bs \<le> length_prefix_bytes + max_frame_bytes
    \<and> (\<forall>k < length bs - length_prefix_bytes.
         \<not> is_ok (decode_payload (take k (drop length_prefix_bytes bs))))
    \<and> (\<forall>extra. extra \<noteq> [] \<longrightarrow> length bs + length extra \<le> usize_max \<longrightarrow>
         \<not> is_ok (decode_payload (drop length_prefix_bytes bs @ extra)))"
proof -
  obtain p where p: "emits (put_payload f) = Some p" "length p \<le> max_frame_bytes" "bs = le_bytes 4 (length p) @ p"
    using assms(2) encode_Inr by auto
  have d: "decodes p f" using payload_decodes [OF assms(1) p(1)] max_frame_usize [OF p(2)] by blast
  have dp: "\<not> is_ok (decode_payload q)" if "\<not> is_ok (decode_known q)" for q
    using that by (cases "decode_known q") (simp_all add: decode_payload_def)
  have "length p < 256 ^ 4" using p(2) by (simp add: max_frame_bytes_def)
  then show ?thesis
    using d p dp by (auto simp: decodes_def decode_payload_def length_prefix_bytes_def from_le_le_bytes)
qed

subsection \<open>Decoded frames are well formed\<close>

lemma gets_frames: "fields_of kind = Some g \<Longrightarrow> gets g frame_ok"
proof -
  have "gets get_handshake frame_ok"
    unfolding get_handshake_def
    by (intro u32.gets_field opt_label.gets_field label_fields.gets_field i64.gets_field flag.gets_field)
      (simp add: uuid_ok_def)
  moreover have "gets get_index frame_ok"
    unfolding get_index_def
    by (intro u32.gets_field label.gets_field i64.gets_field entry_kind.gets_field u64.gets_field blob.gets_field) simp
  moreover have "gets get_rows_frame frame_ok"
    unfolding get_rows_frame_def
    by (intro u32.gets_field u64.gets_field gets_then [OF gets_rows]) simp_all
  moreover have "gets get_segment frame_ok"
    unfolding get_segment_def
    by (intro u32.gets_field label.gets_field i64.gets_field u64.gets_field blob.gets_field opt_blob.gets_field)
      (use unsigned_less [where 'b = 64] in \<open>auto simp: meta_ok_def\<close>)
  moreover have "gets get_clock_offset frame_ok"
    unfolding get_clock_offset_def by (intro u32.gets_field i64.gets_field) simp
  moreover have "gets get_source_update frame_ok"
    unfolding get_source_update_def
    by (intro u32.gets_field i64.gets_field label_fields.gets_field) simp
  ultimately show "fields_of kind = Some g \<Longrightarrow> gets g frame_ok"
    by (auto simp: fields_of_def split: if_splits)
qed

lemma decode_known_ok:
  assumes "decode_known bs = Inr (Some f)" and "length bs \<le> usize_max"
  shows "frame_ok f"
proof -
  obtain kind c g c' where k: "get_u8 (new_cursor bs) = Inr (kind, c)" "fields_of kind = Some g" "g c = Inr (f, c')"
    using assms(1) by (auto simp: decode_known_def result_simps split: option.splits)
  have "cursor_ok c" using getsD [OF u8.get_ok _ k(1)] assms(2) by simp
  then show ?thesis using getsD [OF gets_frames [OF k(2)] _ k(3)] by simp
qed

text \<open>
  C35: whatever bytes arrive, a payload that decodes is a well-formed frame: every
  string is UTF-8, every map in strict key order and every integer within its width.
\<close>

theorem decoded_frame_ok:
  assumes "decode_payload bs = Inr f" and "length bs \<le> usize_max"
  shows "frame_ok f"
  using assms decode_known_ok [of bs f]
  by (auto simp: decode_payload_def result_simps split: option.splits)


subsection \<open>A stream of frames\<close>

lemma read_payload_whole:
  assumes "io_bytes (fr_inner r) = le_bytes 4 (length p) @ p @ rest" and "length p \<le> max_frame_bytes"
  shows "read_payload r = (Inr (Some ()), r\<lparr>fr_inner := (fr_inner r)\<lparr>io_bytes := rest\<rparr>, fr_buf := p\<rparr>)"
proof -
  have "from_le (le_bytes 4 (length p)) = length p"
    using assms(2) by (simp add: from_le_le_bytes max_frame_bytes_def)
  then show ?thesis
    using assms by (simp add: read_payload_def read_exact_def length_prefix_bytes_def Let_def)
qed

lemma read_payload_cut:
  assumes "io_bytes (fr_inner r) = take k (le_bytes 4 (length p) @ p)" and "k < 4 + length p"
    and "length p \<le> max_frame_bytes" and "io_fault (fr_inner r) = None"
  shows "if k < 4 then fst (read_payload r) = Inr None else \<not> is_ok (fst (read_payload r))"
proof (cases "k < 4")
  case True
  then show ?thesis using assms by (simp add: read_payload_def read_exact_def length_prefix_bytes_def)
next
  case False
  have "from_le (le_bytes 4 (length p)) = length p"
    using assms(3) by (simp add: from_le_le_bytes max_frame_bytes_def)
  moreover have "io_bytes (fr_inner r) = le_bytes 4 (length p) @ take (k - 4) p" using assms(1) False by simp
  ultimately show ?thesis
    using False assms(2,3) by (simp add: read_payload_def read_exact_def length_prefix_bytes_def Let_def)
qed

text \<open>
  What a publisher puts on a stream: a frame, or a frame of a kind this build does
  not know, which a newer publisher sends.
\<close>

type_synonym item = "frame + bytes"

definition item_payload :: "item \<Rightarrow> bytes" where
  "item_payload i = (case i of Inl f \<Rightarrow> drop length_prefix_bytes (projr (encode f)) | Inr raw \<Rightarrow> raw)"

definition item_bytes :: "item \<Rightarrow> bytes" where
  "item_bytes i = le_bytes 4 (length (item_payload i)) @ item_payload i"

definition item_ok :: "item \<Rightarrow> bool" where
  "item_ok i = (case i of
     Inl f \<Rightarrow> frame_ok f \<and> is_ok (encode f)
   | Inr raw \<Rightarrow> raw \<noteq> [] \<and> fields_of (hd raw) = None \<and> length raw \<le> max_frame_bytes)"

definition known_frames :: "item list \<Rightarrow> frame list" where
  "known_frames items = concat (map (\<lambda>i. case i of Inl f \<Rightarrow> [f] | Inr _ \<Rightarrow> []) items)"

definition unknown_frames :: "item list \<Rightarrow> nat" where
  "unknown_frames items = length (filter (\<lambda>i. case i of Inl _ \<Rightarrow> False | Inr _ \<Rightarrow> True) items)"

lemma item_encode: "item_ok (Inl f) \<Longrightarrow> encode f = Inr (item_bytes (Inl f))"
proof -
  assume "item_ok (Inl f)"
  then obtain bs where bs: "encode f = Inr bs" by (cases "encode f") (auto simp: item_ok_def)
  obtain p where "bs = le_bytes 4 (length p) @ p" using bs unfolding encode_Inr by blast
  then show ?thesis using bs by (simp add: item_bytes_def item_payload_def length_prefix_bytes_def)
qed

lemma item_decodes:
  assumes "item_ok i"
  shows "length (item_payload i) \<le> max_frame_bytes"
    and "decode_known (item_payload i) = Inr (case i of Inl f \<Rightarrow> Some f | Inr _ \<Rightarrow> None)"
proof -
  have "length (item_payload i) \<le> max_frame_bytes
    \<and> decode_known (item_payload i) = Inr (case i of Inl f \<Rightarrow> Some f | Inr _ \<Rightarrow> None)"
  proof (cases i)
    case (Inl f)
    then obtain bs where bs: "encode f = Inr bs" using assms by (cases "encode f") (auto simp: item_ok_def)
    then obtain p where p: "emits (put_payload f) = Some p" "length p \<le> max_frame_bytes"
      and e: "bs = le_bytes 4 (length p) @ p"
      by (auto simp: encode_Inr)
    have "item_payload i = p" using bs e by (simp add: item_payload_def Inl length_prefix_bytes_def)
    moreover have "decodes p f"
      using payload_decodes [OF _ p(1) max_frame_usize [OF p(2)]] assms by (simp add: item_ok_def Inl)
    ultimately show ?thesis using p by (simp add: decodes_def Inl)
  next
    case (Inr raw)
    then obtain b bs where "raw = b # bs" "fields_of b = None" "length (b # bs) \<le> max_frame_bytes"
      using assms by (cases raw) (auto simp: item_ok_def)
    then show ?thesis
      using decode_known_Cons [of b bs] max_frame_usize [of "length (b # bs)"]
      by (simp add: Inr item_payload_def)
  qed
  then show "length (item_payload i) \<le> max_frame_bytes"
    "decode_known (item_payload i) = Inr (case i of Inl f \<Rightarrow> Some f | Inr _ \<Rightarrow> None)" by auto
qed

text \<open>A subscriber's loop: frames until the end of the stream or an error.\<close>

lemma next_frame_shrinks:
  "fst (next_frame r) = Inr (Some f) \<Longrightarrow>
   length (io_bytes (fr_inner (snd (next_frame r)))) < length (io_bytes (fr_inner r))"
proof (induction r rule: next_frame.induct)
  case (1 r)
  note eq = next_frame.simps [of r]
  show ?case
  proof (cases "fst (read_payload r)")
    case (Inl e)
    then show ?thesis using 1(2) by (subst (asm) eq) simp
  next
    case (Inr got)
    show ?thesis
    proof (cases got)
      case None
      then show ?thesis using 1(2) Inr by (subst (asm) eq) simp
    next
      case (Some u)
      with Inr have p: "fst (read_payload r) = Inr (Some u)" by simp
      note sh = read_payload_shrinks [OF p]
      show ?thesis
      proof (cases "decode_known (fr_buf (snd (read_payload r)))")
        case (Inl e)
        then show ?thesis using 1(2) p by (subst (asm) eq) simp
      next
        case d: (Inr k)
        show ?thesis
        proof (cases k)
          case None
          let ?r = "(snd (read_payload r))\<lparr>fr_skipped := fr_skipped (snd (read_payload r)) + 1\<rparr>"
          have "next_frame r = next_frame ?r" by (subst eq) (simp add: p d None)
          with 1(1) [OF p refl d None] 1(2) sh show ?thesis by simp
        next
          case (Some g)
          have "next_frame r = (Inr (Some g), snd (read_payload r))" by (subst eq) (simp add: p d Some)
          with sh show ?thesis by simp
        qed
      qed
    qed
  qed
qed

function drain :: "frame_reader \<Rightarrow> frame list \<times> error option \<times> frame_reader" where
  "drain r =
    (case fst (next_frame r) of
       Inl e \<Rightarrow> ([], Some e, snd (next_frame r))
     | Inr None \<Rightarrow> ([], None, snd (next_frame r))
     | Inr (Some f) \<Rightarrow> (f # fst (drain (snd (next_frame r))), snd (drain (snd (next_frame r)))))"
  by pat_completeness auto

termination drain
  by (relation "measure (\<lambda>r. length (io_bytes (fr_inner r)))") (auto dest: next_frame_shrinks)

declare drain.simps [simp del]

lemma drain_cong: "next_frame r = next_frame r' \<Longrightarrow> drain r = drain r'"
  by (simp only: drain.simps [of r] drain.simps [of r'])

lemma drain_end:
  assumes "read_payload r = (res, r')" and "res = Inr None \<or> \<not> is_ok res"
  shows "fst (drain r) = []" and "fst (snd (drain r)) = None \<longleftrightarrow> res = Inr None"
    and "snd (snd (drain r)) = r'"
proof -
  have "next_frame r = (case res of Inl e \<Rightarrow> (Inl e, r') | Inr _ \<Rightarrow> (Inr None, r'))"
    using assms by (cases res) (auto simp: next_frame.simps [of r])
  then show "fst (drain r) = []" "fst (snd (drain r)) = None \<longleftrightarrow> res = Inr None" "snd (snd (drain r)) = r'"
    using assms(2) by (cases res; auto simp: drain.simps [of r])+
qed

lemma drain_item:
  assumes "io_bytes (fr_inner r) = item_bytes i @ rest" and "item_ok i"
  shows "\<exists>buf. drain r = (let r' = r\<lparr>fr_inner := (fr_inner r)\<lparr>io_bytes := rest\<rparr>, fr_buf := buf,
             fr_skipped := fr_skipped r + (case i of Inl _ \<Rightarrow> 0 | Inr _ \<Rightarrow> 1)\<rparr>
     in case i of Inl f \<Rightarrow> (f # fst (drain r'), snd (drain r')) | Inr _ \<Rightarrow> drain r')"
proof -
  let ?buf = "item_payload i"
  let ?r1 = "r\<lparr>fr_inner := (fr_inner r)\<lparr>io_bytes := rest\<rparr>, fr_buf := ?buf\<rparr>"
  have p: "read_payload r = (Inr (Some ()), ?r1)"
    by (rule read_payload_whole) (use assms item_decodes(1) in \<open>simp_all add: item_bytes_def\<close>)
  have d: "decode_known (fr_buf ?r1) = Inr (case i of Inl f \<Rightarrow> Some f | Inr _ \<Rightarrow> None)"
    using item_decodes(2) [OF assms(2)] by simp
  show ?thesis
  proof (cases i)
    case (Inl f)
    have "next_frame r = (Inr (Some f), ?r1)"
      by (subst next_frame.simps) (use p d Inl in simp)
    then have "drain r = (f # fst (drain ?r1), snd (drain ?r1))" by (subst drain.simps) simp
    then show ?thesis by (intro exI [of _ ?buf]) (simp add: Inl Let_def)
  next
    case (Inr raw)
    let ?r2 = "?r1\<lparr>fr_skipped := fr_skipped ?r1 + 1\<rparr>"
    have "next_frame r = next_frame ?r2"
      by (subst next_frame.simps) (use p d Inr in simp)
    then have "drain r = drain ?r2" by (rule drain_cong)
    then show ?thesis by (intro exI [of _ ?buf]) (simp add: Inr Let_def)
  qed
qed

lemma drain_items:
  assumes "io_bytes (fr_inner r) = concat (map item_bytes items) @ rest" and "\<forall>i \<in> set items. item_ok i"
  shows "\<exists>buf. drain r = (let r' = r\<lparr>fr_inner := (fr_inner r)\<lparr>io_bytes := rest\<rparr>, fr_buf := buf,
             fr_skipped := fr_skipped r + unknown_frames items\<rparr>
     in (known_frames items @ fst (drain r'), snd (drain r')))"
  using assms
proof (induction items arbitrary: r)
  case Nil
  have "(fr_inner r)\<lparr>io_bytes := rest\<rparr> = fr_inner r" using Nil.prems(1) by simp
  then show ?case
    by (intro exI [of _ "fr_buf r"]) (simp add: known_frames_def unknown_frames_def)
next
  case (Cons i items)
  let ?rest = "concat (map item_bytes items) @ rest"
  have "io_bytes (fr_inner r) = item_bytes i @ ?rest" "item_ok i" using Cons.prems by simp_all
  from drain_item [OF this] obtain buf where d: "drain r = (let r' = r\<lparr>fr_inner := (fr_inner r)\<lparr>io_bytes := ?rest\<rparr>, fr_buf := buf,
             fr_skipped := fr_skipped r + (case i of Inl _ \<Rightarrow> 0 | Inr _ \<Rightarrow> 1)\<rparr>
     in case i of Inl f \<Rightarrow> (f # fst (drain r'), snd (drain r')) | Inr _ \<Rightarrow> drain r')" by blast
  let ?r1 = "r\<lparr>fr_inner := (fr_inner r)\<lparr>io_bytes := ?rest\<rparr>, fr_buf := buf,
             fr_skipped := fr_skipped r + (case i of Inl _ \<Rightarrow> 0 | Inr _ \<Rightarrow> 1)\<rparr>"
  obtain buf' where d': "drain ?r1 = (let r' = ?r1\<lparr>fr_inner := (fr_inner ?r1)\<lparr>io_bytes := rest\<rparr>, fr_buf := buf',
             fr_skipped := fr_skipped ?r1 + unknown_frames items\<rparr>
     in (known_frames items @ fst (drain r'), snd (drain r')))"
    using Cons.IH [of ?r1] Cons.prems(2) by auto
  show ?case
  proof (intro exI [of _ buf'])
    show "drain r = (let r' = r\<lparr>fr_inner := (fr_inner r)\<lparr>io_bytes := rest\<rparr>, fr_buf := buf',
             fr_skipped := fr_skipped r + unknown_frames (i # items)\<rparr>
     in (known_frames (i # items) @ fst (drain r'), snd (drain r')))"
      using d' unfolding d
      by (cases i) (simp_all add: Let_def known_frames_def unknown_frames_def)
  qed
qed

lemma new_reader_preamble:
  "new_reader \<lparr>io_bytes = write_preamble [] @ bs, io_fault = fault\<rparr>
     = Inr \<lparr>fr_inner = \<lparr>io_bytes = bs, io_fault = fault\<rparr>, fr_buf = [], fr_skipped = 0\<rparr>"
proof -
  have "length magic = 12" by (simp add: magic_def str_def)
  moreover have "from_le (le_bytes 2 protocol_version) = protocol_version"
    by (simp add: from_le_le_bytes protocol_version_def)
  ultimately show ?thesis
    by (simp add: new_reader_def read_exact_def write_preamble_def)
qed

text \<open>
  After the preamble a reader returns the frames of a stream in order and then
  the end of the stream. A frame of a kind this build does not know is skipped and
  counted, and the frames around it are returned.
\<close>

theorem stream_roundtrip:
  assumes "\<forall>i \<in> set items. item_ok i"
    and "new_reader \<lparr>io_bytes = write_preamble [] @ concat (map item_bytes items), io_fault = None\<rparr> = Inr r"
  shows "fst (drain r) = known_frames items \<and> fst (snd (drain r)) = None
    \<and> fr_skipped (snd (snd (drain r))) = unknown_frames items"
proof -
  have r: "r = \<lparr>fr_inner = \<lparr>io_bytes = concat (map item_bytes items), io_fault = None\<rparr>, fr_buf = [], fr_skipped = 0\<rparr>"
    using assms(2) new_reader_preamble [of "concat (map item_bytes items)" None] by simp
  then obtain buf where d: "drain r = (let r' = r\<lparr>fr_inner := (fr_inner r)\<lparr>io_bytes := []\<rparr>, fr_buf := buf,
             fr_skipped := fr_skipped r + unknown_frames items\<rparr>
     in (known_frames items @ fst (drain r'), snd (drain r')))"
    using drain_items [of r items "[]"] assms(1) by auto
  have e: "read_payload r' = (Inr None, r')" if "io_bytes (fr_inner r') = []" "io_fault (fr_inner r') = None" for r'
    using that by (simp add: read_payload_def read_exact_def length_prefix_bytes_def)
  show ?thesis using d drain_end [OF e] by (simp add: r Let_def)
qed

text \<open>
  A stream cut inside a frame is reported as an error after the frames before
  it, when the cut is in the payload. Cut inside the four bytes of the length prefix
  it reads as a clean end of the stream, though a frame is lost either way.
\<close>

theorem stream_cut:
  assumes "\<forall>i \<in> set items. item_ok i" and "item_ok next" and "k < length (item_bytes next)"
    and "new_reader \<lparr>io_bytes = write_preamble [] @ concat (map item_bytes items) @ take k (item_bytes next),
           io_fault = None\<rparr> = Inr r"
  shows "fst (drain r) = known_frames items
    \<and> (fst (snd (drain r)) = None \<longleftrightarrow> k < length_prefix_bytes)"
proof -
  let ?cut = "take k (item_bytes next)"
  have r: "r = \<lparr>fr_inner = \<lparr>io_bytes = concat (map item_bytes items) @ ?cut, io_fault = None\<rparr>, fr_buf = [], fr_skipped = 0\<rparr>"
    using assms(4) new_reader_preamble [of "concat (map item_bytes items) @ ?cut" None] by simp
  then obtain buf where d: "drain r = (let r' = r\<lparr>fr_inner := (fr_inner r)\<lparr>io_bytes := ?cut\<rparr>, fr_buf := buf,
             fr_skipped := fr_skipped r + unknown_frames items\<rparr>
     in (known_frames items @ fst (drain r'), snd (drain r')))"
    using drain_items [of r items ?cut] assms(1) by auto
  have c: "fst (drain r') = [] \<and> (fst (snd (drain r')) = None \<longleftrightarrow> k < 4)"
    if i: "io_bytes (fr_inner r') = ?cut" "io_fault (fr_inner r') = None" for r'
  proof -
    have "if k < 4 then fst (read_payload r') = Inr None else \<not> is_ok (fst (read_payload r'))"
      by (rule read_payload_cut [of r' k "item_payload next"])
        (use i assms(3) item_decodes(1) [OF assms(2)] in \<open>simp_all add: item_bytes_def\<close>)
    then have "fst (read_payload r') = Inr None \<longleftrightarrow> k < 4"
      "fst (read_payload r') = Inr None \<or> \<not> is_ok (fst (read_payload r'))"
      by (auto split: if_splits)
    then show ?thesis using drain_end [of r' "fst (read_payload r')" "snd (read_payload r')"] by simp
  qed
  show ?thesis using d c by (simp add: r Let_def length_prefix_bytes_def)
qed

subsection \<open>At concrete frames\<close>

definition sample_rows_frame :: frame where
  "sample_rows_frame = Rows 2 99 (7, 9)
     [\<lparr>row_stream = str ''cpu'', row_ts = 1, row_wall_offset = - 5, row_payload = [0xDE, 0xAD]\<rparr>]"

definition sample_update :: frame where
  "sample_update = SourceUpdate 5 (- 1) [(str ''arm'', str ''a''), (str ''host'', str ''b'')] []"

definition sample_items :: "item list" where
  "sample_items = [Inl sample_rows_frame, Inr [200, 1, 2], Inl sample_update]"

lemma utf8_str: "list_all (\<lambda>c. of_char c < (0x80 :: u8)) s \<Longrightarrow> utf8_ok (str s)"
  unfolding str_def by (rule utf8_ok_ascii) (simp add: list_all_iff)

lemma sample_labels_utf8: "utf8_ok (str ''cpu'')" "utf8_ok (str ''arm'')" "utf8_ok (str ''a'')"
    "utf8_ok (str ''host'')" "utf8_ok (str ''b'')"
  by (rule utf8_str, code_simp)+

lemma sample_labels_sorted: "str ''arm'' < str ''host''"
  by code_simp

lemma sample_frames_ok: "frame_ok sample_rows_frame" "frame_ok sample_update"
  using sample_labels_utf8 sample_labels_sorted
  by (simp_all add: sample_rows_frame_def sample_update_def row_ok_def map_ok_def i64_ok_def i64_min_def
      i64_max_def bt_ok_def)

lemma emits_then_eq:
  "appends p \<Longrightarrow> appends q \<Longrightarrow> emits (then_put p q) =
    (case emits p of None \<Rightarrow> None | Some b1 \<Rightarrow> map_option (append b1) (emits q))"
  by (cases "emits (then_put p q)") (auto simp: emits_then split: option.splits,
      metis emits_then not_Some_eq)

lemma is_ok_encode: "emits (put_payload f) = Some p \<Longrightarrow> length p \<le> max_frame_bytes \<Longrightarrow> is_ok (encode f)"
  using encode_Inr [of f "le_bytes 4 (length p) @ p"] by simp

lemma sample_encodes: "is_ok (encode sample_rows_frame)" "is_ok (encode sample_update)"
  unfolding sample_rows_frame_def sample_update_def
  by (rule is_ok_encode,
      simp add: emits_then_eq field_appends put_u8_def put_u32_def put_u64_def put_i64_def put_str_def
        put_bytes_def put_length_def put_map_def put_entry_def put_row_def str_def del: put_all_two,
      simp add: max_frame_bytes_def)+

lemma sample_items_ok: "\<forall>i \<in> set sample_items. item_ok i"
  using sample_frames_ok sample_encodes
  by (simp add: sample_items_def item_ok_def fields_of_def kind_defs max_frame_bytes_def)

theorem frame_roundtrip_witness:
  "\<exists>bs. encode sample_rows_frame = Inr bs \<and> decode_payload (drop length_prefix_bytes bs) = Inr sample_rows_frame
     \<and> (\<forall>k < length bs - length_prefix_bytes. \<not> is_ok (decode_payload (take k (drop length_prefix_bytes bs))))"
proof -
  obtain bs where "encode sample_rows_frame = Inr bs"
    using sample_encodes(1) by (cases "encode sample_rows_frame") auto
  with frame_roundtrip [OF sample_frames_ok(1) this] show ?thesis by blast
qed

theorem decoded_frame_ok_witness:
  "\<exists>bs. decode_payload bs = Inr sample_update \<and> frame_ok sample_update"
proof -
  obtain bs p where "encode sample_update = Inr bs" and p: "emits (put_payload sample_update) = Some p" "length p \<le> max_frame_bytes"
    using sample_encodes(2) by (cases "encode sample_update") (auto simp: encode_Inr)
  have "length p \<le> usize_max" using p(2) by (rule max_frame_usize)
  moreover have "decode_payload p = Inr sample_update"
    using payload_decodes [OF sample_frames_ok(2) p(1) calculation] by (simp add: decodes_def decode_payload_def)
  ultimately show ?thesis using decoded_frame_ok by blast
qed

theorem stream_roundtrip_witness:
  "\<exists>r. new_reader \<lparr>io_bytes = write_preamble [] @ concat (map item_bytes sample_items), io_fault = None\<rparr> = Inr r
     \<and> fst (drain r) = [sample_rows_frame, sample_update] \<and> fr_skipped (snd (snd (drain r))) = 1"
  using new_reader_preamble [of "concat (map item_bytes sample_items)" None]
    stream_roundtrip [OF sample_items_ok]
  by (simp add: sample_items_def known_frames_def unknown_frames_def)

theorem stream_cut_witness:
  "\<exists>r r'. new_reader \<lparr>io_bytes = write_preamble [] @ concat (map item_bytes sample_items)
         @ take 3 (item_bytes (Inl sample_update)), io_fault = None\<rparr> = Inr r
     \<and> fst (snd (drain r)) = None
     \<and> new_reader \<lparr>io_bytes = write_preamble [] @ concat (map item_bytes sample_items)
         @ take 4 (item_bytes (Inl sample_update)), io_fault = None\<rparr> = Inr r'
     \<and> fst (snd (drain r')) \<noteq> None"
proof -
  have u: "item_ok (Inl sample_update)" using sample_items_ok by (simp add: sample_items_def)
  have "item_payload (Inl sample_update) \<noteq> []"
    using item_decodes(2) [OF u] decode_known_Nil by (metis is_ok_simps(1))
  then have l: "4 < length (item_bytes (Inl sample_update))" by (simp add: item_bytes_def)
  note cut = stream_cut [OF sample_items_ok u _ new_reader_preamble]
  show ?thesis
    using cut [of 3] cut [of 4] l
      new_reader_preamble [of "concat (map item_bytes sample_items) @ take 3 (item_bytes (Inl sample_update))" None]
      new_reader_preamble [of "concat (map item_bytes sample_items) @ take 4 (item_bytes (Inl sample_update))" None]
    by (simp add: length_prefix_bytes_def)
qed

end
