(* ===== verification/Publisher.thy ===== *)
theory Publisher
  imports Archive_Store Frames Wire "HOL-Library.Product_Lexorder"
begin

section \<open>Tailing an archive as frames (\<open>src/replicate/publisher.rs\<close>)\<close>

text \<open>
  A publisher keeps a cursor per source and reads the archive at each poll. A poll
  runs in one read snapshot, so every query below is asked of one archive value.
  Operations append to the list of frames they are given; a failing poll leaves the
  cursors as far as they had advanced. Sequence numbers are \<open>u64\<close> and wrap.
\<close>

unbundle bit_operations_syntax

definition fold_prime :: u64 where "fold_prime = 0x100000001b3"
definition basis_a :: u64 where "basis_a = 0xcbf29ce484222325"
definition basis_b :: u64 where "basis_b = 0x9e3779b97f4a7c15"

definition fold_byte :: "index_state \<Rightarrow> u8 \<Rightarrow> index_state" where
  "fold_byte s byte =
     ((fst s XOR ucast byte) * fold_prime, (snd s XOR ucast byte) * word_rotl 17 fold_prime)"

definition fold_index_state :: "index_state \<Rightarrow> i64 \<Rightarrow> bytes \<Rightarrow> index_state" where
  "fold_index_state state ts blob =
    (let start = (if state = no_index_state then (basis_a, basis_b) else state);
         s = foldl fold_byte start (le_bytes 8 (i64_bits ts) @ blob)
     in if s = no_index_state then (1, 0) else s)"

lemma fold_index_state_declares [simp]: "fold_index_state s ts blob \<noteq> no_index_state"
  by (simp add: fold_index_state_def Let_def no_index_state_def)

record stream_cursor =
  sc_wal_after :: "i64 option"
  sc_index_after :: "(i64 \<times> nat) option"

definition default_stream :: stream_cursor where
  "default_stream = \<lparr>sc_wal_after = None, sc_index_after = None\<rparr>"

record source_cursor =
  cu_ordinal :: u32
  cu_source_id :: i64
  cu_streams :: "(rstring, stream_cursor) btree"
  cu_clock_after :: "i64 option"
  cu_seq :: u64
  cu_index_state :: index_state
  cu_sent_full :: bool
  cu_labels :: label_map
  cu_metadata :: label_map

record publisher =
  pb_sources :: "source_cursor list"
  pb_since :: i64

text \<open>\<open>streams.entry(name).or_default()\<close>, and a write through it.\<close>

definition stream_entry :: "source_cursor \<Rightarrow> rstring \<Rightarrow> stream_cursor" where
  "stream_entry c name = (case bt_get (cu_streams c) name of Some e \<Rightarrow> e | None \<Rightarrow> default_stream)"

definition set_stream :: "rstring \<Rightarrow> stream_cursor \<Rightarrow> source_cursor \<Rightarrow> source_cursor" where
  "set_stream name e c = c\<lparr>cu_streams := bt_insert name e (cu_streams c)\<rparr>"

definition or_default :: "rstring \<Rightarrow> source_cursor \<Rightarrow> source_cursor" where
  "or_default name c = set_stream name (stream_entry c name) c"

subsection \<open>Index entries\<close>

text \<open>The loop of \<open>emit_index\<close>: \<open>skip\<close>, \<open>at_last\<close> and \<open>last_ts\<close> are its locals.\<close>

fun emit_rows ::
  "rstring \<Rightarrow> caller_row list \<Rightarrow> nat \<Rightarrow> nat \<Rightarrow> i64 option \<Rightarrow> source_cursor \<Rightarrow> frame list \<Rightarrow>
   nat \<times> i64 option \<times> source_cursor \<times> frame list" where
  "emit_rows stream [] skip at_last last_ts c out = (at_last, last_ts, c, out)"
| "emit_rows stream (row # rows) skip at_last last_ts c out =
    (if skip > 0 \<and> Some (cr_ts row) = last_ts
     then emit_rows stream rows (skip - 1) (at_last + 1) last_ts c out
     else
       let at' = (if Some (cr_ts row) = last_ts then at_last + 1 else 1);
           state = fold_index_state (cu_index_state c) (cr_ts row) (cr_blob row);
           kind = (if cu_sent_full c then Delta else Full)
       in emit_rows stream rows skip at' (Some (cr_ts row))
            (c\<lparr>cu_index_state := state, cu_sent_full := True\<rparr>)
            (out @ [Index (cu_ordinal c) stream (cr_ts row) kind state (cr_blob row)]))"

definition emit_index ::
  "archive \<Rightarrow> rstring \<Rightarrow> i64 \<Rightarrow> source_cursor \<times> frame list \<Rightarrow> source_cursor \<times> frame list" where
  "emit_index a stream from co =
    (let c = or_default stream (fst co);
         (start, skip) = (case sc_index_after (stream_entry c stream) of Some (ts, n) \<Rightarrow> (ts, n) | None \<Rightarrow> (from, 0));
         rows = read_caller_rows a (cu_source_id c) stream start i64_max;
         (at_last, last_ts, c', out) =
           emit_rows stream rows skip 0 (map_option fst (sc_index_after (stream_entry c stream))) c (snd co)
     in case last_ts of
          None \<Rightarrow> (c', out)
        | Some ts \<Rightarrow> (set_stream stream ((stream_entry c' stream)\<lparr>sc_index_after := Some (ts, at_last)\<rparr>) c', out))"

fun emit_indexes ::
  "archive \<Rightarrow> rstring list \<Rightarrow> i64 \<Rightarrow> source_cursor \<times> frame list \<Rightarrow> source_cursor \<times> frame list" where
  "emit_indexes a [] from co = co"
| "emit_indexes a (name # names) from co = emit_indexes a names from (emit_index a name from co)"

subsection \<open>A poll of one source\<close>

fun emit_clock :: "(i64 \<times> i64) list \<Rightarrow> source_cursor \<times> frame list \<Rightarrow> source_cursor \<times> frame list" where
  "emit_clock [] co = co"
| "emit_clock ((ts, offset) # rest) (c, out) =
    (if (case cu_clock_after c of Some after \<Rightarrow> ts \<le> after | None \<Rightarrow> False) then emit_clock rest (c, out)
     else emit_clock rest
       (c\<lparr>cu_clock_after := Some ts\<rparr>, out @ [ClockOffset (cu_ordinal c) ts offset]))"

definition segment_frame :: "u32 \<Rightarrow> rstring \<Rightarrow> segment_row \<Rightarrow> frame" where
  "segment_frame ordinal stream s = Segment ordinal stream (sr_meta s) (sr_bytes s) (sr_caller_index s)"

definition past :: "i64 option \<Rightarrow> wal_row \<Rightarrow> bool" where
  "past after r \<longleftrightarrow> (case after of Some a \<Rightarrow> a < row_ts r | None \<Rightarrow> True)"

definition newest_of :: "i64 option \<Rightarrow> wal_row list \<Rightarrow> i64 option" where
  "newest_of after rows =
     foldl (\<lambda>newest r. Some (case newest of None \<Rightarrow> row_ts r | Some n \<Rightarrow> max n (row_ts r))) after rows"

text \<open>
  One stream of a poll: segments when it has no cursor, an error when a seal has
  passed the cursor, and then the live rows past it.
\<close>

definition poll_stream ::
  "archive \<Rightarrow> rstring \<Rightarrow> wal_row list \<Rightarrow> source_cursor \<times> frame list \<Rightarrow>
   wal_row list result \<times> source_cursor \<times> frame list" where
  "poll_stream a stream rows co =
    (let c = or_default stream (fst co); out = snd co;
         e = stream_entry c stream;
         watermark = sealed_watermarks a (cu_source_id c, stream);
         (e1, out1) = (case (watermark, sc_wal_after e) of
            (Some w, None) \<Rightarrow>
              (e\<lparr>sc_wal_after := Some w\<rparr>,
               out @ map (segment_frame (cu_ordinal c) stream)
                 (segments_overlapping a (cu_source_id c) stream i64_min i64_max))
          | _ \<Rightarrow> (e, out));
         c1 = set_stream stream e1 c
     in if (case (watermark, sc_wal_after e1) of (Some w, Some after) \<Rightarrow> w > after | _ \<Rightarrow> False)
        then (Inl (Message ''stream sealed past the cursor of this publisher''), c1, out1)
        else
          let fresh = filter (past (sc_wal_after e1)) (live_wal a (cu_source_id c) stream);
              e2 = e1\<lparr>sc_wal_after := newest_of (sc_wal_after e1) fresh\<rparr>
          in (Inr (rows @ fresh), set_stream stream e2 c1, out1))"

fun poll_streams ::
  "archive \<Rightarrow> rstring list \<Rightarrow> wal_row list \<Rightarrow> source_cursor \<times> frame list \<Rightarrow>
   wal_row list result \<times> source_cursor \<times> frame list" where
  "poll_streams a [] rows co = (Inr rows, co)"
| "poll_streams a (stream # streams) rows co =
    (case poll_stream a stream rows co of
       (Inl e, co') \<Rightarrow> (Inl e, co')
     | (Inr rows', co') \<Rightarrow> poll_streams a streams rows' co')"

definition row_order :: "wal_row \<Rightarrow> i64 \<times> rstring" where
  "row_order r = (row_ts r, row_stream r)"

definition poll ::
  "archive \<Rightarrow> source_cursor \<times> frame list \<Rightarrow> unit result \<times> source_cursor \<times> frame list" where
  "poll a co =
    (let co1 = emit_indexes a (caller_row_streams a (cu_source_id (fst co))) i64_min co;
         co2 = emit_clock (read_clock_offsets a (cu_source_id (fst co1))) co1
     in case poll_streams a (all_streams a (cu_source_id (fst co2))) [] co2 of
          (Inl e, co3) \<Rightarrow> (Inl e, co3)
        | (Inr rows, c, out) \<Rightarrow>
            (Inr (), c\<lparr>cu_seq := cu_seq c + 1\<rparr>,
             out @ [Rows (cu_ordinal c) (cu_seq c) (cu_index_state c) (order_by row_order rows)]))"

subsection \<open>Opening a source\<close>

definition open_stream ::
  "archive \<Rightarrow> i64 option \<Rightarrow> rstring \<Rightarrow> source_cursor \<times> frame list \<Rightarrow> source_cursor \<times> frame list" where
  "open_stream a since stream co =
    (let c = or_default stream (fst co); out = snd co;
         e = stream_entry c stream;
         watermark = sealed_watermarks a (cu_source_id c, stream)
     in case since of
          Some from \<Rightarrow>
            (set_stream stream (e\<lparr>sc_wal_after := watermark\<rparr>) c,
             out @ map (segment_frame (cu_ordinal c) stream)
               (segments_overlapping a (cu_source_id c) stream from i64_max))
        | None \<Rightarrow>
            (set_stream stream (e\<lparr>sc_wal_after :=
               (case span_last_ts (live_wal_span a (cu_source_id c) stream) of
                  Some t \<Rightarrow> Some t | None \<Rightarrow> watermark)\<rparr>) c, out))"

fun open_streams ::
  "archive \<Rightarrow> i64 option \<Rightarrow> rstring list \<Rightarrow> source_cursor \<times> frame list \<Rightarrow> source_cursor \<times> frame list" where
  "open_streams a since [] co = co"
| "open_streams a since (s # ss) co = open_streams a since ss (open_stream a since s co)"

fun open_clock :: "i64 option \<Rightarrow> (i64 \<times> i64) list \<Rightarrow> source_cursor \<times> frame list \<Rightarrow> source_cursor \<times> frame list" where
  "open_clock since [] co = co"
| "open_clock since ((ts, offset) # rest) (c, out) =
    (case since of
       Some from \<Rightarrow>
         if ts < from then open_clock since rest (c, out)
         else open_clock since rest
           (c\<lparr>cu_clock_after := Some ts\<rparr>, out @ [ClockOffset (cu_ordinal c) ts offset])
     | None \<Rightarrow> open_clock since rest (c\<lparr>cu_clock_after := Some ts\<rparr>, out))"

definition handshake_frame :: "u32 \<Rightarrow> source_row \<Rightarrow> frame" where
  "handshake_frame ordinal rec =
     Handshake ordinal (src_uuid rec) (sm_labels (src_meta rec)) (sm_metadata (src_meta rec))
       (sm_clock_anchor (src_meta rec)) (src_complete rec)"

definition first_cursor :: "u32 \<Rightarrow> source_row \<Rightarrow> source_cursor" where
  "first_cursor ordinal rec =
     \<lparr>cu_ordinal = ordinal, cu_source_id = src_id rec, cu_streams = [], cu_clock_after = None, cu_seq = 0,
      cu_index_state = no_index_state, cu_sent_full = False,
      cu_labels = sm_labels (src_meta rec), cu_metadata = sm_metadata (src_meta rec)\<rparr>"

definition open_source ::
  "archive \<Rightarrow> source_row \<Rightarrow> u32 \<Rightarrow> i64 option \<Rightarrow> frame list \<Rightarrow> source_cursor \<times> frame list" where
  "open_source a rec ordinal since out =
    (let co0 = (first_cursor ordinal rec, out @ [handshake_frame ordinal rec]);
         co1 = emit_indexes a (caller_row_streams a (src_id rec)) (case since of Some t \<Rightarrow> t | None \<Rightarrow> i64_min) co0;
         co2 = open_streams a since (all_streams a (src_id rec)) co1
     in open_clock since (read_clock_offsets a (src_id rec)) co2)"

definition next_ordinal :: "nat \<Rightarrow> u32 result" where
  "next_ordinal index =
    (if int index < 2 ^ 32 then Inr (of_nat index)
     else Inl (Message ''an archive with more than u32::MAX sources''))"

subsection \<open>The publisher\<close>

fun open_sources ::
  "archive \<Rightarrow> i64 option \<Rightarrow> source_row list \<Rightarrow> source_cursor list \<Rightarrow> frame list \<Rightarrow>
   (source_cursor list \<times> frame list) result" where
  "open_sources a since [] cs out = Inr (cs, out)"
| "open_sources a since (rec # recs) cs out =
     rbind (next_ordinal (length cs)) (\<lambda>ordinal.
       let (c, out') = open_source a rec ordinal since out
       in open_sources a since recs (cs @ [c]) out')"

definition open_publisher :: "archive \<Rightarrow> i64 option \<Rightarrow> (publisher \<times> frame list) result" where
  "open_publisher a since =
     rmap (\<lambda>(cs, out). (\<lparr>pb_sources = cs, pb_since = (case since of Some t \<Rightarrow> t | None \<Rightarrow> i64_min)\<rparr>, out))
       (open_sources a since (read_sources a) [] [])"

definition tailing :: "archive \<Rightarrow> (publisher \<times> frame list) result" where
  "tailing a = open_publisher a None"

definition catching_up :: "archive \<Rightarrow> i64 \<Rightarrow> (publisher \<times> frame list) result" where
  "catching_up a since = open_publisher a (Some since)"

text \<open>\<open>now\<close> is \<open>wall_now_ns\<close>, read at most once in a poll and only for a changed source.\<close>

definition emit_update ::
  "archive \<Rightarrow> i64 result \<Rightarrow> source_cursor \<times> frame list \<Rightarrow> unit result \<times> source_cursor \<times> frame list" where
  "emit_update a now co =
    (let c = fst co; out = snd co
     in case find (\<lambda>r. src_id r = cu_source_id c) (read_sources a) of
          None \<Rightarrow> (Inr (), co)
        | Some rec \<Rightarrow>
            let labels = sm_labels (src_meta rec); metadata = sm_metadata (src_meta rec)
            in if labels = cu_labels c \<and> metadata = cu_metadata c then (Inr (), co)
               else case now of
                 Inl e \<Rightarrow> (Inl e, co)
               | Inr ts \<Rightarrow>
                   (Inr (), c\<lparr>cu_labels := labels, cu_metadata := metadata\<rparr>,
                    out @ [SourceUpdate (cu_ordinal c) ts labels metadata]))"

fun poll_known ::
  "archive \<Rightarrow> i64 result \<Rightarrow> source_cursor list \<Rightarrow> source_cursor list \<Rightarrow> frame list \<Rightarrow>
   frame list result \<times> source_cursor list" where
  "poll_known a now [] polled out = (Inr out, polled)"
| "poll_known a now (c # cs) polled out =
    (case emit_update a now (c, out) of
       (Inl e, c', _) \<Rightarrow> (Inl e, polled @ c' # cs)
     | (Inr _, co) \<Rightarrow>
         (case poll a co of
            (Inl e, c', _) \<Rightarrow> (Inl e, polled @ c' # cs)
          | (Inr _, c', out') \<Rightarrow> poll_known a now cs (polled @ [c']) out'))"

fun poll_new ::
  "archive \<Rightarrow> i64 \<Rightarrow> source_row list \<Rightarrow> source_cursor list \<Rightarrow> frame list \<Rightarrow>
   frame list result \<times> source_cursor list" where
  "poll_new a since [] cs out = (Inr out, cs)"
| "poll_new a since (rec # recs) cs out =
    (case next_ordinal (length cs) of
       Inl e \<Rightarrow> (Inl e, cs)
     | Inr ordinal \<Rightarrow>
         (case poll a (open_source a rec ordinal (Some since) out) of
            (Inl e, _) \<Rightarrow> (Inl e, cs)
          | (Inr _, c, out') \<Rightarrow> poll_new a since recs (cs @ [c]) out'))"

definition next_frames :: "archive \<Rightarrow> i64 result \<Rightarrow> publisher \<Rightarrow> frame list result \<times> publisher" where
  "next_frames a now p =
    (case poll_known a now (pb_sources p) [] [] of
       (Inl e, cs) \<Rightarrow> (Inl e, p\<lparr>pb_sources := cs\<rparr>)
     | (Inr out, cs) \<Rightarrow>
         let new = filter (\<lambda>r. \<not> (\<exists>c \<in> set cs. cu_source_id c = src_id r)) (read_sources a)
         in case poll_new a (pb_since p) new cs out of
              (r, cs') \<Rightarrow> (r, p\<lparr>pb_sources := cs'\<rparr>))"

definition ordinals :: "publisher \<Rightarrow> (u32 \<times> i64) list" where
  "ordinals p = map (\<lambda>c. (cu_ordinal c, cu_source_id c)) (pb_sources p)"

end
