(* ===== verification/Publisher_Properties.thy ===== *)
theory Publisher_Properties
  imports Publisher Archive_Ops
begin

section \<open>What a poll ships\<close>

text \<open>
  A poll is exact: it ships every row past the cursors once, and it fails exactly when
  a seal has carried rows past a cursor.
\<close>

subsection \<open>The cursor of a stream\<close>

text \<open>How far the rows of a stream have been shipped.\<close>

definition shipped :: "source_cursor \<Rightarrow> rstring \<Rightarrow> i64 option" where
  "shipped c s = sc_wal_after (stream_entry c s)"

lemma stream_entry_set [simp]:
  "stream_entry (set_stream n e c) s = (if s = n then e else stream_entry c s)"
  by (simp add: stream_entry_def set_stream_def)

lemma stream_entry_or_default [simp]: "stream_entry (or_default n c) s = stream_entry c s"
  by (simp add: or_default_def)

lemma shipped_set [simp]: "shipped (set_stream n e c) s = (if s = n then sc_wal_after e else shipped c s)"
  by (simp add: shipped_def)

lemma shipped_or_default [simp]: "shipped (or_default n c) = shipped c"
  by (simp add: shipped_def fun_eq_iff)

lemma stream_entry_cong: "cu_streams c = cu_streams c' \<Longrightarrow> stream_entry c = stream_entry c'"
  by (simp add: stream_entry_def fun_eq_iff)

text \<open>What an operation before the rows leaves alone.\<close>

definition keeps_rows :: "source_cursor \<Rightarrow> source_cursor \<Rightarrow> bool" where
  "keeps_rows c c' \<longleftrightarrow> shipped c' = shipped c \<and> cu_source_id c' = cu_source_id c
     \<and> cu_ordinal c' = cu_ordinal c \<and> cu_seq c' = cu_seq c"

text \<open>What a poll sends before the segments and the rows.\<close>

definition entry_frame :: "frame \<Rightarrow> bool" where
  "entry_frame f \<longleftrightarrow> (case f of Index _ _ _ _ _ _ \<Rightarrow> True | ClockOffset _ _ _ \<Rightarrow> True | _ \<Rightarrow> False)"

definition sends_entries :: "frame list \<Rightarrow> frame list \<Rightarrow> bool" where
  "sends_entries out out' \<longleftrightarrow> (\<exists>fs. out' = out @ fs \<and> (\<forall>f \<in> set fs. entry_frame f))"

lemma sends_entries_refl [simp]: "sends_entries out out"
  by (simp add: sends_entries_def)

lemma sends_entries_trans: "sends_entries a b \<Longrightarrow> sends_entries b c \<Longrightarrow> sends_entries a c"
  unfolding sends_entries_def by (metis (no_types, lifting) Un_iff append.assoc set_append)

lemma sends_entry [simp]:
  "sends_entries out (out @ [Index i s t k st b])" "sends_entries out (out @ [ClockOffset i t off])"
  by (simp_all add: sends_entries_def entry_frame_def)

lemma keeps_rows_refl [simp]: "keeps_rows c c"
  by (simp add: keeps_rows_def)

lemma keeps_rows_trans: "keeps_rows a b \<Longrightarrow> keeps_rows b c \<Longrightarrow> keeps_rows a c"
  by (simp add: keeps_rows_def)

lemma or_default_keeps:
  "cu_source_id (or_default n c) = cu_source_id c" "cu_ordinal (or_default n c) = cu_ordinal c"
  "cu_seq (or_default n c) = cu_seq c" "cu_index_state (or_default n c) = cu_index_state c"
  by (simp_all add: or_default_def set_stream_def)

lemma set_stream_keeps:
  "cu_source_id (set_stream n e c) = cu_source_id c" "cu_ordinal (set_stream n e c) = cu_ordinal c"
  "cu_seq (set_stream n e c) = cu_seq c" "cu_index_state (set_stream n e c) = cu_index_state c"
  by (simp_all add: set_stream_def)

lemma emit_rows_keeps:
  "emit_rows stream rows skip at_last last_ts c out = (n, t, c', out') \<Longrightarrow>
   keeps_rows c c' \<and> sends_entries out out'"
proof (induction rows arbitrary: skip at_last last_ts c out)
  case Nil
  then show ?case by simp
next
  case (Cons row rows)
  let ?c = "c\<lparr>cu_index_state := fold_index_state (cu_index_state c) (cr_ts row) (cr_blob row), cu_sent_full := True\<rparr>"
  have k: "keeps_rows c ?c"
    by (simp add: keeps_rows_def shipped_def stream_entry_def fun_eq_iff)
  show ?case
  proof (cases "skip > 0 \<and> Some (cr_ts row) = last_ts")
    case True
    then have "emit_rows stream rows (skip - 1) (at_last + 1) last_ts c out = (n, t, c', out')"
      using Cons.prems by simp
    then show ?thesis by (rule Cons.IH)
  next
    case False
    have "emit_rows stream rows skip (if Some (cr_ts row) = last_ts then at_last + 1 else 1) (Some (cr_ts row))
        ?c (out @ [Index (cu_ordinal c) stream (cr_ts row) (if cu_sent_full c then Delta else Full)
          (fold_index_state (cu_index_state c) (cr_ts row) (cr_blob row)) (cr_blob row)]) = (n, t, c', out')"
      using Cons.prems False by (simp only: emit_rows.simps if_False Let_def)
    from Cons.IH [OF this] show ?thesis using keeps_rows_trans [OF k] sends_entries_trans [OF sends_entry(1)] by blast
  qed
qed

lemma emit_index_keeps:
  "keeps_rows (fst co) (fst (emit_index a stream from co)) \<and> sends_entries (snd co) (snd (emit_index a stream from co))"
proof -
  let ?c = "or_default stream (fst co)"
  obtain start skip where s: "(case sc_index_after (stream_entry ?c stream) of Some (ts, n) \<Rightarrow> (ts, n) | None \<Rightarrow> (from, 0)) = (start, skip)"
    by fastforce
  obtain n t c' out where e: "emit_rows stream (read_caller_rows a (cu_source_id ?c) stream start i64_max) skip 0
      (map_option fst (sc_index_after (stream_entry ?c stream))) ?c (snd co) = (n, t, c', out)"
    by (metis prod_cases4)
  have k: "keeps_rows ?c c'" "sends_entries (snd co) out" using emit_rows_keeps [OF e] by auto
  have k0: "keeps_rows (fst co) ?c" by (simp add: keeps_rows_def or_default_keeps)
  have "emit_index a stream from co = (case t of None \<Rightarrow> (c', out)
      | Some ts \<Rightarrow> (set_stream stream ((stream_entry c' stream)\<lparr>sc_index_after := Some (ts, n)\<rparr>) c', out))"
    unfolding emit_index_def Let_def s e prod.case ..
  moreover have "keeps_rows c' (set_stream stream ((stream_entry c' stream)\<lparr>sc_index_after := x\<rparr>) c')" for x
    by (auto simp: keeps_rows_def set_stream_keeps shipped_def fun_eq_iff)
  ultimately show ?thesis using keeps_rows_trans [OF k0 k(1)] k(2)
    by (cases t) (auto intro: keeps_rows_trans)
qed

lemma emit_indexes_keeps:
  "keeps_rows (fst co) (fst (emit_indexes a names from co)) \<and> sends_entries (snd co) (snd (emit_indexes a names from co))"
proof (induction names arbitrary: co)
  case Nil
  show ?case by simp
next
  case (Cons name names)
  let ?co = "emit_index a name from co"
  have "keeps_rows (fst co) (fst ?co)" "sends_entries (snd co) (snd ?co)"
    using emit_index_keeps by blast+
  with Cons.IH [of ?co] show ?case by (auto intro: keeps_rows_trans sends_entries_trans)
qed

lemma emit_clock_keeps:
  "keeps_rows (fst co) (fst (emit_clock offsets co)) \<and> cu_index_state (fst (emit_clock offsets co)) = cu_index_state (fst co)
   \<and> sends_entries (snd co) (snd (emit_clock offsets co))"
proof (induction offsets co rule: emit_clock.induct)
  case (1 co)
  then show ?case by simp
next
  case (2 ts offset rest c out)
  have k: "keeps_rows c (c\<lparr>cu_clock_after := Some ts\<rparr>)"
    by (simp add: keeps_rows_def shipped_def stream_entry_def fun_eq_iff)
  show ?case
  proof (cases "case cu_clock_after c of Some after \<Rightarrow> ts \<le> after | None \<Rightarrow> False")
    case True
    then show ?thesis using 2(1) by simp
  next
    case False
    then show ?thesis using 2(2) keeps_rows_trans [OF k] sends_entries_trans [OF sends_entry(2)] by auto
  qed
qed

subsection \<open>The rows of a stream\<close>

lemma newest_of_bound:
  "\<forall>r \<in> set rows. \<not> past (newest_of after rows) r"
  "after = Some x \<Longrightarrow> \<exists>y. newest_of after rows = Some y \<and> x \<le> y"
  "newest_of after rows = Some y \<Longrightarrow> after = Some y \<or> y \<in> row_ts ` set rows"
proof (induction rows rule: rev_induct)
  case Nil
  { case 1 show ?case by simp next case 2 then show ?case by (simp add: newest_of_def)
    next case 3 then show ?case by (simp add: newest_of_def) }
next
  case (snoc r rows)
  have step: "newest_of z (rows @ [r]) = Some (case newest_of z rows of None \<Rightarrow> row_ts r | Some n \<Rightarrow> max n (row_ts r))" for z
    by (simp add: newest_of_def)
  { case 1 show ?case using snoc(1) by (auto simp: step past_def split: option.splits)
    next case 2 then show ?case using snoc(2) by (auto simp: step)
    next case 3 then show ?case using snoc(3) by (auto simp: step max_def split: option.splits if_splits) }
qed

text \<open>Where a poll starts in a stream: a stream with no cursor starts at its newest sealed row.\<close>

definition starts_at :: "archive \<Rightarrow> source_cursor \<Rightarrow> rstring \<Rightarrow> i64 option" where
  "starts_at a c s = (case shipped c s of Some x \<Rightarrow> Some x | None \<Rightarrow> watermark a (cu_source_id c) s)"

definition fresh_rows :: "archive \<Rightarrow> source_cursor \<Rightarrow> rstring \<Rightarrow> wal_row list" where
  "fresh_rows a c s = filter (past (starts_at a c s)) (live_wal a (cu_source_id c) s)"

definition first_segments :: "archive \<Rightarrow> source_cursor \<Rightarrow> rstring \<Rightarrow> frame list" where
  "first_segments a c s =
    (if shipped c s = None \<and> watermark a (cu_source_id c) s \<noteq> None
     then map (segment_frame (cu_ordinal c) s) (segments_overlapping a (cu_source_id c) s i64_min i64_max)
     else [])"

lemma poll_stream_correct:
  assumes "poll_stream a s rows co = (Inr rows', c', out')"
  shows "rows' = rows @ fresh_rows a (fst co) s" and "out' = snd co @ first_segments a (fst co) s"
    and "shipped c' t = (if t = s then newest_of (starts_at a (fst co) s) (fresh_rows a (fst co) s) else shipped (fst co) t)"
    and "cu_source_id c' = cu_source_id (fst co)" "cu_ordinal c' = cu_ordinal (fst co)" "cu_seq c' = cu_seq (fst co)"
      "cu_index_state c' = cu_index_state (fst co)"
    and "watermark a (cu_source_id (fst co)) s = Some w \<Longrightarrow> \<exists>x. starts_at a (fst co) s = Some x \<and> w \<le> x"
proof -
  obtain c out where co: "co = (c, out)" by force
  let ?w = "watermark a (cu_source_id c) s"
  have e: "sc_wal_after (stream_entry c s) = shipped c s" by (simp add: shipped_def)
  show "rows' = rows @ fresh_rows a (fst co) s" "out' = snd co @ first_segments a (fst co) s"
    "shipped c' t = (if t = s then newest_of (starts_at a (fst co) s) (fresh_rows a (fst co) s) else shipped (fst co) t)"
    "cu_source_id c' = cu_source_id (fst co)" "cu_ordinal c' = cu_ordinal (fst co)" "cu_seq c' = cu_seq (fst co)"
    "cu_index_state c' = cu_index_state (fst co)"
    "watermark a (cu_source_id (fst co)) s = Some w \<Longrightarrow> \<exists>x. starts_at a (fst co) s = Some x \<and> w \<le> x"
    using assms
    by (cases "shipped c s"; cases ?w; auto simp: poll_stream_def Let_def co or_default_keeps set_stream_keeps
        sealed_watermarks_def starts_at_def fresh_rows_def first_segments_def e split: if_splits)+
qed

lemma starts_at_cong:
  "shipped c s = shipped c' s \<Longrightarrow> cu_source_id c = cu_source_id c' \<Longrightarrow> starts_at a c s = starts_at a c' s"
  by (simp add: starts_at_def split: option.split)

lemma poll_streams_correct:
  assumes "poll_streams a streams rows co = (Inr rows', c', out')" and "distinct streams"
  shows "rows' = rows @ concat (map (fresh_rows a (fst co)) streams)
    \<and> out' = snd co @ concat (map (first_segments a (fst co)) streams)
    \<and> (\<forall>t. shipped c' t = (if t \<in> set streams then newest_of (starts_at a (fst co) t) (fresh_rows a (fst co) t) else shipped (fst co) t))
    \<and> cu_source_id c' = cu_source_id (fst co) \<and> cu_ordinal c' = cu_ordinal (fst co) \<and> cu_seq c' = cu_seq (fst co)
    \<and> cu_index_state c' = cu_index_state (fst co)
    \<and> (\<forall>s \<in> set streams. \<forall>w. watermark a (cu_source_id (fst co)) s = Some w \<longrightarrow>
         (\<exists>x. starts_at a (fst co) s = Some x \<and> w \<le> x))"
  using assms
proof (induction streams arbitrary: rows co)
  case Nil
  then show ?case by (cases co) simp
next
  case (Cons s streams)
  obtain rows1 c1 out1 where p: "poll_stream a s rows co = (Inr rows1, c1, out1)"
    and rest: "poll_streams a streams rows1 (c1, out1) = (Inr rows', c', out')"
    using Cons.prems(1) by (auto split: prod.splits sum.splits)
  note S = poll_stream_correct [OF p]
  have same: "shipped c1 t = shipped (fst co) t" if "t \<in> set streams" for t
    using that Cons.prems(2) S(3) by auto
  have start: "starts_at a c1 t = starts_at a (fst co) t" "fresh_rows a c1 t = fresh_rows a (fst co) t"
    "first_segments a c1 t = first_segments a (fst co) t" if "t \<in> set streams" for t
    using same [OF that] S(4,5) starts_at_cong [OF same [OF that] S(4)]
    by (simp_all add: fresh_rows_def first_segments_def)
  have maps: "map (fresh_rows a c1) streams = map (fresh_rows a (fst co)) streams"
    "map (first_segments a c1) streams = map (first_segments a (fst co)) streams"
    using start by simp_all
  have IH: "rows' = rows1 @ concat (map (fresh_rows a c1) streams)"
    "out' = out1 @ concat (map (first_segments a c1) streams)"
    "\<forall>t. shipped c' t = (if t \<in> set streams then newest_of (starts_at a c1 t) (fresh_rows a c1 t) else shipped c1 t)"
    "cu_source_id c' = cu_source_id c1" "cu_ordinal c' = cu_ordinal c1" "cu_seq c' = cu_seq c1"
    "cu_index_state c' = cu_index_state c1"
    "\<forall>s \<in> set streams. \<forall>w. watermark a (cu_source_id c1) s = Some w \<longrightarrow> (\<exists>x. starts_at a c1 s = Some x \<and> w \<le> x)"
    using Cons.IH [OF rest] Cons.prems(2) by simp_all
  show ?case
  proof (intro conjI)
    show "rows' = rows @ concat (map (fresh_rows a (fst co)) (s # streams))" using IH(1) S(1) maps by simp
    show "out' = snd co @ concat (map (first_segments a (fst co)) (s # streams))" using IH(2) S(2) maps by simp
    show "\<forall>t. shipped c' t = (if t \<in> set (s # streams) then newest_of (starts_at a (fst co) t) (fresh_rows a (fst co) t) else shipped (fst co) t)"
      using IH(3) S(3) start Cons.prems(2) by auto
    show "\<forall>s' \<in> set (s # streams). \<forall>w. watermark a (cu_source_id (fst co)) s' = Some w \<longrightarrow>
         (\<exists>x. starts_at a (fst co) s' = Some x \<and> w \<le> x)"
      using IH(8) S(4,8) start by auto
  qed (use IH S in simp_all)
qed

subsection \<open>A poll\<close>

definition overrun :: "archive \<Rightarrow> source_cursor \<Rightarrow> rstring \<Rightarrow> bool" where
  "overrun a c s \<longleftrightarrow> (\<exists>w x. watermark a (cu_source_id c) s = Some w \<and> shipped c s = Some x \<and> x < w)"

lemma poll_stream_fails: "is_ok (fst (poll_stream a s rows co)) \<longleftrightarrow> \<not> overrun a (fst co) s"
proof -
  have e: "sc_wal_after (stream_entry (fst co) s) = shipped (fst co) s" by (simp add: shipped_def)
  show ?thesis
    by (cases "shipped (fst co) s"; cases "watermark a (cu_source_id (fst co)) s")
      (simp_all add: poll_stream_def Let_def or_default_keeps sealed_watermarks_def overrun_def e)
qed

lemma poll_streams_fails:
  "distinct streams \<Longrightarrow> is_ok (fst (poll_streams a streams rows co)) \<longleftrightarrow> \<not> (\<exists>s \<in> set streams. overrun a (fst co) s)"
proof (induction streams arbitrary: rows co)
  case Nil
  then show ?case by simp
next
  case (Cons s streams)
  obtain r c1 out1 where p: "poll_stream a s rows co = (r, c1, out1)" by (metis prod_cases3)
  show ?case
  proof (cases r)
    case (Inl e)
    then show ?thesis using poll_stream_fails [of a s rows co] p by simp
  next
    case (Inr rows1)
    note S = poll_stream_correct [OF p [unfolded Inr]]
    have "overrun a c1 t \<longleftrightarrow> overrun a (fst co) t" if "t \<in> set streams" for t
      using that Cons.prems S(3,4) by (auto simp: overrun_def)
    moreover have "\<not> overrun a (fst co) s" using poll_stream_fails [of a s rows co] p Inr by simp
    ultimately show ?thesis using Cons.IH [of rows1 "(c1, out1)"] Cons.prems p Inr by simp
  qed
qed

lemma before_rows_keeps:
  fixes a co
  defines "co1 \<equiv> emit_indexes a (caller_row_streams a (cu_source_id (fst co))) i64_min co"
  defines "co2 \<equiv> emit_clock (read_clock_offsets a (cu_source_id (fst co1))) co1"
  shows "keeps_rows (fst co) (fst co2)" and "sends_entries (snd co) (snd co2)"
proof -
  have 1: "keeps_rows (fst co) (fst co1)" "sends_entries (snd co) (snd co1)"
    unfolding co1_def using emit_indexes_keeps by blast+
  have 2: "keeps_rows (fst co1) (fst co2)" "sends_entries (snd co1) (snd co2)"
    unfolding co2_def using emit_clock_keeps by blast+
  show "keeps_rows (fst co) (fst co2)" using 1 2 keeps_rows_trans by blast
  show "sends_entries (snd co) (snd co2)" using 1 2 sends_entries_trans by blast
qed

lemma distinct_all_streams: "distinct (all_streams a sid)"
  by (simp add: all_streams_def)

lemma overrun_stream: "overrun a c s \<Longrightarrow> s \<in> set (all_streams a (cu_source_id c))"
  by (auto simp: overrun_def set_all_streams watermark_None [symmetric])

text \<open>
  C21: a poll is refused exactly when the archive has sealed a stream past the rows
  shipped of it, so that rows left the live tail unread.
\<close>

theorem poll_error_iff:
  "is_ok (fst (poll a co)) \<longleftrightarrow> \<not> (\<exists>s w x. watermark a (cu_source_id (fst co)) s = Some w
     \<and> shipped (fst co) s = Some x \<and> x < w)"
proof -
  let ?co1 = "emit_indexes a (caller_row_streams a (cu_source_id (fst co))) i64_min co"
  let ?co2 = "emit_clock (read_clock_offsets a (cu_source_id (fst ?co1))) ?co1"
  have k: "keeps_rows (fst co) (fst ?co2)" by (rule before_rows_keeps)
  have "is_ok (fst (poll a co)) \<longleftrightarrow> is_ok (fst (poll_streams a (all_streams a (cu_source_id (fst ?co2))) [] ?co2))"
    by (simp add: poll_def Let_def split: prod.split sum.split)
  also have "\<dots> \<longleftrightarrow> \<not> (\<exists>s. overrun a (fst ?co2) s)"
    using poll_streams_fails [OF distinct_all_streams [of a "cu_source_id (fst ?co2)"], of a "[]" ?co2]
      overrun_stream [of a "fst ?co2"] by blast
  also have "\<dots> \<longleftrightarrow> \<not> (\<exists>s. overrun a (fst co) s)" using k by (simp add: overrun_def keeps_rows_def)
  finally show ?thesis by (simp add: overrun_def)
qed

definition wide_segments :: "archive \<Rightarrow> bool" where
  "wide_segments a \<longleftrightarrow> (\<forall>g \<in> set (ar_segments a). meta_ok (sg_meta g))"

lemma segments_overlapping_all:
  assumes "wide_segments a" and "g \<in> set (ar_segments a)" "sg_source g = sid" "sg_stream g = s"
  shows "to_segment_row a g \<in> set (segments_overlapping a sid s i64_min i64_max)"
proof -
  have "meta_ok (sg_meta g)" using assms by (simp add: wide_segments_def)
  then show ?thesis
    using assms by (auto simp: segments_overlapping_def set_stream_rows seg_of_def meta_ok_def i64_ok_def)
qed

lemma fresh_rows_live:
  "r \<in> set (fresh_rows a c s) \<longleftrightarrow> (cu_source_id c, r) \<in> set (ar_wal a) \<and> row_stream r = s
     \<and> is_live a (cu_source_id c) s (row_ts r) \<and> past (shipped c s) r"
  by (auto simp: fresh_rows_def set_live_wal starts_at_def past_def is_live_def split: option.splits)

lemma poll_frames:
  assumes "poll a (c, out) = (Inr u, c', out')"
  obtains fs0 where "\<forall>f \<in> set fs0. entry_frame f"
    and "out' = out @ (fs0 @ concat (map (first_segments a c) (all_streams a (cu_source_id c))))
       @ [Rows (cu_ordinal c) (cu_seq c) (cu_index_state c')
            (order_by row_order (concat (map (fresh_rows a c) (all_streams a (cu_source_id c)))))]"
    and "\<And>s. shipped c' s = (if s \<in> set (all_streams a (cu_source_id c))
           then newest_of (starts_at a c s) (fresh_rows a c s) else shipped c s)"
    and "\<And>s w x. s \<in> set (all_streams a (cu_source_id c)) \<Longrightarrow> watermark a (cu_source_id c) s = Some w \<Longrightarrow>
           shipped c s = Some x \<Longrightarrow> w \<le> x"
    and "cu_seq c' = cu_seq c + 1" "cu_source_id c' = cu_source_id c" "cu_ordinal c' = cu_ordinal c"
proof -
  let ?co1 = "emit_indexes a (caller_row_streams a (cu_source_id c)) i64_min (c, out)"
  let ?co2 = "emit_clock (read_clock_offsets a (cu_source_id (fst ?co1))) ?co1"
  have k: "keeps_rows c (fst ?co2)" "sends_entries out (snd ?co2)" using before_rows_keeps [where a = a and co = "(c, out)"] by simp_all
  then obtain fs0 where fs0: "snd ?co2 = out @ fs0" "\<forall>f \<in> set fs0. entry_frame f"
    by (auto simp: sends_entries_def)
  have keep: "cu_source_id (fst ?co2) = cu_source_id c" "cu_ordinal (fst ?co2) = cu_ordinal c"
    "cu_seq (fst ?co2) = cu_seq c" "shipped (fst ?co2) = shipped c"
    using k(1) by (simp_all add: keeps_rows_def)
  obtain rows0 c2 out2 where p: "poll_streams a (all_streams a (cu_source_id c)) [] ?co2 = (Inr rows0, c2, out2)"
    and r: "c' = c2\<lparr>cu_seq := cu_seq c2 + 1\<rparr>"
      "out' = out2 @ [Rows (cu_ordinal c2) (cu_seq c2) (cu_index_state c2) (order_by row_order rows0)]"
    using assms(1) keep(1) by (auto simp: poll_def Let_def split: prod.splits sum.splits)
  note P = poll_streams_correct [OF p distinct_all_streams]
  have fresh: "fresh_rows a (fst ?co2) = fresh_rows a c" "first_segments a (fst ?co2) = first_segments a c"
    "starts_at a (fst ?co2) = starts_at a c"
    using keep by (auto simp: fresh_rows_def first_segments_def starts_at_def fun_eq_iff split: option.split)
  have sh: "shipped c' = shipped c2" unfolding r by (simp add: shipped_def stream_entry_def fun_eq_iff)
  show thesis
  proof (rule that [of fs0])
    show "w \<le> x" if "s \<in> set (all_streams a (cu_source_id c))" "watermark a (cu_source_id c) s = Some w"
        "shipped c s = Some x" for s w x
      using P that keep fresh by (force simp: starts_at_def)
  qed (use P r fs0 fresh keep sh in \<open>simp_all\<close>)
qed

lemma in_all_streams: "(sid, r) \<in> set (ar_wal a) \<Longrightarrow> row_stream r \<in> set (all_streams a sid)"
  by (simp add: set_all_streams) (metis empty_iff list.set(1) set_wal_of)

lemma newest_covers_live:
  assumes "r \<in> set (live_wal a (cu_source_id c) s)"
  shows "\<not> past (newest_of (starts_at a c s) (fresh_rows a c s)) r"
proof (cases "r \<in> set (fresh_rows a c s)")
  case True
  then show ?thesis using newest_of_bound(1) by simp
next
  case False
  then obtain x where x: "starts_at a c s = Some x" "row_ts r \<le> x"
    using assms by (auto simp: fresh_rows_def past_def split: option.splits)
  then obtain y where "newest_of (starts_at a c s) (fresh_rows a c s) = Some y" "x \<le> y"
    using newest_of_bound(2) by blast
  then show ?thesis using x by (simp add: past_def)
qed

lemma segment_of_stream:
  assumes "g \<in> set (ar_segments a)"
  shows "sg_stream g \<in> set (all_streams a (sg_source g))"
    and "\<exists>w. watermark a (sg_source g) (sg_stream g) = Some w \<and> meta_last_ts (sg_meta g) \<le> w"
proof -
  have gs: "g \<in> set (stream_rows a (sg_source g) (sg_stream g))" using assms by (simp add: set_stream_rows seg_of_def)
  then show "sg_stream g \<in> set (all_streams a (sg_source g))" by (auto simp: set_all_streams)
  show "\<exists>w. watermark a (sg_source g) (sg_stream g) = Some w \<and> meta_last_ts (sg_meta g) \<le> w"
    using gs watermark_Some by (metis empty_iff list.set(1) not_None_eq watermark_None)
qed

text \<open>The rows and the segments of a source, gathered stream by stream, are the tables' own.\<close>

lemma mset_by_key:
  assumes "distinct ks"
  shows "mset (concat (map (\<lambda>k. filter (\<lambda>x. f x = k \<and> P x) xs) ks)) = mset (filter (\<lambda>x. f x \<in> set ks \<and> P x) xs)"
  using assms
proof (induction ks)
  case (Cons k ks)
  have "mset (filter (\<lambda>x. f x = k \<and> P x) xs) + mset (filter (\<lambda>x. f x \<in> set ks \<and> P x) xs)
      = mset (filter (\<lambda>x. f x \<in> set (k # ks) \<and> P x) xs)"
    using Cons.prems by (induction xs) auto
  then show ?case using Cons by simp
qed simp

lemma mset_concat_map_cong:
  "(\<And>k. k \<in> set ks \<Longrightarrow> mset (F k) = mset (G k)) \<Longrightarrow> mset (concat (map F ks)) = mset (concat (map G ks))"
  by (induction ks) auto

definition rows_past :: "archive \<Rightarrow> source_cursor \<Rightarrow> wal_row list" where
  "rows_past a c =
     map snd (filter (\<lambda>(i, r). i = cu_source_id c \<and> is_live a i (row_stream r) (row_ts r)
        \<and> past (shipped c (row_stream r)) r) (ar_wal a))"

definition segments_unshipped :: "archive \<Rightarrow> source_cursor \<Rightarrow> segment_table_row list" where
  "segments_unshipped a c =
     filter (\<lambda>g. sg_source g = cu_source_id c \<and> shipped c (sg_stream g) = None) (ar_segments a)"

lemma mset_fresh_rows:
  "mset (concat (map (fresh_rows a c) (all_streams a (cu_source_id c)))) = mset (rows_past a c)"
proof -
  let ?ss = "all_streams a (cu_source_id c)"
  let ?P = "\<lambda>(i, r). i = cu_source_id c \<and> is_live a i (row_stream r) (row_ts r) \<and> past (shipped c (row_stream r)) r"
  let ?G = "\<lambda>s. map snd (filter (\<lambda>x. row_stream (snd x) = s \<and> ?P x) (ar_wal a))"
  have past: "is_live a (cu_source_id c) s (row_ts r) \<Longrightarrow> past (starts_at a c s) r = past (shipped c s) r" for s r
    by (auto simp: starts_at_def past_def is_live_def split: option.splits)
  have "mset (fresh_rows a c s) = mset (?G s)" for s
    unfolding fresh_rows_def live_wal_def wal_of_def filter_order_by mset_order_by filter_map filter_filter
    by (rule arg_cong [where f = "\<lambda>xs. mset (map snd xs)"], rule filter_cong) (auto simp: past)
  then have "mset (concat (map (fresh_rows a c) ?ss)) = mset (concat (map ?G ?ss))"
    by (intro mset_concat_map_cong)
  also have "\<dots> = mset (map snd (concat (map (\<lambda>s. filter (\<lambda>x. row_stream (snd x) = s \<and> ?P x) (ar_wal a)) ?ss)))"
    by (simp add: map_concat comp_def)
  also have "\<dots> = image_mset snd (mset (filter (\<lambda>x. row_stream (snd x) \<in> set ?ss \<and> ?P x) (ar_wal a)))"
    by (simp only: mset_map mset_by_key [OF distinct_all_streams, where f = "row_stream \<circ> snd", unfolded comp_def])
  also have "filter (\<lambda>x. row_stream (snd x) \<in> set ?ss \<and> ?P x) (ar_wal a) = filter ?P (ar_wal a)"
    by (rule filter_cong) (auto dest: in_all_streams)
  finally show ?thesis by (simp add: rows_past_def)
qed

lemma mset_first_segments:
  assumes "wide_segments a"
  shows "mset (concat (map (first_segments a c) (all_streams a (cu_source_id c))))
    = mset (map (\<lambda>g. segment_frame (cu_ordinal c) (sg_stream g) (to_segment_row a g)) (segments_unshipped a c))"
proof -
  let ?ss = "all_streams a (cu_source_id c)" and ?F = "\<lambda>g. segment_frame (cu_ordinal c) (sg_stream g) (to_segment_row a g)"
  let ?P = "\<lambda>g. sg_source g = cu_source_id c \<and> shipped c (sg_stream g) = None"
  let ?G = "\<lambda>s. map ?F (filter (\<lambda>g. sg_stream g = s \<and> ?P g) (ar_segments a))"
  have all: "filter (\<lambda>r. meta_last_ts (sg_meta r) \<ge> i64_min \<and> meta_first_ts (sg_meta r) \<le> i64_max) (stream_rows a sid s)
      = stream_rows a sid s" for sid s
    using assms by (auto simp: filter_id_conv set_stream_rows wide_segments_def meta_ok_def i64_ok_def)
  have rows: "filter (\<lambda>g. sg_stream g = s \<and> ?P g) (ar_segments a)
      = (if shipped c s = None then stream_rows a (cu_source_id c) s else [])" for s
    unfolding stream_rows_def by (auto simp: seg_of_def filter_empty_conv intro!: filter_cong)
  have "mset (first_segments a c s) = mset (?G s)" for s
  proof (cases "shipped c s = None \<and> watermark a (cu_source_id c) s \<noteq> None")
    case True
    have "mset (first_segments a c s) = image_mset (segment_frame (cu_ordinal c) s \<circ> to_segment_row a) (mset (stream_rows a (cu_source_id c) s))"
      using True by (simp add: first_segments_def segments_overlapping_def all mset_order_by image_mset.compositionality)
    also have "\<dots> = image_mset ?F (mset (stream_rows a (cu_source_id c) s))"
      by (rule image_mset_cong) (auto simp: set_stream_rows seg_of_def)
    finally show ?thesis using True rows [of s] by simp
  next
    case False
    then show ?thesis using rows [of s] by (auto simp: first_segments_def watermark_None)
  qed
  then have "mset (concat (map (first_segments a c) ?ss)) = mset (concat (map ?G ?ss))"
    by (intro mset_concat_map_cong)
  also have "\<dots> = mset (map ?F (concat (map (\<lambda>s. filter (\<lambda>g. sg_stream g = s \<and> ?P g) (ar_segments a)) ?ss)))"
    by (simp add: map_concat comp_def)
  also have "\<dots> = image_mset ?F (mset (filter (\<lambda>g. sg_stream g \<in> set ?ss \<and> ?P g) (ar_segments a)))"
    by (simp only: mset_map mset_by_key [OF distinct_all_streams])
  also have "filter (\<lambda>g. sg_stream g \<in> set ?ss \<and> ?P g) (ar_segments a) = segments_unshipped a c"
    unfolding segments_unshipped_def using segment_of_stream(1) by (intro filter_cong) force+
  finally show ?thesis by simp
qed


subsection \<open>At a concrete archive\<close>

text \<open>An archive with an index entry, a sealed segment and two live rows.\<close>

definition indexed_archive :: archive where
  "indexed_archive = sample_archive\<lparr>ar_caller := [(1, str ''cpu'', \<lparr>cr_ts = 5, cr_blob = [1, 2]\<rparr>)]\<rparr>"

definition sample_source :: source_row where
  "sample_source = hd (ar_sources sample_archive)"

lemma indexed_wide: "wide_segments indexed_archive"
  by (simp add: wide_segments_def indexed_archive_def sample_archive_def create_archive_def
      sample_segment_row_def meta_ok_def i64_ok_def i64_min_def i64_max_def)


end
