(* ===== verification/Writer_Handles.thy ===== *)
theory Writer_Handles
  imports Writer_Loop Seal_Policy
begin

section \<open>The handles on the writer thread (\<open>src/writer.rs\<close>)\<close>

text \<open>
  \<open>Writer\<close> and \<open>SourceWriter\<close>: what each call checks on the caller's side, the
  message it sends, and what it returns. The channel is a FIFO into one thread; the
  model takes the schedule in which the thread has handled every message by the
  caller's next call. A thread that has ended leaves the failure it ended with,
  which is what \<open>ErrorSlot\<close> and the join handle hold.
\<close>

datatype writer_thread = Serving writer_state | Ended "failure + unit" writer_state

fun thread_state :: "writer_thread \<Rightarrow> writer_state" where
  "thread_state (Serving w) = w"
| "thread_state (Ended _ w) = w"

definition thread_of :: "outcome \<Rightarrow> writer_thread" where
  "thread_of o' = (case o' of Running w \<Rightarrow> Serving w | Stopped r w \<Rightarrow> Ended r w)"

text \<open>What \<open>writer_thread\<close> leaves in the slot: the loop's error, nothing when it panicked.\<close>

fun err_slot :: "writer_thread \<Rightarrow> error option" where
  "err_slot (Ended (Inl (Fails e)) _) = Some e"
| "err_slot _ = None"

definition take_writer_error :: "writer_thread \<Rightarrow> error" where
  "take_writer_error t = (case err_slot t of Some e \<Rightarrow> Writer e | None \<Rightarrow> WriterGone)"

definition check_alive :: "writer_thread \<Rightarrow> unit result" where
  "check_alive t = (case err_slot t of Some e \<Rightarrow> Inl (Writer e) | None \<Rightarrow> Inr ())"

text \<open>\<open>tx.send\<close> and, for a message with a reply channel, \<open>recv\<close>.\<close>

fun send_msg :: "writer_env \<Rightarrow> msg \<Rightarrow> writer_thread \<Rightarrow> unit result \<times> writer_thread" where
  "send_msg env m (Serving w) = (Inr (), thread_of (fst (handle env m w)))"
| "send_msg env m (Ended r w) = (Inl (take_writer_error (Ended r w)), Ended r w)"

fun ask :: "writer_env \<Rightarrow> msg \<Rightarrow> writer_thread \<Rightarrow> reply result \<times> writer_thread" where
  "ask env m (Serving w) =
    (case handle env m w of (o', r) \<Rightarrow>
       (if r = NoReply then Inl (take_writer_error (thread_of o')) else Inr r, thread_of o'))"
| "ask env m (Ended r w) = (Inl (take_writer_error (Ended r w)), Ended r w)"

record source_writer =
  sw_source_id :: i64
  sw_floor_ts :: "i64 option"
  sw_stagger_key :: rstring

record writer_handle =
  wh_thread :: writer_thread
  wh_open :: bool     \<comment> \<open>\<open>tx\<close> is \<open>Some\<close>\<close>
  wh_unjoined :: bool \<comment> \<open>\<open>thread\<close> is \<open>Some\<close>\<close>

definition spawn_writer :: "db \<Rightarrow> writer_handle" where
  "spawn_writer d = \<lparr>wh_thread = Serving (start_writer d), wh_open = True, wh_unjoined = True\<rparr>"

subsection \<open>\<open>Writer\<close>\<close>

definition add_source_with_uuid ::
  "writer_env \<Rightarrow> source_meta \<Rightarrow> rstring option \<Rightarrow> writer_handle \<Rightarrow>
   source_writer result \<times> writer_handle" where
  "add_source_with_uuid env seed uuid h =
    (if \<not> wh_open h then (Inl (Message ''the archive writer thread has already been joined''), h)
     else case ask env (AddSource seed uuid) (wh_thread h) of
       (Inl e, t) \<Rightarrow> (Inl e, h\<lparr>wh_thread := t\<rparr>)
     | (Inr r, t) \<Rightarrow>
         (case r of
            SourceAdded (Inr i) \<Rightarrow>
              Inr \<lparr>sw_source_id = i, sw_floor_ts = None, sw_stagger_key = source_stagger_key (sm_labels seed)\<rparr>
          | SourceAdded (Inl e) \<Rightarrow> Inl e
          | _ \<Rightarrow> Inl (take_writer_error t), h\<lparr>wh_thread := t\<rparr>))"

definition writer_add_source ::
  "writer_env \<Rightarrow> source_meta \<Rightarrow> writer_handle \<Rightarrow> source_writer result \<times> writer_handle" where
  "writer_add_source env seed h = add_source_with_uuid env seed None h"

definition writer_resume_source ::
  "writer_env \<Rightarrow> i64 \<Rightarrow> i64 \<Rightarrow> writer_handle \<Rightarrow>
   (source_writer \<times> i64 option) result \<times> writer_handle" where
  "writer_resume_source env sid anchor h =
    (if \<not> wh_open h then (Inl WriterGone, h)
     else case ask env (ResumeSource sid anchor) (wh_thread h) of
       (Inl e, t) \<Rightarrow> (Inl e, h\<lparr>wh_thread := t\<rparr>)
     | (Inr r, t) \<Rightarrow>
         (case r of
            SourceResumed (Inr s) \<Rightarrow>
              Inr (\<lparr>sw_source_id = sid, sw_floor_ts = rs_last_ts s, sw_stagger_key = source_stagger_key (rs_labels s)\<rparr>, rs_last_ts s)
          | SourceResumed (Inl e) \<Rightarrow> Inl e
          | _ \<Rightarrow> Inl (take_writer_error t), h\<lparr>wh_thread := t\<rparr>))"

definition send_document ::
  "writer_env \<Rightarrow> document_put \<Rightarrow> writer_handle \<Rightarrow> rev_id result \<times> writer_handle" where
  "send_document env p h =
    (if \<not> wh_open h then (Inl WriterGone, h)
     else case ask env (PutDocument p) (wh_thread h) of
       (Inl e, t) \<Rightarrow> (Inl e, h\<lparr>wh_thread := t\<rparr>)
     | (Inr r, t) \<Rightarrow>
         (case r of DocumentWritten w \<Rightarrow> w | _ \<Rightarrow> Inl (take_writer_error t), h\<lparr>wh_thread := t\<rparr>))"

definition writer_put_document ::
  "writer_env \<Rightarrow> rstring \<Rightarrow> rstring \<Rightarrow> rstring \<Rightarrow> rstring \<Rightarrow> writer_handle \<Rightarrow> rev_id result \<times> writer_handle" where
  "writer_put_document env kind name schema body h =
     send_document env \<lparr>dp_kind = kind, dp_name = name, dp_schema = schema, dp_body = body, dp_expected = None\<rparr> h"

definition writer_put_document_if_current ::
  "writer_env \<Rightarrow> rstring \<Rightarrow> rstring \<Rightarrow> rstring \<Rightarrow> rstring \<Rightarrow> rstring option \<Rightarrow> writer_handle \<Rightarrow>
   rev_id result \<times> writer_handle" where
  "writer_put_document_if_current env kind name schema body expected h =
     send_document env \<lparr>dp_kind = kind, dp_name = name, dp_schema = schema, dp_body = body,
       dp_expected = Some expected\<rparr> h"

definition writer_delete_document ::
  "writer_env \<Rightarrow> rstring \<Rightarrow> rstring \<Rightarrow> writer_handle \<Rightarrow> rev_id option result \<times> writer_handle" where
  "writer_delete_document env kind name h =
    (if \<not> wh_open h then (Inl WriterGone, h)
     else case ask env (DeleteDocument kind name) (wh_thread h) of
       (Inl e, t) \<Rightarrow> (Inl e, h\<lparr>wh_thread := t\<rparr>)
     | (Inr r, t) \<Rightarrow>
         (case r of DocumentDeleted d \<Rightarrow> d | _ \<Rightarrow> Inl (take_writer_error t), h\<lparr>wh_thread := t\<rparr>))"

definition wal_tick :: "writer_env \<Rightarrow> tick list \<Rightarrow> writer_handle \<Rightarrow> unit result \<times> writer_handle" where
  "wal_tick env ticks h =
    (let ticks' = filter (\<lambda>(_, rows). rows \<noteq> []) ticks
     in if ticks' = [] then (check_alive (wh_thread h), h)
        else if \<not> wh_open h then (Inl (Message ''the archive writer thread has already been joined''), h)
        else let (r, t) = send_msg env (Wal ticks') (wh_thread h) in (r, h\<lparr>wh_thread := t\<rparr>))"

definition join_writer :: "writer_env \<Rightarrow> writer_handle \<Rightarrow> unit result \<times> writer_handle" where
  "join_writer env h =
    (let t = (if wh_open h then snd (send_msg env Shutdown (wh_thread h)) else wh_thread h)
     in (if wh_unjoined h
         then (case t of
                 Ended (Inr _) _ \<Rightarrow> Inr ()
               | Ended (Inl (Fails e)) _ \<Rightarrow> Inl (Writer e)
               | Ended (Inl (Panics _)) _ \<Rightarrow> Inl (Message ''the archive writer thread panicked'')
               | Serving _ \<Rightarrow> Inr ())
         else Inr (),
         h\<lparr>wh_thread := t, wh_open := False, wh_unjoined := False\<rparr>))"

subsection \<open>\<open>SourceWriter\<close>\<close>

definition wal :: "writer_env \<Rightarrow> source_writer \<Rightarrow> wal_row list \<Rightarrow> writer_thread \<Rightarrow> unit result \<times> writer_thread" where
  "wal env sw rows t =
    (if rows = [] then (check_alive t, t)
     else case sw_floor_ts sw of
       None \<Rightarrow> send_msg env (Wal [(sw_source_id sw, rows)]) t
     | Some floor \<Rightarrow>
         case find (\<lambda>r. row_ts r \<le> floor) rows of
           Some r \<Rightarrow> (Inl (TimelineBackwards (sw_source_id sw) (row_ts r) floor), t)
         | None \<Rightarrow> send_msg env (Wal [(sw_source_id sw, rows)]) t)"

definition dropped_out_of_order :: "source_writer \<Rightarrow> writer_thread \<Rightarrow> nat" where
  "dropped_out_of_order sw t = wr_shadowed (thread_state t) (sw_source_id sw)"

definition seal_capped ::
  "writer_env \<Rightarrow> source_writer \<Rightarrow> rstring list \<Rightarrow> nat \<Rightarrow> writer_thread \<Rightarrow> unit result \<times> writer_thread" where
  "seal_capped env sw batch max_rows t =
    (if batch = [] then (check_alive t, t)
     else send_msg env (Seal (sw_source_id sw) batch (max max_rows 1)) t)"

definition usize_limit :: nat where "usize_limit = 2 ^ 64 - 1"

definition seal :: "writer_env \<Rightarrow> source_writer \<Rightarrow> rstring list \<Rightarrow> writer_thread \<Rightarrow> unit result \<times> writer_thread" where
  "seal env sw batch t = seal_capped env sw batch usize_limit t"

definition handle_adopt_segment ::
  "writer_env \<Rightarrow> source_writer \<Rightarrow> rstring \<Rightarrow> segment_meta \<Rightarrow> bytes \<Rightarrow> bytes option \<Rightarrow> writer_thread \<Rightarrow>
   bool result \<times> writer_thread" where
  "handle_adopt_segment env sw stream meta body index t =
    (case ask env (AdoptSegment (sw_source_id sw)
            \<lparr>ad_stream = stream, ad_meta = meta, ad_bytes = body, ad_caller_index = index\<rparr>) t of
       (Inl e, t') \<Rightarrow> (Inl e, t')
     | (Inr r, t') \<Rightarrow> (case r of SegmentAdopted a \<Rightarrow> a | _ \<Rightarrow> Inl (take_writer_error t'), t'))"

definition update_metadata ::
  "writer_env \<Rightarrow> source_writer \<Rightarrow> label_map \<Rightarrow> writer_thread \<Rightarrow> unit result \<times> writer_thread" where
  "update_metadata env sw patch t =
    (if patch = [] then (check_alive t, t) else send_msg env (UpdateMetadata (sw_source_id sw) patch) t)"

definition set_identity ::
  "writer_env \<Rightarrow> source_writer \<Rightarrow> label_map \<Rightarrow> label_map \<Rightarrow> writer_thread \<Rightarrow> unit result \<times> writer_thread" where
  "set_identity env sw labels metadata t = send_msg env (SetIdentity (sw_source_id sw) labels metadata) t"

definition clock_offset ::
  "writer_env \<Rightarrow> source_writer \<Rightarrow> i64 \<Rightarrow> i64 \<Rightarrow> writer_thread \<Rightarrow> unit result \<times> writer_thread" where
  "clock_offset env sw ts offset t = send_msg env (ClockOffset (sw_source_id sw) ts offset) t"

definition caller_rows ::
  "writer_env \<Rightarrow> source_writer \<Rightarrow> rstring \<Rightarrow> caller_row list \<Rightarrow> writer_thread \<Rightarrow> unit result \<times> writer_thread" where
  "caller_rows env sw stream rows t =
    (if rows = [] then (check_alive t, t) else send_msg env (CallerRows (sw_source_id sw) stream rows) t)"

definition evict ::
  "writer_env \<Rightarrow> source_writer \<Rightarrow> i64 \<Rightarrow> (rstring \<Rightarrow> bool) option \<Rightarrow> caller_row_floor option \<Rightarrow>
   writer_thread \<Rightarrow> evicted result \<times> writer_thread" where
  "evict env sw cutoff streams floor t =
    (case ask env (Evict (sw_source_id sw) cutoff streams floor) t of
       (Inl e, t') \<Rightarrow> (Inl e, t')
     | (Inr r, t') \<Rightarrow> (case r of RowsEvicted x \<Rightarrow> x | _ \<Rightarrow> Inl (take_writer_error t'), t'))"

definition sw_evict_before :: "writer_env \<Rightarrow> source_writer \<Rightarrow> i64 \<Rightarrow> writer_thread \<Rightarrow> evicted result \<times> writer_thread" where
  "sw_evict_before env sw cutoff = evict env sw cutoff None None"

definition sw_evict_before_with_floor ::
  "writer_env \<Rightarrow> source_writer \<Rightarrow> i64 \<Rightarrow> caller_row_floor \<Rightarrow> writer_thread \<Rightarrow> evicted result \<times> writer_thread" where
  "sw_evict_before_with_floor env sw cutoff floor = evict env sw cutoff None (Some floor)"

definition sw_evict_streams_before ::
  "writer_env \<Rightarrow> source_writer \<Rightarrow> i64 \<Rightarrow> (rstring \<Rightarrow> bool) \<Rightarrow> writer_thread \<Rightarrow> evicted result \<times> writer_thread" where
  "sw_evict_streams_before env sw cutoff keep = evict env sw cutoff (Some keep) None"

definition sw_evict_streams_before_with_floor ::
  "writer_env \<Rightarrow> source_writer \<Rightarrow> i64 \<Rightarrow> (rstring \<Rightarrow> bool) \<Rightarrow> caller_row_floor \<Rightarrow> writer_thread \<Rightarrow>
   evicted result \<times> writer_thread" where
  "sw_evict_streams_before_with_floor env sw cutoff streams floor = evict env sw cutoff (Some streams) (Some floor)"

definition sync_writer :: "writer_env \<Rightarrow> writer_thread \<Rightarrow> unit result \<times> writer_thread" where
  "sync_writer env t = (case ask env Sync t of (Inl e, t') \<Rightarrow> (Inl e, t') | (Inr _, t') \<Rightarrow> (Inr (), t'))"

definition finalize ::
  "writer_env \<Rightarrow> source_writer \<Rightarrow> i64 \<times> i64 \<Rightarrow> writer_thread \<Rightarrow> unit result \<times> writer_thread" where
  "finalize env sw offset t =
    (case send_msg env (Finalize (sw_source_id sw) offset) t of
       (Inl e, t') \<Rightarrow> (Inl e, t')
     | (Inr _, t') \<Rightarrow> sync_writer env t')"

end
