(* ===== verification/Subscriber.thy ===== *)
theory Subscriber
  imports Writer_Handles Frames
begin

section \<open>Applying frames to an archive (\<open>src/replicate/subscriber.rs\<close>)\<close>

text \<open>
  A subscriber owns a writer and, per handshake ordinal, what it remembers between
  frames. \<open>env\<close> is the environment of the writer's steps during one frame; a batch
  takes one per frame.
\<close>

record applied =
  ap_rows :: nat
  ap_rows_skipped :: nat
  ap_segments :: nat
  ap_segments_held :: nat
  ap_index_entries :: nat
  ap_clock_offsets :: nat
  ap_sources :: nat
  ap_source_updates :: nat
  ap_gap :: bool

definition no_applied :: applied where
  "no_applied = \<lparr>ap_rows = 0, ap_rows_skipped = 0, ap_segments = 0, ap_segments_held = 0,
     ap_index_entries = 0, ap_clock_offsets = 0, ap_sources = 0, ap_source_updates = 0, ap_gap = False\<rparr>"

record source_state =
  st_writer :: source_writer
  st_index_state :: index_state
  st_seen_full :: bool
  st_last_seq :: "u64 option"
  st_complete :: bool
  st_last_offset :: "(i64 \<times> i64) option"
  st_logged_gap :: bool

record subscriber =
  sub_writer :: writer_handle
  sub_sources :: "(u32, source_state) btree"

definition new_subscriber :: "writer_handle \<Rightarrow> subscriber" where
  "new_subscriber h = \<lparr>sub_writer = h, sub_sources = []\<rparr>"

definition source_mut :: "subscriber \<Rightarrow> u32 \<Rightarrow> source_state result" where
  "source_mut sub source =
    (case bt_get (sub_sources sub) source of
       Some st \<Rightarrow> Inr st
     | None \<Rightarrow> Inl (Message ''replication frame for a source which no handshake has introduced''))"

text \<open>A call on the source's writer, and the state the source is left with.\<close>

definition on_writer :: "(writer_thread \<Rightarrow> 'r \<times> writer_thread) \<Rightarrow> subscriber \<Rightarrow> 'r \<times> subscriber" where
  "on_writer call sub =
    (case call (wh_thread (sub_writer sub)) of
       (r, t) \<Rightarrow> (r, sub\<lparr>sub_writer := (sub_writer sub)\<lparr>wh_thread := t\<rparr>\<rparr>))"

definition put_state :: "u32 \<Rightarrow> source_state \<Rightarrow> subscriber \<Rightarrow> subscriber" where
  "put_state source st sub = sub\<lparr>sub_sources := bt_insert source st (sub_sources sub)\<rparr>"

definition saturating_succ :: "u64 \<Rightarrow> u64" where
  "saturating_succ n = (if n = - 1 then n else n + 1)"

definition seq_gap :: "u64 option \<Rightarrow> u64 \<Rightarrow> bool" where
  "seq_gap prev seq = (case prev of Some l \<Rightarrow> saturating_succ l < seq | None \<Rightarrow> False)"

definition apply_handshake ::
  "writer_env \<Rightarrow> u32 \<Rightarrow> source_meta \<Rightarrow> rstring option \<Rightarrow> bool \<Rightarrow> subscriber \<Rightarrow> applied result \<times> subscriber" where
  "apply_handshake env source seed uuid complete sub =
    (case add_source_with_uuid env seed uuid (sub_writer sub) of
       (Inl e, h) \<Rightarrow> (Inl e, sub\<lparr>sub_writer := h\<rparr>)
     | (Inr writer, h) \<Rightarrow>
         (Inr (no_applied\<lparr>ap_sources := 1\<rparr>),
          put_state source
            \<lparr>st_writer = writer, st_index_state = no_index_state, st_seen_full = False, st_last_seq = None,
             st_complete = complete, st_last_offset = None, st_logged_gap = False\<rparr>
            (sub\<lparr>sub_writer := h\<rparr>)))"

definition apply_index ::
  "writer_env \<Rightarrow> u32 \<Rightarrow> rstring \<Rightarrow> i64 \<Rightarrow> index_kind \<Rightarrow> index_state \<Rightarrow> bytes \<Rightarrow> source_state \<Rightarrow>
   subscriber \<Rightarrow> applied result \<times> subscriber" where
  "apply_index env source stream ts kind state blob st sub =
    (case on_writer (caller_rows env (st_writer st) stream [\<lparr>cr_ts = ts, cr_blob = blob\<rparr>]) sub of
       (Inl e, sub') \<Rightarrow> (Inl e, sub')
     | (Inr _, sub') \<Rightarrow>
         (Inr (no_applied\<lparr>ap_index_entries := 1\<rparr>),
          put_state source (st\<lparr>st_index_state := state, st_seen_full := st_seen_full st \<or> kind = Full\<rparr>) sub'))"

definition unresolvable :: "source_state \<Rightarrow> index_state \<Rightarrow> bool" where
  "unresolvable st state \<longleftrightarrow> state \<noteq> no_index_state \<and> \<not> st_seen_full st"

definition apply_rows ::
  "writer_env \<Rightarrow> u32 \<Rightarrow> u64 \<Rightarrow> index_state \<Rightarrow> wal_row list \<Rightarrow> source_state \<Rightarrow> subscriber \<Rightarrow>
   applied result \<times> subscriber" where
  "apply_rows env source seq state rows st sub =
    (let gap = seq_gap (st_last_seq st) seq;
         st' = st\<lparr>st_last_seq := Some seq, st_logged_gap := st_logged_gap st \<or> gap\<rparr>;
         sub' = put_state source st' sub
     in if unresolvable st' state \<or> state \<noteq> st_index_state st'
        then (Inr (no_applied\<lparr>ap_rows_skipped := length rows, ap_gap := gap\<rparr>), sub')
        else if rows = [] then (Inr (no_applied\<lparr>ap_gap := gap\<rparr>), sub')
        else case on_writer (wal env (st_writer st') rows) sub' of
               (Inl e, sub'') \<Rightarrow> (Inl e, sub'')
             | (Inr _, sub'') \<Rightarrow> (Inr (no_applied\<lparr>ap_rows := length rows, ap_gap := gap\<rparr>), sub''))"

definition apply_segment ::
  "writer_env \<Rightarrow> rstring \<Rightarrow> segment_meta \<Rightarrow> bytes \<Rightarrow> bytes option \<Rightarrow> source_state \<Rightarrow> subscriber \<Rightarrow>
   applied result \<times> subscriber" where
  "apply_segment env stream meta body index st sub =
    (case on_writer (handle_adopt_segment env (st_writer st) stream meta body index) sub of
       (Inl e, sub') \<Rightarrow> (Inl e, sub')
     | (Inr inserted, sub') \<Rightarrow>
         (Inr (no_applied\<lparr>ap_segments := (if inserted then 1 else 0),
            ap_segments_held := (if inserted then 0 else 1)\<rparr>), sub'))"

definition apply_clock_offset ::
  "writer_env \<Rightarrow> u32 \<Rightarrow> i64 \<Rightarrow> i64 \<Rightarrow> source_state \<Rightarrow> subscriber \<Rightarrow> applied result \<times> subscriber" where
  "apply_clock_offset env source ts offset st sub =
    (case on_writer (clock_offset env (st_writer st) ts offset) sub of
       (Inl e, sub') \<Rightarrow> (Inl e, sub')
     | (Inr _, sub') \<Rightarrow>
         (Inr (no_applied\<lparr>ap_clock_offsets := 1\<rparr>),
          put_state source (st\<lparr>st_last_offset := Some (ts, offset)\<rparr>) sub'))"

definition apply_source_update ::
  "writer_env \<Rightarrow> label_map \<Rightarrow> label_map \<Rightarrow> source_state \<Rightarrow> subscriber \<Rightarrow> applied result \<times> subscriber" where
  "apply_source_update env labels metadata st sub =
    (case on_writer (set_identity env (st_writer st) labels metadata) sub of
       (Inl e, sub') \<Rightarrow> (Inl e, sub')
     | (Inr _, sub') \<Rightarrow> (Inr (no_applied\<lparr>ap_source_updates := 1\<rparr>), sub'))"

text \<open>\<open>Subscriber::apply\<close>: every frame but a handshake names a source that one introduced.\<close>

definition apply_frame :: "writer_env \<Rightarrow> frame \<Rightarrow> subscriber \<Rightarrow> applied result \<times> subscriber" where
  "apply_frame env f sub =
    (case f of
       Handshake source uuid labels metadata anchor complete \<Rightarrow>
         apply_handshake env source
           \<lparr>sm_labels = labels, sm_metadata = metadata, sm_clock_anchor = anchor\<rparr> uuid complete sub
     | _ \<Rightarrow>
         (case source_mut sub (frame_source f) of
            Inl e \<Rightarrow> (Inl e, sub)
          | Inr st \<Rightarrow>
              (case f of
                 Index source stream ts kind state blob \<Rightarrow> apply_index env source stream ts kind state blob st sub
               | Rows source seq state rows \<Rightarrow> apply_rows env source seq state rows st sub
               | Segment source stream meta body index \<Rightarrow> apply_segment env stream meta body index st sub
               | frame.ClockOffset source ts offset \<Rightarrow> apply_clock_offset env source ts offset st sub
               | SourceUpdate source ts labels metadata \<Rightarrow> apply_source_update env labels metadata st sub
               | Handshake _ _ _ _ _ _ \<Rightarrow> (Inl WriterGone, sub))))"

definition add_applied :: "applied \<Rightarrow> applied \<Rightarrow> applied" where
  "add_applied a b =
     \<lparr>ap_rows = ap_rows a + ap_rows b, ap_rows_skipped = ap_rows_skipped a + ap_rows_skipped b,
      ap_segments = ap_segments a + ap_segments b, ap_segments_held = ap_segments_held a + ap_segments_held b,
      ap_index_entries = ap_index_entries a + ap_index_entries b,
      ap_clock_offsets = ap_clock_offsets a + ap_clock_offsets b, ap_sources = ap_sources a + ap_sources b,
      ap_source_updates = ap_source_updates a + ap_source_updates b, ap_gap = (ap_gap a \<or> ap_gap b)\<rparr>"

text \<open>\<open>apply_all\<close>: the frames before a failure stay applied.\<close>

fun apply_each :: "(writer_env \<times> frame) list \<Rightarrow> applied \<Rightarrow> subscriber \<Rightarrow> applied result \<times> subscriber" where
  "apply_each [] acc sub = (Inr acc, sub)"
| "apply_each ((env, f) # frames) acc sub =
    (case apply_frame env f sub of
       (Inl e, sub') \<Rightarrow> (Inl e, sub')
     | (Inr one, sub') \<Rightarrow> apply_each frames (add_applied acc one) sub')"

definition apply_all :: "(writer_env \<times> frame) list \<Rightarrow> subscriber \<Rightarrow> applied result \<times> subscriber" where
  "apply_all frames sub = apply_each frames no_applied sub"

definition subscriber_seal :: "writer_env \<Rightarrow> u32 \<Rightarrow> rstring list \<Rightarrow> subscriber \<Rightarrow> unit result \<times> subscriber" where
  "subscriber_seal env source streams sub =
    (case source_mut sub source of
       Inl e \<Rightarrow> (Inl e, sub)
     | Inr st \<Rightarrow> on_writer (seal env (st_writer st) streams) sub)"

fun sync_sources :: "writer_env \<Rightarrow> (u32 \<times> source_state) list \<Rightarrow> subscriber \<Rightarrow> unit result \<times> subscriber" where
  "sync_sources env [] sub = (Inr (), sub)"
| "sync_sources env (_ # rest) sub =
    (case on_writer (sync_writer env) sub of
       (Inl e, sub') \<Rightarrow> (Inl e, sub')
     | (Inr _, sub') \<Rightarrow> sync_sources env rest sub')"

definition subscriber_sync :: "writer_env \<Rightarrow> subscriber \<Rightarrow> unit result \<times> subscriber" where
  "subscriber_sync env sub = sync_sources env (sub_sources sub) sub"

fun finish_sources :: "writer_env \<Rightarrow> (u32 \<times> source_state) list \<Rightarrow> subscriber \<Rightarrow> unit result \<times> subscriber" where
  "finish_sources env [] sub = (Inr (), sub)"
| "finish_sources env ((_, st) # rest) sub =
    (if st_complete st
     then case on_writer (finalize env (st_writer st)
                 (case st_last_offset st of Some o' \<Rightarrow> o' | None \<Rightarrow> (0, 0))) sub of
            (Inl e, sub') \<Rightarrow> (Inl e, sub')
          | (Inr _, sub') \<Rightarrow> finish_sources env rest sub'
     else finish_sources env rest sub)"

text \<open>
  \<open>finish\<close> takes the subscriber by value: a failure on the way drops it, which joins
  the writer as the end of the function does.
\<close>

definition finish_subscriber :: "writer_env \<Rightarrow> subscriber \<Rightarrow> unit result \<times> subscriber" where
  "finish_subscriber env sub =
    (case finish_sources env (sub_sources sub) (sub\<lparr>sub_sources := []\<rparr>) of
       (r, sub') \<Rightarrow>
         (case join_writer env (sub_writer sub') of
            (j, h) \<Rightarrow> (if is_ok r then j else r, sub'\<lparr>sub_writer := h\<rparr>)))"

end
