(* ===== verification/Replication.thy ===== *)
theory Replication
  imports Publisher_Properties Subscriber Writer_Properties
begin

section \<open>A publisher and a subscriber on one connection\<close>

text \<open>
  The subscriber refines a tracker of what a frame's rows need, and the frames of a
  publisher keep the tracker in step with its cursors, so nothing it sends is skipped.
\<close>

subsection \<open>What a subscriber remembers\<close>

text \<open>
  The abstract subscriber: per ordinal, the index state accumulated, whether a \<open>Full\<close>
  has arrived, and the last sequence number. \<open>accepts\<close> is a frame whose rows are
  written and whose sequence number leaves no gap.
\<close>

type_synonym track = "u32 \<Rightarrow> (index_state \<times> bool \<times> u64 option) option"

definition track_of :: "subscriber \<Rightarrow> track" where
  "track_of sub i =
     map_option (\<lambda>st. (st_index_state st, st_seen_full st, st_last_seq st)) (bt_get (sub_sources sub) i)"

fun track_frame :: "frame \<Rightarrow> track \<Rightarrow> track" where
  "track_frame (Handshake source _ _ _ _ _) T = T(source \<mapsto> (no_index_state, False, None))"
| "track_frame (Index source _ _ kind state _) T =
     (case T source of None \<Rightarrow> T | Some (i, full, l) \<Rightarrow> T(source \<mapsto> (state, full \<or> kind = Full, l)))"
| "track_frame (Rows source seq _ _) T =
     (case T source of None \<Rightarrow> T | Some (i, full, l) \<Rightarrow> T(source \<mapsto> (i, full, Some seq)))"
| "track_frame _ T = T"

definition resolvable :: "track \<Rightarrow> u32 \<Rightarrow> index_state \<Rightarrow> bool" where
  "resolvable T source state =
     (case T source of None \<Rightarrow> False
      | Some (i, full, _) \<Rightarrow> state = i \<and> (state = no_index_state \<or> full))"

definition gap_in :: "track \<Rightarrow> u32 \<Rightarrow> u64 \<Rightarrow> bool" where
  "gap_in T source seq = (case T source of None \<Rightarrow> False | Some (_, _, l) \<Rightarrow> seq_gap l seq)"

fun accepts :: "track \<Rightarrow> frame \<Rightarrow> bool" where
  "accepts T (Rows source seq state rows) \<longleftrightarrow> resolvable T source state \<and> \<not> gap_in T source seq"
| "accepts T (Handshake _ _ _ _ _ _) \<longleftrightarrow> True"
| "accepts T f \<longleftrightarrow> T (frame_source f) \<noteq> None"

lemma on_writer_sources [simp]: "sub_sources (snd (on_writer call sub)) = sub_sources sub"
  by (simp add: on_writer_def split: prod.split)

lemma track_put_state [simp]:
  "track_of (put_state source st sub) =
     (track_of sub)(source \<mapsto> (st_index_state st, st_seen_full st, st_last_seq st))"
  by (auto simp: track_of_def put_state_def fun_eq_iff)

lemma track_of_cong: "sub_sources sub = sub_sources sub' \<Longrightarrow> track_of sub = track_of sub'"
  by (simp add: track_of_def fun_eq_iff)

lemma track_on_writer: "on_writer call sub = (r, sub') \<Longrightarrow> track_of sub' = track_of sub"
  using on_writer_sources [of call sub] by (intro track_of_cong) simp

text \<open>The fields of a report that a frame of rows sets.\<close>

definition rows_report :: "applied \<Rightarrow> nat \<times> nat \<times> bool" where
  "rows_report r = (ap_rows r, ap_rows_skipped r, ap_gap r)"

fun step_report :: "track \<Rightarrow> frame \<Rightarrow> nat \<times> nat \<times> bool" where
  "step_report T (Rows source seq state rows) =
     (if resolvable T source state then (length rows, 0, gap_in T source seq)
      else (0, length rows, gap_in T source seq))"
| "step_report T f = (0, 0, False)"

lemma apply_rows_refines:
  assumes "apply_rows env source seq state rows st sub = (Inr one, sub')"
    and "bt_get (sub_sources sub) source = Some st"
  shows "track_of sub' = track_frame (Rows source seq state rows) (track_of sub)"
    and "rows_report one = step_report (track_of sub) (Rows source seq state rows)"
proof -
  let ?st = "st\<lparr>st_last_seq := Some seq, st_logged_gap := st_logged_gap st \<or> seq_gap (st_last_seq st) seq\<rparr>"
  have T: "track_of sub source = Some (st_index_state st, st_seen_full st, st_last_seq st)"
    using assms(2) by (simp add: track_of_def)
  have r: "resolvable (track_of sub) source state \<longleftrightarrow> \<not> (unresolvable ?st state \<or> state \<noteq> st_index_state ?st)"
    by (auto simp: resolvable_def T unresolvable_def)
  have g: "gap_in (track_of sub) source seq = seq_gap (st_last_seq st) seq" by (simp add: gap_in_def T)
  have t: "track_of (put_state source ?st sub) = track_frame (Rows source seq state rows) (track_of sub)"
    by (simp add: T)
  show "track_of sub' = track_frame (Rows source seq state rows) (track_of sub)"
    using assms(1) t track_on_writer [of "wal env (st_writer ?st) rows" "put_state source ?st sub"]
    by (auto simp: apply_rows_def Let_def split: if_splits prod.splits sum.splits)
  show "rows_report one = step_report (track_of sub) (Rows source seq state rows)"
    using assms(1) unfolding step_report.simps r g
    by (auto simp: apply_rows_def Let_def rows_report_def no_applied_def split: if_splits prod.splits sum.splits)
qed

lemma apply_frame_refines:
  assumes "apply_frame env f sub = (Inr one, sub')"
  shows "track_of sub' = track_frame f (track_of sub) \<and> rows_report one = step_report (track_of sub) f"
proof (cases "\<exists>source uuid labels metadata anchor complete. f = Handshake source uuid labels metadata anchor complete")
  case True
  then obtain source uuid labels metadata anchor complete where
    f: "f = Handshake source uuid labels metadata anchor complete" by blast
  obtain r h where add: "add_source_with_uuid env
      \<lparr>sm_labels = labels, sm_metadata = metadata, sm_clock_anchor = anchor\<rparr> uuid (sub_writer sub) = (r, h)"
    by fastforce
  have "track_of (sub\<lparr>sub_writer := h\<rparr>) = track_of sub" by (rule track_of_cong) simp
  with assms show ?thesis
    by (cases r) (auto simp: f apply_frame_def apply_handshake_def add rows_report_def no_applied_def)
next
  case False
  then obtain st where st: "bt_get (sub_sources sub) (frame_source f) = Some st"
    using assms by (cases f; cases "bt_get (sub_sources sub) (frame_source f)")
      (auto simp: apply_frame_def source_mut_def)
  have T: "track_of sub (frame_source f) = Some (st_index_state st, st_seen_full st, st_last_seq st)"
    using st by (simp add: track_of_def)
  have same: "track_of sub = (track_of sub)(frame_source f \<mapsto> (st_index_state st, st_seen_full st, st_last_seq st))"
    using T by (simp add: fun_upd_idem)
  show ?thesis
  proof (cases f)
    case (Rows source seq state rows)
    then show ?thesis using apply_rows_refines [of env source seq state rows st sub one sub'] assms st
      by (simp add: apply_frame_def source_mut_def)
  next
    case (Index source stream ts kind state blob)
    then show ?thesis using assms st T
        track_on_writer [of "caller_rows env (st_writer st) stream [\<lparr>cr_ts = ts, cr_blob = blob\<rparr>]" sub]
      by (auto simp: apply_frame_def source_mut_def apply_index_def rows_report_def no_applied_def
          split: prod.splits sum.splits)
  next
    case (Segment source stream meta body index)
    then show ?thesis using assms st
        track_on_writer [of "handle_adopt_segment env (st_writer st) stream meta body index" sub]
      by (auto simp: apply_frame_def source_mut_def apply_segment_def rows_report_def no_applied_def
          split: prod.splits sum.splits)
  next
    case (ClockOffset source ts offset)
    then show ?thesis using assms st T same
        track_on_writer [of "clock_offset env (st_writer st) ts offset" sub]
      by (auto simp: apply_frame_def source_mut_def apply_clock_offset_def rows_report_def no_applied_def
          split: prod.splits sum.splits)
  next
    case (SourceUpdate source ts labels metadata)
    then show ?thesis using assms st
        track_on_writer [of "set_identity env (st_writer st) labels metadata" sub]
      by (auto simp: apply_frame_def source_mut_def apply_source_update_def rows_report_def no_applied_def
          split: prod.splits sum.splits)
  next
    case (Handshake source uuid labels metadata anchor complete)
    with False show ?thesis by blast
  qed
qed

lemma accepts_report: "accepts T f \<Longrightarrow> fst (snd (step_report T f)) = 0 \<and> \<not> snd (snd (step_report T f))"
  by (cases "(T, f)" rule: step_report.cases) auto

subsection \<open>A connection\<close>

fun track_frames :: "frame list \<Rightarrow> track \<Rightarrow> track" where
  "track_frames [] T = T"
| "track_frames (f # fs) T = track_frames fs (track_frame f T)"

fun accepted :: "track \<Rightarrow> frame list \<Rightarrow> bool" where
  "accepted T [] \<longleftrightarrow> True"
| "accepted T (f # fs) \<longleftrightarrow> accepts T f \<and> accepted (track_frame f T) fs"

lemma track_frames_append [simp]: "track_frames (xs @ ys) T = track_frames ys (track_frames xs T)"
  by (induction xs arbitrary: T) auto

lemma accepted_append [simp]: "accepted T (xs @ ys) \<longleftrightarrow> accepted T xs \<and> accepted (track_frames xs T) ys"
  by (induction xs arbitrary: T) auto

lemma apply_each_accepted:
  assumes "apply_each frames acc sub = (Inr report, sub')" and "accepted (track_of sub) (map snd frames)"
  shows "ap_rows_skipped report = ap_rows_skipped acc \<and> ap_gap report = ap_gap acc
    \<and> track_of sub' = track_frames (map snd frames) (track_of sub)"
  using assms
proof (induction frames arbitrary: acc sub)
  case Nil
  then show ?case by simp
next
  case (Cons p frames)
  obtain env f where p: "p = (env, f)" by force
  obtain one s1 where one: "apply_frame env f sub = (Inr one, s1)"
    and rest: "apply_each frames (add_applied acc one) s1 = (Inr report, sub')"
    using Cons.prems(1) by (auto simp: p split: prod.splits sum.splits)
  note ref = apply_frame_refines [OF one]
  have a: "accepts (track_of sub) f" "accepted (track_of s1) (map snd frames)"
    using Cons.prems(2) ref by (simp_all add: p)
  have "ap_rows_skipped one = 0" "\<not> ap_gap one"
    using accepts_report [OF a(1)] ref unfolding rows_report_def by (metis fst_conv snd_conv)+
  then show ?case using Cons.IH [OF rest a(2)] ref by (simp add: p add_applied_def)
qed

subsection \<open>What a publisher sends\<close>

text \<open>
  A subscriber in step with a source's cursor: it has accumulated the index state the
  cursor declares, it has seen a \<open>Full\<close> once one was sent, and the last sequence number
  is the cursor's. \<open>ships\<close> is an operation whose frames are accepted in step.
\<close>

definition in_step :: "track \<Rightarrow> source_cursor \<Rightarrow> bool" where
  "in_step T c \<longleftrightarrow> (\<exists>full l. T (cu_ordinal c) = Some (cu_index_state c, full, l)
     \<and> (cu_sent_full c \<longrightarrow> full) \<and> (\<not> cu_sent_full c \<longrightarrow> cu_index_state c = no_index_state)
     \<and> (l = None \<or> l = Some (cu_seq c - 1)))"

definition same_source :: "source_cursor \<Rightarrow> source_cursor \<Rightarrow> bool" where
  "same_source c c' \<longleftrightarrow> cu_ordinal c' = cu_ordinal c \<and> cu_source_id c' = cu_source_id c"

definition delivers :: "source_cursor \<Rightarrow> frame list \<Rightarrow> source_cursor \<Rightarrow> bool" where
  "delivers c fs c' \<longleftrightarrow> same_source c c' \<and>
     (\<forall>T. in_step T c \<longrightarrow> accepted T fs \<and> in_step (track_frames fs T) c'
        \<and> (\<forall>i. i \<noteq> cu_ordinal c \<longrightarrow> track_frames fs T i = T i))"

definition ships :: "source_cursor \<times> frame list \<Rightarrow> source_cursor \<times> frame list \<Rightarrow> bool" where
  "ships co co' \<longleftrightarrow> (\<exists>fs. snd co' = snd co @ fs \<and> delivers (fst co) fs (fst co'))"

lemma delivers_append:
  assumes "delivers c xs c'" and "delivers c' ys c''"
  shows "delivers c (xs @ ys) c''"
  using assms unfolding delivers_def same_source_def by simp

lemma ships_trans: "ships a b \<Longrightarrow> ships b c \<Longrightarrow> ships a c"
  unfolding ships_def by (metis append.assoc delivers_append)

text \<open>A step that leaves the declared state alone may send frames that do not change the track.\<close>

lemma delivers_plain:
  assumes "same_source c c'" and "cu_index_state c' = cu_index_state c" "cu_sent_full c' = cu_sent_full c" "cu_seq c' = cu_seq c"
    and "\<forall>f \<in> set fs. frame_source f = cu_ordinal c \<and> (\<forall>T. track_frame f T = T) \<and> (\<forall>T. accepts T f \<longleftrightarrow> T (cu_ordinal c) \<noteq> None)"
  shows "delivers c fs c'"
proof -
  have "accepted T fs \<and> track_frames fs T = T" if "T (cu_ordinal c) \<noteq> None" for T
    using assms(5) that by (induction fs) auto
  moreover have "T (cu_ordinal c) \<noteq> None" if "in_step T c" for T using that by (auto simp: in_step_def)
  moreover have "in_step T c'" if "in_step T c" for T
    using that assms(1-4) by (simp add: in_step_def same_source_def)
  ultimately show ?thesis using assms(1) by (simp add: delivers_def)
qed

lemma ships_quiet:
  assumes "same_source (fst co) c'" "cu_index_state c' = cu_index_state (fst co)"
    "cu_sent_full c' = cu_sent_full (fst co)" "cu_seq c' = cu_seq (fst co)" "out = snd co"
  shows "ships co (c', out)"
  using delivers_plain [of "fst co" c' "[]"] assms by (simp add: ships_def)

lemma same_source_refl [simp]: "same_source c c"
  by (simp add: same_source_def)

lemma set_stream_fields [simp]:
  "cu_ordinal (set_stream n e c) = cu_ordinal c" "cu_source_id (set_stream n e c) = cu_source_id c"
  "cu_index_state (set_stream n e c) = cu_index_state c" "cu_sent_full (set_stream n e c) = cu_sent_full c"
  "cu_seq (set_stream n e c) = cu_seq c" "cu_clock_after (set_stream n e c) = cu_clock_after c"
  "cu_labels (set_stream n e c) = cu_labels c" "cu_metadata (set_stream n e c) = cu_metadata c"
  by (simp_all add: set_stream_def)

lemma or_default_fields [simp]:
  "cu_ordinal (or_default n c) = cu_ordinal c" "cu_source_id (or_default n c) = cu_source_id c"
  "cu_index_state (or_default n c) = cu_index_state c" "cu_sent_full (or_default n c) = cu_sent_full c"
  "cu_seq (or_default n c) = cu_seq c" "cu_clock_after (or_default n c) = cu_clock_after c"
  by (simp_all add: or_default_def)

lemma same_source_stream [simp]:
  "same_source c (set_stream n e c') \<longleftrightarrow> same_source c c'" "same_source c (or_default n c') \<longleftrightarrow> same_source c c'"
  "same_source (or_default n c) c' \<longleftrightarrow> same_source c c'"
  by (simp_all add: same_source_def)

lemma ships_entry:
  "ships (c, out) (c\<lparr>cu_index_state := fold_index_state (cu_index_state c) ts blob, cu_sent_full := True\<rparr>,
     out @ [Index (cu_ordinal c) stream ts (if cu_sent_full c then Delta else Full)
       (fold_index_state (cu_index_state c) ts blob) blob])"
  unfolding ships_def delivers_def same_source_def in_step_def by auto

lemma ships_emit_rows:
  "emit_rows stream rows skip at_last last_ts c out = (n, t, c', out') \<Longrightarrow> ships (c, out) (c', out')"
proof (induction rows arbitrary: skip at_last last_ts c out)
  case Nil
  then show ?case by (auto intro: ships_quiet)
next
  case (Cons row rows)
  show ?case
  proof (cases "skip > 0 \<and> Some (cr_ts row) = last_ts")
    case True
    then have "emit_rows stream rows (skip - 1) (at_last + 1) last_ts c out = (n, t, c', out')"
      using Cons.prems by simp
    then show ?thesis by (rule Cons.IH)
  next
    case False
    have "emit_rows stream rows skip (if Some (cr_ts row) = last_ts then at_last + 1 else 1) (Some (cr_ts row))
        (c\<lparr>cu_index_state := fold_index_state (cu_index_state c) (cr_ts row) (cr_blob row), cu_sent_full := True\<rparr>)
        (out @ [Index (cu_ordinal c) stream (cr_ts row) (if cu_sent_full c then Delta else Full)
          (fold_index_state (cu_index_state c) (cr_ts row) (cr_blob row)) (cr_blob row)]) = (n, t, c', out')"
      using Cons.prems False by (simp only: emit_rows.simps if_False Let_def)
    then show ?thesis by (rule ships_trans [OF ships_entry Cons.IH])
  qed
qed

lemma ships_emit_index: "ships co (emit_index a stream from co)"
proof -
  let ?c = "or_default stream (fst co)"
  obtain start skip where s: "(case sc_index_after (stream_entry ?c stream) of Some (ts, n) \<Rightarrow> (ts, n) | None \<Rightarrow> (from, 0)) = (start, skip)"
    by fastforce
  obtain n t c' out where e: "emit_rows stream (read_caller_rows a (cu_source_id ?c) stream start i64_max) skip 0
      (map_option fst (sc_index_after (stream_entry ?c stream))) ?c (snd co) = (n, t, c', out)"
    by (metis prod_cases4)
  have "ships co (?c, snd co)" by (rule ships_quiet) simp_all
  moreover have "ships (?c, snd co) (c', out)" using e by (rule ships_emit_rows)
  moreover have "ships (c', out) (case t of None \<Rightarrow> (c', out)
      | Some ts \<Rightarrow> (set_stream stream ((stream_entry c' stream)\<lparr>sc_index_after := Some (ts, n)\<rparr>) c', out))"
    by (auto split: option.split intro!: ships_quiet)
  moreover have "emit_index a stream from co = (case t of None \<Rightarrow> (c', out)
      | Some ts \<Rightarrow> (set_stream stream ((stream_entry c' stream)\<lparr>sc_index_after := Some (ts, n)\<rparr>) c', out))"
    unfolding emit_index_def Let_def s e prod.case ..
  ultimately show ?thesis by (metis ships_trans)
qed

lemma ships_emit_indexes: "ships co (emit_indexes a names from co)"
proof (induction names arbitrary: co)
  case Nil
  show ?case by (cases co) (auto intro: ships_quiet)
next
  case (Cons name names)
  show ?case unfolding emit_indexes.simps by (rule ships_trans [OF ships_emit_index Cons.IH])
qed

lemma ships_one:
  assumes "same_source c c'" "cu_index_state c' = cu_index_state c" "cu_sent_full c' = cu_sent_full c" "cu_seq c' = cu_seq c"
    and "\<forall>f \<in> set fs. frame_source f = cu_ordinal c \<and> (\<forall>T. track_frame f T = T) \<and> (\<forall>T. accepts T f \<longleftrightarrow> T (cu_ordinal c) \<noteq> None)"
  shows "ships (c, out) (c', out @ fs)"
  using delivers_plain [OF assms] by (auto simp: ships_def)

lemma ships_emit_clock: "ships co (emit_clock offsets co)"
proof (induction offsets co rule: emit_clock.induct)
  case (1 co)
  then show ?case by (cases co) (auto intro: ships_quiet)
next
  case (2 ts offset rest c out)
  have "ships (c, out) (c\<lparr>cu_clock_after := Some ts\<rparr>, out @ [frame.ClockOffset (cu_ordinal c) ts offset])"
    by (rule ships_one) (simp_all add: same_source_def)
  with 2 show ?case by (auto intro: ships_trans)
qed

lemma segment_frames_plain:
  "\<forall>f \<in> set (map (segment_frame (cu_ordinal c) stream) segs).
     frame_source f = cu_ordinal c \<and> (\<forall>T. track_frame f T = T) \<and> (\<forall>T. accepts T f \<longleftrightarrow> T (cu_ordinal c) \<noteq> None)"
  by (simp add: segment_frame_def)

lemma ships_poll_stream:
  assumes "poll_stream a stream rows co = (res, c', out')"
  shows "ships co (c', out')"
proof -
  let ?c = "or_default stream (fst co)"
  let ?segs = "map (segment_frame (cu_ordinal ?c) stream) (segments_overlapping a (cu_source_id ?c) stream i64_min i64_max)"
  have "\<exists>e fs. c' = set_stream stream e (set_stream stream e ?c) \<and> out' = snd co @ fs \<and> (fs = [] \<or> fs = ?segs)
      \<or> (\<exists>e1. c' = set_stream stream e (set_stream stream e1 ?c) \<and> out' = snd co @ fs \<and> (fs = [] \<or> fs = ?segs))
      \<or> c' = set_stream stream e ?c \<and> out' = snd co @ fs \<and> (fs = [] \<or> fs = ?segs)"
    using assms by (auto simp: poll_stream_def Let_def split: option.splits if_splits)
  then obtain fs where fs: "out' = snd co @ fs" "fs = [] \<or> fs = ?segs"
    and c': "same_source (fst co) c'" "cu_index_state c' = cu_index_state (fst co)"
      "cu_sent_full c' = cu_sent_full (fst co)" "cu_seq c' = cu_seq (fst co)"
    by (elim exE disjE conjE) auto
  have "ships (fst co, snd co) (c', snd co @ fs)"
    by (rule ships_one [OF c']) (use fs(2) segment_frames_plain [of "fst co"] in auto)
  then show ?thesis by (simp add: fs(1))
qed

lemma ships_poll_streams: "poll_streams a streams rows co = (res, co') \<Longrightarrow> ships co co'"
proof (induction a streams rows co rule: poll_streams.induct)
  case (1 a rows co)
  then show ?case by (cases co) (auto intro: ships_quiet)
next
  case (2 a stream streams rows co)
  obtain r c1 o1 where p: "poll_stream a stream rows co = (r, c1, o1)" by (metis prod_cases3)
  show ?case
  proof (cases r)
    case (Inl e)
    then show ?thesis using 2(2) p ships_poll_stream [OF p] by simp
  next
    case (Inr rows')
    then have "ships (c1, o1) co'" using 2(1) [OF p [symmetric] Inr] 2(2) p by simp
    then show ?thesis using ships_poll_stream [OF p] by (rule ships_trans [rotated])
  qed
qed

lemma seq_step: "\<not> seq_gap (Some (s - 1)) s" "\<not> seq_gap None s"
  by (simp_all add: seq_gap_def saturating_succ_def)

lemma ships_rows:
  "ships (c, out) (c\<lparr>cu_seq := cu_seq c + 1\<rparr>, out @ [Rows (cu_ordinal c) (cu_seq c) (cu_index_state c) rows])"
proof -
  have "accepts T (Rows (cu_ordinal c) (cu_seq c) (cu_index_state c) rows)" if "in_step T c" for T
    using that seq_step [of "cu_seq c"] by (auto simp: in_step_def resolvable_def gap_in_def)
  moreover have "in_step (track_frame (Rows (cu_ordinal c) (cu_seq c) (cu_index_state c) rows) T)
      (c\<lparr>cu_seq := cu_seq c + 1\<rparr>)" if "in_step T c" for T
    using that by (auto simp: in_step_def)
  moreover have "track_frame (Rows (cu_ordinal c) q s rows) T i = T i" if "i \<noteq> cu_ordinal c" for T i q s
    using that by (auto split: option.split)
  ultimately show ?thesis
    unfolding ships_def delivers_def
    by (intro exI [of _ "[Rows (cu_ordinal c) (cu_seq c) (cu_index_state c) rows]"]) (simp add: same_source_def)
qed

lemma ships_poll:
  assumes "poll a co = (Inr u, c', out')"
  shows "ships co (c', out')"
proof -
  let ?co1 = "emit_indexes a (caller_row_streams a (cu_source_id (fst co))) i64_min co"
  let ?co2 = "emit_clock (read_clock_offsets a (cu_source_id (fst ?co1))) ?co1"
  obtain rows c out where p: "poll_streams a (all_streams a (cu_source_id (fst ?co2))) [] ?co2 = (Inr rows, c, out)"
    and r: "c' = c\<lparr>cu_seq := cu_seq c + 1\<rparr>" "out' = out @ [Rows (cu_ordinal c) (cu_seq c) (cu_index_state c) (order_by row_order rows)]"
    using assms by (auto simp: poll_def Let_def split: prod.splits sum.splits)
  have "ships co ?co2" by (rule ships_trans [OF ships_emit_indexes ships_emit_clock])
  then have "ships co (c, out)" using ships_poll_streams [OF p] by (rule ships_trans)
  then show ?thesis unfolding r using ships_rows by (rule ships_trans)
qed

lemma ships_emit_update: "emit_update a now co = (Inr u, co') \<Longrightarrow> ships co co'"
proof -
  assume e: "emit_update a now co = (Inr u, co')"
  obtain c out where co: "co = (c, out)" by force
  show ?thesis
  proof (cases "co' = co")
    case True
    then show ?thesis by (auto simp: co intro: ships_quiet)
  next
    case False
    then obtain labels metadata ts where
      "co' = (c\<lparr>cu_labels := labels, cu_metadata := metadata\<rparr>, out @ [SourceUpdate (cu_ordinal c) ts labels metadata])"
      using e by (auto simp: emit_update_def Let_def co split: option.splits sum.splits if_splits)
    then show ?thesis unfolding co
      using ships_one [of c "c\<lparr>cu_labels := labels, cu_metadata := metadata\<rparr>" "[SourceUpdate (cu_ordinal c) ts labels metadata]" out]
      by (simp add: same_source_def)
  qed
qed

subsection \<open>Opening a source\<close>

lemma ships_open_stream: "ships co (open_stream a since stream co)"
proof -
  obtain c out where co: "co = (c, out)" by force
  show ?thesis
  proof (cases since)
    case None
    then show ?thesis unfolding co by (auto simp: open_stream_def Let_def intro!: ships_quiet)
  next
    case (Some start)
    then show ?thesis
      unfolding co open_stream_def Let_def using segment_frames_plain [of c stream]
      by (simp, intro ships_one) simp_all
  qed
qed

lemma ships_open_streams: "ships co (open_streams a since streams co)"
proof (induction streams arbitrary: co)
  case Nil
  show ?case by (cases co) (auto intro: ships_quiet)
next
  case (Cons s ss)
  show ?case unfolding open_streams.simps by (rule ships_trans [OF ships_open_stream Cons.IH])
qed

lemma ships_open_clock: "ships co (open_clock since offsets co)"
proof (induction offsets arbitrary: co)
  case Nil
  show ?case by (cases co) (auto intro: ships_quiet)
next
  case (Cons o' offsets)
  obtain ts offset c out where o': "o' = (ts, offset)" "co = (c, out)" by (metis surj_pair)
  have "ships (c, out) (c\<lparr>cu_clock_after := Some ts\<rparr>, out @ [frame.ClockOffset (cu_ordinal c) ts offset])"
    by (rule ships_one) (simp_all add: same_source_def)
  moreover have "ships (c, out) (c\<lparr>cu_clock_after := Some ts\<rparr>, out)"
    by (rule ships_quiet) (simp_all add: same_source_def)
  ultimately have "ships (c, out) (open_clock since offsets x)"
    if "x \<in> {(c\<lparr>cu_clock_after := Some ts\<rparr>, out @ [frame.ClockOffset (cu_ordinal c) ts offset]),
      (c\<lparr>cu_clock_after := Some ts\<rparr>, out), (c, out)}" for x
    using that ships_trans [OF _ Cons.IH] Cons.IH by blast
  then show ?case unfolding o' by (cases since) simp_all
qed

definition opens :: "u32 \<Rightarrow> frame list \<Rightarrow> source_cursor \<Rightarrow> frame list \<Rightarrow> bool" where
  "opens ordinal out c out' \<longleftrightarrow> (\<exists>fs. out' = out @ fs \<and> cu_ordinal c = ordinal
     \<and> (\<forall>T. accepted T fs \<and> in_step (track_frames fs T) c
          \<and> (\<forall>i. i \<noteq> ordinal \<longrightarrow> track_frames fs T i = T i)))"

lemma opens_ships:
  assumes "opens ordinal out c out1" and "ships (c, out1) (c', out2)"
  shows "opens ordinal out c' out2"
proof -
  obtain fs where fs: "out1 = out @ fs" "cu_ordinal c = ordinal"
    "\<And>T. accepted T fs \<and> in_step (track_frames fs T) c \<and> (\<forall>i. i \<noteq> ordinal \<longrightarrow> track_frames fs T i = T i)"
    using assms(1) by (auto simp: opens_def)
  obtain gs where gs: "out2 = out1 @ gs" "delivers c gs c'" using assms(2) by (auto simp: ships_def)
  show ?thesis
    unfolding opens_def
    by (rule exI [of _ "fs @ gs"]) (use fs gs in \<open>auto simp: delivers_def same_source_def\<close>)
qed

lemma opens_source:
  assumes "open_source a rec ordinal since out = (c, out')"
  shows "opens ordinal out c out'"
proof -
  let ?c0 = "first_cursor ordinal rec"
  have h: "opens ordinal out ?c0 (out @ [handshake_frame ordinal rec])"
    unfolding opens_def handshake_frame_def first_cursor_def in_step_def
    by (intro exI [of _ "[Handshake ordinal (src_uuid rec) (sm_labels (src_meta rec)) (sm_metadata (src_meta rec))
       (sm_clock_anchor (src_meta rec)) (src_complete rec)]"]) auto
  have "ships (?c0, out @ [handshake_frame ordinal rec]) (c, out')"
    using assms unfolding open_source_def Let_def
    by (metis ships_emit_indexes ships_open_streams ships_open_clock ships_trans)
  with h show ?thesis by (rule opens_ships)
qed

subsection \<open>The whole publisher\<close>

definition ordinals_ok :: "source_cursor list \<Rightarrow> bool" where
  "ordinals_ok cs \<longleftrightarrow> length cs \<le> 2 ^ 32 \<and> map cu_ordinal cs = map of_nat [0..<length cs]"

definition all_in_step :: "track \<Rightarrow> source_cursor list \<Rightarrow> bool" where
  "all_in_step T cs \<longleftrightarrow> (\<forall>c \<in> set cs. in_step T c)"

lemma ordinals_distinct: "ordinals_ok cs \<Longrightarrow> distinct (map cu_ordinal cs)"
proof -
  assume a: "ordinals_ok cs"
  have "inj_on (of_nat :: nat \<Rightarrow> u32) {0..<length cs}"
    using a unfolding ordinals_ok_def
    by (intro inj_onI) (simp add: of_nat_inverse word_of_nat_eq_iff take_bit_nat_eq_self)
  then show ?thesis using a by (simp add: ordinals_ok_def distinct_map)
qed

lemma all_in_step_delivers:
  assumes "all_in_step T (xs @ c # ys)" and "delivers c fs c'" and "distinct (map cu_ordinal (xs @ c # ys))"
  shows "accepted T fs" and "all_in_step (track_frames fs T) (xs @ c' # ys)"
proof -
  have c: "in_step T c" using assms(1) by (simp add: all_in_step_def)
  then show "accepted T fs" using assms(2) by (simp add: delivers_def)
  have "in_step (track_frames fs T) d" if "d \<in> set xs \<union> set ys" for d
  proof -
    have "cu_ordinal d \<noteq> cu_ordinal c" using that assms(3) by (auto simp: image_iff)
    moreover have "in_step T d" using that assms(1) by (auto simp: all_in_step_def)
    ultimately show ?thesis using assms(2) c by (simp add: delivers_def in_step_def)
  qed
  then show "all_in_step (track_frames fs T) (xs @ c' # ys)"
    using assms(2) c by (auto simp: all_in_step_def delivers_def)
qed

lemma poll_known_delivers:
  assumes "poll_known a now cs polled out = (Inr out', cs')" and "distinct (map cu_ordinal (polled @ cs))"
  shows "\<exists>fs. out' = out @ fs \<and> map cu_ordinal cs' = map cu_ordinal (polled @ cs)
    \<and> (\<forall>T. all_in_step T (polled @ cs) \<longrightarrow> accepted T fs \<and> all_in_step (track_frames fs T) cs')"
  using assms
proof (induction cs arbitrary: polled out)
  case Nil
  then show ?case by simp
next
  case (Cons c cs)
  obtain co where u: "emit_update a now (c, out) = (Inr (), co)"
    using Cons.prems(1) by (auto split: prod.splits sum.splits)
  obtain c' out1 where p: "poll a co = (Inr (), c', out1)"
    and rest: "poll_known a now cs (polled @ [c']) out1 = (Inr out', cs')"
    using Cons.prems(1) u by (auto split: prod.splits sum.splits)
  have "ships (c, out) (c', out1)" by (rule ships_trans [OF ships_emit_update [OF u] ships_poll [OF p]])
  then obtain fs where fs: "out1 = out @ fs" "delivers c fs c'" by (auto simp: ships_def)
  have o': "cu_ordinal c' = cu_ordinal c" using fs(2) by (simp add: delivers_def same_source_def)
  have d': "distinct (map cu_ordinal ((polled @ [c']) @ cs))" using Cons.prems(2) o' by simp
  from Cons.IH [OF rest d'] obtain gs where gs: "out' = out1 @ gs"
    "map cu_ordinal cs' = map cu_ordinal ((polled @ [c']) @ cs)"
    "\<forall>T. all_in_step T ((polled @ [c']) @ cs) \<longrightarrow> accepted T gs \<and> all_in_step (track_frames gs T) cs'"
    by blast
  have "accepted T (fs @ gs) \<and> all_in_step (track_frames (fs @ gs) T) cs'"
    if "all_in_step T (polled @ c # cs)" for T
    using all_in_step_delivers [OF that fs(2) Cons.prems(2)] gs(3) by simp
  then show ?case using gs(1,2) fs(1) o' by (intro exI [of _ "fs @ gs"]) simp
qed

lemma all_in_step_opens:
  assumes "all_in_step T cs" and "opens ordinal out c out'" and "ordinal \<notin> set (map cu_ordinal cs)"
  shows "\<exists>fs. out' = out @ fs \<and> cu_ordinal c = ordinal \<and> (\<forall>T. all_in_step T cs \<longrightarrow>
      accepted T fs \<and> all_in_step (track_frames fs T) (cs @ [c]))"
proof -
  obtain fs where fs: "out' = out @ fs" "cu_ordinal c = ordinal"
    "\<forall>T. accepted T fs \<and> in_step (track_frames fs T) c \<and> (\<forall>i. i \<noteq> ordinal \<longrightarrow> track_frames fs T i = T i)"
    using assms(2) unfolding opens_def by blast
  have "all_in_step (track_frames fs T) (cs @ [c])" if t: "all_in_step T cs" for T
  proof -
    have "in_step (track_frames fs T) d" if d: "d \<in> set cs" for d
    proof -
      have "cu_ordinal d \<noteq> ordinal" using d assms(3) by auto
      then have "track_frames fs T (cu_ordinal d) = T (cu_ordinal d)" using fs(3) by blast
      moreover have "in_step T d" using t d by (simp add: all_in_step_def)
      ultimately show ?thesis by (simp add: in_step_def)
    qed
    then show ?thesis using fs(3) by (simp add: all_in_step_def)
  qed
  then show ?thesis using fs by blast
qed

lemma next_ordinal_fresh:
  assumes "ordinals_ok cs" and "next_ordinal (length cs) = Inr i"
  shows "i \<notin> set (map cu_ordinal cs)" and "cu_ordinal c = i \<Longrightarrow> ordinals_ok (cs @ [c])"
proof -
  have len: "length cs < 2 ^ 32" and i: "i = of_nat (length cs)"
    using assms(2) by (auto simp: next_ordinal_def split: if_splits)
  then show ok: "cu_ordinal c = i \<Longrightarrow> ordinals_ok (cs @ [c])"
    using assms(1) by (simp add: ordinals_ok_def)
  have ne: "(of_nat n :: u32) \<noteq> of_nat (length cs)" if "n < length cs" for n
    using that len by (simp add: word_of_nat_eq_iff take_bit_nat_eq_self)
  show "i \<notin> set (map cu_ordinal cs)"
  proof
    assume "i \<in> set (map cu_ordinal cs)"
    then have "i \<in> set (map of_nat [0..<length cs])" using assms(1) by (simp only: ordinals_ok_def)
    then obtain n where n: "n < length cs" "i = of_nat n" by auto
    from ne [OF n(1)] n(2) i show False by simp
  qed
qed

text \<open>A loop that opens a list of sources, each with its own frames.\<close>

definition grows :: "source_cursor list \<Rightarrow> frame list \<Rightarrow> source_cursor list \<Rightarrow> frame list \<Rightarrow> bool" where
  "grows cs out cs' out' \<longleftrightarrow> ordinals_ok cs' \<and> (\<exists>fs. out' = out @ fs \<and>
     (\<forall>T. all_in_step T cs \<longrightarrow> accepted T fs \<and> all_in_step (track_frames fs T) cs'))"

lemma grows_refl: "ordinals_ok cs \<Longrightarrow> grows cs out cs out"
  by (simp add: grows_def)

lemma grows_trans: "grows cs out cs1 out1 \<Longrightarrow> grows cs1 out1 cs2 out2 \<Longrightarrow> grows cs out cs2 out2"
  unfolding grows_def by (metis accepted_append append.assoc track_frames_append)

lemma grows_open:
  assumes "ordinals_ok cs" and "next_ordinal (length cs) = Inr i" and "opens i out c out'"
  shows "grows cs out (cs @ [c]) out'"
proof -
  obtain fs where fs: "out' = out @ fs" "cu_ordinal c = i"
      "\<forall>T. all_in_step T cs \<longrightarrow> accepted T fs \<and> all_in_step (track_frames fs T) (cs @ [c])"
    using all_in_step_opens [OF _ assms(3) next_ordinal_fresh(1) [OF assms(1,2)]] assms(3)
    by (metis (no_types, opaque_lifting) append.right_neutral opens_def self_append_conv)
  then show ?thesis using next_ordinal_fresh(2) [OF assms(1,2) fs(2)] by (auto simp: grows_def)
qed

lemma grows_open_sources:
  "open_sources a since recs cs out = Inr (cs', out') \<Longrightarrow> ordinals_ok cs \<Longrightarrow> grows cs out cs' out'"
proof (induction recs arbitrary: cs out)
  case Nil
  then show ?case by (simp add: grows_refl)
next
  case (Cons rec recs)
  obtain i where i: "next_ordinal (length cs) = Inr i" using Cons.prems(1) by (auto simp: result_simps)
  obtain c out1 where o1: "open_source a rec i since out = (c, out1)" by force
  have rest: "open_sources a since recs (cs @ [c]) out1 = Inr (cs', out')"
    using Cons.prems(1) i o1 by simp
  have g: "grows cs out (cs @ [c]) out1" by (rule grows_open [OF Cons.prems(2) i opens_source [OF o1]])
  then have "ordinals_ok (cs @ [c])" by (simp add: grows_def)
  from grows_trans [OF g Cons.IH [OF rest this]] show ?case .
qed

lemma grows_poll_new:
  "poll_new a since recs cs out = (Inr out', cs') \<Longrightarrow> ordinals_ok cs \<Longrightarrow> grows cs out cs' out'"
proof (induction recs arbitrary: cs out)
  case Nil
  then show ?case by (simp add: grows_refl)
next
  case (Cons rec recs)
  obtain i where i: "next_ordinal (length cs) = Inr i"
    using Cons.prems(1) by (cases "next_ordinal (length cs)") auto
  obtain c0 out0 where o0: "open_source a rec i (Some since) out = (c0, out0)" by force
  obtain c out1 where p: "poll a (c0, out0) = (Inr (), c, out1)"
    and rest: "poll_new a since recs (cs @ [c]) out1 = (Inr out', cs')"
    using Cons.prems(1) i o0 by (auto split: prod.splits sum.splits)
  have "opens i out c out1" by (rule opens_ships [OF opens_source [OF o0] ships_poll [OF p]])
  then have g: "grows cs out (cs @ [c]) out1" by (rule grows_open [OF Cons.prems(2) i])
  then have "ordinals_ok (cs @ [c])" by (simp add: grows_def)
  from grows_trans [OF g Cons.IH [OF rest this]] show ?case .
qed

lemma grows_next_frames:
  assumes "next_frames a now p = (Inr out, p')" and "ordinals_ok (pb_sources p)"
  shows "grows (pb_sources p) [] (pb_sources p') out"
proof -
  obtain out1 cs where k: "poll_known a now (pb_sources p) [] [] = (Inr out1, cs)"
    using assms(1) by (auto simp: next_frames_def split: prod.splits sum.splits)
  obtain recs where n: "poll_new a (pb_since p) recs cs out1 = (Inr out, pb_sources p')"
    using assms(1) k by (auto simp: next_frames_def Let_def split: prod.splits)
  obtain fs where fs: "out1 = fs" "map cu_ordinal cs = map cu_ordinal (pb_sources p)"
    "\<forall>T. all_in_step T (pb_sources p) \<longrightarrow> accepted T fs \<and> all_in_step (track_frames fs T) cs"
    using poll_known_delivers [OF k] ordinals_distinct [OF assms(2)] by auto
  have ok: "ordinals_ok cs"
    using assms(2) fs(2) unfolding ordinals_ok_def by (metis length_map)
  have "grows (pb_sources p) [] cs out1" using fs ok by (simp add: grows_def)
  then show ?thesis by (rule grows_trans [OF _ grows_poll_new [OF n ok]])
qed

subsection \<open>A connection from its first frame\<close>

text \<open>
  What a publisher sends over a connection: its opening batch and then each poll, of
  the archive as it was at that poll.
\<close>

fun polls :: "(archive \<times> i64 result) list \<Rightarrow> publisher \<Rightarrow> frame list result" where
  "polls [] p = Inr []"
| "polls ((a, now) # rest) p =
    (case next_frames a now p of
       (Inl e, _) \<Rightarrow> Inl e
     | (Inr fs, p') \<Rightarrow> rmap (append fs) (polls rest p'))"

definition connection :: "archive \<Rightarrow> i64 option \<Rightarrow> (archive \<times> i64 result) list \<Rightarrow> frame list result" where
  "connection a since later =
     rbind (open_publisher a since) (\<lambda>(p, fs). rmap (append fs) (polls later p))"

lemma polls_accepted:
  "polls later p = Inr fs \<Longrightarrow> ordinals_ok (pb_sources p) \<Longrightarrow> all_in_step T (pb_sources p) \<Longrightarrow> accepted T fs"
proof (induction later arbitrary: p T fs)
  case Nil
  then show ?case by simp
next
  case (Cons l later)
  obtain a now where l: "l = (a, now)" by force
  obtain gs p' where n: "next_frames a now p = (Inr gs, p')"
    using Cons.prems(1) by (auto simp: l split: prod.splits sum.splits)
  obtain hs where h: "polls later p' = Inr hs" "fs = gs @ hs"
    using Cons.prems(1) n by (auto simp: l result_simps)
  have "grows (pb_sources p) [] (pb_sources p') gs" by (rule grows_next_frames [OF n Cons.prems(2)])
  then have "ordinals_ok (pb_sources p')" "accepted T gs" "all_in_step (track_frames gs T) (pb_sources p')"
    using Cons.prems(3) by (auto simp: grows_def)
  then show ?case using Cons.IH [OF h(1)] h(2) by simp
qed

lemma connection_accepted: "connection a since later = Inr fs \<Longrightarrow> accepted T fs"
proof -
  assume c: "connection a since later = Inr fs"
  obtain p gs hs where o': "open_publisher a since = Inr (p, gs)" "polls later p = Inr hs" "fs = gs @ hs"
    using c by (auto simp: connection_def result_simps)
  then have "open_sources a since (read_sources a) [] [] = Inr (pb_sources p, gs)"
    by (auto simp: open_publisher_def result_simps)
  moreover have "ordinals_ok []" by (simp add: ordinals_ok_def)
  ultimately have "grows [] [] (pb_sources p) gs" by (rule grows_open_sources)
  then have "ordinals_ok (pb_sources p)" "accepted T gs" "all_in_step (track_frames gs T) (pb_sources p)"
    by (auto simp: grows_def all_in_step_def)
  then show ?thesis using polls_accepted [OF o'(2)] o'(3) by simp
qed

text \<open>
  C7: a subscriber applies every frame of a publisher's connection, from its opening
  batch through any number of polls of the archive as it grows. If every frame
  applies, no row is skipped for want of its index state and no gap is reported.
\<close>

theorem connection_skips_nothing:
  assumes "connection a since later = Inr (map snd frames)"
    and "apply_all frames sub = (Inr report, sub')"
  shows "ap_rows_skipped report = 0 \<and> \<not> ap_gap report"
  using apply_each_accepted [OF assms(2) [unfolded apply_all_def] connection_accepted [OF assms(1)]]
  by (simp add: no_applied_def)

subsection \<open>What the writer is sent\<close>

text \<open>The archive's id of each source, and the message a frame makes the subscriber send its writer.\<close>

definition ids_of :: "subscriber \<Rightarrow> u32 \<Rightarrow> i64 option" where
  "ids_of sub i = map_option (\<lambda>st. sw_source_id (st_writer st)) (bt_get (sub_sources sub) i)"

fun frame_msg :: "track \<Rightarrow> i64 \<Rightarrow> frame \<Rightarrow> msg option" where
  "frame_msg T sid (Handshake source uuid labels metadata anchor complete) =
     Some (AddSource \<lparr>sm_labels = labels, sm_metadata = metadata, sm_clock_anchor = anchor\<rparr> uuid)"
| "frame_msg T sid (Index source stream ts kind state blob) =
     Some (CallerRows sid stream [\<lparr>cr_ts = ts, cr_blob = blob\<rparr>])"
| "frame_msg T sid (Rows source seq state rows) =
     (if resolvable T source state \<and> rows \<noteq> [] then Some (Wal [(sid, rows)]) else None)"
| "frame_msg T sid (Segment source stream meta body index) =
     Some (AdoptSegment sid \<lparr>ad_stream = stream, ad_meta = meta, ad_bytes = body, ad_caller_index = index\<rparr>)"
| "frame_msg T sid (frame.ClockOffset source ts offset) = Some (msg.ClockOffset sid ts offset)"
| "frame_msg T sid (SourceUpdate source ts labels metadata) = Some (SetIdentity sid labels metadata)"

fun answered :: "frame \<Rightarrow> reply \<Rightarrow> applied \<Rightarrow> bool" where
  "answered (Segment _ _ _ _ _) r report \<longleftrightarrow>
     (\<exists>b. r = SegmentAdopted (Inr b) \<and> ap_segments report = of_bool b \<and> ap_segments_held report = of_bool (\<not> b))"
| "answered _ r report \<longleftrightarrow> ap_segments report = 0 \<and> ap_segments_held report = 0"

definition writer_got :: "writer_env \<Rightarrow> msg option \<Rightarrow> subscriber \<Rightarrow> subscriber \<Rightarrow> reply \<Rightarrow> bool" where
  "writer_got env m sub sub' r \<longleftrightarrow>
    (case m of
       None \<Rightarrow> sub_writer sub' = sub_writer sub
     | Some m \<Rightarrow> \<exists>w o'. wh_thread (sub_writer sub) = Serving w \<and> handle env m w = (o', r)
         \<and> sub_writer sub' = (sub_writer sub)\<lparr>wh_thread := thread_of o'\<rparr>)"

lemma on_writer_got:
  assumes "on_writer (send_msg env m) sub = (Inr u, sub1)" and "sub_writer sub' = sub_writer sub1"
  shows "\<exists>r. writer_got env (Some m) sub sub' r"
proof (cases "wh_thread (sub_writer sub)")
  case (Serving w)
  then show ?thesis using assms
    by (cases "handle env m w") (auto simp: on_writer_def writer_got_def)
qed (use assms in \<open>simp add: on_writer_def\<close>)

lemma sub_writer_put [simp]: "sub_writer (put_state source st sub) = sub_writer sub"
  by (simp add: put_state_def)

lemma ids_of_put [simp]: "ids_of (put_state source st sub) = (ids_of sub)(source \<mapsto> sw_source_id (st_writer st))"
  by (auto simp: ids_of_def put_state_def fun_eq_iff)

lemma ids_on_writer: "on_writer call sub = (r, sub') \<Longrightarrow> ids_of sub' = ids_of sub"
  using on_writer_sources [of call sub] by (simp add: ids_of_def fun_eq_iff)

lemma handshake_got:
  assumes "apply_frame env (Handshake source uuid labels metadata anchor complete) sub = (Inr report, sub')"
  shows "\<exists>i. writer_got env (frame_msg T sid (Handshake source uuid labels metadata anchor complete)) sub sub' (SourceAdded (Inr i))
    \<and> ids_of sub' = (ids_of sub)(source \<mapsto> i) \<and> ap_segments report = 0 \<and> ap_segments_held report = 0"
proof -
  let ?seed = "\<lparr>sm_labels = labels, sm_metadata = metadata, sm_clock_anchor = anchor\<rparr>"
  obtain sw h where add: "add_source_with_uuid env ?seed uuid (sub_writer sub) = (Inr sw, h)"
    and sub': "sub_writer sub' = h" "ids_of sub' = (ids_of sub)(source \<mapsto> sw_source_id sw)"
    and rep: "report = no_applied\<lparr>ap_sources := 1\<rparr>"
  proof -
    obtain x h where x: "add_source_with_uuid env ?seed uuid (sub_writer sub) = (x, h)" by fastforce
    have "ids_of (sub\<lparr>sub_writer := h\<rparr>) = ids_of sub" by (simp add: ids_of_def fun_eq_iff)
    with x assms that show ?thesis by (cases x) (auto simp: apply_frame_def apply_handshake_def)
  qed
  show ?thesis
  proof (cases "wh_thread (sub_writer sub)")
    case (Serving w)
    then show ?thesis using add sub' rep
      by (cases "handle env (AddSource ?seed uuid) w")
        (auto simp: add_source_with_uuid_def writer_got_def no_applied_def split: if_splits reply.splits sum.splits)
  next
    case (Ended r w)
    then show ?thesis using add by (auto simp: add_source_with_uuid_def split: if_splits)
  qed
qed

lemma rows_got:
  assumes "apply_rows env source seq state rows st sub = (Inr report, sub')" and "bt_get (sub_sources sub) source = Some st"
  shows "\<exists>r. writer_got env (frame_msg (track_of sub) (sw_source_id (st_writer st)) (Rows source seq state rows)) sub sub' r
    \<and> ids_of sub' = ids_of sub \<and> ap_segments report = 0 \<and> ap_segments_held report = 0"
proof -
  let ?st = "st\<lparr>st_last_seq := Some seq, st_logged_gap := st_logged_gap st \<or> seq_gap (st_last_seq st) seq\<rparr>"
  have T: "track_of sub source = Some (st_index_state st, st_seen_full st, st_last_seq st)"
    and I: "ids_of sub source = Some (sw_source_id (st_writer st))"
    using assms(2) by (simp_all add: track_of_def ids_of_def)
  have r: "resolvable (track_of sub) source state \<longleftrightarrow> \<not> (unresolvable ?st state \<or> state \<noteq> st_index_state ?st)"
    by (auto simp: resolvable_def T unresolvable_def)
  have same: "ids_of (put_state source ?st sub) = ids_of sub" using I by (simp add: fun_upd_idem)
  have sent: "\<exists>r. writer_got env (Some (Wal [(sw_source_id (st_writer st), rows)])) sub sub' r"
    if "on_writer (wal env (st_writer ?st) rows) (put_state source ?st sub) = (Inr u, sub')" "rows \<noteq> []" for u
  proof -
    have "on_writer (send_msg env (Wal [(sw_source_id (st_writer st), rows)])) (put_state source ?st sub) = (Inr u, sub')"
      using that by (auto simp: wal_def on_writer_def split: prod.splits option.splits)
    from on_writer_got [OF this, of sub'] show ?thesis by (simp add: writer_got_def)
  qed
  show ?thesis
  proof (cases "resolvable (track_of sub) source state \<and> rows \<noteq> []")
    case True
    then obtain u where u: "on_writer (wal env (st_writer ?st) rows) (put_state source ?st sub) = (Inr u, sub')"
      and rep: "report = no_applied\<lparr>ap_rows := length rows, ap_gap := seq_gap (st_last_seq st) seq\<rparr>"
      using assms(1) r by (auto simp: apply_rows_def Let_def split: prod.splits sum.splits)
    show ?thesis using sent [OF u] True rep ids_on_writer [OF u] same by (auto simp: no_applied_def)
  next
    case False
    then have "sub' = put_state source ?st sub" "ap_segments report = 0 \<and> ap_segments_held report = 0"
      using assms(1) r by (auto simp: apply_rows_def Let_def no_applied_def split: if_splits)
    then show ?thesis using False same by (auto simp: writer_got_def)
  qed
qed

lemma segment_got:
  assumes "apply_segment env stream meta body index st sub = (Inr report, sub')"
  shows "\<exists>r. writer_got env (frame_msg T (sw_source_id (st_writer st)) (Segment source stream meta body index)) sub sub' r
    \<and> ids_of sub' = ids_of sub \<and> answered (Segment source stream meta body index) r report"
proof -
  let ?m = "AdoptSegment (sw_source_id (st_writer st)) \<lparr>ad_stream = stream, ad_meta = meta, ad_bytes = body, ad_caller_index = index\<rparr>"
  obtain b where b: "on_writer (handle_adopt_segment env (st_writer st) stream meta body index) sub = (Inr b, sub')"
    "report = no_applied\<lparr>ap_segments := (if b then 1 else 0), ap_segments_held := (if b then 0 else 1)\<rparr>"
    using assms by (auto simp: apply_segment_def split: prod.splits sum.splits)
  show ?thesis
  proof (cases "wh_thread (sub_writer sub)")
    case (Serving w)
    obtain o' r where h: "handle env ?m w = (o', r)" by fastforce
    then have "r = SegmentAdopted (Inr b)" "sub' = sub\<lparr>sub_writer := (sub_writer sub)\<lparr>wh_thread := thread_of o'\<rparr>\<rparr>"
      using b(1) Serving by (auto simp del: handle.simps simp: on_writer_def handle_adopt_segment_def
          split: if_splits reply.splits)
    then show ?thesis using Serving h b(2) ids_on_writer [OF b(1)]
      by (auto simp: writer_got_def no_applied_def)
  next
    case (Ended r w)
    then show ?thesis using b by (simp add: on_writer_def handle_adopt_segment_def)
  qed
qed

lemma sent_frame_got:
  assumes "on_writer (send_msg env m) sub = (Inr u, sub1)" and "sub_writer sub' = sub_writer sub1"
    and "frame_msg T sid f = Some m" and "ids_of sub' = ids_of sub"
    and "answered f = (\<lambda>r report. ap_segments report = 0 \<and> ap_segments_held report = 0)" and "ap_segments report = 0 \<and> ap_segments_held report = 0"
  shows "\<exists>r. writer_got env (frame_msg T sid f) sub sub' r \<and> ids_of sub' = ids_of sub \<and> answered f r report"
  using on_writer_got [OF assms(1,2)] assms(3-) by auto

lemma frame_got:
  assumes "apply_frame env f sub = (Inr report, sub')"
    and "\<nexists>source uuid labels metadata anchor complete. f = Handshake source uuid labels metadata anchor complete"
  shows "\<exists>sid r. ids_of sub (frame_source f) = Some sid \<and> writer_got env (frame_msg (track_of sub) sid f) sub sub' r
    \<and> ids_of sub' = ids_of sub \<and> answered f r report"
proof -
  obtain st where st: "bt_get (sub_sources sub) (frame_source f) = Some st"
    using assms by (cases f; cases "bt_get (sub_sources sub) (frame_source f)")
      (auto simp: apply_frame_def source_mut_def)
  let ?sid = "sw_source_id (st_writer st)"
  have I: "ids_of sub (frame_source f) = Some ?sid" using st by (simp add: ids_of_def)
  have same: "ids_of s = (ids_of sub)(frame_source f \<mapsto> ?sid) \<Longrightarrow> ids_of s = ids_of sub" for s
    using I by (simp add: fun_upd_idem)
  have "\<exists>r. writer_got env (frame_msg (track_of sub) ?sid f) sub sub' r \<and> ids_of sub' = ids_of sub \<and> answered f r report"
  proof (cases f)
    case (Handshake source uuid labels metadata anchor complete)
    with assms(2) show ?thesis by blast
  next
    case (Rows source seq state rows)
    then show ?thesis using rows_got [of env source seq state rows st sub report sub'] assms(1) st
      by (auto simp: apply_frame_def source_mut_def)
  next
    case (Segment source stream meta body index)
    then show ?thesis using segment_got [of env stream meta body index st sub report sub' _ source] assms(1) st
      by (auto simp: apply_frame_def source_mut_def)
  next
    case (Index source stream ts kind state blob)
    then obtain sub1 where u: "on_writer (send_msg env (CallerRows ?sid stream [\<lparr>cr_ts = ts, cr_blob = blob\<rparr>])) sub = (Inr (), sub1)"
      and sub': "sub_writer sub' = sub_writer sub1" "ids_of sub' = (ids_of sub1)(source \<mapsto> ?sid)"
      and rep: "report = no_applied\<lparr>ap_index_entries := 1\<rparr>"
      using assms(1) st by (auto simp: apply_frame_def source_mut_def apply_index_def caller_rows_def [abs_def]
          split: prod.splits sum.splits)
    show ?thesis
      by (rule sent_frame_got [OF u sub'(1)])
        (use Index sub'(2) ids_on_writer [OF u] same rep in \<open>auto simp: no_applied_def fun_eq_iff\<close>)
  next
    case (ClockOffset source ts offset)
    then obtain sub1 where u: "on_writer (send_msg env (msg.ClockOffset ?sid ts offset)) sub = (Inr (), sub1)"
      and sub': "sub_writer sub' = sub_writer sub1" "ids_of sub' = (ids_of sub1)(source \<mapsto> ?sid)"
      and rep: "report = no_applied\<lparr>ap_clock_offsets := 1\<rparr>"
      using assms(1) st by (auto simp: apply_frame_def source_mut_def apply_clock_offset_def clock_offset_def [abs_def]
          split: prod.splits sum.splits)
    show ?thesis
      by (rule sent_frame_got [OF u sub'(1)])
        (use ClockOffset sub'(2) ids_on_writer [OF u] same rep in \<open>auto simp: no_applied_def fun_eq_iff\<close>)
  next
    case (SourceUpdate source ts labels metadata)
    then have u: "on_writer (send_msg env (SetIdentity ?sid labels metadata)) sub = (Inr (), sub')"
      and rep: "report = no_applied\<lparr>ap_source_updates := 1\<rparr>"
      using assms(1) st by (auto simp: apply_frame_def source_mut_def apply_source_update_def set_identity_def [abs_def]
          split: prod.splits sum.splits)
    show ?thesis
      by (rule sent_frame_got [OF u refl])
        (use SourceUpdate ids_on_writer [OF u] rep in \<open>auto simp: no_applied_def fun_eq_iff\<close>)
  qed
  then show ?thesis using I by blast
qed

text \<open>
  C12: what a subscriber does with a frame it applies. Its state refines a tracker of
  three facts per source: the index state accumulated, whether a \<open>Full\<close> arrived, and the
  last sequence number. Its writer is sent exactly one message, under the id the archive
  gave the source at its handshake: the source to add, the index row, the segment to
  adopt, the clock offset, the new identity, or the rows of the frame, all of them; rows
  whose state the tracker does not resolve, and an empty frame, send nothing. The report
  counts those rows as written or as skipped, calls a gap exactly when the sequence
  number jumped, and counts a segment as inserted or as held by what the writer answered.
\<close>

theorem apply_frame_refinement:
  assumes "apply_frame env f sub = (Inr report, sub')"
  shows "track_of sub' = track_frame f (track_of sub)
    \<and> (ap_rows report, ap_rows_skipped report, ap_gap report) = step_report (track_of sub) f
    \<and> (case f of
         Handshake source _ _ _ _ _ \<Rightarrow>
           (\<exists>i. writer_got env (frame_msg (track_of sub) 0 f) sub sub' (SourceAdded (Inr i))
              \<and> ids_of sub' = (ids_of sub)(source \<mapsto> i))
       | _ \<Rightarrow>
           (\<exists>sid r. ids_of sub (frame_source f) = Some sid
              \<and> writer_got env (frame_msg (track_of sub) sid f) sub sub' r
              \<and> ids_of sub' = ids_of sub \<and> answered f r report))"
proof (cases "\<exists>source uuid labels metadata anchor complete. f = Handshake source uuid labels metadata anchor complete")
  case True
  then obtain source uuid labels metadata anchor complete where
    f: "f = Handshake source uuid labels metadata anchor complete" by blast
  show ?thesis
    using apply_frame_refines [OF assms] handshake_got [OF assms [unfolded f], of "track_of sub" 0]
    by (auto simp: f rows_report_def)
next
  case False
  show ?thesis
    using apply_frame_refines [OF assms] frame_got [OF assms False] False
    by (cases f) (auto simp: rows_report_def)
qed



subsection \<open>At a concrete connection\<close>

definition sample_subscriber :: subscriber where
  "sample_subscriber = new_subscriber (spawn_writer \<lparr>db_archive = create_archive, db_faults = []\<rparr>)"

definition sample_connection :: "frame list" where
  "sample_connection =
    (case connection indexed_archive (Some 0) [(indexed_archive, Inr 0)] of Inr fs \<Rightarrow> fs | Inl _ \<Rightarrow> [])"

lemma sample_connection_ok:
  "connection indexed_archive (Some 0) [(indexed_archive, Inr 0)] = Inr sample_connection"
proof -
  have "is_ok (connection indexed_archive (Some 0) [(indexed_archive, Inr 0)])" by code_simp
  then show ?thesis
    by (cases "connection indexed_archive (Some 0) [(indexed_archive, Inr 0)]") (auto simp: sample_connection_def)
qed

theorem connection_skips_nothing_witness:
  "\<exists>report sub'. apply_all (map (Pair sample_env) sample_connection) sample_subscriber = (Inr report, sub')
     \<and> length sample_connection = 4 \<and> ap_rows_skipped report = 0 \<and> \<not> ap_gap report"
proof -
  obtain r sub' where a: "apply_all (map (Pair sample_env) sample_connection) sample_subscriber = (r, sub')"
    by fastforce
  have "is_ok (fst (apply_all (map (Pair sample_env) sample_connection) sample_subscriber))" by code_simp
  then obtain report where r: "r = Inr report" using a by (cases r) auto
  have l: "length sample_connection = 4" by code_simp
  have m: "map snd (map (Pair sample_env) sample_connection) = sample_connection" by (simp add: comp_def)
  show ?thesis
    using connection_skips_nothing [OF _ a [unfolded r], of indexed_archive "Some 0" "[(indexed_archive, Inr 0)]"]
      sample_connection_ok a r l m by simp
qed

text \<open>A frame of rows on a connection: the writer gets the rows under the source's id and stores them.\<close>

definition shaken_subscriber :: subscriber where
  "shaken_subscriber = snd (apply_frame sample_env (Handshake 7 None [] [] 0 False) sample_subscriber)"

theorem apply_frame_refinement_witness:
  "\<exists>report sub'. apply_frame sample_env (Rows 7 4 no_index_state [\<lparr>row_stream = str ''cpu'', row_ts = 5, row_wall_offset = 6, row_payload = [7]\<rparr>]) shaken_subscriber = (Inr report, sub')
     \<and> ap_rows report = 1 \<and> ids_of shaken_subscriber 7 = Some 1
     \<and> sub_writer sub' = (sub_writer shaken_subscriber)\<lparr>wh_thread :=
         thread_of (fst (handle sample_env (Wal [(1, [\<lparr>row_stream = str ''cpu'', row_ts = 5, row_wall_offset = 6, row_payload = [7]\<rparr>])]) (thread_state (wh_thread (sub_writer shaken_subscriber)))))\<rparr>
     \<and> length (ar_wal (wr_archive (thread_state (wh_thread (sub_writer sub'))))) = 1"
proof -
  let ?f = "Rows 7 4 no_index_state [\<lparr>row_stream = str ''cpu'', row_ts = 5, row_wall_offset = 6, row_payload = [7]\<rparr>]"
  obtain r sub' where a: "apply_frame sample_env ?f shaken_subscriber = (r, sub')" by fastforce
  have "is_ok (fst (apply_frame sample_env ?f shaken_subscriber))" by code_simp
  then obtain report where r: "r = Inr report" using a by (cases r) auto
  have i: "ids_of shaken_subscriber 7 = Some 1" by code_simp
  have t: "track_of shaken_subscriber 7 = Some (no_index_state, False, None)" by code_simp
  have "length (ar_wal (wr_archive (thread_state (wh_thread (sub_writer
      (snd (apply_frame sample_env ?f shaken_subscriber))))))) = 1" by code_simp
  then show ?thesis
    using apply_frame_refinement [OF a [unfolded r]] a r i t
    by (auto simp: writer_got_def resolvable_def)
qed

end
