(* ===== verification/Read_Path.thy ===== *)
theory Read_Path
  imports Seal_Seam
begin

section \<open>Reading an archive (\<open>src/read.rs\<close>)\<close>

text \<open>
  What a reader is handed: a stream's sealed segments, oldest first, with its live
  rows materialized as one more. Every entry point runs inside one read snapshot,
  so each is a function of a single archive value; the only reads that fail are
  those of a source that is not there. The page counters and the opening of a file
  are SQLite's and so parameters. What holds of them is in \<open>Read_Properties\<close>.
\<close>

subsection \<open>The catalog\<close>

record stream_catalog =
  sc_name :: rstring
  sc_segments :: nat
  sc_sealed :: span
  sc_live :: span
  sc_bytes :: nat

definition catalog_rows :: "stream_catalog \<Rightarrow> nat" where
  "catalog_rows c = span_rows (sc_sealed c) + span_rows (sc_live c)"

text \<open>\<open>into_iter().flatten().min()\<close>, and the maximum.\<close>

definition flat_min :: "int option list \<Rightarrow> int option" where
  "flat_min xs = col_min (concat (map opt_list xs))"

definition flat_max :: "int option list \<Rightarrow> int option" where
  "flat_max xs = col_max (concat (map opt_list xs))"

definition opt_pair :: "'a option \<Rightarrow> 'b option \<Rightarrow> ('a \<times> 'b) option" where
  "opt_pair x y = (case x of None \<Rightarrow> None | Some a \<Rightarrow> (case y of None \<Rightarrow> None | Some b \<Rightarrow> Some (a, b)))"

definition catalog_span :: "stream_catalog \<Rightarrow> (i64 \<times> i64) option" where
  "catalog_span c =
     opt_pair (flat_min [span_first_ts (sc_sealed c), span_first_ts (sc_live c)])
              (flat_max [span_last_ts (sc_sealed c), span_last_ts (sc_live c)])"

record source_catalog =
  so_id :: i64
  so_uuid :: "rstring option"
  so_labels :: label_map
  so_metadata :: label_map
  so_complete :: bool
  so_anchor :: i64
  so_streams :: "stream_catalog list"

text \<open>\<open>filter_map\<close>, and the hull of the spans it leaves.\<close>

definition hull :: "(i64 \<times> i64) option list \<Rightarrow> (i64 \<times> i64) option" where
  "hull xs =
    (let spans = concat (map opt_list xs)
     in opt_pair (col_min (map fst spans)) (col_max (map snd spans)))"

definition source_span :: "source_catalog \<Rightarrow> (i64 \<times> i64) option" where
  "source_span c = hull (map catalog_span (so_streams c))"

definition catalog_stream :: "archive \<Rightarrow> i64 \<Rightarrow> rstring \<Rightarrow> stream_catalog" where
  "catalog_stream a sid name =
    (let (segments, sealed) = segment_span a sid name
     in \<lparr>sc_name = name, sc_segments = segments, sc_sealed = sealed,
         sc_live = live_wal_span a sid name, sc_bytes = stream_bytes a sid name\<rparr>)"

definition catalog_source :: "archive \<Rightarrow> source_row \<Rightarrow> source_catalog" where
  "catalog_source a src =
     \<lparr>so_id = src_id src, so_uuid = src_uuid src, so_labels = sm_labels (src_meta src),
      so_metadata = sm_metadata (src_meta src), so_complete = src_complete src,
      so_anchor = sm_clock_anchor (src_meta src),
      so_streams = map (catalog_stream a (src_id src)) (all_streams a (src_id src))\<rparr>"

definition catalog :: "archive \<Rightarrow> source_catalog list" where
  "catalog a = map (catalog_source a) (read_sources a)"

subsection \<open>The overview\<close>

text \<open>Page counters are 32-bit; their products are taken in 64 bits, where they fit.\<close>

record page_stats =
  pg_pages :: u32
  pg_free :: u32
  pg_size :: u32

definition archive_bytes :: "page_stats \<Rightarrow> u64" where
  "archive_bytes p = ucast (pg_pages p) * ucast (pg_size p)"

record overview =
  ov_bytes :: u64
  ov_pages :: page_stats
  ov_sources :: "source_catalog list"

definition describe :: "page_stats \<Rightarrow> archive \<Rightarrow> overview" where
  "describe pages a = \<lparr>ov_bytes = archive_bytes pages, ov_pages = pages, ov_sources = catalog a\<rparr>"

definition overview_segments :: "overview \<Rightarrow> nat" where
  "overview_segments v = sum_list (map sc_segments (concat (map so_streams (ov_sources v))))"

definition overview_rows :: "overview \<Rightarrow> nat" where
  "overview_rows v = sum_list (map catalog_rows (concat (map so_streams (ov_sources v))))"

definition overview_span :: "overview \<Rightarrow> (i64 \<times> i64) option" where
  "overview_span v = hull (map source_span (ov_sources v))"

definition free_bytes :: "overview \<Rightarrow> u64" where
  "free_bytes v = ucast (pg_free (ov_pages v)) * ucast (pg_size (ov_pages v))"

subsection \<open>Reading a stream\<close>

definition check_encoder_of :: "archive \<Rightarrow> i64 \<Rightarrow> encoder \<Rightarrow> unit result" where
  "check_encoder_of a sid encoder =
    (if enc_version encoder = None then Inr ()
     else rbind (source_metadata a sid) (\<lambda>metadata. check_encoder sid metadata encoder))"

definition materialize_tail ::
  "archive \<Rightarrow> encoder \<Rightarrow> i64 \<Rightarrow> rstring \<Rightarrow> wal_row list \<Rightarrow> segment option result" where
  "materialize_tail a encoder sid stream live =
    (if live = [] then Inr None
     else rbind (source_uuid a sid) (\<lambda>uuid.
            materialize encoder (with_source_uuid (new_context sid stream) uuid) live))"

definition probe :: "archive \<Rightarrow> i64 \<Rightarrow> rstring \<Rightarrow> encoder \<Rightarrow> bytes option result" where
  "probe a sid stream encoder =
     rbind (check_encoder_of a sid encoder) (\<lambda>_.
       case read_segment_meta a sid stream of
         (seq, _) # _ \<Rightarrow> Inr (read_segment_bytes a sid stream seq)
       | [] \<Rightarrow> rmap (map_option seg_bytes)
                 (materialize_tail a encoder sid stream (live_wal a sid stream)))"

definition stream_range ::
  "archive \<Rightarrow> i64 \<Rightarrow> rstring \<Rightarrow> i64 \<Rightarrow> i64 \<Rightarrow> encoder \<Rightarrow> bytes list result" where
  "stream_range a sid stream start stop encoder =
     rbind (check_encoder_of a sid encoder) (\<lambda>_.
       let segments = map sr_bytes (segments_overlapping a sid stream start stop);
           live = filter (\<lambda>r. row_ts r \<ge> start \<and> row_ts r \<le> stop) (live_wal a sid stream)
       in rmap (\<lambda>tail. segments @ opt_list (map_option seg_bytes tail))
            (materialize_tail a encoder sid stream live))"

definition stream_segments_snapshotted ::
  "archive \<Rightarrow> i64 \<Rightarrow> rstring \<Rightarrow> encoder \<Rightarrow> bytes list result" where
  "stream_segments_snapshotted a sid stream encoder =
     rmap (\<lambda>tail. map sr_bytes (read_segments a sid stream) @ opt_list (map_option seg_bytes tail))
       (materialize_tail a encoder sid stream (live_wal a sid stream))"

definition stream_segments :: "archive \<Rightarrow> i64 \<Rightarrow> rstring \<Rightarrow> encoder \<Rightarrow> bytes list result" where
  "stream_segments a sid stream encoder =
     rbind (check_encoder_of a sid encoder) (\<lambda>_. stream_segments_snapshotted a sid stream encoder)"

definition stream_indexes :: "archive \<Rightarrow> i64 \<Rightarrow> rstring \<Rightarrow> encoder \<Rightarrow> bytes option list result" where
  "stream_indexes a sid stream encoder =
     rbind (check_encoder_of a sid encoder) (\<lambda>_.
       rmap (\<lambda>tail. map snd (read_segment_indexes a sid stream) @ opt_list (map_option seg_index tail))
         (materialize_tail a encoder sid stream (live_wal a sid stream)))"

subsection \<open>Reading everything\<close>

record source_segments =
  sl_labels :: label_map
  sl_metadata :: label_map
  sl_complete :: bool
  sl_streams :: "(rstring \<times> bytes list) list"

definition read_stream ::
  "archive \<Rightarrow> i64 \<Rightarrow> encoder \<Rightarrow> (rstring \<times> bytes list) list \<Rightarrow> rstring \<Rightarrow>
   (rstring \<times> bytes list) list result" where
  "read_stream a sid encoder streams stream =
     rmap (\<lambda>segments. if segments = [] then streams else streams @ [(stream, segments)])
       (stream_segments_snapshotted a sid stream encoder)"

definition read_source ::
  "archive \<Rightarrow> encoder \<Rightarrow> source_segments list \<Rightarrow> source_row \<Rightarrow> source_segments list result" where
  "read_source a encoder out src =
     rbind (check_encoder (src_id src) (sm_metadata (src_meta src)) encoder) (\<lambda>_.
     rbind (rfold (read_stream a (src_id src) encoder) [] (all_streams a (src_id src))) (\<lambda>streams.
       Inr (out @ [\<lparr>sl_labels = sm_labels (src_meta src), sl_metadata = sm_metadata (src_meta src),
                    sl_complete = src_complete src, sl_streams = streams\<rparr>])))"

definition read_archive :: "archive \<Rightarrow> encoder \<Rightarrow> source_segments list result" where
  "read_archive a encoder = rfold (read_source a encoder) [] (read_sources a)"

text \<open>
  \<open>SegmentBytes\<close>: where a stream's segments come from when they are asked for.
  Opening the file at a path is a parameter, \<open>open_archive\<close>; the shared
  connection is the archive it reads, a poisoned lock giving it up all the same.
\<close>

datatype segment_source =
    Bytes "bytes list"
  | AtPath rstring i64 rstring
  | Shared archive i64 rstring

definition segment_source_all ::
  "(rstring \<Rightarrow> archive result) \<Rightarrow> segment_source \<Rightarrow> encoder \<Rightarrow> bytes list result" where
  "segment_source_all open_archive src encoder =
    (case src of
       Bytes b \<Rightarrow> Inr b
     | AtPath path sid stream \<Rightarrow>
         rbind (open_archive path) (\<lambda>a. stream_segments a sid stream encoder)
     | Shared a sid stream \<Rightarrow> stream_segments a sid stream encoder)"

end
