(* ===== verification/Rewrite_Parquet.thy ===== *)
theory Rewrite_Parquet
  imports Read_Path
begin

section \<open>Rewriting segments (\<open>src/rewrite.rs\<close>)\<close>

text \<open>
  The two operations that open a segment's Parquet: merging a run of segments into
  one, and projecting a segment to some of its columns. The Arrow and Parquet
  libraries are parameters, the record \<open>parquet\<close>: what a file opens to, what a
  writer makes of the batches written to it, an all-null column. A data type, a
  column and a writer's settings stay abstract, the types \<open>'ty\<close>, \<open>'col\<close> and \<open>'ws\<close>.
\<close>

subsection \<open>What the code sees of Arrow and Parquet\<close>

record 'ty field =
  fd_name :: rstring
  fd_type :: 'ty
  fd_nullable :: bool
  fd_metadata :: label_map

record 'ty schema =
  sch_fields :: "'ty field list"
  sch_metadata :: label_map

record ('ty, 'col) batch =
  rb_fields :: "'ty field list"
  rb_rows :: nat
  rb_columns :: "'col list"

datatype key_value = KeyValue (kv_key: rstring) (kv_value: "rstring option")

text \<open>An opened file: its reader may refuse to start, and may fail at a batch.\<close>

record ('ty, 'col) parquet_file =
  pf_key_values :: "key_value list option"
  pf_num_rows :: i64
  pf_schema :: "'ty schema"
  pf_batches :: "string + (string + ('ty, 'col) batch) list"

record 'ws writer_props =
  wp_key_values :: "key_value list option"
  wp_settings :: 'ws

text \<open>
  A writer is the schema and properties it was opened with and the batches written so
  far; each call may be refused with a message.
\<close>

record ('ty, 'col, 'ws) parquet =
  pq_open :: "bytes \<Rightarrow> string + ('ty, 'col) parquet_file"
  pq_new_writer :: "'ty schema \<Rightarrow> 'ws writer_props \<Rightarrow> string + unit"
  pq_write :: "'ty schema \<Rightarrow> 'ws writer_props \<Rightarrow> ('ty, 'col) batch list \<Rightarrow> ('ty, 'col) batch \<Rightarrow> string + unit"
  pq_close :: "'ty schema \<Rightarrow> 'ws writer_props \<Rightarrow> ('ty, 'col) batch list \<Rightarrow> string + bytes"
  pq_null_array :: "'ty \<Rightarrow> nat \<Rightarrow> 'col"
  pq_new_batch :: "'ty schema \<Rightarrow> 'col list \<Rightarrow> string + ('ty, 'col) batch"
  pq_project_schema :: "'ty schema \<Rightarrow> nat list \<Rightarrow> string + 'ty schema"
  pq_project_batch :: "('ty, 'col) batch \<Rightarrow> nat list \<Rightarrow> string + ('ty, 'col) batch"
  pq_default_props :: "'ws writer_props"

text \<open>A library error becomes a message of the crate's.\<close>

fun pq_result :: "string \<Rightarrow> string + 'a \<Rightarrow> 'a result" where
  "pq_result what (Inl e) = Inl (Message what)"
| "pq_result what (Inr x) = Inr x"

lemma pq_result_Inr [result_simps]: "pq_result what r = Inr x \<longleftrightarrow> r = Inr x"
  by (cases r) auto

subsection \<open>File metadata\<close>

definition arrow_schema_key :: rstring where "arrow_schema_key = str ''ARROW:schema''"

definition without_arrow_schema :: "key_value list \<Rightarrow> key_value list" where
  "without_arrow_schema kv = filter (\<lambda>e. kv_key e \<noteq> arrow_schema_key) kv"

definition with_file_metadata :: "'ws writer_props \<Rightarrow> key_value list \<Rightarrow> 'ws writer_props" where
  "with_file_metadata props carried =
    (let carried = without_arrow_schema carried
     in if carried = [] then props
        else
          let kv = (case wp_key_values props of None \<Rightarrow> [] | Some kv \<Rightarrow> kv);
              kept = filter (\<lambda>e. \<not> list_ex (\<lambda>c. kv_key c = kv_key e) carried) kv
          in props\<lparr>wp_key_values := Some (kept @ carried)\<rparr>)"

definition file_kv :: "('ty, 'col) parquet_file \<Rightarrow> key_value list" where
  "file_kv f = (case pf_key_values f of None \<Rightarrow> [] | Some kv \<Rightarrow> without_arrow_schema kv)"

subsection \<open>Merging metadata\<close>

record 'ty merge_input =
  mi_key_value :: "key_value list"
  mi_fields :: "'ty field list"
  mi_rows :: nat

text \<open>
  The trait \<open>MetadataMerge\<close>; \<open>extend\<close> takes its run by \<open>&mut\<close>, so it returns the run it
  leaves whether or not it admits the segment.
\<close>

record ('ty, 'run) metadata_merge =
  mm_start :: "'ty merge_input \<Rightarrow> 'run option"
  mm_extend :: "'run \<Rightarrow> 'ty merge_input \<Rightarrow> bool \<times> 'run"
  mm_finish :: "'run \<Rightarrow> key_value list"

text \<open>The order of \<open>sorted\<close>: by key, then by value, no value first.\<close>

fun opt_le :: "'a::linorder option \<Rightarrow> 'a option \<Rightarrow> bool" where
  "opt_le None y = True"
| "opt_le (Some x) None = False"
| "opt_le (Some x) (Some y) = (x \<le> y)"

instantiation key_value :: linorder
begin

definition less_eq_key_value :: "key_value \<Rightarrow> key_value \<Rightarrow> bool" where
  "less_eq_key_value a b \<longleftrightarrow>
     kv_key a < kv_key b \<or> kv_key a = kv_key b \<and> opt_le (kv_value a) (kv_value b)"

definition less_key_value :: "key_value \<Rightarrow> key_value \<Rightarrow> bool" where
  "less_key_value a b \<longleftrightarrow> a \<le> b \<and> \<not> b \<le> (a :: key_value)"

instance
proof
  fix a b c :: key_value
  have total: "opt_le x y \<or> opt_le y x" for x y :: "rstring option"
    by (cases x; cases y) auto
  have trans: "opt_le x y \<Longrightarrow> opt_le y z \<Longrightarrow> opt_le x z" for x y z :: "rstring option"
    by (cases x; cases y; cases z) auto
  have antisym: "opt_le x y \<Longrightarrow> opt_le y x \<Longrightarrow> x = y" for x y :: "rstring option"
    by (cases x; cases y) auto
  show "a < b \<longleftrightarrow> a \<le> b \<and> \<not> b \<le> a" by (simp add: less_key_value_def)
  show "a \<le> a" using total [of "kv_value a" "kv_value a"] by (simp add: less_eq_key_value_def)
  show "a \<le> c" if "a \<le> b" "b \<le> c"
    using that trans [of "kv_value a" "kv_value b" "kv_value c"] unfolding less_eq_key_value_def
    by (metis less_trans)
  show "a = b" if "a \<le> b" "b \<le> a"
  proof -
    have k: "kv_key a = kv_key b" using that unfolding less_eq_key_value_def by (metis less_asym)
    then have "opt_le (kv_value a) (kv_value b)" "opt_le (kv_value b) (kv_value a)"
      using that by (simp_all add: less_eq_key_value_def)
    then have "kv_value a = kv_value b" by (rule antisym)
    with k show ?thesis by (simp add: key_value.expand)
  qed
  show "a \<le> b \<or> b \<le> a"
    using total [of "kv_value a" "kv_value b"] unfolding less_eq_key_value_def by (metis linorder_neqE)
qed

end

definition sorted_kv :: "key_value list \<Rightarrow> key_value list" where
  "sorted_kv kv = order_by (\<lambda>e. e) kv"

record identical_run =
  ir_first :: "key_value list"
  ir_sorted :: "key_value list"

definition identical_metadata :: "('ty, identical_run) metadata_merge" where
  "identical_metadata =
     \<lparr>mm_start = (\<lambda>first. Some \<lparr>ir_first = mi_key_value first, ir_sorted = sorted_kv (mi_key_value first)\<rparr>),
      mm_extend = (\<lambda>run next.
        (length (mi_key_value next) = length (ir_sorted run)
         \<and> sorted_kv (mi_key_value next) = ir_sorted run, run)),
      mm_finish = ir_first\<rparr>"

subsection \<open>\<open>concat_parquet\<close>\<close>

datatype schema_policy = StopAtChange | UnionFields

text \<open>The loop's variables.\<close>

record ('ty, 'col, 'run) merge_state =
  ms_opened :: "('ty, 'col) parquet_file list"
  ms_run :: "'run option"
  ms_first :: "'ty schema option"
  ms_order :: "'ty field list"
  ms_seen :: "(rstring, nat) btree"
  ms_carried_by :: "nat list"

definition new_merge :: "('ty, 'col, 'run) merge_state" where
  "new_merge = \<lparr>ms_opened = [], ms_run = None, ms_first = None, ms_order = [], ms_seen = [], ms_carried_by = []\<rparr>"

text \<open>A file's schema without the embedded entries its key-value metadata repeats.\<close>

definition stripped_schema :: "('ty, 'col) parquet_file \<Rightarrow> 'ty schema" where
  "stripped_schema f =
     (pf_schema f)\<lparr>sch_metadata :=
        filter (\<lambda>(k, _). \<not> list_ex (\<lambda>e. kv_key e = k) (file_kv f)) (sch_metadata (pf_schema f))\<rparr>"

definition schema_admitted ::
  "schema_policy \<Rightarrow> ('ty, 'col, 'run) merge_state \<Rightarrow> 'ty schema \<Rightarrow> bool" where
  "schema_admitted policy st schema =
    (case policy of
       StopAtChange \<Rightarrow> (case ms_first st of None \<Rightarrow> True | Some f \<Rightarrow> f = schema)
     | UnionFields \<Rightarrow>
         list_all (\<lambda>f. case bt_get (ms_seen st) (fd_name f) of None \<Rightarrow> True | Some i \<Rightarrow> ms_order st ! i = f)
           (sch_fields schema))"

text \<open>\<open>Left\<close> and the run \<open>extend\<close> left: the loop breaks; \<open>Right\<close>: the segment joins.\<close>

definition metadata_admitted ::
  "('ty, 'run) metadata_merge \<Rightarrow> 'run option \<Rightarrow> 'ty merge_input \<Rightarrow> 'run option + 'run" where
  "metadata_admitted merge run input =
    (case run of
       None \<Rightarrow> (case mm_start merge input of None \<Rightarrow> Inl None | Some r \<Rightarrow> Inr r)
     | Some r \<Rightarrow> (case mm_extend merge r input of (ok, r') \<Rightarrow> if ok then Inr r' else Inl (Some r')))"

definition note_field :: "('ty, 'col, 'run) merge_state \<Rightarrow> 'ty field \<Rightarrow> ('ty, 'col, 'run) merge_state" where
  "note_field st f =
    (case bt_get (ms_seen st) (fd_name f) of
       Some i \<Rightarrow> st\<lparr>ms_carried_by := (ms_carried_by st)[i := ms_carried_by st ! i + 1]\<rparr>
     | None \<Rightarrow> st\<lparr>ms_seen := bt_insert (fd_name f) (length (ms_order st)) (ms_seen st),
                 ms_order := ms_order st @ [f], ms_carried_by := ms_carried_by st @ [1]\<rparr>)"

definition note_schema ::
  "schema_policy \<Rightarrow> 'ty schema \<Rightarrow> ('ty, 'col, 'run) merge_state \<Rightarrow> ('ty, 'col, 'run) merge_state" where
  "note_schema policy schema st =
    (case policy of
       StopAtChange \<Rightarrow> st\<lparr>ms_first := Some (case ms_first st of None \<Rightarrow> schema | Some f \<Rightarrow> f)\<rparr>
     | UnionFields \<Rightarrow> foldl note_field st (sch_fields schema))"

text \<open>One pass over the sequence numbers: open, admit, note; any refusal ends it.\<close>

fun open_run ::
  "('ty, 'col, 'ws) parquet \<Rightarrow> (nat \<Rightarrow> bytes option) \<Rightarrow> schema_policy \<Rightarrow> ('ty, 'run) metadata_merge \<Rightarrow>
   ('ty, 'col, 'run) merge_state \<Rightarrow> nat list \<Rightarrow> ('ty, 'col, 'run) merge_state result" where
  "open_run lib fetch policy merge st [] = Inr st"
| "open_run lib fetch policy merge st (seq # seqs) =
    (case fetch seq of
       None \<Rightarrow> Inr st
     | Some blob \<Rightarrow>
         rbind (pq_result ''failed to open a segment to merge'' (pq_open lib blob)) (\<lambda>f.
           let schema = stripped_schema f;
               input = \<lparr>mi_key_value = file_kv f, mi_fields = sch_fields schema, mi_rows = nat (max (pf_num_rows f) 0)\<rparr>
           in if \<not> schema_admitted policy st schema then Inr st
              else case metadata_admitted merge (ms_run st) input of
                     Inl run \<Rightarrow> Inr (st\<lparr>ms_run := run\<rparr>)
                   | Inr run \<Rightarrow>
                       let st' = note_schema policy schema (st\<lparr>ms_run := Some run\<rparr>)
                       in open_run lib fetch policy merge (st'\<lparr>ms_opened := ms_opened st' @ [f]\<rparr>) seqs))"

text \<open>The schema of the merged file: under \<open>UnionFields\<close> a field some segment lacks is nullable.\<close>

definition merged_schema :: "('ty, 'col, 'run) merge_state \<Rightarrow> 'ty schema" where
  "merged_schema st =
    (case ms_first st of
       Some schema \<Rightarrow> schema
     | None \<Rightarrow>
         \<lparr>sch_fields = map2 (\<lambda>f n. if n = length (ms_opened st) then f else f\<lparr>fd_nullable := True\<rparr>)
                         (ms_order st) (ms_carried_by st),
          sch_metadata = []\<rparr>)"

fun index_of :: "'ty field list \<Rightarrow> rstring \<Rightarrow> nat option" where
  "index_of [] name = None"
| "index_of (f # fs) name = (if fd_name f = name then Some 0 else map_option Suc (index_of fs name))"

text \<open>A batch whose fields are not the merged file's is widened to them.\<close>

definition widen ::
  "('ty, 'col, 'ws) parquet \<Rightarrow> 'ty schema \<Rightarrow> ('ty, 'col) batch \<Rightarrow> ('ty, 'col) batch result" where
  "widen lib schema b =
    (if rb_fields b = sch_fields schema then Inr b
     else pq_result ''failed to widen a batch''
            (pq_new_batch lib schema
              (map (\<lambda>f. case index_of (rb_fields b) (fd_name f) of
                           Some i \<Rightarrow> rb_columns b ! i
                         | None \<Rightarrow> pq_null_array lib (fd_type f) (rb_rows b)) (sch_fields schema))))"

text \<open>Writing one batch, then one file, then all of them, onto the batches written.\<close>

definition write_batch ::
  "('ty, 'col, 'ws) parquet \<Rightarrow> 'ty schema \<Rightarrow> 'ws writer_props \<Rightarrow> ('ty, 'col) batch list \<Rightarrow>
   string + ('ty, 'col) batch \<Rightarrow> ('ty, 'col) batch list result" where
  "write_batch lib schema props written batch =
     rbind (pq_result ''failed to read a batch to merge'' batch) (\<lambda>b.
     rbind (widen lib schema b) (\<lambda>b.
     rbind (pq_result ''failed to write a merged batch'' (pq_write lib schema props written b)) (\<lambda>_.
       Inr (written @ [b]))))"

definition write_file ::
  "('ty, 'col, 'ws) parquet \<Rightarrow> 'ty schema \<Rightarrow> 'ws writer_props \<Rightarrow> ('ty, 'col) batch list \<Rightarrow>
   ('ty, 'col) parquet_file \<Rightarrow> ('ty, 'col) batch list result" where
  "write_file lib schema props written f =
     rbind (pq_result ''failed to read a segment to merge'' (pf_batches f)) (\<lambda>batches.
       rfold (write_batch lib schema props) written batches)"

definition concat_parquet ::
  "('ty, 'col, 'ws) parquet \<Rightarrow> nat list \<Rightarrow> (nat \<Rightarrow> bytes option) \<Rightarrow> 'ws writer_props \<Rightarrow> schema_policy \<Rightarrow>
   ('ty, 'run) metadata_merge \<Rightarrow> (bytes \<times> nat) result" where
  "concat_parquet lib seqs fetch props policy merge =
     rbind (open_run lib fetch policy merge new_merge seqs) (\<lambda>st.
       let consumed = length (ms_opened st)
       in case ms_run st of
            None \<Rightarrow> Inr ([], 1)
          | Some run \<Rightarrow>
              if consumed < 2 then Inr ([], 1)
              else
                let schema = merged_schema st; props = with_file_metadata props (mm_finish merge run)
                in rbind (pq_result ''failed to open a merged writer'' (pq_new_writer lib schema props)) (\<lambda>_.
                   rbind (rfold (write_file lib schema props) [] (ms_opened st)) (\<lambda>written.
                   rbind (pq_result ''failed to finish a merged segment'' (pq_close lib schema props written)) (\<lambda>buf.
                     Inr (buf, consumed)))))"

subsection \<open>\<open>project_segment_columns\<close>\<close>

record 'ty column_filter =
  cf_keep :: "'ty field \<Rightarrow> bool"
  cf_is_data :: "'ty field \<Rightarrow> bool"
  cf_projects :: "rstring \<Rightarrow> bool"

definition kept_indices :: "'ty column_filter \<Rightarrow> 'ty field list \<Rightarrow> nat list" where
  "kept_indices keep cols = map fst (filter (\<lambda>(i, f). cf_keep keep f) (enumerate 0 cols))"

definition write_projected ::
  "('ty, 'col, 'ws) parquet \<Rightarrow> 'ty schema \<Rightarrow> 'ws writer_props \<Rightarrow> nat list \<Rightarrow> ('ty, 'col) batch list \<Rightarrow>
   string + ('ty, 'col) batch \<Rightarrow> ('ty, 'col) batch list result" where
  "write_projected lib schema props indices written batch =
     rbind (pq_result ''failed to read a segment batch'' batch) (\<lambda>b.
     rbind (pq_result ''failed to project a segment batch'' (pq_project_batch lib b indices)) (\<lambda>b.
     rbind (pq_result ''failed to write a projected segment batch'' (pq_write lib schema props written b)) (\<lambda>_.
       Inr (written @ [b]))))"

definition project_segment_columns ::
  "('ty, 'col, 'ws) parquet \<Rightarrow> bytes \<Rightarrow> 'ty column_filter \<Rightarrow> 'ws writer_props \<Rightarrow> bytes option result" where
  "project_segment_columns lib blob keep props =
     rbind (pq_result ''failed to open a segment for projection'' (pq_open lib blob)) (\<lambda>f.
       let cols = sch_fields (pf_schema f); props = with_file_metadata props (file_kv f);
           indices = kept_indices keep cols
       in if \<not> list_ex (\<lambda>f. cf_keep keep f \<and> cf_is_data keep f) cols then Inr None
          else
            rbind (pq_result ''failed to project a segment schema'' (pq_project_schema lib (pf_schema f) indices)) (\<lambda>schema.
            rbind (pq_result ''failed to read a segment for projection'' (pf_batches f)) (\<lambda>batches.
            rbind (pq_result ''failed to open a projected segment writer'' (pq_new_writer lib schema props)) (\<lambda>_.
            rbind (rfold (write_projected lib schema props indices) [] batches) (\<lambda>written.
            rbind (pq_result ''failed to finalize a projected segment'' (pq_close lib schema props written)) (\<lambda>buf.
              Inr (Some buf)))))))"

end
