(* ===== verification/Merge_Properties.thy ===== *)
theory Merge_Properties
  imports Rewrite_Parquet
begin

section \<open>What a merge and a projection keep\<close>

text \<open>
  A merged segment opens to the columns of the segments it replaces, one after
  another, when the Parquet library reads back what it wrote: the contract
  \<open>parquet_contract\<close>. The default metadata merge admits exactly the segments with the
  same entries as the first, in any order.
\<close>

subsection \<open>What a reader of a file sees\<close>

text \<open>
  A column of a batch, of a file: its values by name, \<open>None\<close> for a null, with \<open>vals\<close>
  reading an abstract column. A name the file lacks reads as nulls.
\<close>

definition batch_column :: "('col \<Rightarrow> 'v option list) \<Rightarrow> ('ty, 'col) batch \<Rightarrow> rstring \<Rightarrow> 'v option list" where
  "batch_column vals b name =
    (case index_of (rb_fields b) name of
       Some i \<Rightarrow> vals (rb_columns b ! i)
     | None \<Rightarrow> replicate (rb_rows b) None)"

definition rights :: "('e + 'a) list \<Rightarrow> 'a list" where
  "rights xs = concat (map (case_sum (\<lambda>_. []) (\<lambda>x. [x])) xs)"

definition file_batches :: "('ty, 'col) parquet_file \<Rightarrow> ('ty, 'col) batch list" where
  "file_batches f = (case pf_batches f of Inl _ \<Rightarrow> [] | Inr bs \<Rightarrow> rights bs)"

definition file_column :: "('col \<Rightarrow> 'v option list) \<Rightarrow> ('ty, 'col) parquet_file \<Rightarrow> rstring \<Rightarrow> 'v option list" where
  "file_column vals f name = concat (map (\<lambda>b. batch_column vals b name) (file_batches f))"

text \<open>
  What the code relies on: a null array holds nulls, a new batch is its columns, an
  opened file's batches have the file's fields and columns of their length, and a
  closed file opens to the columns that were written.
\<close>

definition batch_ok :: "('col \<Rightarrow> 'v option list) \<Rightarrow> 'ty field list \<Rightarrow> ('ty, 'col) batch \<Rightarrow> bool" where
  "batch_ok vals fs b \<longleftrightarrow> rb_fields b = fs \<and> length (rb_columns b) = length fs
     \<and> (\<forall>c \<in> set (rb_columns b). length (vals c) = rb_rows b)"

definition parquet_contract :: "('ty, 'col, 'ws) parquet \<Rightarrow> ('col \<Rightarrow> 'v option list) \<Rightarrow> bool" where
  "parquet_contract lib vals \<longleftrightarrow>
     (\<forall>t n. vals (pq_null_array lib t n) = replicate n None)
     \<and> (\<forall>schema cols b. pq_new_batch lib schema cols = Inr b \<longrightarrow>
          batch_ok vals (sch_fields schema) b \<and> rb_columns b = cols \<and> cols \<noteq> [])
     \<and> (\<forall>blob f. pq_open lib blob = Inr f \<longrightarrow> (\<forall>b \<in> set (file_batches f). batch_ok vals (sch_fields (pf_schema f)) b))
     \<and> (\<forall>schema props bs blob. (\<forall>b \<in> set bs. rb_fields b = sch_fields schema) \<longrightarrow>
          pq_close lib schema props bs = Inr blob \<longrightarrow>
          (\<exists>f. pq_open lib blob = Inr f
             \<and> (\<forall>name. file_column vals f name = concat (map (\<lambda>b. batch_column vals b name) bs))))"

lemma parquet_contractD:
  assumes "parquet_contract lib vals"
  shows "vals (pq_null_array lib t n) = replicate n None"
    and "pq_new_batch lib schema cols = Inr b \<Longrightarrow> batch_ok vals (sch_fields schema) b \<and> rb_columns b = cols \<and> cols \<noteq> []"
    and "pq_open lib blob = Inr f \<Longrightarrow> b \<in> set (file_batches f) \<Longrightarrow> batch_ok vals (sch_fields (pf_schema f)) b"
    and "(\<And>b. b \<in> set bs \<Longrightarrow> rb_fields b = sch_fields schema) \<Longrightarrow> pq_close lib schema props bs = Inr blob \<Longrightarrow>
      \<exists>f. pq_open lib blob = Inr f \<and> (\<forall>name. file_column vals f name = concat (map (\<lambda>b. batch_column vals b name) bs))"
  using assms unfolding parquet_contract_def by blast+

subsection \<open>A widened batch keeps its columns\<close>

lemma index_of_Some: "index_of fs n = Some i \<Longrightarrow> i < length fs \<and> fd_name (fs ! i) = n"
proof (induction fs arbitrary: i)
  case (Cons f fs)
  then show ?case by (cases "fd_name f = n") auto
qed simp

lemma index_of_None: "index_of fs n = None \<longleftrightarrow> n \<notin> fd_name ` set fs"
  by (induction fs) auto

lemma widen_columns:
  assumes C: "parquet_contract lib vals" and b: "batch_ok vals fs b"
    and names: "fd_name ` set fs \<subseteq> fd_name ` set (sch_fields schema)"
    and w: "widen lib schema b = Inr b'"
  shows "rb_fields b' = sch_fields schema \<and> batch_column vals b' n = batch_column vals b n"
proof (cases "rb_fields b = sch_fields schema")
  case True
  then show ?thesis using w by (simp add: widen_def)
next
  case False
  let ?g = "\<lambda>f. case index_of (rb_fields b) (fd_name f) of
                           Some i \<Rightarrow> rb_columns b ! i
                         | None \<Rightarrow> pq_null_array lib (fd_type f) (rb_rows b)"
  let ?cols = "map ?g (sch_fields schema)"
  have "pq_new_batch lib schema ?cols = Inr b'"
    using w False by (simp add: widen_def result_simps)
  from parquet_contractD(2) [OF C this]
  have new: "batch_ok vals (sch_fields schema) b'" "rb_columns b' = ?cols" "?cols \<noteq> []" by auto
  have len: "length (vals (?g f)) = rb_rows b" for f
    using b index_of_Some [of "rb_fields b" "fd_name f"]
    by (auto simp: batch_ok_def parquet_contractD(1) [OF C] split: option.splits)
  obtain c where c: "c \<in> set ?cols" using new(3) by (meson last_in_set)
  then have "length (vals c) = rb_rows b" using len by fastforce
  moreover have "length (vals c) = rb_rows b'" using c new(1) unfolding new(2) [symmetric] by (simp add: batch_ok_def)
  ultimately have rows: "rb_rows b' = rb_rows b" by simp
  have fields: "rb_fields b' = sch_fields schema" using new(1) by (simp add: batch_ok_def)
  show ?thesis
  proof (cases "index_of (sch_fields schema) n")
    case None
    then have "index_of (rb_fields b) n = None"
      using names b by (auto simp: index_of_None batch_ok_def)
    with None fields rows show ?thesis by (simp add: batch_column_def)
  next
    case (Some i)
    from index_of_Some [OF this]
    have i: "i < length (sch_fields schema)" "fd_name (sch_fields schema ! i) = n" by auto
    with Some fields new(2) show ?thesis
      by (simp add: batch_column_def parquet_contractD(1) [OF C] split: option.splits)
  qed
qed

subsection \<open>The files of a run\<close>

lemma list_all2_rights:
  "list_all2 (\<lambda>x y. \<exists>z. x = Inr z \<and> P z y) xs ys \<Longrightarrow> list_all2 P (rights xs) ys"
  by (induction rule: list_all2_induct) (auto simp: rights_def)

lemma write_batches:
  assumes "rfold (write_batch lib schema props) written bs = Inr written'"
  shows "\<exists>ws. written' = written @ ws \<and> list_all2 (\<lambda>x y. \<exists>z. x = Inr z \<and> widen lib schema z = Inr y) bs ws"
  using assms
proof (induction bs arbitrary: written)
  case (Cons x bs)
  then obtain w where w: "write_batch lib schema props written x = Inr w"
    "rfold (write_batch lib schema props) w bs = Inr written'"
    by (auto simp: result_simps)
  then obtain z y where z: "x = Inr z" "widen lib schema z = Inr y" "w = written @ [y]"
    by (auto simp: write_batch_def result_simps)
  from Cons.IH [OF w(2)] z show ?case by fastforce
qed simp

lemma write_files:
  assumes "rfold (write_file lib schema props) written fs = Inr written'"
  shows "\<exists>ws. written' = written @ ws
    \<and> list_all2 (\<lambda>z y. widen lib schema z = Inr y) (concat (map file_batches fs)) ws"
  using assms
proof (induction fs arbitrary: written)
  case (Cons f fs)
  then obtain w where w: "write_file lib schema props written f = Inr w"
    "rfold (write_file lib schema props) w fs = Inr written'"
    by (auto simp: result_simps)
  then obtain bs where bs: "pf_batches f = Inr bs" "rfold (write_batch lib schema props) written bs = Inr w"
    by (auto simp: write_file_def result_simps)
  obtain ws where ws: "w = written @ ws"
    "list_all2 (\<lambda>x y. \<exists>z. x = Inr z \<and> widen lib schema z = Inr y) bs ws"
    using write_batches [OF bs(2)] by blast
  have first: "list_all2 (\<lambda>z y. widen lib schema z = Inr y) (file_batches f) ws"
    unfolding file_batches_def bs(1) using list_all2_rights [OF ws(2)] by simp
  obtain ws' where "written' = w @ ws'"
    "list_all2 (\<lambda>z y. widen lib schema z = Inr y) (concat (map file_batches fs)) ws'"
    using Cons.IH [OF w(2)] by blast
  with ws(1) first show ?case
    by (intro exI [of _ "ws @ ws'"]) (simp add: list_all2_appendI)
qed simp

text \<open>The loop's invariant: the merged schema will name every column of every opened file.\<close>

definition merge_ok :: "schema_policy \<Rightarrow> ('ty, 'col, 'run) merge_state \<Rightarrow> bool" where
  "merge_ok policy st \<longleftrightarrow>
    (case policy of
       StopAtChange \<Rightarrow> (\<forall>f \<in> set (ms_opened st). ms_first st = Some (stripped_schema f))
     | UnionFields \<Rightarrow> ms_first st = None \<and> length (ms_carried_by st) = length (ms_order st)
         \<and> (\<forall>n i. bt_get (ms_seen st) n = Some i \<longrightarrow> i < length (ms_order st) \<and> fd_name (ms_order st ! i) = n)
         \<and> (\<forall>f \<in> set (ms_opened st). fd_name ` set (sch_fields (pf_schema f)) \<subseteq> fd_name ` set (ms_order st)))"

lemma note_field_names:
  assumes "length (ms_carried_by st) = length (ms_order st)"
    and "\<forall>n i. bt_get (ms_seen st) n = Some i \<longrightarrow> i < length (ms_order st) \<and> fd_name (ms_order st ! i) = n"
  shows "ms_first (note_field st f) = ms_first st \<and> ms_opened (note_field st f) = ms_opened st
    \<and> ms_run (note_field st f) = ms_run st
    \<and> length (ms_carried_by (note_field st f)) = length (ms_order (note_field st f))
    \<and> (\<forall>n i. bt_get (ms_seen (note_field st f)) n = Some i \<longrightarrow>
          i < length (ms_order (note_field st f)) \<and> fd_name (ms_order (note_field st f) ! i) = n)
    \<and> fd_name ` set (ms_order (note_field st f)) = insert (fd_name f) (fd_name ` set (ms_order st))"
proof (cases "bt_get (ms_seen st) (fd_name f)")
  case None
  with assms show ?thesis by (auto simp: note_field_def nth_append less_Suc_eq)
next
  case (Some i)
  then have "fd_name f \<in> fd_name ` set (ms_order st)"
    using assms(2) by (metis image_eqI nth_mem)
  with Some assms show ?thesis by (auto simp: note_field_def)
qed

lemma note_fields_names:
  assumes "length (ms_carried_by st) = length (ms_order st)"
    and "\<forall>n i. bt_get (ms_seen st) n = Some i \<longrightarrow> i < length (ms_order st) \<and> fd_name (ms_order st ! i) = n"
  shows "ms_first (foldl note_field st fs) = ms_first st \<and> ms_opened (foldl note_field st fs) = ms_opened st
    \<and> ms_run (foldl note_field st fs) = ms_run st
    \<and> length (ms_carried_by (foldl note_field st fs)) = length (ms_order (foldl note_field st fs))
    \<and> (\<forall>n i. bt_get (ms_seen (foldl note_field st fs)) n = Some i \<longrightarrow>
          i < length (ms_order (foldl note_field st fs)) \<and> fd_name (ms_order (foldl note_field st fs) ! i) = n)
    \<and> fd_name ` set (ms_order (foldl note_field st fs)) = fd_name ` set fs \<union> fd_name ` set (ms_order st)"
  using assms
proof (induction fs arbitrary: st)
  case (Cons f fs)
  note step = note_field_names [OF Cons.prems, of f]
  have "length (ms_carried_by (note_field st f)) = length (ms_order (note_field st f))"
    "\<forall>n i. bt_get (ms_seen (note_field st f)) n = Some i \<longrightarrow>
          i < length (ms_order (note_field st f)) \<and> fd_name (ms_order (note_field st f) ! i) = n"
    using step by blast+
  from Cons.IH [OF this] step show ?case by simp
qed simp

lemma stripped_fields [simp]: "sch_fields (stripped_schema f) = sch_fields (pf_schema f)"
  by (simp add: stripped_schema_def)

lemma note_schema_ok:
  assumes ok: "merge_ok policy st" and "schema_admitted policy st (stripped_schema f)"
    and st': "st' = note_schema policy (stripped_schema f) (st\<lparr>ms_run := r\<rparr>)"
  shows "merge_ok policy (st'\<lparr>ms_opened := ms_opened st' @ [f]\<rparr>) \<and> ms_opened st' = ms_opened st"
proof (cases policy)
  case StopAtChange
  with assms show ?thesis
    by (auto simp: merge_ok_def note_schema_def schema_admitted_def split: option.splits)
next
  case UnionFields
  have "ms_first st = None" "length (ms_carried_by (st\<lparr>ms_run := r\<rparr>)) = length (ms_order (st\<lparr>ms_run := r\<rparr>))"
    "\<forall>n i. bt_get (ms_seen (st\<lparr>ms_run := r\<rparr>)) n = Some i \<longrightarrow>
       i < length (ms_order (st\<lparr>ms_run := r\<rparr>)) \<and> fd_name (ms_order (st\<lparr>ms_run := r\<rparr>) ! i) = n"
    "\<forall>f \<in> set (ms_opened st). fd_name ` set (sch_fields (pf_schema f)) \<subseteq> fd_name ` set (ms_order st)"
    using ok by (simp_all add: merge_ok_def UnionFields)
  from this(1,4) note_fields_names [OF this(2,3), of "sch_fields (pf_schema f)"]
  show ?thesis
    unfolding st' note_schema_def UnionFields merge_ok_def by auto
qed

lemma open_run_correct:
  assumes "open_run lib fetch policy merge st seqs = Inr st'" and "merge_ok policy st"
  shows "merge_ok policy st' \<and> (\<exists>fs. ms_opened st' = ms_opened st @ fs \<and> length fs \<le> length seqs
     \<and> list_all2 (\<lambda>q f. \<exists>blob. fetch q = Some blob \<and> pq_open lib blob = Inr f) (take (length fs) seqs) fs)"
  using assms
proof (induction seqs arbitrary: st)
  case (Cons q seqs)
  have stop: ?case if "ms_opened st' = ms_opened st" "merge_ok policy st'"
    using that by simp
  show ?case
  proof (cases "fetch q")
    case None
    with Cons.prems stop show ?thesis by simp
  next
    case (Some blob)
    note fetched = this
    then obtain f where f: "pq_open lib blob = Inr f"
      using Cons.prems(1) by (auto simp: result_simps)
    let ?schema = "stripped_schema f"
    let ?input = "\<lparr>mi_key_value = file_kv f, mi_fields = sch_fields ?schema, mi_rows = nat (max (pf_num_rows f) 0)\<rparr>"
    show ?thesis
    proof (cases "schema_admitted policy st ?schema")
      case False
      with Cons.prems fetched f stop show ?thesis by simp
    next
      case True
      show ?thesis
      proof (cases "metadata_admitted merge (ms_run st) ?input")
        case (Inl run)
        then have "st' = st\<lparr>ms_run := run\<rparr>" using Cons.prems(1) fetched f True by simp
        then show ?thesis using Cons.prems(2) by (intro stop) (auto simp: merge_ok_def split: schema_policy.splits)
      next
        case (Inr run)
        define s where "s = note_schema policy ?schema (st\<lparr>ms_run := Some run\<rparr>)"
        have "open_run lib fetch policy merge (s\<lparr>ms_opened := ms_opened s @ [f]\<rparr>) seqs = Inr st'"
          using Cons.prems(1) fetched f True Inr by (simp add: s_def Let_def)
        from Cons.IH [OF this] note_schema_ok [OF Cons.prems(2) True s_def]
        obtain fs where "merge_ok policy st'" "ms_opened st' = ms_opened st @ f # fs" "length fs \<le> length seqs"
          "list_all2 (\<lambda>q f. \<exists>blob. fetch q = Some blob \<and> pq_open lib blob = Inr f) (take (length fs) seqs) fs"
          by auto
        with fetched f show ?thesis by (intro conjI exI [of _ "f # fs"]) auto
      qed
    qed
  qed
qed simp

lemma merged_schema_names:
  assumes "merge_ok policy st" "f \<in> set (ms_opened st)"
  shows "fd_name ` set (sch_fields (pf_schema f)) \<subseteq> fd_name ` set (sch_fields (merged_schema st))"
proof (cases policy)
  case StopAtChange
  then have "ms_first st = Some (stripped_schema f)" using assms by (simp add: merge_ok_def)
  then show ?thesis by (simp add: merged_schema_def)
next
  case UnionFields
  let ?w = "\<lambda>f n. if n = length (ms_opened st) then f else f\<lparr>fd_nullable := True\<rparr>"
  have len: "length (ms_order st) = length (ms_carried_by st)" using assms UnionFields by (simp add: merge_ok_def)
  have "map fd_name (map2 ?w xs ys) = map fd_name xs" if "length xs = length ys" for xs :: "'a field list" and ys
    using that by (induction xs ys rule: list_induct2) auto
  from arg_cong [OF this [OF len], of set]
  have "fd_name ` set (map2 ?w (ms_order st) (ms_carried_by st)) = fd_name ` set (ms_order st)"
    unfolding set_map .
  moreover have "ms_first st = None" "fd_name ` set (sch_fields (pf_schema f)) \<subseteq> fd_name ` set (ms_order st)"
    using assms UnionFields by (simp_all add: merge_ok_def)
  ultimately show ?thesis by (simp only: merged_schema_def option.case schema.simps)
qed

lemma opened_by:
  "list_all2 (\<lambda>q f. \<exists>blob. fetch q = Some blob \<and> pq_open lib blob = Inr f) qs fs \<Longrightarrow> f \<in> set fs \<Longrightarrow>
   \<exists>blob. pq_open lib blob = Inr f"
  by (induction rule: list_all2_induct) auto

lemma list_all2_mapped:
  assumes "list_all2 R xs ys" and "\<And>x y. x \<in> set xs \<Longrightarrow> R x y \<Longrightarrow> P y \<and> g y = g x"
  shows "(\<forall>y \<in> set ys. P y) \<and> map g ys = map g xs"
  using assms by (induction rule: list_all2_induct) auto

lemma concat_batches:
  "concat (map h (concat (map file_batches fs))) = concat (map (\<lambda>f. concat (map h (file_batches f))) fs)"
  by (induction fs) simp_all

text \<open>A merged segment opens to the columns of the segments it replaces, one after another.\<close>

lemma concat_parquet_columns:
  assumes C: "parquet_contract lib vals"
    and m: "concat_parquet lib seqs fetch props policy merge = Inr (buf, k)" "2 \<le> k"
  shows "\<exists>fs g. k \<le> length seqs
    \<and> list_all2 (\<lambda>q f. \<exists>blob. fetch q = Some blob \<and> pq_open lib blob = Inr f) (take k seqs) fs
    \<and> pq_open lib buf = Inr g
    \<and> (\<forall>name. file_column vals g name = concat (map (\<lambda>f. file_column vals f name) fs))"
proof -
  obtain st where st: "open_run lib fetch policy merge new_merge seqs = Inr st"
    and rest: "(let consumed = length (ms_opened st) in case ms_run st of None \<Rightarrow> Inr ([], 1)
          | Some run \<Rightarrow> if consumed < 2 then Inr ([], 1) else
                let schema = merged_schema st; props = with_file_metadata props (mm_finish merge run)
                in rbind (pq_result ''failed to open a merged writer'' (pq_new_writer lib schema props)) (\<lambda>_.
                   rbind (rfold (write_file lib schema props) [] (ms_opened st)) (\<lambda>written.
                   rbind (pq_result ''failed to finish a merged segment'' (pq_close lib schema props written)) (\<lambda>buf.
                     Inr (buf, consumed))))) = Inr (buf, k)"
    using m(1) by (auto simp: concat_parquet_def result_simps)
  let ?schema = "merged_schema st"
  obtain run where run: "ms_run st = Some run" using rest m(2) by (cases "ms_run st") auto
  obtain written props' where k: "k = length (ms_opened st)"
    and written: "rfold (write_file lib ?schema props') [] (ms_opened st) = Inr written"
    and close: "pq_close lib ?schema props' written = Inr buf"
    using rest run m(2) by (auto simp: Let_def result_simps split: if_splits)
  have ok0: "merge_ok policy new_merge" by (cases policy) (simp_all add: merge_ok_def new_merge_def)
  from open_run_correct [OF st ok0] obtain fs where
    fs: "merge_ok policy st" "ms_opened st = fs" "length fs \<le> length seqs"
    "list_all2 (\<lambda>q f. \<exists>blob. fetch q = Some blob \<and> pq_open lib blob = Inr f) (take (length fs) seqs) fs"
    by (auto simp: new_merge_def)
  have wide: "list_all2 (\<lambda>z y. widen lib ?schema z = Inr y) (concat (map file_batches fs)) written"
    using write_files [OF written] fs(2) by simp
  have batch: "rb_fields y = sch_fields ?schema \<and> batch_column vals y n = batch_column vals z n"
    if zy: "z \<in> set (concat (map file_batches fs))" "widen lib ?schema z = Inr y" for z y n
  proof -
    obtain f where f: "f \<in> set fs" "z \<in> set (file_batches f)" using zy(1) by auto
    then obtain blob where "pq_open lib blob = Inr f"
      using opened_by [OF fs(4)] by blast
    then have "batch_ok vals (sch_fields (pf_schema f)) z" using parquet_contractD(3) [OF C] f(2) by blast
    from widen_columns [OF C this merged_schema_names [OF fs(1)] zy(2)] f(1) fs(2) show ?thesis by simp
  qed
  have all: "(\<forall>y \<in> set written. rb_fields y = sch_fields ?schema)
      \<and> map (\<lambda>b. batch_column vals b n) written = map (\<lambda>b. batch_column vals b n) (concat (map file_batches fs))" for n
    by (rule list_all2_mapped [OF wide]) (use batch in blast)
  have fields: "\<And>b. b \<in> set written \<Longrightarrow> rb_fields b = sch_fields ?schema" using all by blast
  obtain g where g: "pq_open lib buf = Inr g"
    "\<forall>name. file_column vals g name = concat (map (\<lambda>b. batch_column vals b name) written)"
    using parquet_contractD(4) [OF C fields close] by blast
  have "file_column vals g name = concat (map (\<lambda>f. file_column vals f name) fs)" for name
    unfolding g(2) [rule_format] all [THEN conjunct2] concat_batches by (simp only: file_column_def)
  with g(1) fs(3,4) k fs(2) show ?thesis by (intro exI [of _ fs] exI [of _ g]) simp
qed

subsection \<open>The default metadata merge\<close>

lemma sorted_kv_iff: "sorted_kv xs = sorted_kv ys \<longleftrightarrow> mset xs = mset ys"
proof
  assume "sorted_kv xs = sorted_kv ys"
  then show "mset xs = mset ys" by (metis mset_order_by sorted_kv_def)
next
  assume "mset xs = mset ys"
  then have "mset (sorted_kv xs) = mset (sorted_kv ys)" by (simp add: sorted_kv_def mset_order_by)
  moreover have "sorted (sorted_kv zs)" for zs using sorted_order_by [of "\<lambda>e. e" zs] by (simp add: sorted_kv_def)
  ultimately show "sorted_kv xs = sorted_kv ys" by (metis properties_for_sort)
qed

lemma identical_metadata_iff:
  "mm_start identical_metadata first = Some run \<Longrightarrow>
   mm_extend identical_metadata run next = (mset (mi_key_value next) = mset (mi_key_value first), run)
   \<and> mm_finish identical_metadata run = mi_key_value first"
  using mset_eq_length [of "mi_key_value next" "mi_key_value first"]
  by (auto simp: identical_metadata_def sorted_kv_iff) (simp add: sorted_kv_def)


end
