(* ===== verification/Compaction.thy ===== *)
theory Compaction
  imports Merge_Properties
begin

section \<open>Compaction (\<open>src/rewrite.rs\<close>)\<close>

text \<open>
  \<open>compact_stream\<close> merges runs of a stream's adjacent segments, each run in one
  transaction, and \<open>compact\<close> does so for every stream of every source. What it does
  to the stream is stated as a relation, \<open>regrouped\<close>: the segments after are those
  before, in order, with some runs of two or more replaced by one.
\<close>

subsection \<open>\<open>compact_stream\<close>\<close>

record 'ws compact_spec =
  cp_target_rows :: nat
  cp_writer_props :: "'ws writer_props option"
  cp_schema :: schema_policy

record compacted =
  co_before :: nat
  co_after :: nat
  co_merges :: nat

definition spec_props :: "('ty, 'col, 'ws) parquet \<Rightarrow> 'ws compact_spec \<Rightarrow> 'ws writer_props" where
  "spec_props lib spec = (case cp_writer_props spec of None \<Rightarrow> pq_default_props lib | Some p \<Rightarrow> p)"

definition to_rows :: "nat \<Rightarrow> 'ws compact_spec" where
  "to_rows target = \<lparr>cp_target_rows = target, cp_writer_props = None, cp_schema = StopAtChange\<rparr>"

definition unioning_fields :: "'ws compact_spec \<Rightarrow> 'ws compact_spec" where
  "unioning_fields spec = spec\<lparr>cp_schema := UnionFields\<rparr>"

text \<open>How many of the segments ahead fit under the target together.\<close>

fun run_size :: "nat \<Rightarrow> nat \<Rightarrow> (nat \<times> segment_meta) list \<Rightarrow> nat" where
  "run_size target rows [] = 0"
| "run_size target rows ((q, m) # metas) =
     (if rows + meta_rows m \<le> max target 1 then Suc (run_size target (rows + meta_rows m) metas) else 0)"

definition run_meta :: "(nat \<times> segment_meta) list \<Rightarrow> segment_meta" where
  "run_meta run =
     \<lparr>meta_rows = sum_list (map (meta_rows \<circ> snd) run),
      meta_first_ts = meta_first_ts (snd (hd run)), meta_last_ts = meta_last_ts (snd (last run))\<rparr>"

definition replace_run ::
  "i64 \<Rightarrow> rstring \<Rightarrow> (nat \<times> segment_meta) list \<Rightarrow> bytes \<Rightarrow> archive \<Rightarrow> archive result" where
  "replace_run sid stream run merged a =
     insert_segment sid stream (fst (hd run)) (run_meta run) merged
       (foldl (\<lambda>a (q, _). delete_segment sid stream q a) a run)"

text \<open>The loop: \<open>rest\<close> is \<open>metas[at..]\<close>, read once before it.\<close>

function compact_from ::
  "('ty, 'col, 'ws) parquet \<Rightarrow> i64 \<Rightarrow> rstring \<Rightarrow> 'ws compact_spec \<Rightarrow> ('ty, 'run) metadata_merge \<Rightarrow>
   (nat \<times> segment_meta) list \<Rightarrow> compacted \<Rightarrow> db \<Rightarrow> compacted result \<times> db" where
  "compact_from lib sid stream spec merge rest sofar db =
    (if rest = [] then (Inr sofar, db)
     else
       let n = run_size (cp_target_rows spec) 0 rest
       in if n < 2 then compact_from lib sid stream spec merge (drop (max 1 n) rest) sofar db
          else
            case concat_parquet lib (map fst (take n rest)) (read_segment_bytes (db_archive db) sid stream)
                   (spec_props lib spec) (cp_schema spec) merge of
              Inl e \<Rightarrow> (Inl e, db)
            | Inr (merged, consumed) \<Rightarrow>
                if consumed < 2 then compact_from lib sid stream spec merge (drop 1 rest) sofar db
                else
                  case transaction (unit_body (replace_run sid stream (take consumed rest) merged)) db of
                    (Inl e, db') \<Rightarrow> (Inl e, db')
                  | (Inr _, db') \<Rightarrow>
                      compact_from lib sid stream spec merge (drop consumed rest)
                        (sofar\<lparr>co_merges := co_merges sofar + 1, co_after := co_after sofar - (consumed - 1)\<rparr>) db')"
  by pat_completeness auto

termination compact_from
  by (relation "measure (\<lambda>(_, _, _, _, _, rest, _, _). length rest)") auto

declare compact_from.simps [simp del]

definition compact_stream_with ::
  "('ty, 'col, 'ws) parquet \<Rightarrow> i64 \<Rightarrow> rstring \<Rightarrow> 'ws compact_spec \<Rightarrow> ('ty, 'run) metadata_merge \<Rightarrow>
   db \<Rightarrow> compacted result \<times> db" where
  "compact_stream_with lib sid stream spec merge db =
    (let metas = read_segment_meta (db_archive db) sid stream
     in compact_from lib sid stream spec merge metas
          \<lparr>co_before = length metas, co_after = length metas, co_merges = 0\<rparr> db)"

definition compact_stream ::
  "('ty, 'col, 'ws) parquet \<Rightarrow> i64 \<Rightarrow> rstring \<Rightarrow> 'ws compact_spec \<Rightarrow> db \<Rightarrow> compacted result \<times> db" where
  "compact_stream lib sid stream spec = compact_stream_with lib sid stream spec identical_metadata"

text \<open>Every stream of every source; the pages merging freed are then given back.\<close>

fun compact_streams ::
  "('ty, 'col, 'ws) parquet \<Rightarrow> 'ws compact_spec \<Rightarrow> ('ty, 'run) metadata_merge \<Rightarrow> i64 \<Rightarrow>
   compacted \<Rightarrow> rstring list \<Rightarrow> db \<Rightarrow> compacted result \<times> db" where
  "compact_streams lib spec merge sid tot [] db = (Inr tot, db)"
| "compact_streams lib spec merge sid tot (stream # streams) db =
    (case compact_stream_with lib sid stream spec merge db of
       (Inl e, db') \<Rightarrow> (Inl e, db')
     | (Inr one, db') \<Rightarrow>
         compact_streams lib spec merge sid
           \<lparr>co_before = co_before tot + co_before one, co_after = co_after tot + co_after one,
            co_merges = co_merges tot + co_merges one\<rparr> streams db')"

fun compact_sources ::
  "('ty, 'col, 'ws) parquet \<Rightarrow> 'ws compact_spec \<Rightarrow> ('ty, 'run) metadata_merge \<Rightarrow>
   compacted \<Rightarrow> source_row list \<Rightarrow> db \<Rightarrow> compacted result \<times> db" where
  "compact_sources lib spec merge tot [] db = (Inr tot, db)"
| "compact_sources lib spec merge tot (src # srcs) db =
    (case compact_streams lib spec merge (src_id src) tot (all_streams (db_archive db) (src_id src)) db of
       (Inl e, db') \<Rightarrow> (Inl e, db')
     | (Inr tot', db') \<Rightarrow> compact_sources lib spec merge tot' srcs db')"

definition incremental_vacuum :: "db \<Rightarrow> unit result \<times> db" where
  "incremental_vacuum = transaction (unit_body Inr)"

definition compact_with ::
  "('ty, 'col, 'ws) parquet \<Rightarrow> 'ws compact_spec \<Rightarrow> ('ty, 'run) metadata_merge \<Rightarrow> db \<Rightarrow> compacted result \<times> db" where
  "compact_with lib spec merge db =
    (case compact_sources lib spec merge \<lparr>co_before = 0, co_after = 0, co_merges = 0\<rparr> (read_sources (db_archive db)) db of
       (Inl e, db') \<Rightarrow> (Inl e, db')
     | (Inr tot, db') \<Rightarrow>
         if co_merges tot > 0 then
           (case incremental_vacuum db' of
              (Inl e, db'') \<Rightarrow> (Inl e, db'')
            | (Inr _, db'') \<Rightarrow> (Inr tot, db''))
         else (Inr tot, db'))"

definition compact :: "('ty, 'col, 'ws) parquet \<Rightarrow> 'ws compact_spec \<Rightarrow> db \<Rightarrow> compacted result \<times> db" where
  "compact lib spec = compact_with lib spec identical_metadata"

subsection \<open>What compaction does to a stream\<close>

definition row_meta :: "segment_table_row \<Rightarrow> nat \<times> segment_meta" where
  "row_meta r = (sg_seq r, sg_meta r)"

text \<open>
  The segments after against those before: kept ones, and merged ones, each under the
  number of its run's first and the catalog facts of the run, with no index;
  \<open>merges run blob\<close> says what its bytes are, and \<open>gone\<close> lists the runs that were merged.
\<close>

inductive regrouped ::
  "(segment_table_row list \<Rightarrow> bytes \<Rightarrow> bool) \<Rightarrow> nat \<Rightarrow> segment_table_row list list \<Rightarrow>
   segment_table_row list \<Rightarrow> segment_table_row list \<Rightarrow> bool"
  for merges target where
  none: "regrouped merges target [] [] []"
| keep: "regrouped merges target gone xs ys \<Longrightarrow> regrouped merges target gone (x # xs) (x # ys)"
| merge: "regrouped merges target gone xs ys \<Longrightarrow> 2 \<le> length run \<Longrightarrow> row_meta y = (sg_seq (hd run), run_meta (map row_meta run)) \<Longrightarrow>
    meta_rows (sg_meta y) \<le> max target 1 \<Longrightarrow> merges run (sg_bytes y) \<Longrightarrow> sg_column_index y = None \<Longrightarrow>
    regrouped merges target (run # gone) (run @ xs) (y # ys)"

lemma regrouped_refl: "regrouped merges target [] xs xs"
  by (induction xs) (auto intro: regrouped.intros)

lemma regrouped_keeps: "regrouped merges target gone xs ys \<Longrightarrow> regrouped merges target gone (zs @ xs) (zs @ ys)"
  by (induction zs) (auto intro: regrouped.intros)

lemma regrouped_rows:
  "regrouped merges target gone xs ys \<Longrightarrow>
     sum_list (map (meta_rows \<circ> sg_meta) ys) = sum_list (map (meta_rows \<circ> sg_meta) xs)"
  by (induction rule: regrouped.induct) (auto simp: row_meta_def run_meta_def comp_def)

lemma regrouped_length: "regrouped merges target gone xs ys \<Longrightarrow> length ys \<le> length xs"
  by (induction rule: regrouped.induct) auto

text \<open>The same as one run per segment after, a run of one for a segment that was kept.\<close>

definition run_of :: "nat \<Rightarrow> segment_table_row list \<Rightarrow> segment_table_row \<Rightarrow> bool" where
  "run_of target run y \<longleftrightarrow> run = [y] \<or> 2 \<le> length run \<and> row_meta y = (sg_seq (hd run), run_meta (map row_meta run))
     \<and> meta_rows (sg_meta y) \<le> max target 1 \<and> sg_column_index y = None"

lemma regrouped_runs:
  assumes "regrouped merges target gone xs ys"
  shows "\<exists>runs. concat runs = xs \<and> list_all2 (run_of target) runs ys \<and> filter (\<lambda>run. 2 \<le> length run) runs = gone"
  using assms
proof (induction rule: regrouped.induct)
  case (keep gone xs ys x)
  then obtain runs where "concat runs = xs" "list_all2 (run_of target) runs ys" "filter (\<lambda>run. 2 \<le> length run) runs = gone"
    by blast
  moreover have "run_of target [x] x" by (simp add: run_of_def)
  ultimately show ?case by (intro exI [of _ "[x] # runs"]) simp
next
  case (merge gone xs ys run y)
  then obtain runs where "concat runs = xs" "list_all2 (run_of target) runs ys" "filter (\<lambda>run. 2 \<le> length run) runs = gone"
    by blast
  moreover have "run_of target run y" unfolding run_of_def using merge(2-6) by blast
  ultimately show ?case using merge(2) by (intro exI [of _ "run # runs"]) simp
qed simp

lemma regrouped_content:
  assumes "regrouped merges target gone xs ys"
    and "\<And>run blob. merges run blob \<Longrightarrow> c blob = concat (map (c \<circ> sg_bytes) run)"
  shows "concat (map (c \<circ> sg_bytes) ys) = concat (map (c \<circ> sg_bytes) xs)"
  using assms(1)
proof (induction rule: regrouped.induct)
  case (merge gone xs ys run y)
  with assms(2) [OF merge(5)] show ?case by (simp add: comp_def)
qed simp_all

lemma regrouped_last:
  assumes "regrouped merges target gone xs ys"
  shows "(xs = [] \<longleftrightarrow> ys = []) \<and> (xs \<noteq> [] \<longrightarrow>
    meta_last_ts (sg_meta (last ys)) = meta_last_ts (sg_meta (last xs))
    \<and> meta_first_ts (sg_meta (hd ys)) = meta_first_ts (sg_meta (hd xs)))"
  using assms
proof (induction rule: regrouped.induct)
  case (merge gone xs ys run y)
  have ne: "run \<noteq> []" using merge(2) by auto
  have m: "sg_meta y = run_meta (map row_meta run)" using merge(3) by (simp add: row_meta_def)
  then have "meta_last_ts (sg_meta y) = meta_last_ts (sg_meta (last run))"
    "meta_first_ts (sg_meta y) = meta_first_ts (sg_meta (hd run))"
    using ne by (simp_all add: run_meta_def row_meta_def last_map hd_map)
  with merge.IH ne show ?case by auto
qed auto

lemma regrouped_ends:
  assumes "regrouped merges target gone xs ys"
  shows "(\<lambda>r. meta_last_ts (sg_meta r)) ` set ys \<subseteq> (\<lambda>r. meta_last_ts (sg_meta r)) ` set xs"
  using assms
proof (induction rule: regrouped.induct)
  case (merge gone xs ys run y)
  have ne: "run \<noteq> []" using merge(2) by auto
  have "sg_meta y = run_meta (map row_meta run)" using merge(3) by (simp add: row_meta_def)
  then have "meta_last_ts (sg_meta y) = meta_last_ts (sg_meta (last run))"
    using ne by (simp add: run_meta_def row_meta_def last_map)
  moreover have "last run \<in> set run" using ne by simp
  ultimately show ?case using merge.IH by auto
qed auto

lemma regrouped_seqs:
  assumes "regrouped merges target gone xs ys" and "sorted_wrt (<) (map sg_seq xs)"
  shows "sorted_wrt (<) (map sg_seq ys) \<and> sg_seq ` set ys \<subseteq> sg_seq ` set xs"
  using assms
proof (induction rule: regrouped.induct)
  case (merge gone xs ys run y)
  then have ne: "run \<noteq> []" by auto
  have IH: "sorted_wrt (<) (map sg_seq ys) \<and> sg_seq ` set ys \<subseteq> sg_seq ` set xs"
    using merge by (simp add: sorted_wrt_append)
  have y: "sg_seq y = sg_seq (hd run)" using merge(3) by (simp add: row_meta_def)
  have "hd run \<in> set run" using ne by simp
  with merge.prems y have "\<forall>x \<in> set xs. sg_seq y < sg_seq x" by (auto simp: sorted_wrt_append)
  with IH y \<open>hd run \<in> set run\<close> show ?case by fastforce
qed auto

subsection \<open>Replacing a run\<close>

definition ordered :: "archive \<Rightarrow> i64 \<Rightarrow> rstring \<Rightarrow> segment_table_row list" where
  "ordered a sid s = order_by sg_seq (stream_rows a sid s)"

text \<open>What a rewrite of one stream leaves as it was.\<close>

definition only_stream :: "i64 \<Rightarrow> rstring \<Rightarrow> archive \<Rightarrow> archive \<Rightarrow> bool" where
  "only_stream sid s a b \<longleftrightarrow>
     ar_wal b = ar_wal a \<and> ar_sources b = ar_sources a \<and> ar_clock b = ar_clock a
     \<and> ar_caller b = ar_caller a \<and> ar_documents b = ar_documents a
     \<and> (\<forall>i t. (i, t) \<noteq> (sid, s) \<longrightarrow> stream_rows b i t = stream_rows a i t)"

lemma only_stream_refl [simp]: "only_stream sid s a a"
  by (simp add: only_stream_def)

lemma only_stream_trans: "only_stream sid s a b \<Longrightarrow> only_stream sid s b c \<Longrightarrow> only_stream sid s a c"
  by (simp add: only_stream_def)

lemma stream_rows_delete_segment:
  "stream_rows (delete_segment sid s q a) i t =
     (if (i, t) = (sid, s) then filter (\<lambda>r. sg_seq r \<noteq> q) (stream_rows a i t) else stream_rows a i t)"
  unfolding stream_rows_def delete_segment_def delete_segments_where_frame filter_filter
  by (auto simp: seg_of_def intro!: filter_cong)

lemma delete_run:
  "archive_ok a \<Longrightarrow> archive_ok (foldl (\<lambda>a (q, _). delete_segment sid s q a) a run)
     \<and> only_stream sid s a (foldl (\<lambda>a (q, _). delete_segment sid s q a) a run)
     \<and> stream_rows (foldl (\<lambda>a (q, _). delete_segment sid s q a) a run) sid s
       = filter (\<lambda>r. sg_seq r \<notin> fst ` set run) (stream_rows a sid s)"
proof (induction run arbitrary: a)
  case (Cons m run)
  let ?b = "delete_segment sid s (fst m) a"
  have ok: "archive_ok ?b"
    unfolding delete_segment_def by (rule archive_ok_delete_segments_where [OF Cons.prems])
  have "only_stream sid s a ?b"
    by (simp add: only_stream_def stream_rows_delete_segment) (simp add: delete_segment_def)
  moreover have "filter (\<lambda>r. sg_seq r \<notin> fst ` set run) (stream_rows ?b sid s)
      = filter (\<lambda>r. sg_seq r \<notin> fst ` set (m # run)) (stream_rows a sid s)"
    by (auto simp: stream_rows_delete_segment intro: filter_cong)
  ultimately show ?case
    using Cons.IH [OF ok] only_stream_trans [of sid s a ?b] by (auto simp: case_prod_beta)
qed simp

text \<open>The index rows that go are those of the segments deleted.\<close>

lemma delete_run_indexes:
  "archive_ok a \<Longrightarrow> ar_indexes (foldl (\<lambda>a (q, _). delete_segment sid s q a) a run)
     = filter (\<lambda>x. index_key x \<notin> (\<lambda>m. (sid, s, fst m)) ` set run) (ar_indexes a)"
proof (induction run arbitrary: a)
  case (Cons m run)
  let ?b = "delete_segment sid s (fst m) a"
  have ok: "archive_ok ?b"
    unfolding delete_segment_def by (rule archive_ok_delete_segments_where [OF Cons.prems])
  have "index_key x \<in> seg_key ` {r \<in> set (ar_segments a). seg_key r = (sid, s, fst m)} \<longleftrightarrow> index_key x = (sid, s, fst m)"
    if "x \<in> set (ar_indexes a)" for x
    using that Cons.prems by (auto simp: archive_ok_defs)
  then have "ar_indexes ?b = filter (\<lambda>x. index_key x \<noteq> (sid, s, fst m)) (ar_indexes a)"
    by (auto simp: delete_segment_def delete_segments_where_def Let_def seg_key_def intro!: filter_cong)
  then show ?case using Cons.IH [OF ok] by (auto simp: case_prod_beta intro: filter_cong)
qed simp

lemma insert_segment_row:
  assumes "insert_segment sid s q m p a = Inr b" and ok: "archive_ok a"
  shows "\<exists>y. stream_rows b sid s = stream_rows a sid s @ [y] \<and> row_meta y = (q, m)
    \<and> sg_bytes y = p \<and> sg_column_index y = None \<and> only_stream sid s a b \<and> archive_ok b"
proof -
  note ins = assms(1) [unfolded insert_segment_def]
  obtain y where y: "stream_rows b sid s = stream_rows a sid s @ [y]" "sg_meta y = m" "sg_seq y = q" "sg_bytes y = p"
    and segs: "ar_segments b = ar_segments a @ [y]"
    using stream_rows_insert_segment [OF ins, of sid s] by auto
  have "sg_column_index y = None"
    using ins segs by (auto simp: insert_segment_with_index_def Let_def constraint_error_def
        split: if_splits index_layout.splits)
  moreover have "only_stream sid s a b"
    unfolding only_stream_def
  proof (intro conjI allI impI)
    fix i t assume "(i, t) \<noteq> (sid, s)"
    then show "stream_rows b i t = stream_rows a i t"
      using stream_rows_insert_segment [OF ins, of i t] by auto
  qed (use insert_segment_frame [OF ins] in simp_all)
  ultimately show ?thesis
    using y archive_ok_insert_segment [OF ok ins] by (auto simp: row_meta_def)
qed

lemma sorted_ordered: "archive_ok a \<Longrightarrow> sorted_wrt (<) (map sg_seq (ordered a sid s))"
  unfolding ordered_def by (rule sorted_read_segments) (simp add: archive_ok_def)

lemma set_ordered [simp]: "set (ordered a sid s) = set (stream_rows a sid s)"
  by (simp add: ordered_def)

lemma distinct_stream_seqs: "archive_ok a \<Longrightarrow> distinct (map sg_seq (stream_rows a sid s))"
  using sorted_ordered [of a sid s] unfolding ordered_def strict_sorted_iff by (simp add: distinct_order_by)

lemma replace_run_correct:
  assumes ok: "archive_ok a" and split: "ordered a sid s = pre @ run @ post" and ne: "run \<noteq> []"
    and r: "replace_run sid s (map row_meta run) merged a = Inr b"
  shows "\<exists>y. row_meta y = (sg_seq (hd run), run_meta (map row_meta run)) \<and> sg_bytes y = merged
    \<and> sg_column_index y = None \<and> ordered b sid s = pre @ y # post \<and> only_stream sid s a b \<and> archive_ok b
    \<and> ar_indexes b = filter (\<lambda>x. index_key x \<notin> seg_key ` set run) (ar_indexes a)"
proof -
  define c where "c = foldl (\<lambda>a (q, _). delete_segment sid s q a) a (map row_meta run)"
  have seqs: "fst ` set (map row_meta run) = sg_seq ` set run"
    by (simp add: row_meta_def image_image)
  have c: "archive_ok c" "only_stream sid s a c"
    "stream_rows c sid s = filter (\<lambda>r. sg_seq r \<notin> sg_seq ` set run) (stream_rows a sid s)"
    using delete_run [OF ok, of sid s "map row_meta run"] unfolding seqs c_def by blast+
  have "fst (hd (map row_meta run)) = sg_seq (hd run)"
    using ne by (simp add: hd_map row_meta_def)
  then have ins: "insert_segment sid s (sg_seq (hd run)) (run_meta (map row_meta run)) merged c = Inr b"
    using r by (simp only: replace_run_def c_def)
  obtain y where y: "stream_rows b sid s = stream_rows c sid s @ [y]"
    "row_meta y = (sg_seq (hd run), run_meta (map row_meta run))" "sg_bytes y = merged" "sg_column_index y = None"
    "only_stream sid s c b" "archive_ok b"
    using insert_segment_row [OF ins c(1)] by blast
  have "seg_key x = (sid, s, sg_seq x)" if "x \<in> set run" for x
  proof -
    have "x \<in> set (ordered a sid s)" using that split by simp
    then show ?thesis by (simp add: set_stream_rows seg_of_def seg_key_def)
  qed
  then have keys: "\<And>x. x \<in> set run \<Longrightarrow> seg_key x = (sid, s, sg_seq x)" by blast
  then have "(\<lambda>m. (sid, s, fst m)) ` set (map row_meta run) = seg_key ` set run"
    by (auto simp: row_meta_def image_iff)
  then have cx: "ar_indexes c = filter (\<lambda>x. index_key x \<notin> seg_key ` set run) (ar_indexes a)"
    using delete_run_indexes [OF ok, of sid s "map row_meta run"] by (simp only: c_def)
  have "\<not> index_row_of sid s (sg_seq (hd run)) x" if "x \<in> set (ar_indexes c)" for x
  proof -
    have "index_key x \<noteq> seg_key (hd run)" using that cx ne by auto
    then show ?thesis using keys [of "hd run"] ne by (auto simp: index_row_of_def index_key_def)
  qed
  then have "filter (\<lambda>i. \<not> index_row_of sid s (sg_seq (hd run)) i) (ar_indexes c) = ar_indexes c"
    by (simp add: filter_id_conv)
  then have "ar_indexes b = ar_indexes c"
    using ins by (auto simp: insert_segment_def insert_segment_with_index_def Let_def constraint_error_def
        split: if_splits index_layout.splits)
  with cx have indexes: "ar_indexes b = filter (\<lambda>x. index_key x \<notin> seg_key ` set run) (ar_indexes a)" by simp
  have sorted: "sorted_wrt (<) (map sg_seq (pre @ run @ post))"
    using sorted_ordered [OF ok, of sid s] split by simp
  have hd: "hd run \<in> set run" using ne by simp
  have yq: "sg_seq y = sg_seq (hd run)" using y(2) by (simp add: row_meta_def)
  have "sorted_wrt (<) (map sg_seq (pre @ y # post))"
    using sorted hd by (auto simp: sorted_wrt_append yq)
  moreover have "distinct (map sg_seq (stream_rows b sid s))"
    using distinct_stream_seqs [OF y(6)] .
  moreover have "set (stream_rows b sid s) = set (pre @ y # post)"
  proof -
    have all: "set (stream_rows a sid s) = set pre \<union> set run \<union> set post"
      using arg_cong [OF split, of set] by auto
    have "\<forall>x \<in> set pre \<union> set post. sg_seq x \<notin> sg_seq ` set run"
      using sorted by (fastforce simp: sorted_wrt_append)
    then show ?thesis using all by (auto simp: y(1) c(3))
  qed
  ultimately have "ordered b sid s = pre @ y # post"
    unfolding ordered_def by (rule order_by_unique)
  with y c(2) only_stream_trans indexes show ?thesis by blast
qed

lemma run_size_rows: "sum_list (map (meta_rows \<circ> snd) (take (run_size target acc ms) ms)) + acc \<le> max target 1
    \<or> run_size target acc ms = 0"
proof (induction target acc ms rule: run_size.induct)
  case (2 target acc q m ms)
  then show ?case by (cases "run_size target (acc + meta_rows m) ms") auto
qed simp

lemma sum_list_take_le: "k \<le> n \<Longrightarrow> sum_list (take k xs) \<le> (sum_list (take n xs) :: nat)"
proof (induction xs arbitrary: k n)
  case (Cons x xs)
  then show ?case by (cases k; cases n) auto
qed simp

text \<open>What the bytes of a merged segment are: \<open>concat_parquet\<close> of its run's.\<close>

definition merged_run ::
  "('ty, 'col, 'ws) parquet \<Rightarrow> 'ws compact_spec \<Rightarrow> ('ty, 'run) metadata_merge \<Rightarrow>
   segment_table_row list \<Rightarrow> bytes \<Rightarrow> bool" where
  "merged_run lib spec merge run blob \<longleftrightarrow>
     2 \<le> length run
     \<and> (\<exists>fetch seqs. (\<forall>x \<in> set run. fetch (sg_seq x) = Some (sg_bytes x))
       \<and> take (length run) seqs = map sg_seq run
       \<and> concat_parquet lib seqs fetch (spec_props lib spec) (cp_schema spec) merge = Inr (blob, length run))"

lemma read_segment_bytes_in:
  assumes "archive_ok a" "x \<in> set (stream_rows a sid s)"
  shows "read_segment_bytes a sid s (sg_seq x) = Some (sg_bytes x)"
proof -
  have "find (\<lambda>r. sg_seq r = sg_seq x) xs = Some x" if "distinct (map sg_seq xs)" "x \<in> set xs" for xs
    using that by (induction xs) auto
  from this [OF distinct_stream_seqs [OF assms(1)] assms(2)]
  show ?thesis by (simp add: read_segment_bytes_def)
qed

lemma note_schema_opened [simp]: "ms_opened (note_schema policy schema st) = ms_opened st"
proof (cases policy)
  case UnionFields
  have "ms_opened (foldl note_field st' fs) = ms_opened st'" for st' :: "('a, 'b, 'c) merge_state" and fs
    by (induction fs arbitrary: st') (auto simp: note_field_def split: option.splits)
  then show ?thesis by (simp add: note_schema_def UnionFields)
qed (simp add: note_schema_def)

lemma open_run_length:
  assumes "open_run lib fetch policy merge st seqs = Inr st'"
  shows "length (ms_opened st') \<le> length (ms_opened st) + length seqs"
  using assms
proof (induction seqs arbitrary: st)
  case (Cons q seqs)
  show ?case
  proof (cases "fetch q")
    case None
    with Cons.prems show ?thesis by simp
  next
    case (Some blob)
    with Cons.prems show ?thesis
      by (auto simp: result_simps Let_def split: if_splits sum.splits dest!: Cons.IH)
  qed
qed simp

lemma concat_parquet_consumed:
  "concat_parquet lib seqs fetch props policy merge = Inr (buf, k) \<Longrightarrow> 2 \<le> k \<Longrightarrow> k \<le> length seqs"
  by (auto simp: concat_parquet_def result_simps Let_def new_merge_def split: option.splits if_splits
      dest!: open_run_length)

text \<open>
  The loop regroups the segments it has not reached, on every way out of it, and
  counts what it did.
\<close>

lemma compact_from_regroups:
  assumes "compact_from lib sid s spec merge (map row_meta rows) sofar db = (r, db')"
    and "archive_ok (db_archive db)" and "ordered (db_archive db) sid s = pre @ rows"
    and "length rows \<le> co_after sofar"
  shows "\<exists>rows' gone. regrouped (merged_run lib spec merge) (cp_target_rows spec) gone rows rows'
    \<and> ar_indexes (db_archive db') = filter (\<lambda>x. index_key x \<notin> seg_key ` set (concat gone)) (ar_indexes (db_archive db))
    \<and> ordered (db_archive db') sid s = pre @ rows' \<and> archive_ok (db_archive db')
    \<and> only_stream sid s (db_archive db) (db_archive db')
    \<and> (\<forall>done. r = Inr done \<longrightarrow> co_before done = co_before sofar \<and> co_after done + length rows = co_after sofar + length rows'
         \<and> co_merges done = co_merges sofar + length gone)"
  using assms
proof (induction "length rows" arbitrary: rows pre sofar db rule: less_induct)
  case less
  let ?a = "db_archive db" and ?n = "run_size (cp_target_rows spec) 0 (map row_meta rows)"
  let ?result = "\<lambda>sofar. compact_from lib sid s spec merge (map row_meta rows) sofar db"
  have skip: ?case if k: "0 < k" "rows \<noteq> []"
    and eq: "?result sofar = compact_from lib sid s spec merge (map row_meta (drop k rows)) sofar db" for k
  proof -
    have "\<exists>rows' gone. regrouped (merged_run lib spec merge) (cp_target_rows spec) gone (drop k rows) rows'
      \<and> ar_indexes (db_archive db') = filter (\<lambda>x. index_key x \<notin> seg_key ` set (concat gone)) (ar_indexes ?a)
      \<and> ordered (db_archive db') sid s = (pre @ take k rows) @ rows' \<and> archive_ok (db_archive db')
      \<and> only_stream sid s ?a (db_archive db')
      \<and> (\<forall>done. r = Inr done \<longrightarrow> co_before done = co_before sofar
         \<and> co_after done + length (drop k rows) = co_after sofar + length rows' \<and> co_merges done = co_merges sofar + length gone)"
      using less.prems eq k by (intro less.hyps) auto
    then obtain rows' gone where R: "regrouped (merged_run lib spec merge) (cp_target_rows spec) gone (drop k rows) rows'"
      "ar_indexes (db_archive db') = filter (\<lambda>x. index_key x \<notin> seg_key ` set (concat gone)) (ar_indexes ?a)"
      "ordered (db_archive db') sid s = (pre @ take k rows) @ rows'" "archive_ok (db_archive db')"
      "only_stream sid s ?a (db_archive db')"
      "\<forall>done. r = Inr done \<longrightarrow> co_before done = co_before sofar
         \<and> co_after done + length (drop k rows) = co_after sofar + length rows' \<and> co_merges done = co_merges sofar + length gone"
      by blast
    have "regrouped (merged_run lib spec merge) (cp_target_rows spec) gone rows (take k rows @ rows')"
      using regrouped_keeps [OF R(1), of "take k rows"] by simp
    moreover have "co_before done = co_before sofar \<and> co_after done + length rows = co_after sofar + length (take k rows @ rows')
        \<and> co_merges done = co_merges sofar + length gone" if "r = Inr done" for "done"
      using R(6) [rule_format, OF that] by simp linarith
    moreover have "ordered (db_archive db') sid s = pre @ (take k rows @ rows')" using R(3) by simp
    ultimately show ?thesis using R(2,4,5) by blast
  qed
  have stop: ?case if "db' = db" "\<And>done. r = Inr done \<Longrightarrow> done = sofar"
    using that less.prems regrouped_refl by (intro exI [of _ rows] exI [of _ "[]"]) auto
  show ?case
  proof (cases "rows = []")
    case True
    then have "?result sofar = (Inr sofar, db)" by (subst compact_from.simps) simp
    then show ?thesis using less.prems(1) by (intro stop) auto
  next
    case ne: False
    show ?thesis
    proof (cases "?n < 2")
      case True
      then show ?thesis
        using ne by (intro skip [of "max 1 ?n"], simp, simp, subst compact_from.simps) (simp add: drop_map)
    next
      case big: False
      let ?concat = "concat_parquet lib (map fst (take ?n (map row_meta rows))) (read_segment_bytes ?a sid s)
          (spec_props lib spec) (cp_schema spec) merge"
      show ?thesis
      proof (cases "?concat")
        case (Inl e)
        then have "?result sofar = (Inl e, db)"
          using ne big by (subst compact_from.simps) (simp add: Let_def)
        then show ?thesis using less.prems(1) by (intro stop) auto
      next
        case (Inr x)
        obtain merged k where x: "x = (merged, k)" by force
        show ?thesis
        proof (cases "k < 2")
          case True
          then show ?thesis
            using ne big Inr x by (intro skip [of 1], simp, simp, subst compact_from.simps) (simp add: Let_def drop_map)
        next
          case many: False
          let ?run = "take k rows" and ?body = "replace_run sid s (map row_meta (take k rows)) merged"
          let ?sofar = "sofar\<lparr>co_merges := co_merges sofar + 1, co_after := co_after sofar - (k - 1)\<rparr>"
          have unroll: "?result sofar = (case transaction (unit_body ?body) db of
                (Inl e, db') \<Rightarrow> (Inl e, db')
              | (Inr _, db') \<Rightarrow> compact_from lib sid s spec merge (map row_meta (drop k rows)) ?sofar db')"
            using ne big Inr x many
            by (subst compact_from.simps) (simp add: Let_def drop_map take_map split: prod.split sum.split)
          have kn: "k \<le> ?n" "k \<le> length rows" "2 \<le> k"
            using concat_parquet_consumed [OF Inr [unfolded x]] many by auto
          show ?thesis
          proof (rule transaction_unit_cases [of ?body db])
            fix e assume "transaction (unit_body ?body) db = (Inl e, db\<lparr>db_faults := tl (db_faults db)\<rparr>)"
            then have "r = Inl e" "db' = db\<lparr>db_faults := tl (db_faults db)\<rparr>"
              using less.prems(1) unroll by auto
            then show ?thesis using less.prems regrouped_refl by (intro exI [of _ rows] exI [of _ "[]"]) auto
          next
            fix b
            let ?db = "db\<lparr>db_archive := b, db_faults := tl (db_faults db)\<rparr>"
            assume t: "transaction (unit_body ?body) db = (Inr (), ?db)" and b: "?body ?a = Inr b"
            have split: "ordered ?a sid s = pre @ ?run @ drop k rows" using less.prems(3) by simp
            have "?run \<noteq> []" using ne kn by simp
            from replace_run_correct [OF less.prems(2) split this b]
            obtain y where y: "row_meta y = (sg_seq (hd ?run), run_meta (map row_meta ?run))" "sg_bytes y = merged"
              "sg_column_index y = None" "ordered b sid s = pre @ y # drop k rows" "only_stream sid s ?a b" "archive_ok b"
              "ar_indexes b = filter (\<lambda>x. index_key x \<notin> seg_key ` set ?run) (ar_indexes ?a)"
              by blast
            have "\<exists>rows' gone. regrouped (merged_run lib spec merge) (cp_target_rows spec) gone (drop k rows) rows'
              \<and> ar_indexes (db_archive db') = filter (\<lambda>x. index_key x \<notin> seg_key ` set (concat gone)) (ar_indexes (db_archive ?db))
              \<and> ordered (db_archive db') sid s = (pre @ [y]) @ rows' \<and> archive_ok (db_archive db')
              \<and> only_stream sid s (db_archive ?db) (db_archive db')
              \<and> (\<forall>done. r = Inr done \<longrightarrow> co_before done = co_before ?sofar
                 \<and> co_after done + length (drop k rows) = co_after ?sofar + length rows' \<and> co_merges done = co_merges ?sofar + length gone)"
              using less.prems kn y t unroll by (intro less.hyps) auto
            then obtain rows' gone where R: "regrouped (merged_run lib spec merge) (cp_target_rows spec) gone (drop k rows) rows'"
              "ar_indexes (db_archive db') = filter (\<lambda>x. index_key x \<notin> seg_key ` set (concat gone)) (ar_indexes b)"
              "ordered (db_archive db') sid s = (pre @ [y]) @ rows'" "archive_ok (db_archive db')"
              "only_stream sid s b (db_archive db')"
              "\<forall>done. r = Inr done \<longrightarrow> co_before done = co_before sofar
                 \<and> co_after done + length (drop k rows) = (co_after sofar - (k - 1)) + length rows'
                 \<and> co_merges done = co_merges sofar + 1 + length gone"
              by auto
            have fits: "meta_rows (sg_meta y) \<le> max (cp_target_rows spec) 1"
            proof -
              have "meta_rows (sg_meta y) = sum_list (take k (map (meta_rows \<circ> snd) (map row_meta rows)))"
                using y(1) by (simp add: row_meta_def run_meta_def take_map comp_def)
              also have "\<dots> \<le> sum_list (take ?n (map (meta_rows \<circ> snd) (map row_meta rows)))"
                using kn(1) by (rule sum_list_take_le)
              finally show ?thesis
                using run_size_rows [of "cp_target_rows spec" 0 "map row_meta rows"] big by (simp add: take_map)
            qed
            have lenrun: "length ?run = k" using kn by simp
            have seqs: "take k (map fst (take ?n (map row_meta rows))) = map sg_seq ?run"
              using kn by (simp add: take_map row_meta_def comp_def min_def flip: take_map)
            have fetch: "\<forall>z \<in> set ?run. read_segment_bytes ?a sid s (sg_seq z) = Some (sg_bytes z)"
            proof
              fix z assume "z \<in> set ?run"
              then have "z \<in> set (ordered ?a sid s)" unfolding split by (auto dest: in_set_takeD)
              then show "read_segment_bytes ?a sid s (sg_seq z) = Some (sg_bytes z)"
                using read_segment_bytes_in [OF less.prems(2)] by simp
            qed
            have "merged_run lib spec merge ?run (sg_bytes y)"
              unfolding merged_run_def lenrun y(2)
              using fetch seqs Inr x kn(3) by blast
            then have "regrouped (merged_run lib spec merge) (cp_target_rows spec) (?run # gone) (?run @ drop k rows) (y # rows')"
              using R(1) y(1,3) fits lenrun kn(3) by (intro regrouped.merge) simp_all
            moreover have "only_stream sid s ?a (db_archive db')" using y(5) R(5) by (rule only_stream_trans)
            moreover have "co_before done = co_before sofar \<and> co_after done + length rows = co_after sofar + length (y # rows')
                \<and> co_merges done = co_merges sofar + length (?run # gone)" if "r = Inr done" for "done"
              using R(6) [rule_format, OF that] kn less.prems(4) by simp linarith
            moreover have "ordered (db_archive db') sid s = pre @ (y # rows')" using R(3) by simp
            moreover have "ar_indexes (db_archive db') = filter (\<lambda>x. index_key x \<notin> seg_key ` set (concat (?run # gone))) (ar_indexes ?a)"
              using R(2) y(7) by (auto intro: filter_cong)
            ultimately show ?thesis using R(4) unfolding append_take_drop_id by blast
          qed
        qed
      qed
    qed
  qed
qed

end
