(* ===== verification/Compaction_Properties.thy ===== *)
theory Compaction_Properties
  imports Compaction
begin

section \<open>What compaction keeps\<close>

text \<open>
  Every way out of \<open>compact_stream\<close> leaves the stream with the rows, the watermark and
  the live tail it had, and every column with the values it had.
\<close>

subsection \<open>Compacting a stream\<close>

lemma watermark_ordered:
  assumes "sorted (map (\<lambda>r. meta_last_ts (sg_meta r)) (ordered a sid s))"
  shows "watermark a sid s =
    (if ordered a sid s = [] then None else Some (meta_last_ts (sg_meta (last (ordered a sid s)))))"
proof (cases "ordered a sid s = []")
  case True
  then show ?thesis by (simp add: ordered_def watermark_None)
next
  case False
  have "meta_last_ts (sg_meta x) \<le> meta_last_ts (sg_meta (last (ordered a sid s)))" if "x \<in> set (ordered a sid s)" for x
    using assms that False by (cases "ordered a sid s" rule: rev_cases) (auto simp: sorted_append)
  moreover have "last (ordered a sid s) \<in> set (ordered a sid s)" using False by (rule last_in_set)
  ultimately have "watermark a sid s = Some (meta_last_ts (sg_meta (last (ordered a sid s))))"
    unfolding watermark_Some set_ordered by blast
  then show ?thesis using False by simp
qed

lemma regrouped_sorted:
  assumes "regrouped merges target gone xs ys" and "sorted (map (\<lambda>r. meta_last_ts (sg_meta r)) xs)"
  shows "sorted (map (\<lambda>r. meta_last_ts (sg_meta r)) ys)"
  using assms
proof (induction rule: regrouped.induct)
  case (keep gone xs ys x)
  have "\<forall>e \<in> (\<lambda>r. meta_last_ts (sg_meta r)) ` set xs. meta_last_ts (sg_meta x) \<le> e"
    using keep.prems by auto
  with regrouped_ends [OF keep(1)] keep show ?case by fastforce
next
  case (merge gone xs ys run y)
  then have ne: "run \<noteq> []" by auto
  have "sg_meta y = run_meta (map row_meta run)" using merge(3) by (simp add: row_meta_def)
  then have y: "meta_last_ts (sg_meta y) = meta_last_ts (sg_meta (last run))"
    using ne by (simp add: run_meta_def row_meta_def last_map)
  have "last run \<in> set run" using ne by simp
  then have "\<forall>e \<in> (\<lambda>r. meta_last_ts (sg_meta r)) ` set xs. meta_last_ts (sg_meta y) \<le> e"
    using merge.prems y by (auto simp: sorted_append)
  with regrouped_ends [OF merge(1)] have "\<forall>e \<in> (\<lambda>r. meta_last_ts (sg_meta r)) ` set ys. meta_last_ts (sg_meta y) \<le> e"
    by blast
  moreover have "sorted (map (\<lambda>r. meta_last_ts (sg_meta r)) ys)" using merge by (simp add: sorted_append)
  ultimately show ?case by simp
qed simp

lemma regrouped_sizes:
  "regrouped merges target gone xs ys \<Longrightarrow> y \<in> set ys \<Longrightarrow> y \<in> set xs \<or> meta_rows (sg_meta y) \<le> max target 1"
  by (induction rule: regrouped.induct) auto

lemma meta_ordered: "read_segment_meta a sid s = map row_meta (ordered a sid s)"
  by (simp add: read_segment_meta_def ordered_def row_meta_def)

lemma total_rows_ordered: "total_rows a sid s = sum_list (map (meta_rows \<circ> sg_meta) (ordered a sid s))"
  by (simp add: total_rows_def ordered_def comp_def sum_list_order_by)

lemma compact_stream_regroups:
  assumes "compact_stream_with lib sid s spec merge db = (r, db')" and "archive_ok (db_archive db)"
  shows "\<exists>gone. regrouped (merged_run lib spec merge) (cp_target_rows spec) gone (ordered (db_archive db) sid s) (ordered (db_archive db') sid s)
    \<and> archive_ok (db_archive db') \<and> only_stream sid s (db_archive db) (db_archive db')
    \<and> ar_indexes (db_archive db') = filter (\<lambda>x. index_key x \<notin> seg_key ` set (concat gone)) (ar_indexes (db_archive db))
    \<and> (\<forall>done. r = Inr done \<longrightarrow> done = \<lparr>co_before = length (ordered (db_archive db) sid s),
         co_after = length (ordered (db_archive db') sid s), co_merges = length gone\<rparr>)"
proof -
  have "compact_from lib sid s spec merge (map row_meta (ordered (db_archive db) sid s))
      \<lparr>co_before = length (ordered (db_archive db) sid s), co_after = length (ordered (db_archive db) sid s), co_merges = 0\<rparr> db
      = (r, db')"
    using assms(1) by (simp add: compact_stream_with_def meta_ordered Let_def)
  from compact_from_regroups [OF this assms(2), of "[]"] show ?thesis by auto
qed

text \<open>
  C19: compacting a stream, on every way out of it, errors and a refused transaction
  included. The segments after are the segments before cut into runs, each kept as it was
  when it is one segment, and otherwise merged into one segment within the row target,
  under the number of the run's first, with the facts of the run. The stream keeps its
  row total, its watermark and so its live tail, and its segments stay in ascending order;
  the index rows that go are those of the segments merged, and nothing else in the
  archive moves. The counts returned are exact: segments before, segments after, and
  runs merged.
\<close>

theorem compact_stream_correct:
  assumes "archive_ok (db_archive db)"
    and "sorted (map (meta_last_ts \<circ> snd) (read_segment_meta (db_archive db) sid s))"
    and "compact_stream_with lib sid s spec merge db = (r, db')"
  shows "archive_ok (db_archive db')
    \<and> total_rows (db_archive db') sid s = total_rows (db_archive db) sid s
    \<and> watermark (db_archive db') sid s = watermark (db_archive db) sid s
    \<and> live_wal (db_archive db') i t = live_wal (db_archive db) i t
    \<and> sorted (map (meta_last_ts \<circ> snd) (read_segment_meta (db_archive db') sid s))
    \<and> (\<exists>runs. concat runs = order_by sg_seq (stream_rows (db_archive db) sid s)
         \<and> list_all2 (\<lambda>run y. run = [y] \<or> 2 \<le> length run
               \<and> (sg_seq y, sg_meta y) = (sg_seq (hd run), run_meta (map (\<lambda>x. (sg_seq x, sg_meta x)) run))
               \<and> meta_rows (sg_meta y) \<le> max (cp_target_rows spec) 1 \<and> sg_column_index y = None)
             runs (order_by sg_seq (stream_rows (db_archive db') sid s))
         \<and> ar_indexes (db_archive db') = filter (\<lambda>x. \<forall>run \<in> set runs. 2 \<le> length run \<longrightarrow> index_key x \<notin> seg_key ` set run)
             (ar_indexes (db_archive db))
         \<and> (\<forall>done. r = Inr done \<longrightarrow>
              co_before done = length (read_segment_meta (db_archive db) sid s)
              \<and> co_after done = length (read_segment_meta (db_archive db') sid s) \<and> co_after done \<le> co_before done
              \<and> co_merges done = length (filter (\<lambda>run. 2 \<le> length run) runs)))
    \<and> ((i, t) \<noteq> (sid, s) \<longrightarrow> stream_rows (db_archive db') i t = stream_rows (db_archive db) i t)
    \<and> ar_sources (db_archive db') = ar_sources (db_archive db) \<and> ar_wal (db_archive db') = ar_wal (db_archive db)
    \<and> ar_clock (db_archive db') = ar_clock (db_archive db) \<and> ar_caller (db_archive db') = ar_caller (db_archive db)
    \<and> ar_documents (db_archive db') = ar_documents (db_archive db)"
proof -
  let ?a = "db_archive db" and ?b = "db_archive db'"
  from compact_stream_regroups [OF assms(3,1)] obtain gone where
    R: "regrouped (merged_run lib spec merge) (cp_target_rows spec) gone (ordered ?a sid s) (ordered ?b sid s)"
    and ok: "archive_ok ?b" and O: "only_stream sid s ?a ?b"
    and indexes: "ar_indexes ?b = filter (\<lambda>x. index_key x \<notin> seg_key ` set (concat gone)) (ar_indexes ?a)"
    and counts: "\<forall>done. r = Inr done \<longrightarrow> done = \<lparr>co_before = length (ordered ?a sid s), co_after = length (ordered ?b sid s),
      co_merges = length gone\<rparr>"
    by blast
  have sorted: "sorted (map (\<lambda>r. meta_last_ts (sg_meta r)) (ordered ?a sid s))"
    using assms(2) by (simp add: meta_ordered row_meta_def comp_def)
  note sorted' = regrouped_sorted [OF R sorted]
  have mark: "watermark ?b sid s = watermark ?a sid s"
    unfolding watermark_ordered [OF sorted] watermark_ordered [OF sorted'] using regrouped_last [OF R] by simp
  have "watermark ?b i t = watermark ?a i t"
    using mark O by (cases "(i, t) = (sid, s)") (auto simp: only_stream_def intro: watermark_cong)
  moreover have "wal_of ?b i t = wal_of ?a i t" using O by (simp add: only_stream_def wal_of_def)
  ultimately have live: "live_wal ?b i t = live_wal ?a i t" by (rule live_wal_cong)
  have rows: "total_rows ?b sid s = total_rows ?a sid s"
    unfolding total_rows_ordered by (rule regrouped_rows [OF R])
  have sortedm: "sorted (map (meta_last_ts \<circ> snd) (read_segment_meta ?b sid s))"
    using sorted' by (simp add: meta_ordered row_meta_def comp_def)
  obtain runs where runs: "concat runs = ordered ?a sid s" "list_all2 (run_of (cp_target_rows spec)) runs (ordered ?b sid s)"
    "filter (\<lambda>run. 2 \<le> length run) runs = gone"
    using regrouped_runs [OF R] by blast
  have "ar_indexes ?b = filter (\<lambda>x. \<forall>run \<in> set runs. 2 \<le> length run \<longrightarrow> index_key x \<notin> seg_key ` set run) (ar_indexes ?a)"
    unfolding indexes runs(3) [symmetric] by (rule filter_cong) auto
  moreover have "\<forall>done. r = Inr done \<longrightarrow> co_before done = length (read_segment_meta ?a sid s)
         \<and> co_after done = length (read_segment_meta ?b sid s) \<and> co_after done \<le> co_before done
         \<and> co_merges done = length (filter (\<lambda>run. 2 \<le> length run) runs)"
    using counts regrouped_length [OF R] unfolding meta_ordered length_map runs(3)
    by (metis compacted.select_convs)
  ultimately show ?thesis
    using ok O rows mark live sortedm runs(1,2)
    unfolding only_stream_def run_of_def [abs_def] row_meta_def [abs_def] ordered_def by blast
qed

text \<open>A column of a segment's bytes; a file that does not open has none.\<close>

definition segment_column ::
  "('ty, 'col, 'ws) parquet \<Rightarrow> ('col \<Rightarrow> 'v option list) \<Rightarrow> rstring \<Rightarrow> bytes \<Rightarrow> 'v option list" where
  "segment_column lib vals name blob =
    (case pq_open lib blob of Inl _ \<Rightarrow> [] | Inr f \<Rightarrow> file_column vals f name)"

lemma merged_run_column:
  assumes C: "parquet_contract lib vals" and "merged_run lib spec merge run blob"
  shows "segment_column lib vals name blob = concat (map (segment_column lib vals name \<circ> sg_bytes) run)"
proof -
  obtain fetch seqs where len: "2 \<le> length run"
    and fetch: "\<forall>x \<in> set run. fetch (sg_seq x) = Some (sg_bytes x)"
    and seqs: "take (length run) seqs = map sg_seq run"
    and m: "concat_parquet lib seqs fetch (spec_props lib spec) (cp_schema spec) merge = Inr (blob, length run)"
    using assms(2) by (auto simp: merged_run_def)
  obtain fs g where fs: "list_all2 (\<lambda>q f. \<exists>blob. fetch q = Some blob \<and> pq_open lib blob = Inr f) (map sg_seq run) fs"
    and g: "pq_open lib blob = Inr g" "\<forall>name. file_column vals g name = concat (map (\<lambda>f. file_column vals f name) fs)"
    using concat_parquet_columns [OF C m len] unfolding seqs by blast
  have "map (segment_column lib vals name \<circ> sg_bytes) run = map (\<lambda>f. file_column vals f name) fs"
    using fs fetch
  proof (induction run arbitrary: fs)
    case (Cons x run)
    then obtain f fs' where "fs = f # fs'" "pq_open lib (sg_bytes x) = Inr f"
      "list_all2 (\<lambda>q f. \<exists>blob. fetch q = Some blob \<and> pq_open lib blob = Inr f) (map sg_seq run) fs'"
      by (cases fs) auto
    with Cons show ?case by (simp add: segment_column_def)
  qed simp
  then show ?thesis by (simp add: segment_column_def g)
qed

text \<open>
  C10: compaction loses and reorders nothing. With a Parquet library that reads back
  what it wrote, every column of the stream, read across its segments in order, holds
  the same values before and after, on every way out of \<open>compact_stream\<close>, under either
  schema policy and any metadata merge; where policies unite segments of different
  columns, a segment without the column counts as that many nulls.
\<close>

theorem compaction_keeps_columns:
  assumes "parquet_contract lib vals" and "archive_ok (db_archive db)"
    and "compact_stream_with lib sid s spec merge db = (r, db')"
  shows "concat (map (segment_column lib vals name \<circ> sr_bytes) (read_segments (db_archive db') sid s))
    = concat (map (segment_column lib vals name \<circ> sr_bytes) (read_segments (db_archive db) sid s))"
proof -
  obtain gone where
    "regrouped (merged_run lib spec merge) (cp_target_rows spec) gone (ordered (db_archive db) sid s) (ordered (db_archive db') sid s)"
    using compact_stream_regroups [OF assms(3,2)] by blast
  from regrouped_content [OF this merged_run_column [OF assms(1)]]
  show ?thesis by (simp add: read_segments_def ordered_def to_segment_row_def comp_def)
qed

subsection \<open>A small Parquet library, for the witnesses\<close>

text \<open>A file is one column of bytes; it opens to one batch and a writer refuses nulls.\<close>

definition toy_field :: "unit field" where
  "toy_field = \<lparr>fd_name = str ''v'', fd_type = (), fd_nullable = False, fd_metadata = []\<rparr>"

definition toy_file :: "bytes \<Rightarrow> (unit, u8 option list) parquet_file" where
  "toy_file blob = \<lparr>pf_key_values = None, pf_num_rows = int (length blob),
     pf_schema = \<lparr>sch_fields = [toy_field], sch_metadata = []\<rparr>,
     pf_batches = Inr [Inr \<lparr>rb_fields = [toy_field], rb_rows = length blob, rb_columns = [map Some blob]\<rparr>]\<rparr>"

definition toy_writable :: "(unit, u8 option list) batch \<Rightarrow> bool" where
  "toy_writable b \<longleftrightarrow> (case rb_columns b of [c] \<Rightarrow> list_all (\<lambda>v. v \<noteq> None) c \<and> length c = rb_rows b | _ \<Rightarrow> False)"

definition toy_parquet :: "(unit, u8 option list, unit) parquet" where
  "toy_parquet =
     \<lparr>pq_open = (\<lambda>blob. Inr (toy_file blob)),
      pq_new_writer = (\<lambda>_ _. Inr ()), pq_write = (\<lambda>_ _ _ _. Inr ()),
      pq_close = (\<lambda>schema _ bs. if sch_fields schema = [toy_field] \<and> list_all toy_writable bs
                              then Inr (concat (map (\<lambda>b. map the (hd (rb_columns b))) bs)) else Inl ''nulls''),
      pq_null_array = (\<lambda>_ n. replicate n None),
      pq_new_batch = (\<lambda>_ _. Inl ''one column only''),
      pq_project_schema = (\<lambda>schema _. Inr schema), pq_project_batch = (\<lambda>b _. Inr b),
      pq_default_props = \<lparr>wp_key_values = None, wp_settings = ()\<rparr>\<rparr>"

lemma toy_file_column:
  "file_column (\<lambda>c. c) (toy_file blob) name = (if name = str ''v'' then map Some blob else replicate (length blob) None)"
  by (simp add: file_column_def file_batches_def rights_def toy_file_def batch_column_def toy_field_def)

lemma toy_contract: "parquet_contract toy_parquet (\<lambda>c. c)"
proof -
  have close: "\<exists>f. pq_open toy_parquet blob = Inr f
      \<and> (\<forall>name. file_column (\<lambda>c. c) f name = concat (map (\<lambda>b. batch_column (\<lambda>c. c) b name) bs))"
    if bs: "\<forall>b \<in> set bs. rb_fields b = sch_fields schema" and c: "pq_close toy_parquet schema props bs = Inr blob"
    for schema :: "unit schema" and props bs blob
  proof -
    have s: "sch_fields schema = [toy_field]" and w: "list_all toy_writable bs"
      and blob: "blob = concat (map (\<lambda>b. map the (hd (rb_columns b))) bs)"
      using c by (auto simp: toy_parquet_def split: if_splits)
    have one: "batch_column (\<lambda>c. c) b name =
        (if name = str ''v'' then map Some (map the (hd (rb_columns b))) else replicate (length (hd (rb_columns b))) None)"
      if "b \<in> set bs" for b name
    proof -
      have "toy_writable b" using w that by (simp add: list_all_iff)
      then obtain c where c: "rb_columns b = [c]" "\<forall>v \<in> set c. v \<noteq> None" "length c = rb_rows b"
        by (auto simp: toy_writable_def list_all_iff split: list.splits)
      then have "map (Some \<circ> the) c = c" by (intro map_idI) auto
      with c bs that s show ?thesis by (simp add: batch_column_def toy_field_def)
    qed
    have "file_column (\<lambda>c. c) (toy_file blob) name = concat (map (\<lambda>b. batch_column (\<lambda>c. c) b name) bs)" for name
      unfolding toy_file_column blob
      using one by (induction bs) (auto simp: replicate_add)
    then show ?thesis by (simp add: toy_parquet_def)
  qed
  have opened: "batch_ok (\<lambda>c. c) (sch_fields (pf_schema f)) b"
    if "pq_open toy_parquet blob = Inr f" "b \<in> set (file_batches f)" for blob f b
    using that by (auto simp: toy_parquet_def toy_file_def file_batches_def rights_def batch_ok_def)
  show ?thesis
    unfolding parquet_contract_def
    using close opened by (intro conjI allI impI) (auto simp: toy_parquet_def)
qed

definition two_segments :: archive where
  "two_segments = sample_archive\<lparr>ar_segments := [sample_segment_row,
     sample_segment_row\<lparr>sg_seq := 1, sg_meta := \<lparr>meta_rows = 1, meta_first_ts = 22, meta_last_ts = 23\<rparr>, sg_bytes := [9]\<rparr>]\<rparr>"

definition two_segments_db :: db where
  "two_segments_db = \<lparr>db_archive = two_segments, db_faults = []\<rparr>"

lemma two_segments_ok: "archive_ok two_segments"
  by code_simp

definition compacted_sample :: "compacted result \<times> db" where
  "compacted_sample = compact_stream_with toy_parquet 1 (str ''cpu'') (to_rows 10) identical_metadata two_segments_db"

lemma compacted_sample_value:
  "map sr_bytes (read_segments (db_archive (snd compacted_sample)) 1 (str ''cpu'')) = [[7, 7, 9]]"
  by code_simp

theorem compact_stream_correct_witness:
  "total_rows (db_archive (snd compacted_sample)) 1 (str ''cpu'') = 3
    \<and> live_wal (db_archive (snd compacted_sample)) 1 (str ''cpu'') = live_wal two_segments 1 (str ''cpu'')
    \<and> fst compacted_sample = Inr \<lparr>co_before = 2, co_after = 1, co_merges = 1\<rparr>"
proof -
  have c: "compact_stream_with toy_parquet 1 (str ''cpu'') (to_rows 10) identical_metadata two_segments_db
      = (fst compacted_sample, snd compacted_sample)" by (simp add: compacted_sample_def)
  have "sorted (map (meta_last_ts \<circ> snd) (read_segment_meta (db_archive two_segments_db) 1 (str ''cpu'')))"
    by code_simp
  from compact_stream_correct [OF _ this c] two_segments_ok
  have "total_rows (db_archive (snd compacted_sample)) 1 (str ''cpu'') = total_rows two_segments 1 (str ''cpu'')"
    "live_wal (db_archive (snd compacted_sample)) 1 (str ''cpu'') = live_wal two_segments 1 (str ''cpu'')"
    by (simp_all add: two_segments_db_def)
  moreover have "total_rows two_segments 1 (str ''cpu'') = 3" by code_simp
  moreover have "fst compacted_sample = Inr \<lparr>co_before = 2, co_after = 1, co_merges = 1\<rparr>" by code_simp
  ultimately show ?thesis by simp
qed

theorem compaction_keeps_columns_witness:
  "concat (map (segment_column toy_parquet (\<lambda>c. c) (str ''v'') \<circ> sr_bytes)
       (read_segments (db_archive (snd compacted_sample)) 1 (str ''cpu'')))
     = concat (map (segment_column toy_parquet (\<lambda>c. c) (str ''v'') \<circ> sr_bytes) (read_segments two_segments 1 (str ''cpu'')))
   \<and> concat (map (segment_column toy_parquet (\<lambda>c. c) (str ''v'') \<circ> sr_bytes) (read_segments two_segments 1 (str ''cpu'')))
     = [Some 7, Some 7, Some 9]"
proof -
  have c: "compact_stream_with toy_parquet 1 (str ''cpu'') (to_rows 10) identical_metadata two_segments_db
      = (fst compacted_sample, snd compacted_sample)" by (simp add: compacted_sample_def)
  have "concat (map (segment_column toy_parquet (\<lambda>c. c) (str ''v'') \<circ> sr_bytes) (read_segments two_segments 1 (str ''cpu'')))
     = [Some 7, Some 7, Some 9]" by code_simp
  with compaction_keeps_columns [OF toy_contract _ c, of "str ''v''"] two_segments_ok
  show ?thesis by (simp add: two_segments_db_def)
qed

end
