(* ===== verification/Read_Properties.thy ===== *)
theory Read_Properties
  imports Read_Path
begin

section \<open>What a reader is handed\<close>

text \<open>
  The catalog agrees with the queries it stands for, a range read with the whole
  read, and a seal changes nothing a reader is handed.
\<close>

subsection \<open>The catalog agrees with the queries\<close>

lemma set_opt_list [simp]: "y \<in> set (opt_list x) \<longleftrightarrow> x = Some y"
  by (cases x) (auto simp: opt_list_def)

lemma col_min_Nil [simp]: "col_min [] = None"
  by (simp add: col_min_def)

lemma col_max_Nil [simp]: "col_max [] = None"
  by (simp add: col_max_def)

lemma flat_min_concat: "flat_min (map col_min xss) = col_min (concat xss)"
proof (cases "col_min (concat xss)")
  case None
  then have "\<forall>xs \<in> set xss. xs = []" by simp
  then show ?thesis unfolding None flat_min_def by (auto simp: opt_list_def)
next
  case (Some m)
  then obtain xs where xs: "xs \<in> set xss" "m \<in> set xs" and le: "\<And>ys y. ys \<in> set xss \<Longrightarrow> y \<in> set ys \<Longrightarrow> m \<le> y"
    by (auto simp: col_min_Some)
  then have "col_min xs = Some m" by (simp add: col_min_Some)
  then have "m \<in> set (concat (map opt_list (map col_min xss)))"
    using xs(1) by auto
  moreover have "m \<le> y" if y: "y \<in> set (concat (map opt_list (map col_min xss)))" for y
  proof -
    obtain ys where "ys \<in> set xss" "col_min ys = Some y"
      using y by auto
    then show ?thesis using le by (simp add: col_min_Some)
  qed
  ultimately show ?thesis unfolding Some flat_min_def by (simp only: col_min_Some) blast
qed

lemma flat_max_concat: "flat_max (map col_max xss) = col_max (concat xss)"
proof (cases "col_max (concat xss)")
  case None
  then have "\<forall>xs \<in> set xss. xs = []" by simp
  then show ?thesis unfolding None flat_max_def by (auto simp: opt_list_def)
next
  case (Some m)
  then obtain xs where xs: "xs \<in> set xss" "m \<in> set xs" and le: "\<And>ys y. ys \<in> set xss \<Longrightarrow> y \<in> set ys \<Longrightarrow> y \<le> m"
    by (auto simp: col_max_Some)
  then have "col_max xs = Some m" by (simp add: col_max_Some)
  then have "m \<in> set (concat (map opt_list (map col_max xss)))"
    using xs(1) by auto
  moreover have "y \<le> m" if y: "y \<in> set (concat (map opt_list (map col_max xss)))" for y
  proof -
    obtain ys where "ys \<in> set xss" "col_max ys = Some y"
      using y by auto
    then show ?thesis using le by (simp add: col_max_Some)
  qed
  ultimately show ?thesis unfolding Some flat_max_def by (simp only: col_max_Some) blast
qed

lemma hull_spans:
  assumes "\<And>s. F s = [] \<longleftrightarrow> L s = []"
  shows "hull (map (\<lambda>s. opt_pair (col_min (F s)) (col_max (L s))) ss)
    = opt_pair (col_min (concat (map F ss))) (col_max (concat (map L ss)))"
proof -
  have one: "map fst (opt_list (opt_pair (col_min (F s)) (col_max (L s)))) = opt_list (col_min (F s))
    \<and> map snd (opt_list (opt_pair (col_min (F s)) (col_max (L s)))) = opt_list (col_max (L s))" for s
  proof (cases "F s = []")
    case True
    then show ?thesis using assms [of s] by (simp add: opt_pair_def opt_list_def)
  next
    case False
    then have "col_min (F s) \<noteq> None" "col_max (L s) \<noteq> None"
      using assms [of s] by simp_all
    then obtain x y where "col_min (F s) = Some x" "col_max (L s) = Some y"
      by blast
    then show ?thesis by (simp add: opt_pair_def opt_list_def)
  qed
  have pairs: "map fst (concat (map opt_list (map (\<lambda>s. opt_pair (col_min (F s)) (col_max (L s))) ss)))
      = concat (map opt_list (map col_min (map F ss)))
    \<and> map snd (concat (map opt_list (map (\<lambda>s. opt_pair (col_min (F s)) (col_max (L s))) ss)))
      = concat (map opt_list (map col_max (map L ss)))"
    by (induction ss) (simp_all add: one)
  show ?thesis
    unfolding hull_def Let_def pairs [THEN conjunct1] pairs [THEN conjunct2]
      flat_min_concat [unfolded flat_min_def] flat_max_concat [unfolded flat_max_def] ..
qed

text \<open>The first and last timestamps a stream's segments and live rows carry.\<close>

definition stream_firsts :: "archive \<Rightarrow> i64 \<Rightarrow> rstring \<Rightarrow> i64 list" where
  "stream_firsts a sid s =
     map (\<lambda>r. meta_first_ts (sg_meta r)) (stream_rows a sid s)
     @ map row_ts (filter (\<lambda>r. is_live a sid s (row_ts r)) (wal_of a sid s))"

definition stream_lasts :: "archive \<Rightarrow> i64 \<Rightarrow> rstring \<Rightarrow> i64 list" where
  "stream_lasts a sid s =
     map (\<lambda>r. meta_last_ts (sg_meta r)) (stream_rows a sid s)
     @ map row_ts (filter (\<lambda>r. is_live a sid s (row_ts r)) (wal_of a sid s))"

lemma catalog_span_stream:
  "catalog_span (catalog_stream a sid s) =
     opt_pair (col_min (stream_firsts a sid s)) (col_max (stream_lasts a sid s))"
  using flat_min_concat [of "[map (\<lambda>r. meta_first_ts (sg_meta r)) (stream_rows a sid s),
      map row_ts (filter (\<lambda>r. is_live a sid s (row_ts r)) (wal_of a sid s))]"]
    flat_max_concat [of "[map (\<lambda>r. meta_last_ts (sg_meta r)) (stream_rows a sid s),
      map row_ts (filter (\<lambda>r. is_live a sid s (row_ts r)) (wal_of a sid s))]"]
  by (simp add: catalog_span_def catalog_stream_def segment_span_def live_wal_span_def Let_def
      stream_firsts_def stream_lasts_def watermark_def)

lemma firsts_lasts_empty: "stream_firsts a sid s = [] \<longleftrightarrow> stream_lasts a sid s = []"
  by (simp add: stream_firsts_def stream_lasts_def)

lemma stream_listed:
  "x \<in> set (stream_firsts a sid s) \<Longrightarrow> s \<in> set (all_streams a sid)"
  "x \<in> set (stream_lasts a sid s) \<Longrightarrow> s \<in> set (all_streams a sid)"
  by (auto simp: stream_firsts_def stream_lasts_def set_all_streams)

lemma set_source_firsts:
  "set (concat (map (stream_firsts a sid) (all_streams a sid))) =
     set (map (\<lambda>r. meta_first_ts (sg_meta r)) (filter (\<lambda>r. sg_source r = sid) (ar_segments a))
       @ map (row_ts \<circ> snd) (filter (\<lambda>(i, r). i = sid \<and> live_for_row a (i, r)) (ar_wal a)))" (is "?l = ?r")
proof -
  have 1: "x \<in> ?l \<longleftrightarrow> (\<exists>s. x \<in> set (stream_firsts a sid s))" for x
    by (auto intro: stream_listed)
  have 2: "x \<in> set (stream_firsts a sid s) \<longleftrightarrow>
      (\<exists>r. r \<in> set (ar_segments a) \<and> sg_source r = sid \<and> sg_stream r = s \<and> x = meta_first_ts (sg_meta r))
      \<or> (\<exists>r. (sid, r) \<in> set (ar_wal a) \<and> row_stream r = s \<and> is_live a sid s (row_ts r) \<and> x = row_ts r)" for x s
    by (auto simp: stream_firsts_def set_stream_rows seg_of_def set_wal_of)
  have 3: "x \<in> ?r \<longleftrightarrow>
      (\<exists>r. r \<in> set (ar_segments a) \<and> sg_source r = sid \<and> x = meta_first_ts (sg_meta r))
      \<or> (\<exists>r. (sid, r) \<in> set (ar_wal a) \<and> is_live a sid (row_stream r) (row_ts r) \<and> x = row_ts r)" for x
    unfolding set_append Un_iff set_map image_iff Bex_def live_for_row_def comp_def by auto
  show ?thesis by (rule set_eqI) (unfold 1 2 3, blast)
qed

lemma set_source_lasts:
  "set (concat (map (stream_lasts a sid) (all_streams a sid))) =
     set (map (\<lambda>r. meta_last_ts (sg_meta r)) (filter (\<lambda>r. sg_source r = sid) (ar_segments a))
       @ map (row_ts \<circ> snd) (filter (\<lambda>(i, r). i = sid \<and> live_for_row a (i, r)) (ar_wal a)))" (is "?l = ?r")
proof -
  have 1: "x \<in> ?l \<longleftrightarrow> (\<exists>s. x \<in> set (stream_lasts a sid s))" for x
    by (auto intro: stream_listed)
  have 2: "x \<in> set (stream_lasts a sid s) \<longleftrightarrow>
      (\<exists>r. r \<in> set (ar_segments a) \<and> sg_source r = sid \<and> sg_stream r = s \<and> x = meta_last_ts (sg_meta r))
      \<or> (\<exists>r. (sid, r) \<in> set (ar_wal a) \<and> row_stream r = s \<and> is_live a sid s (row_ts r) \<and> x = row_ts r)" for x s
    by (auto simp: stream_lasts_def set_stream_rows seg_of_def set_wal_of)
  have 3: "x \<in> ?r \<longleftrightarrow>
      (\<exists>r. r \<in> set (ar_segments a) \<and> sg_source r = sid \<and> x = meta_last_ts (sg_meta r))
      \<or> (\<exists>r. (sid, r) \<in> set (ar_wal a) \<and> is_live a sid (row_stream r) (row_ts r) \<and> x = row_ts r)" for x
    unfolding set_append Un_iff set_map image_iff Bex_def live_for_row_def comp_def by auto
  show ?thesis by (rule set_eqI) (unfold 1 2 3, blast)
qed

lemma source_span_time_span:
  "source_span (catalog_source a src) =
     opt_pair (fst (source_time_span a (src_id src))) (snd (source_time_span a (src_id src)))"
  unfolding source_span_def catalog_source_def source_time_span_def Let_def
  using hull_spans [where F = "stream_firsts a (src_id src)" and L = "stream_lasts a (src_id src)", OF firsts_lasts_empty, of "all_streams a (src_id src)"]
  by (simp only: source_catalog.simps map_map comp_def catalog_span_stream fst_conv snd_conv
      col_min_set_eq [OF set_source_firsts] col_max_set_eq [OF set_source_lasts])

text \<open>
  C33: the catalog agrees with the queries it stands for. Each source's span,
  assembled from its streams, is the one \<open>source_time_span\<close> answers from the tables;
  each source lists exactly the streams that hold a segment or a WAL row, once and
  in order; and of each stream it counts the segments and the rows a reader of that
  stream is handed.
\<close>

theorem catalog_agrees:
  "source_span (catalog_source a src) =
       opt_pair (fst (source_time_span a (src_id src))) (snd (source_time_span a (src_id src)))
   \<and> map sc_name (so_streams (catalog_source a src)) = all_streams a (src_id src)
   \<and> sorted_wrt (<) (all_streams a (src_id src))
   \<and> (s \<in> sc_name ` set (so_streams (catalog_source a src)) \<longleftrightarrow>
        \<not> (read_segments a (src_id src) s = [] \<and> read_wal a (src_id src) s = []))
   \<and> sc_segments (catalog_stream a sid s) = length (read_segments a sid s)
   \<and> catalog_rows (catalog_stream a sid s) =
       sum_list (map (meta_rows \<circ> sr_meta) (read_segments a sid s)) + length (live_wal a sid s)
   \<and> sc_bytes (catalog_stream a sid s) = sum_list (map (length \<circ> sr_bytes) (read_segments a sid s))"
proof -
  have names: "map sc_name (so_streams (catalog_source a src)) = all_streams a (src_id src)"
    by (simp add: catalog_source_def catalog_stream_def segment_span_def comp_def)
  then have "sc_name ` set (so_streams (catalog_source a src)) = set (all_streams a (src_id src))"
    by (metis set_map)
  then have listed: "s \<in> sc_name ` set (so_streams (catalog_source a src)) \<longleftrightarrow>
        \<not> (read_segments a (src_id src) s = [] \<and> read_wal a (src_id src) s = [])"
    by (simp add: set_all_streams read_segments_def read_wal_def)
  show ?thesis
    using source_span_time_span names listed
    by (simp add: all_streams_def catalog_stream_def segment_span_def read_segments_def to_segment_row_def
        catalog_rows_def total_rows_def stream_bytes_def live_wal_span_rows comp_def sum_list_order_by)
qed

subsection \<open>A range read is the whole read, cut to the range\<close>

definition overlaps :: "i64 \<Rightarrow> i64 \<Rightarrow> segment_row \<Rightarrow> bool" where
  "overlaps start stop r \<longleftrightarrow> meta_last_ts (sr_meta r) \<ge> start \<and> meta_first_ts (sr_meta r) \<le> stop"

lemma segments_overlapping_filter:
  "segments_overlapping a sid s start stop = filter (overlaps start stop) (read_segments a sid s)"
  by (simp add: segments_overlapping_def read_segments_def filter_order_by [symmetric] filter_map
      comp_def overlaps_def to_segment_row_def)

text \<open>Timestamps are 64-bit integers, so the widest range holds every one.\<close>

definition ts_ok :: "archive \<Rightarrow> bool" where
  "ts_ok a \<longleftrightarrow>
     (\<forall>r \<in> set (ar_segments a). i64_ok (meta_first_ts (sg_meta r)) \<and> i64_ok (meta_last_ts (sg_meta r)))
     \<and> (\<forall>r \<in> set (ar_wal a). i64_ok (row_ts (snd r)))"

lemma read_segments_ok:
  "ts_ok a \<Longrightarrow> r \<in> set (read_segments a sid s) \<Longrightarrow> overlaps i64_min i64_max r"
  by (auto simp: ts_ok_def read_segments_def to_segment_row_def overlaps_def set_stream_rows i64_ok_def)

text \<open>
  C32: a range read equals the whole read cut to the range. Over all of 64-bit
  time it is \<open>stream_segments\<close>, errors included; over any range its segments are
  exactly those of the whole read whose span meets the range, in the same order,
  and the rows it hands the encoder are exactly the live rows inside the range.
\<close>

theorem stream_range_correct:
  assumes "ts_ok a"
  shows "stream_range a sid s i64_min i64_max enc = stream_segments a sid s enc
    \<and> stream_range a sid s start stop enc =
        rbind (check_encoder_of a sid enc) (\<lambda>_.
          rmap (\<lambda>tail. map sr_bytes (filter (overlaps start stop) (read_segments a sid s))
              @ opt_list (map_option seg_bytes tail))
            (materialize_tail a enc sid s
              (filter (\<lambda>r. start \<le> row_ts r \<and> row_ts r \<le> stop) (live_wal a sid s))))
    \<and> (\<forall>r \<in> set (read_wal a sid s). start \<le> row_ts r \<and> row_ts r \<le> stop \<longrightarrow>
         r \<in> set (filter (\<lambda>r. start \<le> row_ts r \<and> row_ts r \<le> stop) (live_wal a sid s))
         \<or> (\<exists>x \<in> set (read_segments a sid s). row_ts r \<le> meta_last_ts (sr_meta x)))"
proof -
  have segs: "filter (overlaps i64_min i64_max) (read_segments a sid s) = read_segments a sid s"
    using read_segments_ok [OF assms] by (simp add: filter_id_conv)
  have rows: "filter (\<lambda>r. i64_min \<le> row_ts r \<and> row_ts r \<le> i64_max) (live_wal a sid s) = live_wal a sid s"
    using assms by (fastforce simp: filter_id_conv set_live_wal ts_ok_def i64_ok_def)
  have "r \<in> set (live_wal a sid s) \<or> (\<exists>x \<in> set (read_segments a sid s). row_ts r \<le> meta_last_ts (sr_meta x))"
    if "r \<in> set (read_wal a sid s)" for r
    using that by (fastforce simp: live_wal_read_wal is_live_def watermark_Some read_segments_def to_segment_row_def
        split: option.splits)
  with segs rows show ?thesis
    by (simp add: stream_range_def stream_segments_def stream_segments_snapshotted_def
        segments_overlapping_filter Let_def)
qed

subsection \<open>A seal changes nothing a reader is handed\<close>

lemma insert_encoded_sources:
  "insert_encoded sid a e = Inr b \<Longrightarrow> ar_sources b = ar_sources a"
  unfolding insert_encoded_def by (drule insert_segment_frame) simp

lemma commits_sources:
  assumes "commits a sid nxt n enc batch es b"
  shows "ar_sources b = ar_sources a"
proof -
  obtain c k where c: "rfold (insert_encoded sid) a es = Inr c" "b = c\<lparr>ar_clock := k\<rparr>"
    using commits_inserted [OF assms] by blast
  have "ar_sources c = ar_sources a"
    by (rule rfold_invariant [OF c(1), of "\<lambda>x. ar_sources x = ar_sources a"])
       (auto dest: insert_encoded_sources)
  then show ?thesis by (simp add: c(2))
qed

lemma prune_list_sources [simp]: "ar_sources (prune_list sid ps a) = ar_sources a"
  by (induction ps arbitrary: a) (auto simp: prune_list_def prune_wal_def)

lemma source_reads_cong:
  assumes "ar_sources b = ar_sources a"
  shows "source_uuid b sid = source_uuid a sid" "source_metadata b sid = source_metadata a sid"
    "check_encoder_of b sid enc = check_encoder_of a sid enc"
    "materialize_tail b enc sid s live = materialize_tail a enc sid s live"
    "has_source b sid = has_source a sid" "seal_context b sid s = seal_context a sid s"
  using assms by (simp_all add: source_uuid_def source_metadata_def find_source_def check_encoder_of_def
      materialize_tail_def has_source_def seal_context_def)

lemma materialize_tail_context:
  assumes "has_source a sid"
  shows "materialize_tail a enc sid s live = materialize enc (seal_context a sid s) live"
  using assms by (auto simp: materialize_tail_def has_source_def source_uuid_def seal_context_def)

lemma segments_bytes: "map sr_bytes (read_segments a sid s) = map sg_bytes (order_by sg_seq (stream_rows a sid s))"
  by (simp add: read_segments_def to_segment_row_def)

lemma map_seq_number_parts: "map en_seq (number_parts t q ps) = [q ..< q + length ps]"
  by (induction ps arbitrary: q) (simp_all add: upt_rec)

lemma map_bytes_number_parts: "map en_bytes (number_parts t q ps) = map seg_bytes ps"
  by (induction ps arbitrary: q) simp_all

text \<open>The bytes of a stream after a commit: those before it, then its parts.\<close>

lemma commits_read_segments:
  assumes C: "commits (ss_archive st) sid (ss_next_seq st) n enc batch es b" and ok: "maps_ok st"
  shows "map sr_bytes (read_segments (prune_list sid (take k (prune_points es)) b) sid t)
    = map sr_bytes (read_segments (ss_archive st) sid t)
      @ map seg_bytes (batch_parts (ss_archive st) sid n enc batch t)"
proof -
  let ?q = "or_zero (ss_next_seq st (sid, t))" and ?ps = "batch_parts (ss_archive st) sid n enc batch t"
  obtain new where new: "stream_rows b sid t = stream_rows (ss_archive st) sid t @ new"
    "map (\<lambda>x. (sg_seq x, sg_meta x, sg_bytes x)) new =
      map (\<lambda>e. (en_seq e, en_meta e, en_bytes e)) (number_parts t ?q ?ps)"
    using commits_rows [OF C, of sid t] by auto
  have seqs: "map sg_seq new = [?q ..< ?q + length ?ps]" and bytes: "map sg_bytes new = map seg_bytes ?ps"
    using arg_cong [OF new(2), of "map fst"] arg_cong [OF new(2), of "map (snd \<circ> snd)"]
    unfolding map_map comp_def fst_conv snd_conv by (simp_all add: map_seq_number_parts map_bytes_number_parts)
  have "order_by sg_seq (stream_rows (ss_archive st) sid t @ new)
      = order_by sg_seq (stream_rows (ss_archive st) sid t) @ new"
  proof (rule order_by_append)
    show "sorted (map sg_seq new)" by (simp add: seqs)
    have "?q \<le> sg_seq y" if "y \<in> set new" for y
    proof -
      have "sg_seq y \<in> set (map sg_seq new)" using that by simp
      then show ?thesis unfolding seqs by simp
    qed
    then show "\<forall>x \<in> set (stream_rows (ss_archive st) sid t). \<forall>y \<in> set new. sg_seq x \<le> sg_seq y"
      using maps_okD(3) [OF ok] by (meson less_imp_le less_le_trans)
  qed
  then show ?thesis by (simp add: segments_bytes new(1) bytes)
qed
lemma commits_read:
  assumes C: "commits (ss_archive st) sid (ss_next_seq st) n enc batch es b" and ok: "maps_ok st"
    and c: "c = prune_list sid (take k (prune_points es)) b"
  shows "stream_segments c sid t enc = rbind (check_encoder_of (ss_archive st) sid enc) (\<lambda>_.
      rmap (\<lambda>tail. map sr_bytes (read_segments (ss_archive st) sid t)
            @ map seg_bytes (batch_parts (ss_archive st) sid n enc batch t) @ opt_list (map_option seg_bytes tail))
        (materialize_tail (ss_archive st) enc sid t
          (let ps = batch_parts (ss_archive st) sid n enc batch t
           in if ps = [] then live_wal (ss_archive st) sid t
              else filter (\<lambda>r. seg_last_ts (last ps) < row_ts r) (live_wal (ss_archive st) sid t))))"
proof -
  have sources: "ar_sources c = ar_sources (ss_archive st)"
    by (simp add: c commits_sources [OF C])
  have live: "live_wal c sid t = (let ps = batch_parts (ss_archive st) sid n enc batch t
           in if ps = [] then live_wal (ss_archive st) sid t
              else filter (\<lambda>r. seg_last_ts (last ps) < row_ts r) (live_wal (ss_archive st) sid t))"
    unfolding c commits_pruned(2) [OF C prune_points_take] commits_after(2) [OF C]
    by (simp add: commits_last_of [OF C] Let_def)
  show ?thesis
    unfolding stream_segments_def stream_segments_snapshotted_def source_reads_cong(3,4) [OF sources] live
    unfolding c commits_read_segments [OF C ok] by simp
qed

lemma commits_read_other:
  assumes C: "commits a sid nxt n enc batch es b" and "i \<noteq> sid"
    and c: "c = prune_list sid (take k (prune_points es)) b"
  shows "stream_segments c i t enc' = stream_segments a i t enc'"
proof -
  have sources: "ar_sources c = ar_sources a" by (simp add: c commits_sources [OF C])
  have "stream_rows c i t = stream_rows a i t"
    using commits_rows [OF C, of i t] assms(2) by (auto simp: c)
  moreover have "live_wal c i t = live_wal a i t"
    unfolding c commits_pruned(2) [OF C prune_points_take] commits_after(2) [OF C] using assms(2) by simp
  ultimately show ?thesis
    by (simp add: stream_segments_def stream_segments_snapshotted_def source_reads_cong(3,4) [OF sources] segments_bytes)
qed

text \<open>The encoder covers a run to its end, or covers nothing of it.\<close>

definition covers_tail :: "archive \<Rightarrow> i64 \<Rightarrow> encoder \<Rightarrow> rstring \<Rightarrow> bool" where
  "covers_tail a sid enc t \<longleftrightarrow>
     (case materialize enc (seal_context a sid t) (live_wal a sid t) of
        Inr (Some s) \<Rightarrow> seg_last_ts s = row_ts (last (live_wal a sid t))
      | _ \<Rightarrow> True)"

lemma split_seal_whole:
  "length rows \<le> n \<Longrightarrow> split_seal enc ctx rows n = rmap opt_list (materialize enc ctx rows)"
  by (simp add: split_seal_def Let_def le_max_iff_disj)

lemma sealed_tail_empty:
  assumes "keys_ok a" "live_wal a sid t \<noteq> []"
  shows "filter (\<lambda>r. row_ts (last (live_wal a sid t)) < row_ts r) (live_wal a sid t) = []"
proof -
  have "row_ts r \<le> row_ts (last (live_wal a sid t))" if "r \<in> set (live_wal a sid t)" for r
    using sorted_live_wal [OF assms(1), of sid t] that
    by (cases "live_wal a sid t" rule: rev_cases) (auto simp: sorted_wrt_append)
  then show ?thesis by (force simp: filter_empty_conv)
qed

lemma whole_tail_part:
  assumes ok: "archive_ok a" and enc: "encode_batch a sid nx n enc batch = Inr (es, obs)"
    and t: "t \<in> set batch" "length (live_wal a sid t) \<le> n" "covers_tail a sid enc t"
    and ne: "batch_parts a sid n enc batch t \<noteq> []"
  obtains s where "batch_parts a sid n enc batch t = [s]"
    and "materialize_tail a enc sid t (live_wal a sid t) = Inr (Some s)"
    and "filter (\<lambda>r. seg_last_ts s < row_ts r) (live_wal a sid t) = []"
proof -
  let ?live = "live_wal a sid t"
  have "rmap opt_list (materialize enc (seal_context a sid t) ?live) = Inr (batch_parts a sid n enc batch t)"
    using encode_batch_Inr(1) [OF enc, of t] t by (simp add: batch_parts_def split_seal_whole)
  then obtain s where s: "materialize enc (seal_context a sid t) ?live = Inr (Some s)" "batch_parts a sid n enc batch t = [s]"
    using ne by (auto simp: result_simps opt_list_def split: option.splits)
  have live: "?live \<noteq> []" using s(1) by auto
  then have "has_source a sid"
    using ok hd_in_set [OF live] by (auto simp: archive_ok_def refs_ok_def has_source_iff set_live_wal simp del: hd_in_set)
  then have tail: "materialize_tail a enc sid t ?live = Inr (Some s)"
    using s(1) by (simp add: materialize_tail_context)
  have "seg_last_ts s = row_ts (last ?live)" using t(3) s(1) by (auto simp: covers_tail_def)
  then have "filter (\<lambda>r. seg_last_ts s < row_ts r) ?live = []"
    using sealed_tail_empty [of a sid t] ok live by (simp add: archive_ok_def)
  with s(2) tail show thesis by (rule that)
qed

text \<open>
  C3: a seal changes nothing a reader is handed. When each stream of the batch
  fits one segment and the encoder covers it to its end, every stream of every
  source reads byte for byte the same before and after the seal, errors included,
  whether the seal committed, was refused, or failed in a prune after the commit.
\<close>

theorem seal_keeps_reads:
  assumes "writer_ok st" and "seal_batch sid batch n enc st = (r, st')"
    and "\<forall>t \<in> set batch. length (live_wal (ss_archive st) sid t) \<le> n \<and> covers_tail (ss_archive st) sid enc t"
  shows "stream_segments (ss_archive st') i t enc = stream_segments (ss_archive st) i t enc"
proof (rule seal_batch_cases [OF assms(2)])
  assume "ss_archive st' = ss_archive st"
  then show ?thesis by simp
next
  fix es obs b k
  let ?a = "ss_archive st"
  assume enc: "encode_batch ?a sid (ss_next_seq st) n enc batch = Inr (es, obs)"
    and inst: "install_batch sid es obs ?a = Inr b"
    and st': "ss_archive st' = prune_list sid (take k (prune_points es)) b"
  have ok: "archive_ok ?a" "maps_ok st" using assms(1) by (simp_all add: writer_ok_def)
  have C: "commits ?a sid (ss_next_seq st) n enc batch es b"
    using ok(1) enc inst by (auto simp: commits_def)
  show ?thesis
  proof (cases "i = sid")
    case False
    then show ?thesis using commits_read_other [OF C False st'] by simp
  next
    case True
    note read = commits_read [OF C ok(2) st', of t]
    show ?thesis
    proof (cases "t \<in> set batch \<and> batch_parts ?a sid n enc batch t \<noteq> []")
      case False
      then have "batch_parts ?a sid n enc batch t = []" by (auto simp: batch_parts_def)
      then show ?thesis
        unfolding True read unfolding stream_segments_def stream_segments_snapshotted_def by simp
    next
      case sealed: True
      then obtain s where s: "batch_parts ?a sid n enc batch t = [s]"
        and tail: "materialize_tail ?a enc sid t (live_wal ?a sid t) = Inr (Some s)"
        and "filter (\<lambda>r. seg_last_ts s < row_ts r) (live_wal ?a sid t) = []"
        using whole_tail_part [OF ok(1) enc] assms(3) by blast
      then show ?thesis
        unfolding True read unfolding stream_segments_def stream_segments_snapshotted_def tail
        by (simp add: s Let_def opt_list_def materialize_tail_def)
    qed
  qed
qed

theorem seal_keeps_reads_witness:
  "stream_segments (ss_archive (snd (seal_batch 1 [str ''cpu''] 2 all_rows_encoder sample_state))) 1 (str ''cpu'') all_rows_encoder
     = Inr [[7, 7], [7, 7]]
   \<and> stream_rows (ss_archive (snd (seal_batch 1 [str ''cpu''] 2 all_rows_encoder sample_state))) 1 (str ''cpu'')
     \<noteq> stream_rows sample_archive 1 (str ''cpu'')"
proof -
  obtain r st' where s: "seal_batch 1 [str ''cpu''] 2 all_rows_encoder sample_state = (r, st')" by fastforce
  have "length (live_wal sample_archive 1 (str ''cpu'')) \<le> 2 \<and> covers_tail sample_archive 1 all_rows_encoder (str ''cpu'')"
    by code_simp
  with seal_keeps_reads [OF writer_ok_sample s, of 1 "str ''cpu''"]
  have "stream_segments (ss_archive st') 1 (str ''cpu'') all_rows_encoder = stream_segments sample_archive 1 (str ''cpu'') all_rows_encoder"
    by simp
  moreover have "stream_segments sample_archive 1 (str ''cpu'') all_rows_encoder = Inr [[7, 7], [7, 7]]"
    by code_simp
  moreover have "stream_rows (ss_archive (snd (seal_batch 1 [str ''cpu''] 2 all_rows_encoder sample_state))) 1 (str ''cpu'')
     \<noteq> stream_rows sample_archive 1 (str ''cpu'')"
    by code_simp
  ultimately show ?thesis by (simp add: s)
qed

lemma ts_ok_sample: "ts_ok sample_archive"
  by (simp add: ts_ok_def sample_archive_def create_archive_def sample_segment_row_def sample_row_def i64_ok_def
      i64_min_def i64_max_def)

theorem stream_range_correct_witness:
  "stream_range sample_archive 1 (str ''cpu'') i64_min i64_max all_rows_encoder
     = stream_segments sample_archive 1 (str ''cpu'') all_rows_encoder
   \<and> stream_range sample_archive 1 (str ''cpu'') 21 27 all_rows_encoder = Inr [[7]]"
proof -
  have "stream_range sample_archive 1 (str ''cpu'') 21 27 all_rows_encoder = Inr [[7]]"
    by code_simp
  with stream_range_correct [OF ts_ok_sample, where sid = 1 and s = "str ''cpu''" and enc = all_rows_encoder
      and start = 21 and stop = 27] show ?thesis by blast
qed

end
