(* ===== verification/Source_Copy.thy ===== *)
theory Source_Copy
  imports Compaction_Properties Documents Read_Properties
begin

section \<open>Copying sources into another archive (\<open>src/rewrite.rs\<close>)\<close>

text \<open>
  \<open>copy_sources_into\<close> writes every source of one archive into an open transaction on
  another, so it is a function of the two archives; the source is read in one
  snapshot. The bytes \<open>randomblob\<close> gives a source without an identity are a
  parameter, one answer per source. Copied whole, a source reads from the copy as it
  reads from the original, its live tail sealed on the way.
\<close>

subsection \<open>What a copy carries\<close>

record ('ty, 'ws) copy_spec =
  sp_start :: i64
  sp_end :: i64
  sp_keep_streams :: "(rstring \<Rightarrow> bool) option"
  sp_metadata_extra :: "label_map option"
  sp_keep_columns :: "'ty column_filter option"
  sp_writer_props :: "'ws writer_props option"

definition everything :: "('ty, 'ws) copy_spec" where
  "everything = \<lparr>sp_start = i64_min, sp_end = i64_max, sp_keep_streams = None, sp_metadata_extra = None,
     sp_keep_columns = None, sp_writer_props = None\<rparr>"

definition copy_props :: "('ty, 'col, 'ws) parquet \<Rightarrow> ('ty, 'ws) copy_spec \<Rightarrow> 'ws writer_props" where
  "copy_props lib spec = (case sp_writer_props spec of None \<Rightarrow> pq_default_props lib | Some p \<Rightarrow> p)"

definition shared_sources :: "archive \<Rightarrow> archive \<Rightarrow> rstring list" where
  "shared_sources a b =
    (let in_a = concat (map (opt_list \<circ> src_uuid) (read_sources a))
     in filter (\<lambda>u. u \<in> set in_a) (concat (map (opt_list \<circ> src_uuid) (read_sources b))))"

definition keeps_stream :: "('ty, 'ws) copy_spec \<Rightarrow> rstring \<Rightarrow> bool" where
  "keeps_stream spec name = (case sp_keep_streams spec of None \<Rightarrow> True | Some keep \<Rightarrow> keep name)"

text \<open>The column filter that applies to a stream: none for one it does not project.\<close>

definition stream_columns :: "('ty, 'ws) copy_spec \<Rightarrow> rstring \<Rightarrow> 'ty column_filter option" where
  "stream_columns spec table =
    (case sp_keep_columns spec of None \<Rightarrow> None | Some k \<Rightarrow> if cf_projects k table then Some k else None)"

subsection \<open>One stream\<close>

text \<open>One segment under the next number: projected, without its index, or as it is, with it.\<close>

definition store_segment ::
  "('ty, 'col, 'ws) parquet \<Rightarrow> ('ty, 'ws) copy_spec \<Rightarrow> i64 \<Rightarrow> rstring \<Rightarrow> nat \<times> archive \<Rightarrow>
   segment_row \<Rightarrow> (nat \<times> archive) result" where
  "store_segment lib spec sid table acc segment =
    (case acc of (seq, dst) \<Rightarrow>
      (case stream_columns spec table of
         Some keep \<Rightarrow>
           rbind (project_segment_columns lib (sr_bytes segment) keep (copy_props lib spec)) (\<lambda>projected.
             case projected of
               None \<Rightarrow> Inr (seq, dst)
             | Some bs \<Rightarrow> rmap (Pair (seq + 1)) (insert_segment sid table seq (sr_meta segment) bs dst))
       | None \<Rightarrow>
           rmap (Pair (seq + 1))
             (insert_segment_with_index sid table seq (sr_meta segment) (sr_bytes segment) (sr_caller_index segment) dst)))"

definition tail_segment :: "segment \<Rightarrow> segment_row" where
  "tail_segment s =
     \<lparr>sr_seq = 0, sr_meta = \<lparr>meta_rows = seg_rows s, meta_first_ts = seg_first_ts s, meta_last_ts = seg_last_ts s\<rparr>,
      sr_bytes = seg_bytes s, sr_caller_index = seg_index s\<rparr>"

definition copy_tail ::
  "('ty, 'col, 'ws) parquet \<Rightarrow> ('ty, 'ws) copy_spec \<Rightarrow> archive \<Rightarrow> source_row \<Rightarrow> encoder \<Rightarrow> i64 \<Rightarrow> rstring \<Rightarrow>
   nat \<times> archive \<Rightarrow> archive result" where
  "copy_tail lib spec src rec encoder sid table acc =
    (let tail = live_wal src (src_id rec) table
     in if tail = [] then Inr (snd acc)
        else if row_ts (last tail) < sp_start spec \<or> row_ts (hd tail) > sp_end spec then Inr (snd acc)
        else
          rbind (materialize encoder (with_source_uuid (new_context (src_id rec) table) (src_uuid rec)) tail) (\<lambda>materialized.
            case materialized of
              None \<Rightarrow> Inr (snd acc)
            | Some s \<Rightarrow> rmap snd (store_segment lib spec sid table acc (tail_segment s))))"

definition copy_stream ::
  "('ty, 'col, 'ws) parquet \<Rightarrow> ('ty, 'ws) copy_spec \<Rightarrow> archive \<Rightarrow> source_row \<Rightarrow> encoder \<Rightarrow> i64 \<Rightarrow>
   archive \<Rightarrow> rstring \<Rightarrow> archive result" where
  "copy_stream lib spec src rec encoder sid dst table =
    (if \<not> keeps_stream spec table then Inr dst
     else rbind (rfold (store_segment lib spec sid table) (0, dst)
                   (segments_overlapping src (src_id rec) table (sp_start spec) (sp_end spec)))
            (copy_tail lib spec src rec encoder sid table))"

subsection \<open>One source, and all of them\<close>

definition copied_meta :: "('ty, 'ws) copy_spec \<Rightarrow> source_meta \<Rightarrow> source_meta" where
  "copied_meta spec meta =
    (case sp_metadata_extra spec of
       None \<Rightarrow> meta
     | Some extra \<Rightarrow> meta\<lparr>sm_metadata := bt_extend (sm_metadata meta) extra\<rparr>)"

definition insert_copy ::
  "('ty, 'ws) copy_spec \<Rightarrow> bytes \<Rightarrow> source_row \<Rightarrow> archive \<Rightarrow> (i64 \<times> archive) result" where
  "insert_copy spec random rec dst =
     rmap (\<lambda>(sid, dst).
       let dst = (if src_complete rec then mark_complete sid dst else dst);
           dst = (if src_heartbeat rec \<noteq> None \<or> src_interval rec \<noteq> None
                  then set_heartbeat sid (src_heartbeat rec) (src_interval rec) dst else dst)
       in (sid, dst))
      (insert_source_sql random (copied_meta spec (src_meta rec)) (src_uuid rec) dst)"

definition copy_offset :: "i64 \<Rightarrow> archive \<Rightarrow> i64 \<times> i64 \<Rightarrow> archive result" where
  "copy_offset sid dst observation = insert_clock_offset sid (fst observation) (snd observation) dst"

definition copy_caller_rows ::
  "('ty, 'ws) copy_spec \<Rightarrow> archive \<Rightarrow> source_row \<Rightarrow> i64 \<Rightarrow> archive \<Rightarrow> rstring \<Rightarrow> archive result" where
  "copy_caller_rows spec src rec sid dst name =
    (if \<not> keeps_stream spec name then Inr dst
     else insert_caller_rows sid name (read_caller_rows src (src_id rec) name (sp_start spec) (sp_end spec)) dst)"

definition copy_source ::
  "('ty, 'col, 'ws) parquet \<Rightarrow> ('ty, 'ws) copy_spec \<Rightarrow> archive \<Rightarrow> encoder \<Rightarrow> (nat \<Rightarrow> bytes) \<Rightarrow>
   nat \<times> archive \<Rightarrow> source_row \<Rightarrow> (nat \<times> archive) result" where
  "copy_source lib spec src encoder random acc rec =
    (case acc of (copied, dst) \<Rightarrow>
      rbind (check_encoder (src_id rec) (sm_metadata (src_meta rec)) encoder) (\<lambda>_.
      rbind (insert_copy spec (random copied) rec dst) (\<lambda>(sid, dst).
      rbind (rfold (copy_stream lib spec src rec encoder sid) dst (all_streams src (src_id rec))) (\<lambda>dst.
      rbind (rfold (copy_offset sid) dst (read_clock_offsets src (src_id rec))) (\<lambda>dst.
      rbind (rfold (copy_caller_rows spec src rec sid) dst (caller_row_streams src (src_id rec))) (\<lambda>dst.
        Inr (copied + 1, dst)))))))"

definition copy_sources_into ::
  "('ty, 'col, 'ws) parquet \<Rightarrow> archive \<Rightarrow> ('ty, 'ws) copy_spec \<Rightarrow> encoder \<Rightarrow> (nat \<Rightarrow> bytes) \<Rightarrow>
   archive \<Rightarrow> (nat \<times> archive) result" where
  "copy_sources_into lib src spec encoder random dst =
     rbind (rfold (copy_source lib spec src encoder random) (0, dst) (read_sources src)) (\<lambda>(copied, dst).
     rbind (copy_documents src dst) (\<lambda>(_, dst). Inr (copied, dst)))"

definition copy_documents_into :: "archive \<Rightarrow> archive \<Rightarrow> (copied_documents \<times> archive) result" where
  "copy_documents_into src dst = tx_copy_documents_from src dst"

end
