(* ===== verification/Source_Copy_Properties.thy ===== *)
theory Source_Copy_Properties
  imports Source_Copy
begin

section \<open>What a copy of a source holds\<close>

text \<open>
  Copied with \<open>everything\<close>, each source of the origin reads from the destination as it
  reads from the origin, and what was in the destination is not touched.
\<close>

subsection \<open>A stream copied whole\<close>

lemma store_whole:
  assumes "sp_keep_columns spec = None" and "archive_ok dst"
    and "store_segment lib spec sid t (q, dst) x = Inr (q', dst')"
  shows "q' = Suc q \<and> archive_ok dst' \<and> only_stream sid t dst dst'
    \<and> (\<exists>row. stream_rows dst' sid t = stream_rows dst sid t @ [row] \<and> sg_seq row = q \<and> sg_meta row = sr_meta x
         \<and> sg_bytes row = sr_bytes x)"
proof -
  have ins: "insert_segment_with_index sid t q (sr_meta x) (sr_bytes x) (sr_caller_index x) dst = Inr dst'"
    and q: "q' = Suc q"
    using assms(1,3) by (auto simp: store_segment_def stream_columns_def result_simps)
  have "only_stream sid t dst dst'"
    unfolding only_stream_def
  proof (intro conjI allI impI)
    fix i s assume "(i, s) \<noteq> (sid, t)"
    then show "stream_rows dst' i s = stream_rows dst i s"
      using stream_rows_insert_segment [OF ins, of i s] by auto
  qed (use insert_segment_frame [OF ins] in simp_all)
  moreover have "\<exists>row. stream_rows dst' sid t = stream_rows dst sid t @ [row] \<and> sg_seq row = q \<and> sg_meta row = sr_meta x
         \<and> sg_bytes row = sr_bytes x"
    using stream_rows_insert_segment [OF ins, of sid t] by auto
  ultimately show ?thesis using q archive_ok_insert_segment [OF assms(2) ins] by blast
qed

text \<open>Rows numbered from 0, carrying the given segments.\<close>

definition numbered :: "segment_table_row list \<Rightarrow> segment_row list \<Rightarrow> bool" where
  "numbered rows xs \<longleftrightarrow> map sg_seq rows = [0 ..< length xs] \<and> map sg_meta rows = map sr_meta xs
     \<and> map sg_bytes rows = map sr_bytes xs"

lemma numbered_snoc:
  "numbered rows xs \<Longrightarrow> sg_seq row = length xs \<Longrightarrow> sg_meta row = sr_meta x \<Longrightarrow> sg_bytes row = sr_bytes x \<Longrightarrow>
   numbered (rows @ [row]) (xs @ [x])"
  by (simp add: numbered_def)

lemma numbered_read:
  assumes "numbered (stream_rows a sid t) xs"
  shows "map sr_bytes (read_segments a sid t) = map sr_bytes xs"
    and "map sr_meta (read_segments a sid t) = map sr_meta xs"
proof -
  have "sorted (map sg_seq (stream_rows a sid t))" using assms by (simp add: numbered_def)
  then have "read_segments a sid t = map (to_segment_row a) (stream_rows a sid t)"
    by (simp add: read_segments_def order_by_sorted)
  then show "map sr_bytes (read_segments a sid t) = map sr_bytes xs"
    and "map sr_meta (read_segments a sid t) = map sr_meta xs"
    using assms by (simp_all add: numbered_def to_segment_row_def comp_def)
qed

lemma store_all:
  assumes "rfold (store_segment lib spec sid t) (length ys, dst) xs = Inr (q', dst')"
    and "sp_keep_columns spec = None" "archive_ok dst" "numbered (stream_rows dst sid t) ys"
  shows "q' = length (ys @ xs) \<and> archive_ok dst' \<and> only_stream sid t dst dst' \<and> numbered (stream_rows dst' sid t) (ys @ xs)"
  using assms
proof (induction xs arbitrary: ys dst)
  case (Cons x xs)
  obtain q d where d: "store_segment lib spec sid t (length ys, dst) x = Inr (q, d)"
    "rfold (store_segment lib spec sid t) (q, d) xs = Inr (q', dst')"
    using Cons.prems(1) by (auto simp: result_simps)
  from store_whole [OF Cons.prems(2,3) d(1)]
  have one: "q = length (ys @ [x])" "archive_ok d" "only_stream sid t dst d" "numbered (stream_rows d sid t) (ys @ [x])"
    using numbered_snoc [OF Cons.prems(4)] by auto
  from Cons.IH [OF d(2) [unfolded one(1)] Cons.prems(2) one(2,4)] only_stream_trans [OF one(3)] show ?case by auto
qed simp

definition copied_segments ::
  "('ty, 'ws) copy_spec \<Rightarrow> archive \<Rightarrow> source_row \<Rightarrow> encoder \<Rightarrow> rstring \<Rightarrow> segment_row list \<Rightarrow> bool" where
  "copied_segments spec src rec enc t xs \<longleftrightarrow>
    (if \<not> keeps_stream spec t then xs = []
     else \<exists>tail. xs = segments_overlapping src (src_id rec) t (sp_start spec) (sp_end spec) @ map tail_segment (opt_list tail)
       \<and> (let rows = live_wal src (src_id rec) t in
          if rows = [] \<or> row_ts (last rows) < sp_start spec \<or> row_ts (hd rows) > sp_end spec then tail = None
          else materialize enc (with_source_uuid (new_context (src_id rec) t) (src_uuid rec)) rows = Inr tail))"

lemma copy_stream_whole:
  assumes "copy_stream lib spec src rec enc sid dst t = Inr dst'"
    and "sp_keep_columns spec = None" "archive_ok dst" "stream_rows dst sid t = []"
  shows "archive_ok dst' \<and> only_stream sid t dst dst'
    \<and> (\<exists>xs. copied_segments spec src rec enc t xs \<and> numbered (stream_rows dst' sid t) xs)"
proof (cases "keeps_stream spec t")
  case False
  then have "dst' = dst" using assms(1) by (simp add: copy_stream_def)
  with False assms(3,4) show ?thesis by (simp add: copied_segments_def numbered_def)
next
  case True
  let ?segs = "segments_overlapping src (src_id rec) t (sp_start spec) (sp_end spec)"
  obtain q d where d: "rfold (store_segment lib spec sid t) (0, dst) ?segs = Inr (q, d)"
    "copy_tail lib spec src rec enc sid t (q, d) = Inr dst'"
    using assms(1) True by (auto simp: copy_stream_def result_simps)
  have sealed: "q = length ?segs" "archive_ok d" "only_stream sid t dst d" "numbered (stream_rows d sid t) ?segs"
    using store_all [where ys = "[]", of lib spec sid t dst ?segs q d] d(1) assms(2-4) by (auto simp: numbered_def)
  let ?rows = "live_wal src (src_id rec) t"
  let ?out = "?rows = [] \<or> row_ts (last ?rows) < sp_start spec \<or> row_ts (hd ?rows) > sp_end spec"
  show ?thesis
  proof (cases ?out)
    case out: True
    then have "dst' = d" using d(2) by (auto simp: copy_tail_def Let_def split: if_splits)
    moreover have "copied_segments spec src rec enc t ?segs"
      unfolding copied_segments_def using True out by (auto intro!: exI [of _ None] simp: opt_list_def Let_def)
    ultimately show ?thesis using sealed by blast
  next
    case False
    then obtain m where m: "materialize enc (with_source_uuid (new_context (src_id rec) t) (src_uuid rec)) ?rows = Inr m"
      and rest: "(case m of None \<Rightarrow> Inr d | Some s \<Rightarrow> rmap snd (store_segment lib spec sid t (q, d) (tail_segment s))) = Inr dst'"
      using d(2) by (auto simp: copy_tail_def Let_def result_simps)
    have xs: "copied_segments spec src rec enc t (?segs @ map tail_segment (opt_list m))"
      unfolding copied_segments_def using True False m by (auto simp: Let_def)
    show ?thesis
    proof (cases m)
      case None
      with rest sealed xs show ?thesis by (auto simp: opt_list_def)
    next
      case (Some s)
      then obtain q' where s: "store_segment lib spec sid t (q, d) (tail_segment s) = Inr (q', dst')"
        using rest by (auto simp: result_simps)
      from store_whole [OF assms(2) sealed(2) this]
      have "archive_ok dst'" "only_stream sid t d dst'" "numbered (stream_rows dst' sid t) (?segs @ [tail_segment s])"
        using numbered_snoc [OF sealed(4)] sealed(1) by auto
      with xs Some only_stream_trans [OF sealed(3)] show ?thesis by (auto simp: opt_list_def)
    qed
  qed
qed

text \<open>All streams of a source: each copied once, into rows of its own.\<close>

definition only_source :: "i64 \<Rightarrow> archive \<Rightarrow> archive \<Rightarrow> bool" where
  "only_source sid a b \<longleftrightarrow>
     ar_wal b = ar_wal a \<and> ar_sources b = ar_sources a
     \<and> (\<forall>i t. i \<noteq> sid \<longrightarrow> stream_rows b i t = stream_rows a i t)
     \<and> (\<forall>i. i \<noteq> sid \<longrightarrow> filter (\<lambda>(j, _). j = i) (ar_clock b) = filter (\<lambda>(j, _). j = i) (ar_clock a)
          \<and> (\<forall>s. caller_of b i s = caller_of a i s))"

lemma only_source_refl [simp]: "only_source sid a a"
  by (simp add: only_source_def)

lemma only_source_trans: "only_source sid a b \<Longrightarrow> only_source sid b c \<Longrightarrow> only_source sid a c"
  by (simp add: only_source_def)

lemma only_stream_source: "only_stream sid t a b \<Longrightarrow> only_source sid a b"
  by (simp add: only_stream_def only_source_def caller_of_def)

lemma copy_streams_whole:
  assumes "rfold (copy_stream lib spec src rec enc sid) dst ts = Inr dst'"
    and "sp_keep_columns spec = None" "archive_ok dst" "distinct ts"
    and "\<forall>t \<in> set ts. stream_rows dst sid t = []"
  shows "archive_ok dst' \<and> only_source sid dst dst' \<and> ar_clock dst' = ar_clock dst \<and> ar_caller dst' = ar_caller dst
    \<and> (\<forall>t. t \<notin> set ts \<longrightarrow> stream_rows dst' sid t = stream_rows dst sid t)
    \<and> (\<forall>t \<in> set ts. \<exists>xs. copied_segments spec src rec enc t xs \<and> numbered (stream_rows dst' sid t) xs)"
  using assms
proof (induction ts arbitrary: dst)
  case (Cons t ts)
  obtain d where d: "copy_stream lib spec src rec enc sid dst t = Inr d"
    "rfold (copy_stream lib spec src rec enc sid) d ts = Inr dst'"
    using Cons.prems(1) by (auto simp: result_simps)
  have "stream_rows dst sid t = []" using Cons.prems(5) by simp
  from copy_stream_whole [OF d(1) Cons.prems(2,3) this]
  have one: "archive_ok d" "only_stream sid t dst d"
    "\<exists>xs. copied_segments spec src rec enc t xs \<and> numbered (stream_rows d sid t) xs" by auto
  have other: "stream_rows d sid u = stream_rows dst sid u" if "u \<noteq> t" for u
    using one(2) that by (simp add: only_stream_def)
  have fresh: "\<forall>u \<in> set ts. stream_rows d sid u = []"
    using Cons.prems(4,5) other by (metis distinct.simps(2) list.set_intros(2))
  have "distinct ts" using Cons.prems(4) by simp
  note IH = Cons.IH [OF d(2) Cons.prems(2) one(1) this fresh]
  have "only_source sid dst dst'"
    using only_source_trans [OF only_stream_source [OF one(2)]] IH by blast
  moreover have "stream_rows dst' sid t = stream_rows d sid t" using IH Cons.prems(4) by simp
  ultimately show ?case
    using IH one(2,3) other by (auto simp: only_stream_def)
qed simp

subsection \<open>A source copied whole\<close>

lemma update_new_source:
  assumes "sid \<notin> source_ids a" "src_id row = sid"
  shows "update_source sid f (a\<lparr>ar_sources := ar_sources a @ [row]\<rparr>) = a\<lparr>ar_sources := ar_sources a @ [f row]\<rparr>"
proof -
  have "map (\<lambda>r. if src_id r = sid then f r else r) (ar_sources a) = ar_sources a"
    using assms(1) by (intro map_idI) (auto simp: source_ids_def)
  then show ?thesis by (simp add: update_source_def assms(2))
qed

text \<open>What the row of a copied source says.\<close>

definition copied_row :: "('ty, 'ws) copy_spec \<Rightarrow> source_row \<Rightarrow> source_row \<Rightarrow> bool" where
  "copied_row spec rec row \<longleftrightarrow>
     src_meta row = copied_meta spec (src_meta rec) \<and> src_complete row = src_complete rec
     \<and> src_heartbeat row = src_heartbeat rec \<and> src_interval row = src_interval rec
     \<and> (\<exists>u. src_uuid row = Some u \<and> (\<forall>v. src_uuid rec = Some v \<longrightarrow> u = v))"

lemma insert_copy_correct:
  assumes "insert_copy spec random rec dst = Inr (sid, d)" and ok: "archive_ok dst"
  shows "archive_ok d \<and> sid \<notin> source_ids dst
    \<and> (\<exists>row. d = dst\<lparr>ar_sources := ar_sources dst @ [row]\<rparr> \<and> src_id row = sid \<and> copied_row spec rec row)"
proof -
  obtain d0 where d0: "insert_source_sql random (copied_meta spec (src_meta rec)) (src_uuid rec) dst = Inr (sid, d0)"
    and d: "d = (let dst = (if src_complete rec then mark_complete sid d0 else d0)
       in if src_heartbeat rec \<noteq> None \<or> src_interval rec \<noteq> None
          then set_heartbeat sid (src_heartbeat rec) (src_interval rec) dst else dst)"
    using assms(1) by (auto simp: insert_copy_def result_simps Let_def)
  obtain u where u: "(case src_uuid rec of Some u \<Rightarrow> Inr u | None \<Rightarrow> mint_uuid random) = Inr u"
    and row: "d0 = dst\<lparr>ar_sources := ar_sources dst @
         [\<lparr>src_id = sid, src_meta = copied_meta spec (src_meta rec), src_uuid = Some u, src_complete = False,
           src_heartbeat = None, src_interval = None\<rparr>]\<rparr>"
    using d0 by (auto simp: insert_source_sql_def result_simps Let_def)
  have fresh: "sid \<notin> source_ids dst" using insert_source_Inr [OF d0] by blast
  have uuid: "\<forall>v. src_uuid rec = Some v \<longrightarrow> u = v" using u by auto
  define row where "row = \<lparr>src_id = sid, src_meta = copied_meta spec (src_meta rec), src_uuid = Some u,
    src_complete = src_complete rec, src_heartbeat = src_heartbeat rec, src_interval = src_interval rec\<rparr>"
  have "d = dst\<lparr>ar_sources := ar_sources dst @ [row]\<rparr>"
    unfolding d row Let_def row_def
    by (cases "src_complete rec"; cases "src_heartbeat rec"; cases "src_interval rec")
       (simp_all add: mark_complete_def set_heartbeat_def update_new_source [OF fresh])
  moreover have "archive_ok d0" by (rule archive_ok_insert_source [OF ok d0])
  then have "archive_ok d"
    unfolding d Let_def mark_complete_def set_heartbeat_def by (auto intro!: archive_ok_update_source)
  ultimately show ?thesis
    using fresh uuid by (auto simp: row_def copied_row_def)
qed

lemma copy_offsets:
  assumes "rfold (copy_offset sid) dst offs = Inr dst'" and "archive_ok dst"
    and "distinct (map fst offs)" and "\<forall>x \<in> set offs. (sid, fst x) \<notin> (\<lambda>(i, t, _). (i, t)) ` set (ar_clock dst)"
  shows "dst' = dst\<lparr>ar_clock := ar_clock dst @ map (Pair sid) offs\<rparr> \<and> archive_ok dst'"
  using assms
proof (induction offs arbitrary: dst)
  case (Cons x offs)
  obtain d where "copy_offset sid dst x = Inr d" and d2: "rfold (copy_offset sid) d offs = Inr dst'"
    using Cons.prems(1) by (auto simp: result_simps)
  then have d: "insert_clock_offset sid (fst x) (snd x) dst = Inr d" by (simp add: copy_offset_def)
  have d_eq: "d = dst\<lparr>ar_clock := ar_clock dst @ [(sid, x)]\<rparr>"
    using d Cons.prems(4) by (auto simp: insert_clock_offset_def constraint_error_def split: if_splits)
  have "\<forall>y \<in> set offs. (sid, fst y) \<notin> (\<lambda>(i, t, _). (i, t)) ` set (ar_clock d)"
    using Cons.prems(3,4) by (cases x) (auto simp: d_eq)
  moreover have "distinct (map fst offs)" using Cons.prems(3) by simp
  ultimately have IH: "dst' = d\<lparr>ar_clock := ar_clock d @ map (Pair sid) offs\<rparr>" "archive_ok dst'"
    using Cons.IH [OF d2 archive_ok_clock [OF Cons.prems(2) d]] by blast+
  have "dst' = dst\<lparr>ar_clock := ar_clock dst @ map (Pair sid) (x # offs)\<rparr>"
    unfolding IH(1) by (simp add: d_eq)
  with IH(2) show ?case by blast
qed simp

lemma caller_of_append:
  "caller_of (a\<lparr>ar_caller := ar_caller a @ map (\<lambda>r. (sid, n, r)) rows\<rparr>) i s
     = caller_of a i s @ (if i = sid \<and> s = n then rows else [])"
  by (simp add: caller_of_def filter_map comp_def) (auto simp: filter_empty_conv)

lemma copy_callers:
  assumes "rfold (copy_caller_rows spec src rec sid) dst ns = Inr dst'" and "archive_ok dst" and "distinct ns"
  shows "archive_ok dst' \<and> (\<exists>c. dst' = dst\<lparr>ar_caller := c\<rparr>)
    \<and> (\<forall>i s. caller_of dst' i s = caller_of dst i s
         @ (if i = sid \<and> s \<in> set ns \<and> keeps_stream spec s
            then read_caller_rows src (src_id rec) s (sp_start spec) (sp_end spec) else []))"
  using assms
proof (induction ns arbitrary: dst)
  case Nil
  then show ?case by (auto intro: exI [of _ "ar_caller dst"])
next
  case (Cons n ns)
  let ?rows = "if keeps_stream spec n then read_caller_rows src (src_id rec) n (sp_start spec) (sp_end spec) else []"
  obtain d where d: "copy_caller_rows spec src rec sid dst n = Inr d"
    "rfold (copy_caller_rows spec src rec sid) d ns = Inr dst'"
    using Cons.prems(1) by (auto simp: result_simps)
  have eq: "d = dst\<lparr>ar_caller := ar_caller dst @ map (\<lambda>r. (sid, n, r)) ?rows\<rparr> \<and> archive_ok d"
    using d(1) Cons.prems(2) by (auto simp: copy_caller_rows_def dest: insert_caller_rows_eq archive_ok_caller split: if_splits)
  then have "caller_of d i s = caller_of dst i s @ (if i = sid \<and> s = n then ?rows else [])" for i s
    by (metis caller_of_append)
  moreover from Cons.IH [OF d(2)] eq Cons.prems(3)
  have "archive_ok dst'" "\<exists>c. dst' = d\<lparr>ar_caller := c\<rparr>"
    "\<forall>i s. caller_of dst' i s = caller_of d i s
         @ (if i = sid \<and> s \<in> set ns \<and> keeps_stream spec s
            then read_caller_rows src (src_id rec) s (sp_start spec) (sp_end spec) else [])" by auto
  moreover have "\<exists>c. dst' = dst\<lparr>ar_caller := c\<rparr>" using calculation(3) eq by auto
  ultimately show ?case using Cons.prems(3) by auto
qed

lemma sorted_clock_offsets:
  assumes "archive_ok a"
  shows "sorted_wrt (<) (map fst (read_clock_offsets a sid))"
proof -
  have d: "distinct (map (\<lambda>(i, ts, _). (i, ts)) (ar_clock a))" using assms by (simp add: archive_ok_defs)
  have "distinct (map fst (map snd (filter (\<lambda>(i, _). i = sid) xs)))"
    if "distinct (map (\<lambda>(i, ts, _). (i, ts)) xs)" for xs :: "(i64 \<times> i64 \<times> i64) list"
    using that by (induction xs) (auto simp: image_iff)
  with d show ?thesis unfolding read_clock_offsets_def by (intro strict_sorted_order_by) simp
qed

definition copied_source ::
  "('ty, 'ws) copy_spec \<Rightarrow> archive \<Rightarrow> encoder \<Rightarrow> source_row \<Rightarrow> i64 \<Rightarrow> archive \<Rightarrow> bool" where
  "copied_source spec src enc rec sid d \<longleftrightarrow>
     (\<exists>row. find_source d sid = Some row \<and> copied_row spec rec row)
     \<and> check_encoder (src_id rec) (sm_metadata (src_meta rec)) enc = Inr ()
     \<and> (\<forall>t. wal_of d sid t = [] \<and> (\<exists>xs. copied_segments spec src rec enc t xs \<and> numbered (stream_rows d sid t) xs))
     \<and> read_clock_offsets d sid = read_clock_offsets src (src_id rec)
     \<and> (\<forall>s. caller_of d sid s = (if keeps_stream spec s
            then read_caller_rows src (src_id rec) s (sp_start spec) (sp_end spec) else []))"

text \<open>A write that leaves every source that was there as it was.\<close>

definition keeps_sources :: "archive \<Rightarrow> archive \<Rightarrow> bool" where
  "keeps_sources a b \<longleftrightarrow> source_ids a \<subseteq> source_ids b
     \<and> (\<forall>i \<in> source_ids a. find_source b i = find_source a i \<and> read_clock_offsets b i = read_clock_offsets a i
          \<and> (\<forall>t. stream_rows b i t = stream_rows a i t \<and> wal_of b i t = wal_of a i t \<and> caller_of b i t = caller_of a i t))"

lemma keeps_sources_trans: "keeps_sources a b \<Longrightarrow> keeps_sources b c \<Longrightarrow> keeps_sources a c"
  unfolding keeps_sources_def by (metis subset_iff)

lemma find_source_ids: "find_source a i = Some row \<Longrightarrow> i \<in> source_ids a"
  by (auto simp: find_source_def source_ids_def find_Some_iff)

lemma copied_source_keeps:
  "copied_source spec src enc rec sid a \<Longrightarrow> keeps_sources a b \<Longrightarrow> copied_source spec src enc rec sid b"
  using find_source_ids [of a sid] unfolding copied_source_def keeps_sources_def by metis

lemma no_rows_of_absent:
  assumes "archive_ok a" "sid \<notin> source_ids a"
  shows "stream_rows a sid t = []" "wal_of a sid t = []" "caller_of a sid t = []"
    "filter (\<lambda>(j, _). j = sid) (ar_clock a) = []"
  using assms archive_ok_refs(1-3) [OF assms(1)]
  by (auto simp: stream_rows_def seg_of_def wal_of_def caller_of_def filter_empty_conv archive_ok_defs)

lemma copied_nothing: "t \<notin> set (all_streams src (src_id rec)) \<Longrightarrow> copied_segments spec src rec enc t []"
  by (auto simp: copied_segments_def set_all_streams segments_overlapping_def live_wal_def opt_list_def Let_def
      intro!: exI [of _ None])

lemma caller_rows_absent: "s \<notin> set (caller_row_streams a sid) \<Longrightarrow> read_caller_rows a sid s lo hi = []"
  by (force simp: caller_row_streams_def read_caller_rows_def caller_of_def filter_empty_conv image_iff)

lemma copy_source_correct:
  assumes "copy_source lib spec src enc random (k, dst) rec = Inr (n, dst')"
    and none: "sp_keep_columns spec = None" and ok: "archive_ok dst" and src: "archive_ok src"
  shows "n = Suc k \<and> archive_ok dst' \<and> keeps_sources dst dst'
    \<and> (\<exists>sid. sid \<notin> source_ids dst \<and> sid \<in> source_ids dst' \<and> copied_source spec src enc rec sid dst')"
proof -
  obtain sid d1 d2 d3 where chk: "check_encoder (src_id rec) (sm_metadata (src_meta rec)) enc = Inr ()"
    and d1: "insert_copy spec (random k) rec dst = Inr (sid, d1)"
    and d2: "rfold (copy_stream lib spec src rec enc sid) d1 (all_streams src (src_id rec)) = Inr d2"
    and d3: "rfold (copy_offset sid) d2 (read_clock_offsets src (src_id rec)) = Inr d3"
    and d4: "rfold (copy_caller_rows spec src rec sid) d3 (caller_row_streams src (src_id rec)) = Inr dst'"
    and n: "n = Suc k"
    using assms(1) by (auto simp: copy_source_def result_simps)
  let ?ts = "all_streams src (src_id rec)" and ?offs = "read_clock_offsets src (src_id rec)"
  obtain row where row: "d1 = dst\<lparr>ar_sources := ar_sources dst @ [row]\<rparr>" "src_id row = sid" "copied_row spec rec row"
    and ok1: "archive_ok d1" and fresh: "sid \<notin> source_ids dst"
    using insert_copy_correct [OF d1 ok] by blast
  have frame1: "stream_rows d1 i t = stream_rows dst i t" "wal_of d1 i t = wal_of dst i t"
    "caller_of d1 i t = caller_of dst i t" "ar_clock d1 = ar_clock dst" for i t
    by (simp_all add: row(1) frame_simps caller_of_def)
  note absent = no_rows_of_absent [OF ok fresh]
  have "\<forall>t \<in> set ?ts. stream_rows d1 sid t = []" using absent(1) by (simp add: frame1)
  from copy_streams_whole [OF d2 none ok1 _ this]
  have s2: "archive_ok d2" "only_source sid d1 d2" "ar_clock d2 = ar_clock d1" "ar_caller d2 = ar_caller d1"
    "\<And>t. t \<notin> set ?ts \<Longrightarrow> stream_rows d2 sid t = stream_rows d1 sid t"
    "\<And>t. t \<in> set ?ts \<Longrightarrow> \<exists>xs. copied_segments spec src rec enc t xs \<and> numbered (stream_rows d2 sid t) xs"
    by (auto simp: all_streams_def)
  have streams: "\<exists>xs. copied_segments spec src rec enc t xs \<and> numbered (stream_rows d2 sid t) xs" for t
  proof (cases "t \<in> set ?ts")
    case False
    then have "stream_rows d2 sid t = []" using s2(5) absent(1) by (simp add: frame1)
    then show ?thesis using copied_nothing [OF False] by (auto simp: numbered_def)
  qed (rule s2(6))
  have sorted: "sorted_wrt (<) (map fst ?offs)" by (rule sorted_clock_offsets [OF src])
  have "\<forall>x \<in> set ?offs. (sid, fst x) \<notin> (\<lambda>(i, t, _). (i, t)) ` set (ar_clock d2)"
    using absent(4) by (auto simp: s2(3) frame1(4) filter_empty_conv)
  moreover have "distinct (map fst ?offs)" using sorted strict_sorted_iff by blast
  ultimately have s3: "d3 = d2\<lparr>ar_clock := ar_clock d2 @ map (Pair sid) ?offs\<rparr>" "archive_ok d3"
    using copy_offsets [OF d3 s2(1)] by blast+
  obtain c where s4: "archive_ok dst'" "dst' = d3\<lparr>ar_caller := c\<rparr>"
    and callers: "\<And>i s. caller_of dst' i s = caller_of d3 i s
         @ (if i = sid \<and> s \<in> set (caller_row_streams src (src_id rec)) \<and> keeps_stream spec s
            then read_caller_rows src (src_id rec) s (sp_start spec) (sp_end spec) else [])"
    using copy_callers [OF d4 s3(2)] by (auto simp: caller_row_streams_def)
  have rows: "stream_rows dst' i t = stream_rows d2 i t" "wal_of dst' i t = wal_of dst i t" for i t
    using s2(2) by (simp_all add: s4(2) s3(1) frame_simps only_source_def wal_of_def row(1))
  have clock: "ar_clock dst' = ar_clock dst @ map (Pair sid) ?offs"
    by (simp add: s4(2) s3(1) s2(3) frame1(4))
  have sources: "ar_sources dst' = ar_sources dst @ [row]"
    using s2(2) by (simp add: s4(2) s3(1) only_source_def row(1))
  then have ids: "source_ids dst' = insert sid (source_ids dst)"
    by (auto simp: source_ids_def row(2))
  have caller: "caller_of d3 i s = caller_of dst i s" for i s
    using frame1(3) by (simp add: s3(1) caller_of_def s2(4))
  have "find_source dst' sid = Some row"
  proof -
    have "find (\<lambda>r. src_id r = sid) (ar_sources dst) = None"
      using fresh by (auto simp: find_None_iff source_ids_def)
    then show ?thesis by (simp add: find_source_def sources find_append row(2))
  qed
  moreover have "read_clock_offsets dst' sid = ?offs"
    using absent(4) sorted by (simp add: read_clock_offsets_def clock filter_map comp_def case_prod_beta
        order_by_sorted strict_sorted_imp_sorted)
  moreover have "caller_of dst' sid s = (if keeps_stream spec s
      then read_caller_rows src (src_id rec) s (sp_start spec) (sp_end spec) else [])" for s
    using absent(3) caller_rows_absent [of s src "src_id rec"] by (auto simp: callers caller)
  ultimately have "copied_source spec src enc rec sid dst'"
    using row(3) streams absent(2) chk by (auto simp: copied_source_def rows)
  moreover have "keeps_sources dst dst'"
    unfolding keeps_sources_def
  proof (intro conjI ballI allI)
    fix i t assume i: "i \<in> source_ids dst"
    then have ne: "i \<noteq> sid" using fresh by blast
    show "find_source dst' i = find_source dst i"
      using ne row(2) by (auto simp: find_source_def sources find_append split: option.splits)
    show "read_clock_offsets dst' i = read_clock_offsets dst i"
      using ne by (simp add: read_clock_offsets_def clock filter_map comp_def)
    show "stream_rows dst' i t = stream_rows dst i t"
      using ne s2(2) by (simp add: rows only_source_def frame1)
    show "wal_of dst' i t = wal_of dst i t" by (simp add: rows)
    show "caller_of dst' i t = caller_of dst i t" using ne by (simp add: callers caller)
  qed (use ids in blast)
  ultimately show ?thesis using n s4(1) fresh ids by blast
qed

lemma copy_all_sources:
  assumes "rfold (copy_source lib spec src enc random) (k, dst) recs = Inr (n, dst')"
    and "sp_keep_columns spec = None" and "archive_ok dst" and "archive_ok src"
  shows "n = k + length recs \<and> archive_ok dst' \<and> keeps_sources dst dst'
    \<and> (\<exists>ids. distinct ids \<and> set ids \<inter> source_ids dst = {}
         \<and> list_all2 (\<lambda>rec sid. copied_source spec src enc rec sid dst') recs ids)"
  using assms(1,3)
proof (induction recs arbitrary: k dst)
  case Nil
  then show ?case by (auto simp: keeps_sources_def intro: exI [of _ "[]"])
next
  case (Cons rec recs)
  obtain k1 d where d: "copy_source lib spec src enc random (k, dst) rec = Inr (k1, d)"
    "rfold (copy_source lib spec src enc random) (k1, d) recs = Inr (n, dst')"
    using Cons.prems(1) by (auto simp: result_simps)
  from copy_source_correct [OF d(1) assms(2) Cons.prems(2) assms(4)] obtain sid where
    one: "k1 = Suc k" "archive_ok d" "keeps_sources dst d" "sid \<notin> source_ids dst" "sid \<in> source_ids d"
      "copied_source spec src enc rec sid d" by blast
  from Cons.IH [OF d(2) one(2)] obtain ids where
    rest: "n = k1 + length recs" "archive_ok dst'" "keeps_sources d dst'" "distinct ids"
      "set ids \<inter> source_ids d = {}" "list_all2 (\<lambda>rec sid. copied_source spec src enc rec sid dst') recs ids"
    by blast
  have "copied_source spec src enc rec sid dst'" by (rule copied_source_keeps [OF one(6) rest(3)])
  moreover have "source_ids dst \<subseteq> source_ids d" using one(3) by (simp add: keeps_sources_def)
  ultimately show ?case
    using one rest keeps_sources_trans [OF one(3) rest(3)]
    by (intro conjI exI [of _ "sid # ids"]) auto
qed

lemma copy_documents_frame:
  assumes "copy_documents src dst = Inr (rep, dst')"
  shows "\<exists>d. dst' = dst\<lparr>ar_documents := d\<rparr>"
proof (cases "doc_rows src = []")
  case True
  then show ?thesis using assms by (auto simp: copy_documents_def intro: exI [of _ "ar_documents dst"])
next
  case False
  then obtain cs where cs: "rfold copy_revision \<lparr>cs_dst = dst, cs_ids = [], cs_touched = [], cs_first = i64_max, cs_inserted = 0\<rparr>
      (order_by doc_id (doc_rows src)) = Inr cs" "dst' = cs_dst cs"
    using assms by (auto simp: copy_documents_def Let_def result_simps)
  have step: "\<exists>d. cs_dst s' = (cs_dst s)\<lparr>ar_documents := d\<rparr>" if "copy_revision s r = Inr s'" for s r s'
    using that insert_revision_Inr(5)
    by (fastforce simp: copy_revision_def Let_def result_simps split: option.splits if_splits
        intro: exI [of _ "ar_documents (cs_dst s)"])
  have "\<exists>d. cs_dst cs = dst\<lparr>ar_documents := d\<rparr>"
  proof (rule rfold_invariant [OF cs(1), of "\<lambda>s. \<exists>d. cs_dst s = dst\<lparr>ar_documents := d\<rparr>"])
    fix x s s' assume "\<exists>d. cs_dst s = dst\<lparr>ar_documents := d\<rparr>" "copy_revision s x = Inr s'"
    with step [of s x s'] show "\<exists>d. cs_dst s' = dst\<lparr>ar_documents := d\<rparr>" by auto
  qed (auto intro: exI [of _ "ar_documents dst"])
  then show ?thesis by (simp add: cs(2))
qed

lemma keeps_sources_documents: "keeps_sources a (a\<lparr>ar_documents := d\<rparr>)"
  by (simp add: keeps_sources_def source_ids_def find_source_def read_clock_offsets_def stream_rows_def wal_of_def caller_of_def)

subsection \<open>The copy reads as the original\<close>

definition caller_ts_ok :: "archive \<Rightarrow> bool" where
  "caller_ts_ok a \<longleftrightarrow> (\<forall>r \<in> set (ar_caller a). i64_ok (cr_ts (snd (snd r))))"

lemma find_source_in:
  assumes "archive_ok a" "rec \<in> set (read_sources a)"
  shows "find_source a (src_id rec) = Some rec"
proof -
  have "distinct (map src_id (ar_sources a))" "rec \<in> set (ar_sources a)"
    using assms by (simp_all add: archive_ok_defs read_sources_def)
  moreover have "find (\<lambda>r. src_id r = src_id rec) xs = Some rec"
    if "distinct (map src_id xs)" "rec \<in> set xs" for xs
    using that by (induction xs) auto
  ultimately show ?thesis by (simp add: find_source_def)
qed

lemma everything_reads:
  assumes src: "archive_ok src" "ts_ok src" "rec \<in> set (read_sources src)"
    and c: "copied_segments everything src rec enc t xs"
  shows "stream_segments_snapshotted src (src_id rec) t enc = Inr (map sr_bytes xs)"
proof -
  let ?rows = "live_wal src (src_id rec) t"
  have segs: "segments_overlapping src (src_id rec) t i64_min i64_max = read_segments src (src_id rec) t"
    using read_segments_ok [OF src(2)] by (simp add: segments_overlapping_filter filter_id_conv)
  have in_range: "\<not> (row_ts (last ?rows) < i64_min \<or> row_ts (hd ?rows) > i64_max)" if ne: "?rows \<noteq> []"
  proof -
    have "i64_ok (row_ts r)" if "r \<in> set ?rows" for r
      using that src(2) by (fastforce simp: ts_ok_def set_live_wal)
    from this [OF hd_in_set [OF ne]] this [OF last_in_set [OF ne]] show ?thesis by (simp add: i64_ok_def)
  qed
  have out: "(?rows = [] \<or> row_ts (last ?rows) < i64_min \<or> row_ts (hd ?rows) > i64_max) = (?rows = [])"
    using in_range by blast
  have "\<exists>tail. xs = segments_overlapping src (src_id rec) t i64_min i64_max @ map tail_segment (opt_list tail)
      \<and> (if ?rows = [] \<or> row_ts (last ?rows) < i64_min \<or> row_ts (hd ?rows) > i64_max then tail = None
      else materialize enc (with_source_uuid (new_context (src_id rec) t) (src_uuid rec)) ?rows = Inr tail)"
    using c unfolding copied_segments_def by (simp add: keeps_stream_def everything_def Let_def)
  then obtain tail where xs: "xs = read_segments src (src_id rec) t @ map tail_segment (opt_list tail)"
    and tail: "if ?rows = [] then tail = None
      else materialize enc (with_source_uuid (new_context (src_id rec) t) (src_uuid rec)) ?rows = Inr tail"
    unfolding out segs by blast
  have "source_uuid src (src_id rec) = Inr (src_uuid rec)"
    by (simp add: source_uuid_def find_source_in [OF src(1,3)])
  then have "materialize_tail src enc (src_id rec) t ?rows = Inr tail"
    using tail by (simp add: materialize_tail_def split: if_splits)
  then show ?thesis
    by (cases tail) (simp_all add: stream_segments_snapshotted_def xs opt_list_def tail_segment_def)
qed

lemma copied_reads:
  assumes src: "archive_ok src" "ts_ok src" "rec \<in> set (read_sources src)"
    and c: "copied_source (everything :: ('ty, 'ws) copy_spec) src enc rec sid d"
  shows "stream_segments_snapshotted d sid t enc = stream_segments_snapshotted src (src_id rec) t enc"
proof -
  obtain xs where xs: "copied_segments (everything :: ('ty, 'ws) copy_spec) src rec enc t xs" "numbered (stream_rows d sid t) xs"
    and wal: "wal_of d sid t = []"
    using c unfolding copied_source_def by blast
  have "live_wal d sid t = []" by (simp add: live_wal_def wal)
  then have "stream_segments_snapshotted d sid t enc = Inr (map sr_bytes xs)"
    by (simp add: stream_segments_snapshotted_def materialize_tail_def opt_list_def numbered_read(1) [OF xs(2)])
  then show ?thesis by (simp add: everything_reads [OF src xs(1)])
qed

lemma copied_caller_rows:
  assumes "caller_ts_ok src" and c: "copied_source everything src enc rec sid d"
  shows "read_caller_rows d sid s lo hi = read_caller_rows src (src_id rec) s lo hi"
proof -
  have "caller_of d sid s = read_caller_rows src (src_id rec) s i64_min i64_max"
    using c unfolding copied_source_def by (simp add: keeps_stream_def everything_def)
  also have "\<dots> = order_by cr_ts (caller_of src (src_id rec) s)"
  proof -
    have "\<forall>r \<in> set (caller_of src (src_id rec) s). cr_ts r \<ge> i64_min \<and> cr_ts r \<le> i64_max"
      using assms(1) by (fastforce simp: caller_of_def caller_ts_ok_def i64_ok_def)
    then show ?thesis by (simp add: read_caller_rows_def filter_id_conv)
  qed
  finally show ?thesis
    by (simp add: read_caller_rows_def filter_order_by order_by_sorted)
qed

text \<open>The identity of a source, across files.\<close>

definition same_source :: "source_row \<Rightarrow> source_row \<Rightarrow> bool" where
  "same_source rec row \<longleftrightarrow>
     src_meta row = src_meta rec \<and> src_complete row = src_complete rec
     \<and> src_heartbeat row = src_heartbeat rec \<and> src_interval row = src_interval rec
     \<and> (\<forall>u. src_uuid rec = Some u \<longrightarrow> src_uuid row = Some u)"

lemma copied_row_same: "copied_row everything rec row \<Longrightarrow> same_source rec row"
  by (auto simp: copied_row_def same_source_def copied_meta_def everything_def)

text \<open>
  C9: a whole copy reads as the original. \<open>copy_sources_into\<close> with \<open>everything\<close> adds one
  source to the destination for each source it read, in order, under ids that were
  free: with its identity, labels, metadata, completeness and heartbeat, its clock
  observations and caller rows, and every stream, so that reading the copy returns
  byte for byte what reading the original returns, its unsealed tail included. The
  sources that were there before are not touched.
\<close>

theorem copy_reads_as_original:
  fixes lib :: "('ty, 'col, 'ws) parquet"
  assumes "archive_ok src" and "ts_ok src" and "caller_ts_ok src" and "archive_ok dst"
    and "copy_sources_into lib src everything enc random dst = Inr (n, dst')"
  shows "n = length (ar_sources src) \<and> keeps_sources dst dst'
    \<and> (\<exists>ids. distinct ids \<and> set ids \<inter> source_ids dst = {}
        \<and> list_all2 (\<lambda>rec sid.
             (\<exists>row. find_source dst' sid = Some row \<and> same_source rec row)
             \<and> (\<forall>t. stream_segments_snapshotted dst' sid t enc = stream_segments_snapshotted src (src_id rec) t enc)
             \<and> read_clock_offsets dst' sid = read_clock_offsets src (src_id rec)
             \<and> (\<forall>s lo hi. read_caller_rows dst' sid s lo hi = read_caller_rows src (src_id rec) s lo hi))
           (read_sources src) ids)"
proof -
  obtain d rep where d: "rfold (copy_source lib everything src enc random) (0, dst) (read_sources src) = Inr (n, d)"
    and docs: "copy_documents src d = Inr (rep, dst')"
    using assms(5) by (auto simp: copy_sources_into_def result_simps)
  have none: "sp_keep_columns (everything :: ('ty, 'ws) copy_spec) = None" by (simp add: everything_def)
  from copy_all_sources [OF d none assms(4,1)] obtain ids where
    n: "n = length (read_sources src)" and keeps: "keeps_sources dst d" and ids: "distinct ids" "set ids \<inter> source_ids dst = {}"
    and all: "list_all2 (\<lambda>rec sid. copied_source (everything :: ('ty, 'ws) copy_spec) src enc rec sid d) (read_sources src) ids"
    by auto
  have k: "keeps_sources d dst'"
    using copy_documents_frame [OF docs] keeps_sources_documents by blast
  have "list_all2 (\<lambda>rec sid.
             (\<exists>row. find_source dst' sid = Some row \<and> same_source rec row)
             \<and> (\<forall>t. stream_segments_snapshotted dst' sid t enc = stream_segments_snapshotted src (src_id rec) t enc)
             \<and> read_clock_offsets dst' sid = read_clock_offsets src (src_id rec)
             \<and> (\<forall>s lo hi. read_caller_rows dst' sid s lo hi = read_caller_rows src (src_id rec) s lo hi))
           (read_sources src) ids"
    using all
  proof (rule list.rel_mono_strong)
    fix rec sid assume rec: "rec \<in> set (read_sources src)" and c: "copied_source (everything :: ('ty, 'ws) copy_spec) src enc rec sid d"
    have c': "copied_source (everything :: ('ty, 'ws) copy_spec) src enc rec sid dst'" by (rule copied_source_keeps [OF c k])
    then show "(\<exists>row. find_source dst' sid = Some row \<and> same_source rec row)
             \<and> (\<forall>t. stream_segments_snapshotted dst' sid t enc = stream_segments_snapshotted src (src_id rec) t enc)
             \<and> read_clock_offsets dst' sid = read_clock_offsets src (src_id rec)
             \<and> (\<forall>s lo hi. read_caller_rows dst' sid s lo hi = read_caller_rows src (src_id rec) s lo hi)"
      using copied_reads [OF assms(1,2) rec c'] copied_caller_rows [OF assms(3) c']
      copied_row_same unfolding copied_source_def by blast
  qed
  with n keeps_sources_trans [OF keeps k] ids show ?thesis by (auto simp: read_sources_def)
qed

definition sample_copy :: "(nat \<times> archive) result" where
  "sample_copy = copy_sources_into toy_parquet sample_archive everything all_rows_encoder (\<lambda>_. sample_random) create_archive"

theorem copy_reads_as_original_witness:
  "\<exists>dst' sid. sample_copy = Inr (1, dst')
    \<and> stream_segments_snapshotted dst' sid (str ''cpu'') all_rows_encoder = Inr [[7, 7], [7, 7]]
    \<and> live_wal sample_archive 1 (str ''cpu'') \<noteq> []"
proof -
  have ok: "is_ok sample_copy" by code_simp
  then obtain n dst' where c: "sample_copy = Inr (n, dst')"
    unfolding is_ok_def by (auto split: sum.splits)
  have "length (ar_sources sample_archive) = 1" "map src_id (read_sources sample_archive) = [1]"
    by code_simp+
  then obtain rec where rec: "read_sources sample_archive = [rec]" "src_id rec = 1" by auto
  have "caller_ts_ok sample_archive" by code_simp
  note copy = copy_reads_as_original [OF archive_ok_sample ts_ok_sample this archive_ok_create c [unfolded sample_copy_def]]
  have n: "n = 1" using copy \<open>length (ar_sources sample_archive) = 1\<close> by simp
  obtain sid where "stream_segments_snapshotted dst' sid (str ''cpu'') all_rows_encoder
        = stream_segments_snapshotted sample_archive 1 (str ''cpu'') all_rows_encoder"
    using copy unfolding rec(1) by (auto simp: list_all2_Cons1 rec(2))
  moreover have "stream_segments_snapshotted sample_archive 1 (str ''cpu'') all_rows_encoder = Inr [[7, 7], [7, 7]]"
    by code_simp
  ultimately show ?thesis using c n by (auto simp: sample_live)
qed

end
