(* ===== verification/Archive_Open.thy ===== *)
theory Archive_Open
  imports Archive_Store
begin

section \<open>Opening an archive (\<open>src/archive/sqlite.rs\<close>)\<close>

text \<open>
  How a file becomes an \<open>Archive\<close>: the header stamp and \<open>sniff\<close>, the gate every
  open passes (\<open>adopt_schema\<close>), the read open with its read-only-media and
  finished-archive cases, the write open, creation with its clean-up, the image
  an archive held as bytes is opened from, and the two places where a handle
  lifts a guard and puts it back (\<open>vacuum_into\<close>, \<open>Drop\<close>).

  What SQLite and the file system answer is a parameter: a \<open>connection\<close> holds the
  answer of each query the open code asks and of each statement it sends. The
  statements sent are logged in order, so that a theorem can say what a file was
  subjected to before it was refused.
\<close>

subsection \<open>The header stamp\<close>

definition application_id :: u32 where "application_id = 0x64656e64"

definition sqlite_magic :: bytes where "sqlite_magic = str ''SQLite format 3'' @ [0]"

definition be_u32 :: "bytes \<Rightarrow> nat \<Rightarrow> u32" where
  "be_u32 bs at = word_rcat (take 4 (drop at bs))"

datatype sniff = Stamped i64 | NotStamped

definition sniff_bytes :: "bytes \<Rightarrow> sniff" where
  "sniff_bytes bs =
     (if length bs < 100 \<or> take (length sqlite_magic) bs \<noteq> sqlite_magic then NotStamped
      else if be_u32 bs 68 = application_id then Stamped (uint (be_u32 bs 60))
      else NotStamped)"

text \<open>The outcome of opening the file and of \<open>read_exact\<close> on its first 100 bytes.\<close>

datatype header_read = OpenFailed | HeaderRead bytes | UnexpectedEof | ReadFailed

definition sniff_file :: "header_read \<Rightarrow> sniff result" where
  "sniff_file r =
     (case r of
        OpenFailed \<Rightarrow> Inl (Message ''failed to open'')
      | HeaderRead header \<Rightarrow> Inr (sniff_bytes header)
      | UnexpectedEof \<Rightarrow> Inr NotStamped
      | ReadFailed \<Rightarrow> Inl (Message ''failed to read''))"

text \<open>
  \<open>open_bytes\<close> before SQLite sees the image: a WAL-mode header (format versions 2
  and 2) is rewritten to rollback mode, since an in-memory database has no sidecar.
\<close>

definition open_bytes_image :: "bytes \<Rightarrow> bytes result" where
  "open_bytes_image bs =
     (if length bs < 20 \<or> take (length sqlite_magic) bs \<noteq> sqlite_magic
      then Inl (NotAnArchive (str ''<bytes>'') ''not a SQLite database'')
      else if bs ! 18 = 2 \<and> bs ! 19 = 2 then Inr (bs[18 := 1, 19 := 1])
      else Inr bs)"

subsection \<open>Connections and the statements sent on them\<close>

datatype statement =
    SetPageSize u32 | SetAutoVacuum | SetJournalModeWal
  | SetSynchronousFull | SetForeignKeysOn | SetWalAutocheckpoint nat | SetCacheSize int
  | SetQueryOnly bool | SetLockingExclusive | SetBusyTimeout
  | CreateSchema | CreateDocuments | SetApplicationId u32 | SetUserVersion i64
  | CheckpointPassive | SetNoCheckpointOnClose bool | VacuumInto rstring

record connection =
  cn_application_id :: "rusqlite_error + i64"
  cn_user_version :: "rusqlite_error + i64"
  cn_has_indexes :: "rusqlite_error + bool"           \<comment> \<open>\<open>sqlite_master\<close> has \<open>segment_indexes\<close>\<close>
  cn_segment_columns :: "rusqlite_error + rstring list"  \<comment> \<open>\<open>table_info(segments)\<close>\<close>
  cn_is_readonly :: "rusqlite_error + bool"
  cn_page_size :: "rusqlite_error + i64"
  cn_source_counts :: "rusqlite_error + nat \<times> nat"   \<comment> \<open>sources, unfinished ones\<close>
  cn_exec :: "statement \<Rightarrow> rusqlite_error + rstring"   \<comment> \<open>the row answered, if any\<close>

text \<open>A step that may fail and that adds to the log of statements sent.\<close>

type_synonym 'a io = "statement list \<Rightarrow> 'a result \<times> statement list"

definition io_return :: "'a result \<Rightarrow> 'a io" where
  "io_return r = (\<lambda>log. (r, log))"

definition io_bind :: "'a io \<Rightarrow> ('a \<Rightarrow> 'b io) \<Rightarrow> 'b io" where
  "io_bind m k = (\<lambda>log. case m log of (Inl e, log') \<Rightarrow> (Inl e, log') | (Inr x, log') \<Rightarrow> k x log')"

definition send :: "connection \<Rightarrow> string \<Rightarrow> statement \<Rightarrow> rstring io" where
  "send c context s =
     (\<lambda>log. (case cn_exec c s of Inl e \<Rightarrow> Inl (Sqlite context e) | Inr row \<Rightarrow> Inr row, log @ [s]))"

definition set_pragma :: "connection \<Rightarrow> statement \<Rightarrow> unit io" where
  "set_pragma c s = io_bind (send c ''failed to set pragma'' s) (\<lambda>_. io_return (Inr ()))"

fun send_all :: "connection \<Rightarrow> statement list \<Rightarrow> unit io" where
  "send_all c [] = io_return (Inr ())"
| "send_all c (s # ss) = io_bind (set_pragma c s) (\<lambda>_. send_all c ss)"

definition sqlite_err :: "string \<Rightarrow> rusqlite_error + 'a \<Rightarrow> 'a result" where
  "sqlite_err context r = (case r of Inl e \<Rightarrow> Inl (Sqlite context e) | Inr x \<Rightarrow> Inr x)"

definition pragma_u32 :: "rusqlite_error + i64 \<Rightarrow> nat result" where
  "pragma_u32 answer =
     rbind (sqlite_err ''failed to read pragma'' answer)
       (\<lambda>v. if 0 \<le> v \<and> v < 2 ^ 32 then Inr (nat v) else Inl (Message ''pragma is not a u32''))"

definition ascii_lower :: "u8 \<Rightarrow> u8" where
  "ascii_lower b = (if 65 \<le> b \<and> b \<le> 90 then b + 32 else b)"

definition eq_ignore_ascii_case :: "rstring \<Rightarrow> rstring \<Rightarrow> bool" where
  "eq_ignore_ascii_case a b \<longleftrightarrow> map ascii_lower a = map ascii_lower b"

subsection \<open>The gate\<close>

text \<open>\<open>IndexLayout::of\<close>.\<close>

definition index_layout_of :: "connection \<Rightarrow> index_layout result" where
  "index_layout_of c =
     rbind (sqlite_err ''failed to look for table'' (cn_has_indexes c))
       (\<lambda>has. if has then Inr LayoutTable
              else rbind (sqlite_err ''failed to inspect'' (cn_segment_columns c))
                     (\<lambda>columns. Inr (if str ''caller_index'' \<in> set columns
                                     then LayoutColumn else LayoutAbsent)))"

definition adopt_schema :: "rstring \<Rightarrow> connection \<Rightarrow> index_layout result" where
  "adopt_schema what c =
     (case cn_application_id c of
        Inl (SqliteFailure NotADatabase) \<Rightarrow> Inl (NotAnArchive what ''not a SQLite database'')
      | Inl (SqliteFailure DatabaseBusy) \<Rightarrow> Inl (InUse what)
      | Inl e \<Rightarrow> Inl (Sqlite ''failed to read application_id'' e)
      | Inr app \<Rightarrow>
          if app = 0 then Inl (NotAnArchive what ''a SQLite database without the header stamp'')
          else if app \<noteq> uint application_id
               then Inl (NotAnArchive what ''a SQLite database of another application'')
          else rbind (sqlite_err ''failed to read pragma'' (cn_user_version c))
                 (\<lambda>version.
                    if oldest_read_schema_version \<le> version \<and> version \<le> schema_version
                    then index_layout_of c
                    else Inl (UnsupportedSchema version schema_version oldest_read_schema_version)))"

subsection \<open>Connection settings\<close>

definition page_size :: u32 where "page_size = 4096"
definition wal_autocheckpoint_bytes :: nat where "wal_autocheckpoint_bytes = 4 * 1024 * 1024"
definition reader_cache_size_kib :: int where "reader_cache_size_kib = - 262144"
definition writer_cache_size_kib :: int where "writer_cache_size_kib = - 16384"

definition apply_connection_pragmas :: "connection \<Rightarrow> int \<Rightarrow> unit io" where
  "apply_connection_pragmas c cache_size_kib =
     io_bind (send_all c [SetSynchronousFull, SetForeignKeysOn]) (\<lambda>_.
     io_bind (io_return (pragma_u32 (cn_page_size c))) (\<lambda>ps.
     send_all c [SetWalAutocheckpoint (wal_autocheckpoint_bytes div max ps 1),
                 SetCacheSize cache_size_kib]))"

definition take_exclusive_lock :: "connection \<Rightarrow> unit io" where
  "take_exclusive_lock c =
     io_bind (send c ''failed to set locking_mode=EXCLUSIVE'' SetLockingExclusive) (\<lambda>mode.
       if \<not> eq_ignore_ascii_case mode (str ''exclusive'')
       then io_return (Inl (Message ''locking_mode is not exclusive''))
       else io_bind (send c ''failed to set busy_timeout'' SetBusyTimeout)
              (\<lambda>_. io_return (Inr ())))"

definition set_journal_mode_wal :: "connection \<Rightarrow> unit io" where
  "set_journal_mode_wal c =
     io_bind (send c ''failed to set journal_mode=WAL'' SetJournalModeWal) (\<lambda>mode.
       io_return (if eq_ignore_ascii_case mode (str ''wal'') then Inr ()
                  else Inl (Message ''journal_mode is not wal'')))"

subsection \<open>The write open\<close>

text \<open>\<open>open_with_cache\<close>; \<open>ArchiveMut::open\<close> and \<open>open_for_write\<close> are its two uses.\<close>

definition open_with_cache ::
  "rstring \<Rightarrow> rusqlite_error + connection \<Rightarrow> int \<Rightarrow> bool \<Rightarrow> index_layout io" where
  "open_with_cache path opened cache_size_kib exclusive =
     (case opened of
        Inl e \<Rightarrow> io_return (Inl (Message ''failed to open''))
      | Inr c \<Rightarrow>
          io_bind (io_return (sqlite_err ''failed to open'' (cn_is_readonly c))) (\<lambda>ro.
          if ro then io_return (Inl (ReadOnly Media))
          else
            io_bind (if exclusive then take_exclusive_lock c else io_return (Inr ())) (\<lambda>_.
            io_bind (io_return (adopt_schema path c)) (\<lambda>layout.
            io_bind (apply_connection_pragmas c cache_size_kib) (\<lambda>_.
            io_return (Inr layout))))))"

definition open_exclusive :: "rstring \<Rightarrow> rusqlite_error + connection \<Rightarrow> index_layout io" where
  "open_exclusive path opened = open_with_cache path opened reader_cache_size_kib True"

definition open_for_write :: "rstring \<Rightarrow> rusqlite_error + connection \<Rightarrow> index_layout io" where
  "open_for_write path opened = open_with_cache path opened writer_cache_size_kib False"

subsection \<open>The read open\<close>

text \<open>
  An open read handle: its connection, the layout the gate chose, and the statements
  sent on the connection.
\<close>

record read_handle =
  rh_conn :: connection
  rh_layout :: index_layout
  rh_log :: "statement list"

definition to_handle :: "connection \<Rightarrow> index_layout result \<times> statement list \<Rightarrow> read_handle result" where
  "to_handle c = (\<lambda>(r, log). rmap (\<lambda>layout. \<lparr>rh_conn = c, rh_layout = layout, rh_log = log\<rparr>) r)"

definition is_finished_conn :: "connection \<Rightarrow> bool result" where
  "is_finished_conn c =
     rmap (\<lambda>(sources, unfinished). sources > 0 \<and> unfinished = 0)
       (sqlite_err ''failed to count unfinished sources'' (cn_source_counts c))"

definition open_at :: "rstring \<Rightarrow> rusqlite_error + connection \<Rightarrow> read_handle result" where
  "open_at path opened =
     (case opened of
        Inl e \<Rightarrow> Inl (Sqlite ''failed to open read-only'' e)
      | Inr c \<Rightarrow>
          to_handle c
            (io_bind (io_return (adopt_schema path c)) (\<lambda>layout.
             io_bind (send_all c [SetCacheSize reader_cache_size_kib, SetQueryOnly True]) (\<lambda>_.
             io_return (Inr layout))) []))"

definition ok :: "'a result \<Rightarrow> 'a option" where
  "ok r = (case r of Inl _ \<Rightarrow> None | Inr x \<Rightarrow> Some x)"

definition open_finished_read_write ::
  "rstring \<Rightarrow> rusqlite_error + connection \<Rightarrow> read_handle option" where
  "open_finished_read_write path opened =
     (case opened of
        Inl e \<Rightarrow> None
      | Inr c \<Rightarrow>
          Option.bind
            (ok (to_handle c
               (io_bind (io_return (adopt_schema path c)) (\<lambda>layout.
                io_bind (send_all c [SetCacheSize reader_cache_size_kib, SetSynchronousFull,
                                     SetQueryOnly True, SetNoCheckpointOnClose True]) (\<lambda>_.
                io_return (Inr layout))) [])))
            (\<lambda>h. Option.bind (ok (is_finished_conn c)) (\<lambda>fin. if fin then Some h else None)))"

definition is_readonly_media :: "error \<Rightarrow> bool" where
  "is_readonly_media e \<longleftrightarrow> sqlite_code e \<in> {Some ReadOnlyDatabase, Some CannotOpen}"

definition hex_upper :: "u8 \<Rightarrow> u8" where
  "hex_upper d = (if d < 10 then 48 + d else 55 + d)"

definition uri_unreserved :: "u8 \<Rightarrow> bool" where
  "uri_unreserved b \<longleftrightarrow>
     65 \<le> b \<and> b \<le> 90 \<or> 97 \<le> b \<and> b \<le> 122 \<or> 48 \<le> b \<and> b \<le> 57 \<or> b \<in> {45, 46, 95, 126, 47}"

definition percent_encode :: "u8 \<Rightarrow> bytes" where
  "percent_encode b =
     (if uri_unreserved b then [b] else [37, hex_upper (b div 16), hex_upper (b mod 16)])"

text \<open>The path is \<open>None\<close> where it is not UTF-8.\<close>

definition immutable_uri :: "rstring option \<Rightarrow> rstring option" where
  "immutable_uri path =
     map_option (\<lambda>p. str ''file:'' @ concat (map percent_encode p) @ str ''?immutable=1'') path"

text \<open>
  What the environment gives an open of one path: SQLite's answer to opening it
  read-only, read-write and by URI, and whether a \<open>-wal\<close> sidecar lies beside it.
\<close>

record open_env =
  oe_path :: rstring
  oe_utf8 :: bool
  oe_read_only :: "rusqlite_error + connection"
  oe_uri :: "rstring \<Rightarrow> rusqlite_error + connection"
  oe_read_write :: "rusqlite_error + connection"
  oe_wal_sidecar :: bool

definition open_archive :: "open_env \<Rightarrow> read_handle result" where
  "open_archive env =
     (let plain = open_at (oe_path env) (oe_read_only env);
          finish = (\<lambda>h. rbind (is_finished_conn (rh_conn h)) (\<lambda>fin.
                      if fin then
                        (case open_finished_read_write (oe_path env) (oe_read_write env) of
                           Some rw \<Rightarrow> Inr rw | None \<Rightarrow> Inr h)
                      else Inr h))
      in case plain of
           Inr h \<Rightarrow> finish h
         | Inl e \<Rightarrow>
             if is_readonly_media e then
               if oe_wal_sidecar env then Inl e
               else (case immutable_uri (if oe_utf8 env then Some (oe_path env) else None) of
                       Some uri \<Rightarrow> open_at (oe_path env) (oe_uri env uri)
                     | None \<Rightarrow> Inl e)
             else Inl e)"

subsection \<open>Archives held as bytes\<close>

text \<open>
  \<open>open_bytes\<close>: \<open>deserialize\<close> is SQLite's answer to being handed the image. A
  failure of \<open>open_in_memory\<close> is one of its errors.
\<close>

definition open_bytes :: "(bytes \<Rightarrow> rusqlite_error + connection) \<Rightarrow> bytes \<Rightarrow> read_handle result" where
  "open_bytes deserialize bs =
     rbind (open_bytes_image bs) (\<lambda>image.
     rbind (sqlite_err ''failed to read the archive'' (deserialize image)) (\<lambda>c.
       to_handle c
         (io_bind (io_return (adopt_schema (str ''<bytes>'') c)) (\<lambda>layout.
          io_bind (apply_connection_pragmas c reader_cache_size_kib) (\<lambda>_.
          io_return (Inr layout))) [])))"

subsection \<open>Creation\<close>

definition create_schema :: "connection \<Rightarrow> unit io" where
  "create_schema c =
     io_bind (send c ''failed to create archive schema'' CreateSchema) (\<lambda>_.
     io_bind (send c ''failed to create archive schema'' CreateDocuments) (\<lambda>_.
     io_return (Inr ())))"

definition stamp_header :: "connection \<Rightarrow> unit io" where
  "stamp_header c = send_all c [SetApplicationId application_id, SetUserVersion schema_version]"

definition init_created :: "rusqlite_error + connection \<Rightarrow> u32 \<Rightarrow> index_layout io" where
  "init_created opened ps =
     (case opened of
        Inl e \<Rightarrow> io_return (Inl (Message ''failed to open''))
      | Inr c \<Rightarrow>
          io_bind (send_all c [SetPageSize ps, SetAutoVacuum]) (\<lambda>_.
          io_bind (set_journal_mode_wal c) (\<lambda>_.
          io_bind (apply_connection_pragmas c writer_cache_size_kib) (\<lambda>_.
          io_bind (create_schema c) (\<lambda>_.
          io_bind (stamp_header c) (\<lambda>_.
          io_bind (send c ''failed to checkpoint the WAL'' CheckpointPassive) (\<lambda>_.
          io_return (Inr LayoutTable))))))))"

definition create_in_memory :: "rusqlite_error + connection \<Rightarrow> index_layout io" where
  "create_in_memory opened =
     (case opened of
        Inl e \<Rightarrow> io_return (Inl (Sqlite ''failed to open an in-memory database'' e))
      | Inr c \<Rightarrow>
          io_bind (send_all c [SetPageSize page_size]) (\<lambda>_.
          io_bind (apply_connection_pragmas c writer_cache_size_kib) (\<lambda>_.
          io_bind (create_schema c) (\<lambda>_.
          io_bind (stamp_header c) (\<lambda>_.
          io_return (Inr LayoutTable))))))"

definition sidecar :: "rstring \<Rightarrow> string \<Rightarrow> rstring" where
  "sidecar path suffix = path @ str suffix"

text \<open>A removal that fails leaves the file and is only logged.\<close>

definition remove_archive :: "(rstring \<Rightarrow> bool) \<Rightarrow> rstring \<Rightarrow> rstring set \<Rightarrow> rstring set" where
  "remove_archive removable path files =
     foldl (\<lambda>fs p. if removable p then fs - {p} else fs) files
       [path, sidecar path ''-wal'', sidecar path ''-shm'']"

text \<open>
  \<open>create_with_page_size\<close> on the files of a directory: \<open>claimable\<close> is whether the
  system would let a file be made there at all, \<open>left\<close> the sidecars SQLite has made by
  the time the initialisation ends.
\<close>

record create_env =
  ce_claimable :: bool
  ce_opened :: "rusqlite_error + connection"
  ce_left :: "rstring set"
  ce_removable :: "rstring \<Rightarrow> bool"

definition create_with_page_size ::
  "create_env \<Rightarrow> rstring \<Rightarrow> u32 \<Rightarrow> rstring set
   \<Rightarrow> (index_layout result \<times> statement list) \<times> rstring set" where
  "create_with_page_size env path ps files =
     (if path \<in> files \<or> \<not> ce_claimable env
      then ((Inl (Message ''failed to create''), []), files)
      else
        let initialised = init_created (ce_opened env) ps [];
            files' = insert path files \<union> ce_left env
        in case fst initialised of
             Inr layout \<Rightarrow> (initialised, files')
           | Inl e \<Rightarrow> (initialised, remove_archive (ce_removable env) path files'))"

definition create :: "create_env \<Rightarrow> rstring \<Rightarrow> rstring set
   \<Rightarrow> (index_layout result \<times> statement list) \<times> rstring set" where
  "create env path = create_with_page_size env path page_size"

subsection \<open>Guards lifted and put back\<close>

text \<open>
  \<open>vacuum_into\<close> on a connection whose \<open>query_only\<close> is the state: each statement is
  logged with the setting it ran under. \<open>SetQueryOnly\<close> takes effect when it succeeds.
\<close>

type_synonym guarded = "bool \<times> (statement \<times> bool) list"

definition send_guarded ::
  "(statement \<Rightarrow> rusqlite_error + rstring) \<Rightarrow> string \<Rightarrow> statement \<Rightarrow> guarded \<Rightarrow> unit result \<times> guarded" where
  "send_guarded exec context s = (\<lambda>(query_only, log).
     (case exec s of
        Inl e \<Rightarrow> (Inl (Sqlite context e), query_only, log @ [(s, query_only)])
      | Inr _ \<Rightarrow>
          (Inr (), (case s of SetQueryOnly b \<Rightarrow> b | _ \<Rightarrow> query_only), log @ [(s, query_only)])))"

definition vacuum_into ::
  "(statement \<Rightarrow> rusqlite_error + rstring) \<Rightarrow> rstring option \<Rightarrow> guarded \<Rightarrow> unit result \<times> guarded" where
  "vacuum_into exec dest g =
     (case dest of
        None \<Rightarrow> (Inl (Message ''dump destination is not valid UTF-8''), g)
      | Some d \<Rightarrow>
          let query_only = fst g;
              (lifted, g1) = (if query_only
                              then send_guarded exec ''failed to set pragma'' (SetQueryOnly False) g
                              else (Inr (), g))
          in case lifted of
               Inl e \<Rightarrow> (Inl e, g1)
             | Inr _ \<Rightarrow>
                 let (dumped, g2) = send_guarded exec ''failed to write the dump'' (VacuumInto d) g1
                 in if query_only
                    then let (restored, g3) =
                               send_guarded exec ''failed to set pragma'' (SetQueryOnly True) g2
                         in (case restored of Inl e \<Rightarrow> (Inl e, g3) | Inr _ \<Rightarrow> (dumped, g3))
                    else (dumped, g2))"

text \<open>
  \<open>Drop for Archive\<close>: whether checkpointing on close is still suppressed when the
  connection closes, given that it was (\<open>suppressed\<close>), whether that setting can be
  read back and cleared, and the catalog's answer at that moment.
\<close>

definition drop_archive :: "bool \<Rightarrow> bool \<Rightarrow> bool result \<Rightarrow> bool \<Rightarrow> bool" where
  "drop_archive suppressed readable finished clearable =
     (let seen = readable \<and> suppressed;
          fin = (case finished of Inl _ \<Rightarrow> False | Inr b \<Rightarrow> b)
      in if seen \<and> fin \<and> clearable then False else suppressed)"

text \<open>
  \<open>read_snapshot\<close> with the connection's autocommit flag as state. \<open>began\<close> and
  \<open>rolled_back\<close> are SQLite's answers; a rollback's failure is discarded, and the
  transaction is then still open.
\<close>

definition read_snapshot ::
  "rusqlite_error + unit \<Rightarrow> bool \<Rightarrow> (bool \<Rightarrow> 'a result) \<Rightarrow> bool \<Rightarrow> 'a result \<times> bool" where
  "read_snapshot began rolled_back f autocommit =
     (if \<not> autocommit then (f False, False)
      else case began of
             Inl e \<Rightarrow> (Inl (Sqlite ''failed to open a read snapshot'' e), True)
           | Inr _ \<Rightarrow> (f False, rolled_back))"

end
