(* ===== verification/Archive_Open_Properties.thy ===== *)
theory Archive_Open_Properties
  imports Archive_Open
begin

section \<open>What the opens guarantee\<close>

text \<open>Lemmas and properties of theory \<open>Archive_Open\<close>.\<close>

subsection \<open>The step combinators\<close>

lemma io_return_apply [simp]: "io_return r log = (r, log)"
  by (simp add: io_return_def)

lemma io_bind_ok_iff:
  "io_bind m k log = (Inr y, log') \<longleftrightarrow> (\<exists>x l. m log = (Inr x, l) \<and> k x l = (Inr y, log'))"
  by (auto simp: io_bind_def split: prod.splits sum.splits)

lemma send_ok_iff:
  "send c context s log = (Inr row, log') \<longleftrightarrow> cn_exec c s = Inr row \<and> log' = log @ [s]"
  by (auto simp: send_def split: sum.splits)

lemma send_all_ok: "send_all c ss log = (Inr u, log') \<Longrightarrow> log' = log @ ss"
  by (induction ss arbitrary: log)
     (fastforce simp: send_all.simps io_bind_ok_iff set_pragma_def send_ok_iff)+

declare send_all.simps [simp del]

text \<open>A step only ever adds to the log, and \<open>send_all\<close> adds from its own list.\<close>

definition logs_in :: "'a io \<Rightarrow> statement set \<Rightarrow> bool" where
  "logs_in m S \<longleftrightarrow> (\<forall>log. \<exists>sent. snd (m log) = log @ sent \<and> set sent \<subseteq> S)"

lemma logs_in_return [intro]: "logs_in (io_return r) S"
  by (simp add: logs_in_def)

lemma logs_in_send [intro]: "s \<in> S \<Longrightarrow> logs_in (send c context s) S"
  by (simp add: logs_in_def send_def)

lemma logs_in_bind [intro]:
  assumes "logs_in m S" "\<And>x. logs_in (k x) S"
  shows "logs_in (io_bind m k) S"
  unfolding logs_in_def
proof
  fix log
  obtain a l where m: "m log = (a, l)" by fastforce
  obtain sent where l: "l = log @ sent" and sub: "set sent \<subseteq> S"
    using assms(1) m unfolding logs_in_def by (metis snd_conv)
  show "\<exists>sent. snd (io_bind m k log) = log @ sent \<and> set sent \<subseteq> S"
  proof (cases a)
    case (Inl e)
    then show ?thesis using m l sub by (simp add: io_bind_def)
  next
    case (Inr x)
    obtain more where "snd (k x l) = l @ more" "set more \<subseteq> S"
      using assms(2)[of x] unfolding logs_in_def by blast
    then show ?thesis using m l sub Inr
      by (intro exI[of _ "sent @ more"]) (simp add: io_bind_def)
  qed
qed

lemma take_exclusive_lock_logs:
  "logs_in (take_exclusive_lock c) {SetLockingExclusive, SetBusyTimeout}"
  unfolding take_exclusive_lock_def by (auto intro!: logs_in_bind)

subsection \<open>The header\<close>

lemma open_bytes_image_length:
  "open_bytes_image bs = Inr im \<Longrightarrow> length im = length bs"
  by (auto simp: open_bytes_image_def split: if_splits)

lemma open_bytes_image_keeps:
  assumes "open_bytes_image bs = Inr im" "i \<noteq> 18" "i \<noteq> 19" "i < length bs"
  shows "im ! i = bs ! i"
  using assms by (auto simp: open_bytes_image_def nth_list_update split: if_splits)

text \<open>Rewriting the journal mode of an image held as bytes touches nothing \<open>sniff\<close> reads:
  the image SQLite is given is recognised, or not, exactly as the caller's bytes were, with
  the same version; and an image that is not in WAL mode is passed through unchanged.\<close>

theorem open_bytes_keeps_stamp:
  assumes "open_bytes_image bs = Inr im"
  shows "sniff_bytes im = sniff_bytes bs
       \<and> length im = length bs
       \<and> (bs ! 18 \<noteq> 2 \<or> bs ! 19 \<noteq> 2 \<longrightarrow> im = bs)"
proof -
  have magic: "take (length sqlite_magic) im = take (length sqlite_magic) bs"
    using assms by (auto simp: open_bytes_image_def sqlite_magic_def str_def split: if_splits)
  have be: "be_u32 im at = be_u32 bs at" if "20 \<le> at" for at
    using assms that by (auto simp: open_bytes_image_def be_u32_def split: if_splits)
  have len: "length im = length bs" by (rule open_bytes_image_length[OF assms])
  have "sniff_bytes im = sniff_bytes bs"
    unfolding sniff_bytes_def len magic by (simp add: be)
  moreover have "im = bs" if "bs ! 18 \<noteq> 2 \<or> bs ! 19 \<noteq> 2"
    using assms that unfolding open_bytes_image_def by (simp split: if_splits)
  ultimately show ?thesis using len by blast
qed

lemma sint_application_id: "sint application_id = uint application_id"
  by (simp add: application_id_def)

lemma sint_eq_application_id: "sint (w :: u32) = uint application_id \<longleftrightarrow> w = application_id"
  unfolding sint_application_id[symmetric] by (blast intro: signed_word_eqI)

lemma sint_small_iff:
  fixes v :: u32
  shows "4 \<le> sint v \<and> sint v \<le> 5 \<longleftrightarrow> 4 \<le> uint v \<and> uint v \<le> 5"
proof -
  have "v = 4 \<or> v = 5" if "4 \<le> sint v" "sint v \<le> 5"
  proof -
    have "sint v = 4 \<or> sint v = 5" using that by linarith
    then have "sint v = sint (4 :: u32) \<or> sint v = sint (5 :: u32)" by simp
    then show ?thesis by (blast intro: signed_word_eqI)
  qed
  moreover have "v = 4 \<or> v = 5" if "4 \<le> uint v" "uint v \<le> 5"
  proof -
    have "uint v = 4 \<or> uint v = 5" using that by linarith
    then have "uint v = uint (4 :: u32) \<or> uint v = uint (5 :: u32)" by simp
    then show ?thesis by (blast intro: unsigned_word_eqI)
  qed
  ultimately show ?thesis by auto
qed

text \<open>
  What SQLite documents of the two header fields: of a file with its header it answers the
  big-endian integers at offsets 68 and 60, as signed; one that does not begin with the
  magic is not a database, or is empty and has no stamp. A file cut inside its header is
  left open.
\<close>

definition sqlite_file :: "bytes \<Rightarrow> bool" where
  "sqlite_file bs \<longleftrightarrow> take 16 bs = str ''SQLite format 3'' @ [0]"

definition reads_header :: "bytes \<Rightarrow> connection \<Rightarrow> bool" where
  "reads_header bs c \<longleftrightarrow>
     (if sqlite_file bs
      then 100 \<le> length bs \<longrightarrow>
          cn_application_id c = Inr (sint (word_rcat (take 4 (drop 68 bs)) :: u32))
          \<and> cn_user_version c = Inr (sint (word_rcat (take 4 (drop 60 bs)) :: u32))
      else cn_application_id c = Inl (SqliteFailure NotADatabase) \<or> cn_application_id c = Inr 0)"

text \<open>C24: What \<open>sniff_bytes\<close> says of a file is what the gate of every open decides, on any
  bytes, where SQLite answers the two header fields as it documents. The gate goes on to the
  layout of the file exactly when \<open>sniff_bytes\<close> finds the stamp with version 4 or 5; a stamp
  with any other version is refused as an unsupported schema; and of a file without the
  stamp, SQLite's or not, the gate says that it is not an archive. Only of a file cut inside
  its header, which has no stamp for \<open>sniff_bytes\<close>, does nothing else follow.\<close>

theorem sniff_agrees_with_gate:
  assumes "reads_header bs c"
  shows "case sniff_bytes bs of
           Stamped v \<Rightarrow>
             if 4 \<le> v \<and> v \<le> 5 then adopt_schema what c = index_layout_of c
             else \<exists>found. adopt_schema what c = Inl (UnsupportedSchema found 5 4)
         | NotStamped \<Rightarrow>
             (sqlite_file bs \<and> length bs < 100) \<or> (\<exists>reason. adopt_schema what c = Inl (NotAnArchive what reason))"
proof -
  have nonzero: "uint application_id \<noteq> 0" by (simp add: application_id_def)
  have magic: "length sqlite_magic = 16" by code_simp
  have found: "sqlite_file bs \<longleftrightarrow> take (length sqlite_magic) bs = sqlite_magic"
    unfolding magic by (simp add: sqlite_file_def sqlite_magic_def)
  show ?thesis
  proof (cases "length bs < 100 \<or> take (length sqlite_magic) bs \<noteq> sqlite_magic")
    case True
    then show ?thesis using assms unfolding reads_header_def found sniff_bytes_def
      by (auto simp: adopt_schema_def split: if_splits)
  next
    case header: False
    then have app: "cn_application_id c = Inr (sint (be_u32 bs 68))"
      and version: "cn_user_version c = Inr (sint (be_u32 bs 60))"
      using assms unfolding reads_header_def found be_u32_def by simp_all
    show ?thesis
    proof (cases "be_u32 bs 68 = application_id")
      case True
      then have "sniff_bytes bs = Stamped (uint (be_u32 bs 60))"
        using header unfolding sniff_bytes_def by simp
      then show ?thesis
        using app version nonzero True sint_small_iff [of "be_u32 bs 60"]
        by (simp add: adopt_schema_def sqlite_err_def sint_application_id oldest_read_schema_version_def schema_version_def)
    next
      case False
      then have "sniff_bytes bs = NotStamped"
        using header unfolding sniff_bytes_def by simp
      moreover have "sint (be_u32 bs 68) \<noteq> uint application_id"
        using False sint_eq_application_id by blast
      ultimately show ?thesis using app by (simp add: adopt_schema_def)
    qed
  qed
qed

text \<open>The header of a new archive: the magic and the two stamp fields of version 5.\<close>

definition sample_header :: bytes where
  "sample_header =
     sqlite_magic @ replicate 44 0 @ [0, 0, 0, 5] @ replicate 4 0 @ [0x64, 0x65, 0x6e, 0x64] @ replicate 28 0"

lemma sniff_agrees_with_gate_witness:
  "\<exists>c. sniff_bytes sample_header = Stamped 5 \<and> adopt_schema (str ''run.dendro'') c = Inr LayoutTable
     \<and> (\<exists>reason. adopt_schema (str ''run.dendro'') (c\<lparr>cn_application_id := Inl (SqliteFailure NotADatabase)\<rparr>)
          = Inl (NotAnArchive (str ''run.dendro'') reason))"
proof -
  define c where "c = \<lparr>cn_application_id = Inr (uint application_id), cn_user_version = Inr 5,
      cn_has_indexes = Inr True, cn_segment_columns = Inr [], cn_is_readonly = Inr False,
      cn_page_size = Inr 4096, cn_source_counts = Inr (0, 0), cn_exec = (\<lambda>_. Inr [])\<rparr>"
  have "(word_rcat (take 4 (drop 68 sample_header)) :: u32) = application_id"
    "(word_rcat (take 4 (drop 60 sample_header)) :: u32) = 5"
    "sqlite_file sample_header" by code_simp+
  then have reads: "reads_header sample_header c" by (simp add: reads_header_def c_def sint_application_id)
  have not_sqlite: "\<not> sqlite_file (0 # sample_header)" by code_simp
  then have other: "reads_header (0 # sample_header) (c\<lparr>cn_application_id := Inl (SqliteFailure NotADatabase)\<rparr>)"
    by (simp add: reads_header_def)
  have sniffed: "sniff_bytes sample_header = Stamped 5" "sniff_bytes (0 # sample_header) = NotStamped" by code_simp+
  have "index_layout_of c = Inr LayoutTable" by (simp add: c_def index_layout_of_def sqlite_err_def)
  then show ?thesis
    using sniff_agrees_with_gate [OF reads, of "str ''run.dendro''"] sniffed
      sniff_agrees_with_gate [OF other, of "str ''run.dendro''"] not_sqlite by auto
qed

subsection \<open>The read open\<close>

lemma to_handle_ok_iff:
  "to_handle c p = Inr h \<longleftrightarrow> p = (Inr (rh_layout h), rh_log h) \<and> rh_conn h = c"
  by (cases p; cases "fst p"; cases h) (auto simp: to_handle_def)

lemma gate_then_settings_ok:
  "io_bind (io_return (adopt_schema what c)) (\<lambda>layout. io_bind (send_all c ss) (\<lambda>_. io_return (Inr layout))) []
     = (Inr layout, log)
   \<Longrightarrow> adopt_schema what c = Inr layout \<and> log = ss"
  by (auto simp: io_bind_ok_iff dest: send_all_ok)

lemma open_at_ok:
  assumes "open_at path opened = Inr h"
  shows "opened = Inr (rh_conn h) \<and> adopt_schema path (rh_conn h) = Inr (rh_layout h)
       \<and> rh_log h = [SetCacheSize reader_cache_size_kib, SetQueryOnly True]"
  using assms unfolding open_at_def
  by (auto simp: to_handle_ok_iff dest!: gate_then_settings_ok split: sum.splits)

lemma open_finished_read_write_ok:
  assumes "open_finished_read_write path opened = Some h"
  shows "opened = Inr (rh_conn h) \<and> adopt_schema path (rh_conn h) = Inr (rh_layout h)
       \<and> is_finished_conn (rh_conn h) = Inr True
       \<and> rh_log h = [SetCacheSize reader_cache_size_kib, SetSynchronousFull, SetQueryOnly True,
                     SetNoCheckpointOnClose True]"
  using assms unfolding open_finished_read_write_def
  by (auto simp: ok_def to_handle_ok_iff Option.bind_eq_Some_conv
        dest!: gate_then_settings_ok split: sum.splits if_splits prod.splits)

text \<open>C18: A read handle that \<open>Archive::open\<close> returns is on an archive the gate passed, with
  the layout the gate read; it refuses writes, and the only other settings sent on it are a
  cache size and, on a read-write connection, the durability of its close. Its connection is
  one of three: the read-only one; a read-write one, only for an archive found finished on
  that connection and with the checkpoint on close suppressed; or the \<open>immutable=1\<close> one,
  only where the plain open failed because of read-only media and no \<open>-wal\<close> sidecar lies
  beside the file, so that no commit in a sidecar is ignored.\<close>

theorem open_archive_correct:
  assumes "open_archive env = Inr h"
  shows "adopt_schema (oe_path env) (rh_conn h) = Inr (rh_layout h)
       \<and> SetQueryOnly True \<in> set (rh_log h)
       \<and> set (rh_log h) \<subseteq> {SetCacheSize reader_cache_size_kib, SetQueryOnly True,
                            SetSynchronousFull, SetNoCheckpointOnClose True}
       \<and> (oe_read_only env = Inr (rh_conn h)
          \<or> oe_read_write env = Inr (rh_conn h) \<and> is_finished_conn (rh_conn h) = Inr True
            \<and> SetNoCheckpointOnClose True \<in> set (rh_log h)
          \<or> \<not> oe_wal_sidecar env
            \<and> (\<exists>e. open_at (oe_path env) (oe_read_only env) = Inl e \<and> is_readonly_media e)
            \<and> (\<exists>uri. immutable_uri (Some (oe_path env)) = Some uri \<and> oe_uri env uri = Inr (rh_conn h)))"
proof (cases "open_at (oe_path env) (oe_read_only env)")
  case (Inr h0)
  then consider
      (same) "h = h0"
    | (rw) "open_finished_read_write (oe_path env) (oe_read_write env) = Some h"
    using assms by (auto simp: open_archive_def Let_def result_simps split: sum.splits if_splits option.splits)
  then show ?thesis
    using open_at_ok[OF Inr] open_finished_read_write_ok[of "oe_path env" "oe_read_write env" h]
    by cases auto
next
  case (Inl e)
  then obtain uri where "is_readonly_media e" "\<not> oe_wal_sidecar env"
      "immutable_uri (Some (oe_path env)) = Some uri" "open_at (oe_path env) (oe_uri env uri) = Inr h"
    using assms by (auto simp: open_archive_def immutable_uri_def split: if_splits)
  then show ?thesis using Inl open_at_ok[of "oe_path env" "oe_uri env uri" h] by auto
qed

text \<open>A finished archive on a writable file, and the same file on read-only media.\<close>

definition sample_connection :: connection where
  "sample_connection =
     \<lparr>cn_application_id = Inr (uint application_id), cn_user_version = Inr 5,
      cn_has_indexes = Inr True, cn_segment_columns = Inr [], cn_is_readonly = Inr False,
      cn_page_size = Inr 4096, cn_source_counts = Inr (1, 0),
      cn_exec = (\<lambda>s. Inr (if s = SetJournalModeWal then str ''wal''
                         else if s = SetLockingExclusive then str ''exclusive'' else []))\<rparr>"

definition sample_open_env :: open_env where
  "sample_open_env =
     \<lparr>oe_path = str ''run.dendro'', oe_utf8 = True,
      oe_read_only = Inl (SqliteFailure CannotOpen),
      oe_uri = (\<lambda>uri. if uri = str ''file:run.dendro?immutable=1'' then Inr sample_connection
                      else Inl (SqliteFailure CannotOpen)),
      oe_read_write = Inl (SqliteFailure CannotOpen), oe_wal_sidecar = False\<rparr>"

lemma open_archive_correct_witness:
  "open_archive sample_open_env
     = Inr \<lparr>rh_conn = sample_connection, rh_layout = LayoutTable,
            rh_log = [SetCacheSize (- 262144), SetQueryOnly True]\<rparr>
   \<and> is_readonly_media (Sqlite ''failed to open read-only'' (SqliteFailure CannotOpen))
   \<and> SetQueryOnly True \<in> set [SetCacheSize (- 262144), SetQueryOnly True]"
proof -
  have conn: "cn_application_id sample_connection = Inr (uint application_id)"
      "cn_user_version sample_connection = Inr 5" "cn_has_indexes sample_connection = Inr True"
      "\<And>b. cn_exec sample_connection (SetQueryOnly b) = Inr []"
      "\<And>k. cn_exec sample_connection (SetCacheSize k) = Inr []"
    by (simp_all add: sample_connection_def)
  have gate: "adopt_schema what sample_connection = Inr LayoutTable" for what
    by (simp add: adopt_schema_def conn application_id_def sqlite_err_def index_layout_of_def
        oldest_read_schema_version_def schema_version_def)
  have at: "open_at what (Inr sample_connection)
      = Inr \<lparr>rh_conn = sample_connection, rh_layout = LayoutTable,
             rh_log = [SetCacheSize (- 262144), SetQueryOnly True]\<rparr>" for what
    by (simp add: open_at_def to_handle_def gate io_bind_def send_all.simps set_pragma_def send_def conn
        reader_cache_size_kib_def)
  have at_failed: "open_at what (Inl e) = Inl (Sqlite ''failed to open read-only'' e)" for what e
    by (simp add: open_at_def)
  have uri: "immutable_uri (Some (str ''run.dendro'')) = Some (str ''file:run.dendro?immutable=1'')"
    by code_simp
  have media: "is_readonly_media (Sqlite ''failed to open read-only'' (SqliteFailure CannotOpen))"
    by (simp add: is_readonly_media_def sqlite_code_def)
  have opened: "open_archive sample_open_env
      = Inr \<lparr>rh_conn = sample_connection, rh_layout = LayoutTable,
             rh_log = [SetCacheSize (- 262144), SetQueryOnly True]\<rparr>"
    unfolding open_archive_def sample_open_env_def
    by (simp add: at at_failed uri media)
  show ?thesis using opened media open_archive_correct[OF opened] by simp
qed

subsection \<open>The write open\<close>

text \<open>Whatever file a write open is pointed at, a file the gate refuses is left as it
  was: the open fails and has sent nothing but, for the exclusive open, the lock itself; and
  the same file is refused to the read open before any statement at all.\<close>

theorem refused_file_untouched:
  assumes refused: "adopt_schema path c = Inl e"
  shows "(\<exists>e' sent. open_with_cache path (Inr c) cache exclusive log = (Inl e', log @ sent)
            \<and> set sent \<subseteq> (if exclusive then {SetLockingExclusive, SetBusyTimeout} else {}))
       \<and> open_at path (Inr c) = Inl e"
proof -
  define lock where "lock = (if exclusive then take_exclusive_lock c else io_return (Inr ()))"
  have locks: "logs_in lock (if exclusive then {SetLockingExclusive, SetBusyTimeout} else {})"
    using take_exclusive_lock_logs by (auto simp: lock_def)
  obtain r sent where lock: "lock log = (r, log @ sent)"
      and sent: "set sent \<subseteq> (if exclusive then {SetLockingExclusive, SetBusyTimeout} else {})"
    using locks unfolding logs_in_def by (metis prod.collapse)
  have "open_at path (Inr c) = Inl e"
    by (simp add: open_at_def to_handle_def io_bind_def refused)
  moreover have "\<exists>e' sent. open_with_cache path (Inr c) cache exclusive log = (Inl e', log @ sent)
      \<and> set sent \<subseteq> (if exclusive then {SetLockingExclusive, SetBusyTimeout} else {})"
  proof (cases "cn_is_readonly c")
    case (Inl e1)
    then show ?thesis by (simp add: open_with_cache_def io_bind_def sqlite_err_def)
  next
    case (Inr ro)
    then show ?thesis using lock[unfolded lock_def] sent unfolding open_with_cache_def
      by (cases exclusive) (auto simp: io_bind_def sqlite_err_def refused split: sum.splits prod.splits)
  qed
  ultimately show ?thesis by blast
qed

definition foreign_connection :: connection where
  "foreign_connection = sample_connection\<lparr>cn_application_id := Inr 0\<rparr>"

lemma refused_file_untouched_witness:
  "adopt_schema (str ''other.db'') foreign_connection
     = Inl (NotAnArchive (str ''other.db'') ''a SQLite database without the header stamp'')
   \<and> open_at (str ''other.db'') (Inr foreign_connection)
     = Inl (NotAnArchive (str ''other.db'') ''a SQLite database without the header stamp'')"
proof -
  have refused: "adopt_schema (str ''other.db'') foreign_connection
     = Inl (NotAnArchive (str ''other.db'') ''a SQLite database without the header stamp'')"
    by (simp add: adopt_schema_def foreign_connection_def)
  show ?thesis using refused refused_file_untouched[OF refused] by simp
qed

subsection \<open>Creation\<close>

lemma send_all_log: "\<exists>k. snd (send_all c ss log) = log @ take k ss"
proof (induction ss arbitrary: log)
  case Nil
  then show ?case by (simp add: send_all.simps)
next
  case (Cons s ss)
  show ?case
  proof (cases "cn_exec c s")
    case (Inl e)
    then show ?thesis
      by (intro exI[of _ 1]) (simp add: send_all.simps set_pragma_def send_def io_bind_def)
  next
    case (Inr row)
    obtain k where "snd (send_all c ss (log @ [s])) = (log @ [s]) @ take k ss"
      using Cons.IH by blast
    then show ?thesis using Inr
      by (intro exI[of _ "Suc k"]) (simp add: send_all.simps set_pragma_def send_def io_bind_def)
  qed
qed

lemma set_pragma_ok_iff:
  "set_pragma c s log = (Inr u, log') \<longleftrightarrow> (\<exists>row. cn_exec c s = Inr row) \<and> log' = log @ [s]"
  by (auto simp: set_pragma_def io_bind_ok_iff send_ok_iff)

lemma apply_connection_pragmas_ok:
  assumes "apply_connection_pragmas c k log = (Inr u, log')"
  shows "\<exists>ps. pragma_u32 (cn_page_size c) = Inr ps
    \<and> log' = log @ [SetSynchronousFull, SetForeignKeysOn,
                    SetWalAutocheckpoint (wal_autocheckpoint_bytes div max ps 1), SetCacheSize k]"
  using assms unfolding apply_connection_pragmas_def
  by (auto simp: io_bind_ok_iff dest!: send_all_ok)

text \<open>The statements a file is created with, in the order that fixes its geometry.\<close>

definition creation_order :: "u32 \<Rightarrow> nat \<Rightarrow> statement list" where
  "creation_order ps checkpoint =
     [SetPageSize ps, SetAutoVacuum, SetJournalModeWal, SetSynchronousFull, SetForeignKeysOn,
      SetWalAutocheckpoint checkpoint, SetCacheSize writer_cache_size_kib, CreateSchema,
      CreateDocuments, SetApplicationId application_id, SetUserVersion schema_version,
      CheckpointPassive]"

lemma init_created_ok:
  assumes "init_created opened ps [] = (Inr layout, sent)"
  shows "layout = LayoutTable \<and> (\<exists>checkpoint \<le> wal_autocheckpoint_bytes. sent = creation_order ps checkpoint)"
  using assms unfolding init_created_def create_schema_def stamp_header_def set_journal_mode_wal_def
  by (auto simp: io_bind_ok_iff send_ok_iff creation_order_def
      dest!: send_all_ok apply_connection_pragmas_ok split: sum.splits if_splits)

lemma remove_archive_all:
  "(\<And>p. removable p)
   \<Longrightarrow> remove_archive removable path files
       = files - {path, sidecar path ''-wal'', sidecar path ''-shm''}"
  by (auto simp: remove_archive_def)

text \<open>Creating an archive takes a path nothing holds, and leaves either an archive or
  nothing. Where the path exists the call fails and has touched no file. Where the
  initialisation succeeds the path is there, and the statements were sent in the order that
  fixes the file's geometry: page size and auto-vacuum before the journal mode, that before
  the schema, the stamp last and checkpointed into the file. Where it fails, everything it
  made is removed: the files are those there were before.\<close>

lemma create_correct:
  assumes left: "ce_left env \<subseteq> {sidecar path ''-wal'', sidecar path ''-shm''}"
    and free: "sidecar path ''-wal'' \<notin> files" "sidecar path ''-shm'' \<notin> files"
    and removable: "\<And>p. ce_removable env p"
    and made: "create env path files = ((r, sent), files')"
  shows "case r of
           Inl e \<Rightarrow> files' = files
         | Inr layout \<Rightarrow> path \<notin> files \<and> path \<in> files' \<and> files' = insert path files \<union> ce_left env
             \<and> layout = LayoutTable
             \<and> (\<exists>checkpoint \<le> wal_autocheckpoint_bytes. sent = creation_order page_size checkpoint)"
proof (cases "path \<in> files \<or> \<not> ce_claimable env")
  case True
  then show ?thesis using made by (auto simp: create_def create_with_page_size_def)
next
  case False
  obtain r0 sent0 where init: "init_created (ce_opened env) page_size [] = (r0, sent0)" by fastforce
  show ?thesis
  proof (cases r0)
    case (Inl e)
    then have "r = Inl e" "files' = insert path files \<union> ce_left env
        - {path, sidecar path ''-wal'', sidecar path ''-shm''}"
      using False made init remove_archive_all[OF removable]
      by (auto simp: create_def create_with_page_size_def Let_def)
    then show ?thesis using left free False by auto
  next
    case (Inr layout)
    then have "r = Inr layout" "sent = sent0" "files' = insert path files \<union> ce_left env"
      using False made init by (auto simp: create_def create_with_page_size_def Let_def)
    then show ?thesis using False Inr init_created_ok[of "ce_opened env" page_size layout sent0] init
      by auto
  qed
qed

definition full_disk_env :: create_env where
  "full_disk_env =
     \<lparr>ce_claimable = True,
      ce_opened = Inr (sample_connection\<lparr>cn_exec := (\<lambda>s. if s = CreateSchema
                         then Inl (SqliteFailure DiskFull) else cn_exec sample_connection s)\<rparr>),
      ce_left = {str ''a.dendro-wal''}, ce_removable = (\<lambda>_. True)\<rparr>"

subsection \<open>The dump\<close>

text \<open>\<open>vacuum_into\<close> copies with the write guard off and puts the guard back: the copy
  statement runs only while \<open>query_only\<close> is off, success means that it ran and did not
  fail, and the handle is left as guarded as it was unless putting the guard back failed,
  which is then the error returned.\<close>

theorem vacuum_into_guarded:
  assumes "vacuum_into exec dest (query_only, log) = (r, query_only', log')"
  shows "(\<exists>sent. log' = log @ sent \<and> (\<forall>d b. (VacuumInto d, b) \<in> set sent \<longrightarrow> \<not> b)
            \<and> (r = Inr () \<longrightarrow> (\<exists>d row. dest = Some d \<and> (VacuumInto d, False) \<in> set sent
                                     \<and> exec (VacuumInto d) = Inr row)))
       \<and> (query_only' = query_only
          \<or> (\<exists>e. exec (SetQueryOnly True) = Inl e \<and> r = Inl (Sqlite ''failed to set pragma'' e)))"
proof (cases dest)
  case None
  then show ?thesis using assms by (auto simp: vacuum_into_def)
next
  case (Some d)
  let ?run = "vacuum_into exec (Some d) (query_only, log)"
  have run: "?run = (r, query_only', log')" using assms Some by simp
  note send = vacuum_into_def send_guarded_def Let_def
  show ?thesis
  proof (cases query_only)
    case False
    then show ?thesis using run Some
      by (cases "exec (VacuumInto d)") (simp_all add: send, (elim conjE, clarsimp)+)
  next
    case True
    show ?thesis
    proof (cases "exec (SetQueryOnly False)")
      case (Inl e)
      then show ?thesis using run True by (simp add: send) (elim conjE, clarsimp)
    next
      case (Inr row)
      then show ?thesis using run True Some
        by (cases "exec (VacuumInto d)"; cases "exec (SetQueryOnly True)")
           (simp_all add: send, (elim conjE, clarsimp)+)
    qed
  qed
qed

lemma vacuum_into_guarded_witness:
  "vacuum_into (\<lambda>s. case s of VacuumInto _ \<Rightarrow> Inl (SqliteFailure DiskFull) | _ \<Rightarrow> Inr [])
     (Some (str ''dump.dendro'')) (True, [])
   = (Inl (Sqlite ''failed to write the dump'' (SqliteFailure DiskFull)), True,
      [(SetQueryOnly False, True), (VacuumInto (str ''dump.dendro''), False),
       (SetQueryOnly True, False)])
   \<and> \<not> False"
proof -
  have run: "vacuum_into (\<lambda>s. case s of VacuumInto _ \<Rightarrow> Inl (SqliteFailure DiskFull) | _ \<Rightarrow> Inr [])
     (Some (str ''dump.dendro'')) (True, [])
   = (Inl (Sqlite ''failed to write the dump'' (SqliteFailure DiskFull)), True,
      [(SetQueryOnly False, True), (VacuumInto (str ''dump.dendro''), False),
       (SetQueryOnly True, False)])"
    by (simp add: vacuum_into_def send_guarded_def)
  show ?thesis using run vacuum_into_guarded[OF run] by blast
qed

subsection \<open>The immutable URI\<close>

text \<open>What a reader of the URI undoes.\<close>

definition hex_value :: "u8 \<Rightarrow> u8" where
  "hex_value h = (if h < 58 then h - 48 else h - 55)"

fun percent_decode :: "bytes \<Rightarrow> bytes" where
  "percent_decode [] = []"
| "percent_decode (b # rest) =
     (if b = 37
      then (case rest of h # l # rest' \<Rightarrow> (16 * hex_value h + hex_value l) # percent_decode rest'
            | _ \<Rightarrow> b # percent_decode rest)
      else b # percent_decode rest)"

lemma unat_lt_8: "unat (b :: u8) < 256"
  using unsigned_less[of b] by simp

lemma hex_digit_value:
  fixes d :: u8
  assumes "d < 16"
  shows "hex_value (hex_upper d) = d"
proof -
  have "\<forall>n \<in> set [0..<16]. hex_value (hex_upper (word_of_nat n)) = word_of_nat n"
    by code_simp
  moreover have "unat d \<in> set [0..<16]" using assms by (simp add: word_less_nat_alt)
  ultimately have "hex_value (hex_upper (word_of_nat (unat d))) = word_of_nat (unat d)" by blast
  then show ?thesis by simp
qed

lemma hex_parts:
  fixes b :: u8
  shows "b div 16 < 16" "b mod 16 < 16" "16 * (b div 16) + b mod 16 = b"
  by (simp_all add: word_less_nat_alt unat_div unat_mod mult_div_mod_eq less_mult_imp_div_less
      unat_lt_8)

lemma percent_decode_encode_byte:
  "percent_decode (percent_encode b @ rest) = b # percent_decode rest"
proof (cases "uri_unreserved b")
  case True
  then have "b \<noteq> 37" by (auto simp: uri_unreserved_def)
  then show ?thesis using True by (simp add: percent_encode_def)
next
  case False
  show ?thesis using False hex_parts[of b] by (simp add: percent_encode_def hex_digit_value)
qed

lemma hex_digit_plain:
  fixes d :: u8
  assumes "d < 16"
  shows "hex_upper d \<noteq> 63 \<and> hex_upper d \<noteq> 35"
proof -
  have "\<forall>n \<in> set [0..<16]. hex_upper (word_of_nat n) \<noteq> 63 \<and> hex_upper (word_of_nat n) \<noteq> 35"
    by code_simp
  moreover have "unat d \<in> set [0..<16]" using assms by (simp add: word_less_nat_alt)
  ultimately have "hex_upper (word_of_nat (unat d)) \<noteq> 63 \<and> hex_upper (word_of_nat (unat d)) \<noteq> 35"
    by blast
  then show ?thesis by simp
qed

lemma percent_encode_plain: "63 \<notin> set (percent_encode b) \<and> 35 \<notin> set (percent_encode b)"
proof (cases "uri_unreserved b")
  case True
  then have "b \<noteq> 63 \<and> b \<noteq> 35" by (auto simp: uri_unreserved_def)
  then show ?thesis using True by (auto simp: percent_encode_def)
next
  case False
  then show ?thesis
    using hex_digit_plain[OF hex_parts(1)[of b]] hex_digit_plain[OF hex_parts(2)[of b]]
    by (auto simp: percent_encode_def)
qed

lemma percent_decode_encode: "percent_decode (concat (map percent_encode p)) = p"
  by (induction p) (simp_all add: percent_decode_encode_byte)

text \<open>The URI an archive on read-only media is reopened by names that file and nothing
  else: between its fixed ends lies text that decodes to the path, byte for byte, and that
  holds no question mark and no hash sign, so nothing in a file name can end the path early
  or add a parameter of its own.\<close>

theorem immutable_uri_roundtrip:
  "\<exists>encoded. immutable_uri (Some p) = Some (str ''file:'' @ encoded @ str ''?immutable=1'')
     \<and> percent_decode encoded = p \<and> 63 \<notin> set encoded \<and> 35 \<notin> set encoded"
  using percent_encode_plain by (auto simp: immutable_uri_def percent_decode_encode)

end
