(* ===== verification/Error_Display.thy ===== *)
theory Error_Display
  imports Dendro_Error
begin

section \<open>What an error says (\<open>src/error.rs\<close>)\<close>

text \<open>
  The \<open>Display\<close> text of an error, its \<open>source()\<close>, the conversions into it, and the
  file's own tests. The text of SQLite's errors is rusqlite's: it is the argument
  \<open>say\<close>. A \<open>Message\<close> shows the fixed words the model keeps of it. \<open>debug_str\<close> is
  \<open>{:?}\<close> of a string as the standard library writes it, exactly for ASCII; of the
  characters above it the model copies every one, which is what the standard
  library does with the printable ones. The lemmas show that a text determines the
  numbers it was made from, and that wrapping an error by the writer thread changes
  neither its text nor where its chain of sources ends.
\<close>

subsection \<open>Numbers and quoted strings\<close>

definition digit :: "nat \<Rightarrow> 8 word" where
  "digit d = of_nat (48 + d)"

fun dec_nat :: "nat \<Rightarrow> rstring" where
  "dec_nat n = (if n < 10 then [digit n] else dec_nat (n div 10) @ [digit (n mod 10)])"

declare dec_nat.simps [simp del]

definition dec_int :: "int \<Rightarrow> rstring" where
  "dec_int i = (if i < 0 then str ''-'' @ dec_nat (nat (- i)) else dec_nat (nat i))"

definition hex_nibble :: "nat \<Rightarrow> 8 word" where
  "hex_nibble d = (if d < 10 then digit d else of_nat (87 + d))"

text \<open>\<open>char::escape_debug\<close> on the ASCII range: named escapes, quotes, and hexadecimal escapes for controls.\<close>

definition escape_char :: "8 word \<Rightarrow> rstring" where
  "escape_char c =
     (if c = 0 then [92, 48] else if c = 9 then [92, 116]
      else if c = 10 then [92, 110] else if c = 13 then [92, 114]
      else if c = 34 then [92, 34] else if c = 92 then [92, 92]
      else if c < 16 then [92, 117, 123, hex_nibble (unat c)] @ [125]
      else if c < 32 \<or> c = 127 then
        [92, 117, 123, hex_nibble (unat c div 16), hex_nibble (unat c mod 16)] @ [125]
      else [c])"

definition debug_str :: "rstring \<Rightarrow> rstring" where
  "debug_str s = [34] @ concat (map escape_char s) @ [34]"

definition debug_opt :: "rstring option \<Rightarrow> rstring" where
  "debug_opt x = (case x of None \<Rightarrow> str ''None'' | Some s \<Rightarrow> str ''Some('' @ debug_str s @ str '')'')"

subsection \<open>The text of an error\<close>

fun display :: "(rusqlite_error \<Rightarrow> rstring) \<Rightarrow> error \<Rightarrow> rstring" where
  "display say (AlreadyExists p) = p @ str '' already exists''"
| "display say (ReadOnly Media) =
     str ''this archive is on read-only media; open it with `Archive::open` to read it''"
| "display say (UnsupportedSchema found writes reads) =
     str ''unsupported archive schema version '' @ dec_int found @ str '': this build writes v''
       @ dec_int writes @ str '' and reads v'' @ dec_int reads"
| "display say (EncoderMismatch source_id wrote reading) =
     str ''source '' @ dec_int source_id @ str '' was written with encoder version '' @ debug_str wrote
       @ str '' and is being read with '' @ debug_str reading
       @ str ''; the rows are the encoder's bytes, so a different version is not guaranteed to decode them the same way''"
| "display say (TimelineBackwards source_id ts floor) =
     str ''source '' @ dec_int source_id @ str '': timestamp '' @ dec_int ts
       @ str '' is not after the newest row its previous writer session left ('' @ dec_int floor
       @ str ''); the clock went backwards across the restart, and rows would collide or run backwards''"
| "display say (InUse what) =
     what @ str '' is held by another connection: an exclusive open needs the file to itself, and nothing can open a file an exclusive handle holds''"
| "display say (NotAnArchive what reason) = what @ str '': not a dendro archive: '' @ str reason"
| "display say (Encoder stream source) =
     str ''failed to encode a '' @ stream @ str '' segment: '' @ str source"
| "display say (EncoderContract stream detail) =
     str ''the encoder returned a segment for '' @ stream
       @ str '' that does not describe the rows it was given: '' @ str detail"
| "display say (SchemaTooOld found needs) =
     str ''this archive is schema v'' @ dec_int found @ str '', and the write needs v'' @ dec_int needs
       @ str ''; an archive is never migrated in place, so copy it into a new archive (which is v''
       @ dec_int needs @ str '') and write there''"
| "display say (DocumentConflict kind name expected current) =
     str ''document '' @ kind @ str ''/'' @ name @ str '': expected current revision '' @ debug_opt expected
       @ str '', the archive holds '' @ debug_opt current @ str ''; another revision was written after it was read''"
| "display say (Writer e) = display say e"
| "display say WriterGone = str ''the archive writer thread exited before the source finished''"
| "display say (Sqlite context source) =
     (if context = [] then say source else str context @ str '': '' @ say source)"
| "display say (Message m) = str m"

subsection \<open>Sources and conversions\<close>

text \<open>What \<open>source()\<close> hands out: the encoder's boxed error, the wrapped one, or SQLite's.\<close>

datatype cause = EncoderCause string | ErrorCause error | SqliteCause rusqlite_error

fun error_source :: "error \<Rightarrow> cause option" where
  "error_source (Encoder _ source) = Some (EncoderCause source)"
| "error_source (Writer e) = Some (ErrorCause e)"
| "error_source (Sqlite _ source) = Some (SqliteCause source)"
| "error_source _ = None"

definition error_from_string :: "string \<Rightarrow> error" where
  "error_from_string m = Message m"

definition error_from_sqlite :: "rusqlite_error \<Rightarrow> error" where
  "error_from_sqlite source = Sqlite [] source"

definition sqlite_with :: "string \<Rightarrow> rusqlite_error \<Rightarrow> error" where
  "sqlite_with context = (\<lambda>source. Sqlite context source)"

definition string_from_error :: "(rusqlite_error \<Rightarrow> rstring) \<Rightarrow> error \<Rightarrow> rstring" where
  "string_from_error say e = display say e"

subsection \<open>A text determines its numbers\<close>

definition undigit :: "nat \<Rightarrow> 8 word \<Rightarrow> nat" where
  "undigit a c = a * 10 + (unat c - 48)"

lemma unat_digit: "d < 10 \<Longrightarrow> unat (digit d) = 48 + d"
  by (simp add: digit_def unat_of_nat take_bit_nat_eq_self del: of_nat_add)

lemma undigit_digit: "d < 10 \<Longrightarrow> undigit a (digit d) = a * 10 + d"
  by (simp add: undigit_def unat_digit)

lemma dec_nat_value: "foldl undigit 0 (dec_nat n) = n"
proof (induction n rule: dec_nat.induct)
  case (1 n)
  then show ?case by (subst dec_nat.simps) (simp add: undigit_digit)
qed

lemma dec_nat_digits: "c \<in> set (dec_nat n) \<Longrightarrow> 48 \<le> unat c \<and> unat c \<le> 57"
proof (induction n rule: dec_nat.induct)
  case (1 n)
  then show ?case by (subst (asm) (2) dec_nat.simps) (auto simp: unat_digit split: if_splits)
qed

lemma dec_nat_inject: "dec_nat m = dec_nat n \<Longrightarrow> m = n"
  using dec_nat_value by metis

definition number_char :: "8 word \<Rightarrow> bool" where
  "number_char c \<longleftrightarrow> unat c = 45 \<or> 48 \<le> unat c \<and> unat c \<le> 57"

lemma dec_int_chars: "c \<in> set (dec_int i) \<Longrightarrow> number_char c"
  by (auto simp: dec_int_def number_char_def str_def dest: dec_nat_digits split: if_splits)

lemma dec_int_inject: "dec_int i = dec_int j \<Longrightarrow> i = j"
proof -
  have minus: "str ''-'' @ dec_nat m \<noteq> dec_nat n" for m n
  proof
    assume "str ''-'' @ dec_nat m = dec_nat n"
    then have "of_char CHR ''-'' \<in> set (dec_nat n)" by (metis str_def list.simps(9) append_Cons list.set_intros(1))
    then show False using dec_nat_digits by fastforce
  qed
  assume "dec_int i = dec_int j"
  then show "i = j"
    using minus minus [symmetric] by (auto simp: dec_int_def dest!: dec_nat_inject split: if_splits)
qed

lemma dec_int_prefix:
  assumes "dec_int i @ x # u = dec_int j @ y # v" and "\<not> number_char x" "\<not> number_char y"
  shows "i = j \<and> u = v"
proof -
  have "takeWhile number_char (dec_int k @ z # w) = dec_int k" if "\<not> number_char z" for k z w
    using that dec_int_chars [of _ k] by (simp add: takeWhile_append2)
  then have "dec_int i = dec_int j" using assms by metis
  then show ?thesis using dec_int_inject assms(1) by auto
qed

lemma schema_text_determines:
  "display say (UnsupportedSchema f w r) = display say (UnsupportedSchema f' w' r') \<Longrightarrow> f = f' \<and> w = w' \<and> r = r'"
  by (auto simp: str_def number_char_def dest!: dec_int_prefix dec_int_inject)

lemma timeline_text_determines:
  "display say (TimelineBackwards i t f) = display say (TimelineBackwards i' t' f') \<Longrightarrow> i = i' \<and> t = t' \<and> f = f'"
  by (auto simp: str_def number_char_def dest!: dec_int_prefix dec_int_inject)

subsection \<open>Wrapping\<close>

lemma display_root: "display say (root e) = display say e"
  by (induction e rule: root.induct) auto

lemma string_survives: "string_from_error say (error_from_string m) = str m"
  by (simp add: string_from_error_def error_from_string_def)

text \<open>Following \<open>source()\<close> through the writer's wrappers ends at the root's own source.\<close>

fun last_cause :: "error \<Rightarrow> cause option" where
  "last_cause (Writer e) = last_cause e"
| "last_cause e = error_source e"

lemma last_cause_root: "last_cause e = error_source (root e)"
  by (induction e rule: root.induct) auto

subsection \<open>The file's tests\<close>

text \<open>
  \<open>code_of\<close> names rusqlite's code for each of SQLite's result codes the tests use; an
  extended code has its primary code in the low byte.
\<close>

definition code_of :: "nat \<Rightarrow> sqlite_code" where
  "code_of n =
    (let p = n mod 256
     in if p = 5 then DatabaseBusy else if p = 6 then DatabaseLocked else if p = 13 then DiskFull
        else if p = 10 then SystemIoFailure else if p = 7 then OutOfMemory
        else if p = 9 then OperationInterrupted else if p = 17 then SchemaChanged
        else if p = 19 then ConstraintViolation else if p = 8 then ReadOnlyDatabase
        else if p = 14 then CannotOpen else if p = 26 then NotADatabase
        else if p = 11 then DatabaseCorrupt else OtherCode p)"

definition sqlite_failure :: "nat \<Rightarrow> error" where
  "sqlite_failure n = error_from_sqlite (SqliteFailure (code_of n))"

definition classifies_sqlite_result_codes :: bool where
  "classifies_sqlite_result_codes \<longleftrightarrow>
     list_all (\<lambda>n. is_retryable (sqlite_failure n) \<and> \<not> is_constraint (sqlite_failure n)) [5, 6, 13, 10, 7, 9, 17]
   \<and> is_constraint (sqlite_failure 19) \<and> \<not> is_retryable (sqlite_failure 19)
   \<and> is_constraint (sqlite_failure 1555)
   \<and> list_all (\<lambda>n. \<not> is_retryable (sqlite_failure n) \<and> \<not> is_constraint (sqlite_failure n)) [11, 8, 21, 26]
   \<and> \<not> is_retryable (Message ''bad json'') \<and> sqlite_code (Message ''x'') = None"

lemma classifies_sqlite_result_codes: "classifies_sqlite_result_codes"
  by code_simp

definition context_and_writer_wrapping_keep_the_code :: "(rusqlite_error \<Rightarrow> rstring) \<Rightarrow> bool" where
  "context_and_writer_wrapping_keep_the_code say \<longleftrightarrow>
    (let wrapped = sqlite_with ''inserting a row'' (SqliteFailure (code_of 5));
         via_writer = Writer wrapped
     in is_retryable wrapped
        \<and> take 17 (display say wrapped) = str ''inserting a row: ''
        \<and> error_source wrapped \<noteq> None
        \<and> is_retryable via_writer \<and> sqlite_code via_writer = Some DatabaseBusy
        \<and> take 2 (display say (sqlite_failure 13)) \<noteq> str '': '')"

lemma context_and_writer_wrapping_keep_the_code:
  assumes "take 2 (say (SqliteFailure DiskFull)) \<noteq> str '': ''"
  shows "context_and_writer_wrapping_keep_the_code say"
  using assms
  by (simp add: context_and_writer_wrapping_keep_the_code_def sqlite_with_def sqlite_failure_def
      error_from_sqlite_def code_of_def str_def retryable_code_def)

end
