(* ===== verification/Archive_Check.thy ===== *)
theory Archive_Check
  imports Archive_Open Error_Display
begin

section \<open>Checking an archive over (\<open>src/archive/sqlite.rs\<close>)\<close>

text \<open>
  Two judgements a reader makes of a file it did not write. \<open>HeartbeatWatch\<close> tells a
  running writer from a stopped one by whether the counter in the catalog moves;
  \<open>verify\<close> collects what is wrong with the archive into a report. SQLite's own
  checks are parameters: the lines of its integrity check and the rows of its foreign
  key check. So is the outcome of each catalog query, since a damaged file fails some
  of them; \<open>reads_of\<close> is the outcome on an archive whose pages are sound.
\<close>

subsection \<open>The heartbeat watch\<close>

text \<open>Instants and durations are natural numbers of nanoseconds.\<close>

record heartbeat_watch =
  hw_seen :: "(i64 \<times> nat) option"

datatype writer_verdict = WriterComplete | WriterLive | WriterStopped | WriterUnknown

definition stopped_after_intervals :: nat where "stopped_after_intervals = 3"

definition new_watch :: heartbeat_watch where "new_watch = \<lparr>hw_seen = None\<rparr>"

definition observe :: "heartbeat_watch \<Rightarrow> source_row \<Rightarrow> nat \<Rightarrow> writer_verdict \<times> heartbeat_watch" where
  "observe w source now =
     (if src_complete source then (WriterComplete, w)
      else case (src_heartbeat source, src_interval source) of
        (Some beat, Some interval) \<Rightarrow>
          if interval \<le> 0 then (WriterUnknown, w)
          else (case hw_seen w of
                  Some (seen, since) \<Rightarrow>
                    if seen = beat
                    then (if nat interval * stopped_after_intervals \<le> now - since
                          then WriterStopped else WriterLive, w)
                    else (WriterLive, w\<lparr>hw_seen := Some (beat, now)\<rparr>)
                | None \<Rightarrow> (WriterLive, w\<lparr>hw_seen := Some (beat, now)\<rparr>))
      | _ \<Rightarrow> (WriterUnknown, w))"

subsection \<open>The report\<close>

datatype depth = Quick | Full

datatype violation =
    DanglingRow rstring "i64 option" rstring     \<comment> \<open>table, rowid, the table it points at\<close>
  | OrphanIndex i64 rstring nat                  \<comment> \<open>the key of a \<open>segment_indexes\<close> row\<close>

datatype corruption = CheckLine rstring | CheckStopped rusqlite_error | CheckFailed error

datatype segment_fault = RunsBackwards i64 i64 | ClaimsNoRows

datatype problem =
    Corrupt corruption
  | ForeignKeyProblem violation
  | SegmentProblem i64 rstring nat segment_fault
  | UnreadableWalRows i64 rstring nat

text \<open>
  The text of a problem. The strings the report holds are built where a problem is
  found, here from its parts: \<open>quote()\<close> writes a key as an SQL literal, \<open>{:?}\<close> an
  optional row id, and \<open>say\<close> is the text of an error of SQLite's.
\<close>

definition sql_quote :: "rstring \<Rightarrow> rstring" where
  "sql_quote s = [39] @ concat (map (\<lambda>c. if c = 39 then [39, 39] else [c]) s) @ [39]"

fun violation_text :: "violation \<Rightarrow> rstring" where
  "violation_text (DanglingRow table row parent) =
     table @ str '' row ''
       @ (case row of None \<Rightarrow> str ''None'' | Some i \<Rightarrow> str ''Some('' @ dec_int i @ str '')'')
       @ str '' -> '' @ parent"
| "violation_text (OrphanIndex sid stream q) =
     str ''segment_indexes (source_id '' @ dec_int sid @ str '', stream '' @ sql_quote stream
       @ str '', seq '' @ dec_nat q @ str '') -> segments''"

fun corruption_text :: "(rusqlite_error \<Rightarrow> rstring) \<Rightarrow> corruption \<Rightarrow> rstring" where
  "corruption_text say (CheckLine line) = line"
| "corruption_text say (CheckStopped e) = say e"
| "corruption_text say (CheckFailed e) = display say e"

fun fault_text :: "segment_fault \<Rightarrow> rstring" where
  "fault_text (RunsBackwards first_ts last_ts) =
     str ''spans ['' @ dec_int first_ts @ str '', '' @ dec_int last_ts @ str ''], which runs backwards''"
| "fault_text ClaimsNoRows = str ''claims no rows; such a segment should not exist''"

fun problem_text :: "(rusqlite_error \<Rightarrow> rstring) \<Rightarrow> problem \<Rightarrow> rstring" where
  "problem_text say (Corrupt m) = str ''corrupt: '' @ corruption_text say m"
| "problem_text say (ForeignKeyProblem m) = str ''dangling reference: '' @ violation_text m"
| "problem_text say (SegmentProblem sid stream q detail) =
     str ''source '' @ dec_int sid @ str '', stream '' @ stream @ str '', segment '' @ dec_nat q
       @ str '': '' @ fault_text detail"
| "problem_text say (UnreadableWalRows sid stream rows) =
     str ''source '' @ dec_int sid @ str '', stream '' @ stream @ str '': '' @ dec_nat rows
       @ str '' WAL row(s) at or below the sealed watermark, which no read path can reach''"

record report =
  rp_sources :: nat
  rp_streams :: nat
  rp_segments :: nat
  rp_wal_rows :: nat
  rp_problems :: "problem list"

definition is_sound :: "report \<Rightarrow> bool" where
  "is_sound r \<longleftrightarrow> rp_problems r = []"

subsection \<open>What the checks are answered\<close>

record catalog_reads =
  ct_begin :: "unit result"
  ct_sources :: "source_row list result"
  ct_streams :: "i64 \<Rightarrow> rstring list result"
  ct_segments :: "i64 \<Rightarrow> rstring \<Rightarrow> (nat \<times> segment_meta) list result"
  ct_total :: "i64 \<Rightarrow> rstring \<Rightarrow> nat result"
  ct_live :: "i64 \<Rightarrow> rstring \<Rightarrow> nat result"

definition reads_of :: "archive \<Rightarrow> catalog_reads" where
  "reads_of a =
     \<lparr>ct_begin = Inr (), ct_sources = Inr (read_sources a),
      ct_streams = (\<lambda>sid. Inr (all_streams a sid)),
      ct_segments = (\<lambda>sid s. Inr (read_segment_meta a sid s)),
      ct_total = (\<lambda>sid s. Inr (total_wal_rows a sid s)),
      ct_live = (\<lambda>sid s. Inr (span_rows (live_wal_span a sid s)))\<rparr>"

text \<open>
  The integrity check: preparing it may fail, and so may each line. \<open>foreign_key_check\<close>
  gives rows, and the orphan query the keys of index rows without a segment.
\<close>

record check_answers =
  ca_lines :: "depth \<Rightarrow> rusqlite_error + (rusqlite_error + rstring) list"
  ca_references :: "rusqlite_error + (rstring \<times> i64 option \<times> rstring) list"
  ca_orphans :: "rusqlite_error + (i64 \<times> rstring \<times> nat) list"

definition orphan_indexes :: "archive \<Rightarrow> (i64 \<times> rstring \<times> nat) list" where
  "orphan_indexes a =
     map index_key (filter (\<lambda>i. index_key i \<notin> set (map seg_key (ar_segments a))) (ar_indexes a))"

subsection \<open>The three checks\<close>

fun check_lines :: "(rusqlite_error + rstring) list \<Rightarrow> problem list \<Rightarrow> problem list result" where
  "check_lines [] problems = Inr problems"
| "check_lines (Inr line # rest) problems =
     check_lines rest (if line \<noteq> str ''ok'' then problems @ [Corrupt (CheckLine line)] else problems)"
| "check_lines (Inl e # rest) problems =
     (if e = SqliteFailure DatabaseCorrupt
      then Inr (problems @ [Corrupt (CheckStopped e)])
      else Inl (Sqlite ''failed to read a check result'' e))"

definition names_indexes :: "rstring \<Rightarrow> bool" where
  "names_indexes table \<longleftrightarrow>
     take (length ''segment_indexes '') (table @ str '' row '') = str ''segment_indexes ''"

definition reference_violations :: "check_answers \<Rightarrow> violation list result" where
  "reference_violations ca =
     rbind (sqlite_err ''failed to check references'' (ca_references ca)) (\<lambda>rows.
       if \<exists>(t, _) \<in> set rows. names_indexes t
       then rbind (sqlite_err ''failed to find orphan segment indexes'' (ca_orphans ca)) (\<lambda>orphans.
              Inr (map (\<lambda>(t, r, p). DanglingRow t r p) (filter (\<lambda>(t, _). \<not> names_indexes t) rows)
                   @ map (\<lambda>(sid, s, q). OrphanIndex sid s q) orphans))
       else Inr (map (\<lambda>(t, r, p). DanglingRow t r p) rows))"

text \<open>The walk over the catalog: its counters and the problems found so far.\<close>

record walk =
  wk_streams :: nat
  wk_segments :: nat
  wk_wal_rows :: nat
  wk_problems :: "problem list"

definition segment_faults :: "segment_meta \<Rightarrow> segment_fault list" where
  "segment_faults m =
     (if meta_first_ts m > meta_last_ts m then [RunsBackwards (meta_first_ts m) (meta_last_ts m)] else [])
     @ (if meta_rows m = 0 then [ClaimsNoRows] else [])"

definition walk_segment :: "i64 \<Rightarrow> rstring \<Rightarrow> nat \<times> segment_meta \<Rightarrow> walk \<Rightarrow> walk" where
  "walk_segment sid s = (\<lambda>(q, m) w.
     w\<lparr>wk_segments := wk_segments w + 1,
       wk_problems := wk_problems w @ map (SegmentProblem sid s q) (segment_faults m)\<rparr>)"

definition walk_wal :: "i64 \<Rightarrow> rstring \<Rightarrow> nat \<Rightarrow> nat \<Rightarrow> walk \<Rightarrow> walk" where
  "walk_wal sid s all live w =
     (let w' = w\<lparr>wk_wal_rows := wk_wal_rows w + all\<rparr>
      in if all > live
         then w'\<lparr>wk_problems := wk_problems w' @ [UnreadableWalRows sid s (all - live)]\<rparr>
         else w')"

text \<open>A failed query ends the walk; the problems found before it stay found.\<close>

definition walk_stream :: "catalog_reads \<Rightarrow> i64 \<Rightarrow> rstring \<Rightarrow> walk \<Rightarrow> unit result \<times> walk" where
  "walk_stream ct sid s w0 =
     (let w1 = w0\<lparr>wk_streams := wk_streams w0 + 1\<rparr>
      in case ct_segments ct sid s of
           Inl e \<Rightarrow> (Inl e, w1)
         | Inr segs \<Rightarrow>
             let w2 = fold (walk_segment sid s) segs w1
             in case ct_total ct sid s of
                  Inl e \<Rightarrow> (Inl e, w2)
                | Inr all \<Rightarrow>
                    (case ct_live ct sid s of
                       Inl e \<Rightarrow> (Inl e, w2)
                     | Inr live \<Rightarrow> (Inr (), walk_wal sid s all live w2)))"

fun walk_streams :: "catalog_reads \<Rightarrow> i64 \<Rightarrow> rstring list \<Rightarrow> walk \<Rightarrow> unit result \<times> walk" where
  "walk_streams ct sid [] w = (Inr (), w)"
| "walk_streams ct sid (s # ss) w =
     (case walk_stream ct sid s w of
        (Inl e, w') \<Rightarrow> (Inl e, w')
      | (Inr _, w') \<Rightarrow> walk_streams ct sid ss w')"

fun walk_sources :: "catalog_reads \<Rightarrow> source_row list \<Rightarrow> walk \<Rightarrow> unit result \<times> walk" where
  "walk_sources ct [] w = (Inr (), w)"
| "walk_sources ct (src # srcs) w =
     (case ct_streams ct (src_id src) of
        Inl e \<Rightarrow> (Inl e, w)
      | Inr streams \<Rightarrow>
          (case walk_streams ct (src_id src) streams w of
             (Inl e, w') \<Rightarrow> (Inl e, w')
           | (Inr _, w') \<Rightarrow> walk_sources ct srcs w'))"

definition walk_catalog :: "catalog_reads \<Rightarrow> problem list \<Rightarrow> nat result \<times> walk" where
  "walk_catalog ct problems =
     (let w = \<lparr>wk_streams = 0, wk_segments = 0, wk_wal_rows = 0, wk_problems = problems\<rparr>
      in case ct_begin ct of
           Inl e \<Rightarrow> (Inl e, w)
         | Inr _ \<Rightarrow>
             (case ct_sources ct of
                Inl e \<Rightarrow> (Inl e, w)
              | Inr rows \<Rightarrow>
                  (case walk_sources ct rows w of
                     (Inl e, w') \<Rightarrow> (Inl e, w')
                   | (Inr _, w') \<Rightarrow> (Inr (length rows), w'))))"

text \<open>\<open>corrupt\<close>: running into the damage is a finding, any other failure an error.\<close>

definition corrupt :: "error \<Rightarrow> problem list \<Rightarrow> problem list result" where
  "corrupt e problems =
     (if sqlite_code e = Some DatabaseCorrupt then Inr (problems @ [Corrupt (CheckFailed e)])
      else Inl e)"

definition note_references :: "check_answers \<Rightarrow> problem list \<Rightarrow> problem list result" where
  "note_references ca found =
     (case reference_violations ca of
        Inr violations \<Rightarrow> Inr (found @ map ForeignKeyProblem violations)
      | Inl e \<Rightarrow> corrupt e found)"

definition finish_report :: "nat result \<times> walk \<Rightarrow> report result" where
  "finish_report = (\<lambda>(walked, w).
     case walked of
       Inr sources \<Rightarrow>
         Inr \<lparr>rp_sources = sources, rp_streams = wk_streams w, rp_segments = wk_segments w,
              rp_wal_rows = wk_wal_rows w, rp_problems = wk_problems w\<rparr>
     | Inl e \<Rightarrow>
         rbind (corrupt e (wk_problems w)) (\<lambda>found.
           Inr \<lparr>rp_sources = 0, rp_streams = 0, rp_segments = 0, rp_wal_rows = 0,
                rp_problems = found\<rparr>))"

definition verify :: "catalog_reads \<Rightarrow> check_answers \<Rightarrow> depth \<Rightarrow> report result" where
  "verify ct ca depth =
     rbind (sqlite_err ''failed to check the archive'' (ca_lines ca depth)) (\<lambda>lines.
     rbind (check_lines lines []) (\<lambda>found.
     rbind (note_references ca found) (\<lambda>found.
       finish_report (walk_catalog ct found))))"

end
