(* ===== verification/Archive_Check_Properties.thy ===== *)
theory Archive_Check_Properties
  imports Archive_Check
begin

section \<open>What the checks conclude\<close>

text \<open>Lemmas and properties of theory \<open>Archive_Check\<close>.\<close>

subsection \<open>The heartbeat watch\<close>

text \<open>
  A reader's history: the beat each read of the catalog found and when. The watch
  after it, and the instant from which the last beat has been seen unchanged.
\<close>

definition unfinished :: "source_row \<Rightarrow> i64 \<Rightarrow> i64 \<Rightarrow> source_row" where
  "unfinished src interval beat =
     src\<lparr>src_complete := False, src_heartbeat := Some beat, src_interval := Some interval\<rparr>"

definition watch_run :: "source_row \<Rightarrow> i64 \<Rightarrow> (i64 \<times> nat) list \<Rightarrow> writer_verdict \<times> heartbeat_watch" where
  "watch_run src interval obs =
     foldl (\<lambda>(_, w) (beat, now). observe w (unfinished src interval beat) now) (WriterUnknown, new_watch) obs"

definition unchanged_since :: "(i64 \<times> nat) list \<Rightarrow> nat" where
  "unchanged_since obs = snd (last (takeWhile (\<lambda>x. fst x = fst (last obs)) (rev obs)))"

lemma unchanged_since_snoc:
  "obs \<noteq> [] \<Longrightarrow> unchanged_since (obs @ [(beat, now)])
     = (if beat = fst (last obs) then unchanged_since obs else now)"
  by (cases obs rule: rev_cases) (auto simp: unchanged_since_def)

lemma watch_run_snoc:
  "watch_run src i (obs @ [(beat, now)])
     = observe (snd (watch_run src i obs)) (unfinished src i beat) now"
  by (simp add: watch_run_def split_beta)

lemma watch_run_verdict:
  assumes "0 < interval" and "obs \<noteq> []"
  shows "watch_run src interval obs
     = (if nat interval * 3 \<le> snd (last obs) - unchanged_since obs then WriterStopped else WriterLive,
        \<lparr>hw_seen = Some (fst (last obs), unchanged_since obs)\<rparr>)"
  using assms(2)
proof (induction obs rule: rev_induct)
  case (snoc x xs)
  obtain beat now where x: "x = (beat, now)" by fastforce
  show ?case
  proof (cases "xs = []")
    case True
    then show ?thesis using assms(1)
      by (simp add: x watch_run_def observe_def unfinished_def new_watch_def unchanged_since_def)
  next
    case False
    then show ?thesis using assms(1) snoc.IH[OF False] unchanged_since_snoc[OF False, of beat now]
      by (simp add: x watch_run_snoc observe_def unfinished_def stopped_after_intervals_def)
  qed
qed simp

lemma unchanged_since_in:
  "obs \<noteq> [] \<Longrightarrow> (fst (last obs), unchanged_since obs) \<in> set obs"
proof (induction obs rule: rev_induct)
  case (snoc x xs)
  obtain beat now where x: "x = (beat, now)" by fastforce
  show ?case
  proof (cases "xs = []")
    case True
    then show ?thesis by (simp add: x unchanged_since_def)
  next
    case False
    then show ?thesis using snoc.IH[OF False] by (simp add: x unchanged_since_snoc)
  qed
qed simp

text \<open>C27: Over any sequence of reads of a source that is not complete, the watch says the
  writer has stopped exactly when the beat read last has been the beat of every read for
  three intervals or more, and what it remembers is that beat and the first of those
  reads. So a writer whose counter differs between any two instants three intervals apart
  is never called stopped, however the reads fall.\<close>

theorem heartbeat_correct:
  assumes "0 < interval" and "obs \<noteq> []"
  shows "watch_run src interval obs
     = (if nat interval * 3 \<le> snd (last obs) - unchanged_since obs then WriterStopped else WriterLive,
        \<lparr>hw_seen = Some (fst (last obs), unchanged_since obs)\<rparr>)
     \<and> ((\<forall>t t'. t + nat interval * 3 \<le> t' \<longrightarrow> beat_at t \<noteq> beat_at t')
           \<and> (\<forall>(beat, t) \<in> set obs. beat = beat_at t)
         \<longrightarrow> fst (watch_run src interval obs) = WriterLive)"
proof (intro conjI impI)
  show "watch_run src interval obs
     = (if nat interval * 3 \<le> snd (last obs) - unchanged_since obs then WriterStopped else WriterLive,
        \<lparr>hw_seen = Some (fst (last obs), unchanged_since obs)\<rparr>)"
    by (rule watch_run_verdict[OF assms])
next
  assume "(\<forall>t t'. t + nat interval * 3 \<le> t' \<longrightarrow> beat_at t \<noteq> beat_at t')
           \<and> (\<forall>(beat, t) \<in> set obs. beat = beat_at t)"
  then have beats: "\<And>t t'. t + nat interval * 3 \<le> t' \<Longrightarrow> beat_at t \<noteq> beat_at t'"
    and reads: "\<And>beat t. (beat, t) \<in> set obs \<Longrightarrow> beat = beat_at t" by blast+
  have "fst (last obs) = beat_at (unchanged_since obs)"
    by (rule reads[OF unchanged_since_in[OF assms(2)]])
  moreover have "fst (last obs) = beat_at (snd (last obs))"
    using reads[of "fst (last obs)" "snd (last obs)"] assms(2) by simp
  ultimately have "\<not> unchanged_since obs + nat interval * 3 \<le> snd (last obs)"
    using beats by metis
  then have "\<not> nat interval * 3 \<le> snd (last obs) - unchanged_since obs" using assms(1) by simp
  then show "fst (watch_run src interval obs) = WriterLive"
    by (simp add: watch_run_verdict[OF assms])
qed

definition sample_source :: source_row where
  "sample_source =
     \<lparr>src_id = 1, src_meta = \<lparr>sm_labels = [], sm_metadata = [], sm_clock_anchor = 0\<rparr>,
      src_uuid = None, src_complete = False, src_heartbeat = None, src_interval = None\<rparr>"

lemma heartbeat_correct_witness:
  "fst (watch_run sample_source 10 [(7, 0), (8, 5), (8, 20), (8, 36)]) = WriterStopped
   \<and> fst (watch_run sample_source 10 [(7, 0), (8, 5), (8, 20), (9, 36)]) = WriterLive"
  using heartbeat_correct[of 10 "[(7, 0), (8, 5), (8, 20), (8, 36)]" sample_source]
    heartbeat_correct[of 10 "[(7, 0), (8, 5), (8, 20), (9, 36)]" sample_source]
  by (simp add: unchanged_since_def)

subsection \<open>The walk over the catalog\<close>

definition segment_problems :: "archive \<Rightarrow> i64 \<Rightarrow> rstring \<Rightarrow> problem list" where
  "segment_problems a sid s =
     concat (map (\<lambda>(q, m). map (SegmentProblem sid s q) (segment_faults m)) (read_segment_meta a sid s))"

definition wal_problems :: "archive \<Rightarrow> i64 \<Rightarrow> rstring \<Rightarrow> problem list" where
  "wal_problems a sid s =
     (let all = total_wal_rows a sid s; live = span_rows (live_wal_span a sid s)
      in if all > live then [UnreadableWalRows sid s (all - live)] else [])"

definition stream_problems :: "archive \<Rightarrow> i64 \<Rightarrow> rstring \<Rightarrow> problem list" where
  "stream_problems a sid s = segment_problems a sid s @ wal_problems a sid s"

text \<open>What a walk adds to the counters and to the problems.\<close>

definition add_walk :: "nat \<Rightarrow> nat \<Rightarrow> nat \<Rightarrow> problem list \<Rightarrow> walk \<Rightarrow> walk" where
  "add_walk streams segments rows problems w =
     \<lparr>wk_streams = wk_streams w + streams, wk_segments = wk_segments w + segments,
      wk_wal_rows = wk_wal_rows w + rows, wk_problems = wk_problems w @ problems\<rparr>"

lemma add_walk_zero [simp]: "add_walk 0 0 0 [] w = w"
  by (simp add: add_walk_def)

lemma add_walk_add [simp]:
  "add_walk a b c ps (add_walk a' b' c' ps' w) = add_walk (a' + a) (b' + b) (c' + c) (ps' @ ps) w"
  by (simp add: add_walk_def)

lemma fold_walk_segment:
  "fold (walk_segment sid s) segs w
     = add_walk 0 (length segs) 0
         (concat (map (\<lambda>(q, m). map (SegmentProblem sid s q) (segment_faults m)) segs)) w"
  by (induction segs arbitrary: w) (auto simp: walk_segment_def add_walk_def)

lemma walk_stream_reads_of:
  "walk_stream (reads_of a) sid s w
     = (Inr (), add_walk 1 (length (stream_rows a sid s)) (length (wal_of a sid s)) (stream_problems a sid s) w)"
  by (simp add: walk_stream_def reads_of_def fold_walk_segment walk_wal_def add_walk_def Let_def
      stream_problems_def segment_problems_def wal_problems_def read_segment_meta_def total_wal_rows_def)

lemma walk_streams_reads_of:
  "walk_streams (reads_of a) sid ss w
     = (Inr (), add_walk (length ss) (sum_list (map (\<lambda>s. length (stream_rows a sid s)) ss))
                  (sum_list (map (\<lambda>s. length (wal_of a sid s)) ss))
                  (concat (map (stream_problems a sid) ss)) w)"
  by (induction ss arbitrary: w) (simp_all add: walk_stream_reads_of)

lemma walk_sources_reads_of:
  "walk_sources (reads_of a) srcs w
     = (Inr (), add_walk
          (sum_list (map (\<lambda>src. length (all_streams a (src_id src))) srcs))
          (sum_list (map (\<lambda>src. sum_list (map (\<lambda>s. length (stream_rows a (src_id src) s))
                                            (all_streams a (src_id src)))) srcs))
          (sum_list (map (\<lambda>src. sum_list (map (\<lambda>s. length (wal_of a (src_id src) s))
                                            (all_streams a (src_id src)))) srcs))
          (concat (map (\<lambda>src. concat (map (stream_problems a (src_id src)) (all_streams a (src_id src)))) srcs)) w)"
proof (induction srcs arbitrary: w)
  case (Cons src srcs)
  have "ct_streams (reads_of a) (src_id src) = Inr (all_streams a (src_id src))"
    by (simp add: reads_of_def)
  then show ?case by (simp add: walk_streams_reads_of Cons.IH)
qed simp

subsection \<open>Counting by stream\<close>

lemma count_by_key:
  assumes "distinct ks" "\<And>x. x \<in> set xs \<Longrightarrow> f x \<in> set ks"
  shows "sum_list (map (\<lambda>k. length (filter (\<lambda>x. f x = k) xs)) ks) = length xs"
  using assms(2)
proof (induction xs)
  case (Cons x xs)
  have one: "sum_list (map (\<lambda>k. if f x = k then 1 else 0) ks) = (1 :: nat)"
    using assms(1) Cons.prems[of x]
    by (simp add: sum_list_distinct_conv_sum_set)
  have "sum_list (map (\<lambda>k. length (filter (\<lambda>y. f y = k) (x # xs))) ks)
      = sum_list (map (\<lambda>k. (if f x = k then 1 else 0) + length (filter (\<lambda>y. f y = k) xs)) ks)"
    by (rule arg_cong[where f = sum_list], rule map_cong) auto
  also have "\<dots> = 1 + length xs"
    unfolding sum_list_addf one using Cons by simp
  finally show ?case by simp
qed simp

lemma segments_by_stream:
  "sum_list (map (\<lambda>s. length (stream_rows a sid s)) (all_streams a sid))
     = length (filter (\<lambda>r. sg_source r = sid) (ar_segments a))"
proof -
  let ?xs = "filter (\<lambda>r. sg_source r = sid) (ar_segments a)"
  have "sg_stream r \<in> set (all_streams a sid)" if "r \<in> set ?xs" for r
    using that by (force simp: all_streams_def)
  moreover have "stream_rows a sid s = filter (\<lambda>r. sg_stream r = s) ?xs" for s
    unfolding stream_rows_def seg_of_def by (simp add: conj_commute)
  ultimately show ?thesis
    using count_by_key[of "all_streams a sid" ?xs sg_stream] by (simp add: all_streams_def)
qed

lemma wal_by_stream:
  "sum_list (map (\<lambda>s. length (wal_of a sid s)) (all_streams a sid))
     = length (filter (\<lambda>r. fst r = sid) (ar_wal a))"
proof -
  let ?xs = "filter (\<lambda>r. fst r = sid) (ar_wal a)"
  have "row_stream (snd r) \<in> set (all_streams a sid)" if "r \<in> set ?xs" for r
    using that by (force simp: all_streams_def)
  moreover have "length (wal_of a sid s) = length (filter (\<lambda>r. row_stream (snd r) = s) ?xs)" for s
    unfolding wal_of_def by (simp add: case_prod_unfold conj_commute)
  ultimately show ?thesis
    using count_by_key[of "all_streams a sid" ?xs "row_stream \<circ> snd"] by (simp add: all_streams_def)
qed

lemma by_source:
  assumes "keys_ok a" "\<And>x. x \<in> set xs \<Longrightarrow> f x \<in> source_ids a"
  shows "sum_list (map (\<lambda>src. length (filter (\<lambda>x. f x = src_id src) xs)) (read_sources a)) = length xs"
proof -
  have "set (map src_id (read_sources a)) = source_ids a" "distinct (map src_id (read_sources a))"
    using assms(1) by (simp_all add: read_sources_def source_ids_def keys_ok_def distinct_order_by)
  then show ?thesis
    using count_by_key[of "map src_id (read_sources a)" xs f] assms(2) by (simp add: comp_def)
qed

subsection \<open>When a report is empty\<close>

lemma segment_problems_Nil:
  "segment_problems a sid s = []
     \<longleftrightarrow> (\<forall>r \<in> set (stream_rows a sid s).
            meta_first_ts (sg_meta r) \<le> meta_last_ts (sg_meta r) \<and> meta_rows (sg_meta r) \<noteq> 0)"
  by (auto simp: segment_problems_def segment_faults_def read_segment_meta_def)

lemma wal_problems_Nil:
  "wal_problems a sid s = [] \<longleftrightarrow> (\<forall>r \<in> set (wal_of a sid s). is_live a sid s (row_ts r))"
proof -
  have "length (filter P xs) < length xs \<longleftrightarrow> (\<exists>x \<in> set xs. \<not> P x)" for P and xs :: "wal_row list"
    by (induction xs) (auto simp: less_Suc_eq_le)
  then show ?thesis
    by (auto simp: wal_problems_def total_wal_rows_def live_wal_span_def Let_def)
qed

lemma source_problems_Nil:
  "concat (map (stream_problems a sid) (all_streams a sid)) = []
     \<longleftrightarrow> (\<forall>r \<in> set (ar_segments a). sg_source r = sid
            \<longrightarrow> meta_first_ts (sg_meta r) \<le> meta_last_ts (sg_meta r) \<and> meta_rows (sg_meta r) \<noteq> 0)
       \<and> (\<forall>r. (sid, r) \<in> set (ar_wal a) \<longrightarrow> is_live a sid (row_stream r) (row_ts r))"
proof -
  have rows: "r \<in> set (stream_rows a sid s) \<longleftrightarrow> r \<in> set (ar_segments a) \<and> sg_source r = sid \<and> sg_stream r = s" for r s
    by (auto simp: stream_rows_def seg_of_def)
  have wal: "r \<in> set (wal_of a sid s) \<longleftrightarrow> (sid, r) \<in> set (ar_wal a) \<and> row_stream r = s" for r s
    by (force simp: wal_of_def)
  have absent: "segment_problems a sid s = [] \<and> wal_problems a sid s = []"
    if "s \<notin> set (all_streams a sid)" for s
    using that by (simp add: set_all_streams segment_problems_Nil wal_problems_Nil)
  have "concat (map (stream_problems a sid) (all_streams a sid)) = []
     \<longleftrightarrow> (\<forall>s \<in> set (all_streams a sid). segment_problems a sid s = [] \<and> wal_problems a sid s = [])"
    by (auto simp: stream_problems_def)
  also have "\<dots> \<longleftrightarrow> (\<forall>s. segment_problems a sid s = [] \<and> wal_problems a sid s = [])"
    using absent by blast
  also have "\<dots> \<longleftrightarrow> (\<forall>s r. r \<in> set (ar_segments a) \<and> sg_source r = sid \<and> sg_stream r = s
            \<longrightarrow> meta_first_ts (sg_meta r) \<le> meta_last_ts (sg_meta r) \<and> meta_rows (sg_meta r) \<noteq> 0)
       \<and> (\<forall>s r. (sid, r) \<in> set (ar_wal a) \<and> row_stream r = s \<longrightarrow> is_live a sid s (row_ts r))"
    unfolding segment_problems_Nil wal_problems_Nil Ball_def rows wal by (simp only: all_conj_distrib)
  finally show ?thesis by (simp add: Ball_def imp_conjL)
qed

lemma check_lines_found:
  "check_lines lines ps = Inr ps' \<Longrightarrow> ps' = [] \<longleftrightarrow> ps = [] \<and> set lines \<subseteq> {Inr (str ''ok'')}"
proof (induction lines ps rule: check_lines.induct)
  case (2 line rest ps)
  then show ?case by (auto split: if_splits)
qed (auto split: if_splits)

text \<open>A row of SQLite's reference check that names the index table.\<close>

definition index_table :: "rstring \<Rightarrow> bool" where
  "index_table t \<longleftrightarrow> t = str ''segment_indexes'' \<or> (\<exists>rest. t = str ''segment_indexes '' @ rest)"

lemma names_indexes_iff: "names_indexes t \<longleftrightarrow> index_table t"
proof -
  have l: "length (str s) = length s" for s by (simp add: str_def)
  have s: "str ''segment_indexes '' = str ''segment_indexes'' @ [32]" by code_simp
  have n: "length ''segment_indexes '' = 16" "length (str ''segment_indexes'') = 15" by (simp_all add: l)
  show ?thesis
  proof (cases "length t \<le> 15")
    case True
    then have "index_table t \<longleftrightarrow> t = str ''segment_indexes''"
      by (auto simp: index_table_def l dest: arg_cong [where f = length])
    moreover have "names_indexes t \<longleftrightarrow> t = str ''segment_indexes''"
    proof (cases "length t = 15")
      case 1: True
      have r: "take 1 (str '' row '') = [32]" by code_simp
      have "take 16 (t @ str '' row '') = t @ [32]" using 1 r by simp
      then show ?thesis unfolding names_indexes_def n(1) s by (simp only: append_same_eq)
    next
      case 2: False
      have "take 16 (t @ str '' row '') \<noteq> str ''segment_indexes ''"
      proof
        assume e: "take 16 (t @ str '' row '') = str ''segment_indexes ''"
        have "take 16 (t @ str '' row '') ! length t = 32"
          using True 2 by (simp add: nth_append) (simp add: str_def)
        moreover have "\<forall>i < 15. str ''segment_indexes '' ! i \<noteq> 32" by code_simp
        ultimately show False using e True 2 by simp
      qed
      moreover have "t \<noteq> str ''segment_indexes''" using 2 n(2) by auto
      ultimately show ?thesis by (simp only: names_indexes_def n(1))
    qed
    ultimately show ?thesis by simp
  next
    case False
    then have "take 16 (t @ str '' row '') = take 16 t" by simp
    moreover have "take 16 t = str ''segment_indexes '' \<longleftrightarrow> (\<exists>rest. t = str ''segment_indexes '' @ rest)"
      by (metis append_take_drop_id append_eq_conv_conj l n(1))
    moreover have "t \<noteq> str ''segment_indexes''" using False n(2) by auto
    ultimately show ?thesis unfolding names_indexes_def index_table_def n(1) by metis
  qed
qed


lemma check_lines_corrupt:
  "check_lines lines ps = Inr ps' \<Longrightarrow> set ps' \<subseteq> set ps \<union> range Corrupt"
proof (induction lines ps rule: check_lines.induct)
  case (2 line rest ps)
  then show ?case by (auto split: if_splits)
qed (auto split: if_splits)

text \<open>The rows a reference check that succeeds reports.\<close>

definition dangling_rows :: "check_answers \<Rightarrow> (rstring \<times> i64 option \<times> rstring) set" where
  "dangling_rows ca = {x. \<exists>rows. ca_references ca = Inr rows \<and> x \<in> set rows \<and> \<not> index_table (fst x)
     \<and> ((\<exists>y \<in> set rows. index_table (fst y)) \<longrightarrow> is_ok (ca_orphans ca))}"

definition orphan_keys :: "check_answers \<Rightarrow> (i64 \<times> rstring \<times> nat) set" where
  "orphan_keys ca = {x. \<exists>rows orphans. ca_references ca = Inr rows \<and> ca_orphans ca = Inr orphans \<and> x \<in> set orphans
     \<and> (\<exists>y \<in> set rows. index_table (fst y))}"

definition reference_findings :: "check_answers \<Rightarrow> problem list" where
  "reference_findings ca =
    (case reference_violations ca of Inr vs \<Rightarrow> map ForeignKeyProblem vs | Inl e \<Rightarrow> [Corrupt (CheckFailed e)])"

lemma reference_findings_Nil:
  "reference_findings ca = [] \<longleftrightarrow> (\<exists>rows. ca_references ca = Inr rows
     \<and> (\<forall>(t, _) \<in> set rows. index_table t) \<and> (rows \<noteq> [] \<longrightarrow> ca_orphans ca = Inr []))"
proof (cases "ca_references ca")
  case (Inr rows)
  show ?thesis
  proof (cases "\<exists>(t, _) \<in> set rows. index_table t")
    case True
    then have "rows \<noteq> []" by auto
    with True show ?thesis
      by (cases "ca_orphans ca") (auto simp: reference_findings_def reference_violations_def Inr names_indexes_iff
          sqlite_err_def filter_empty_conv)
  next
    case False
    then have "(\<forall>(t, _) \<in> set rows. index_table t) \<longleftrightarrow> rows = []" by (cases rows) auto
    with False show ?thesis
      by (auto simp: reference_findings_def reference_violations_def Inr names_indexes_iff sqlite_err_def)
  qed
qed (simp add: reference_findings_def reference_violations_def sqlite_err_def)

lemma reference_findings_members:
  "ForeignKeyProblem (DanglingRow t r p) \<in> set (reference_findings ca) \<longleftrightarrow> (t, r, p) \<in> dangling_rows ca"
  "ForeignKeyProblem (OrphanIndex sid s q) \<in> set (reference_findings ca) \<longleftrightarrow> (sid, s, q) \<in> orphan_keys ca"
proof -
  have "(ForeignKeyProblem (DanglingRow t r p) \<in> set (reference_findings ca) \<longleftrightarrow> (t, r, p) \<in> dangling_rows ca)
    \<and> (ForeignKeyProblem (OrphanIndex sid s q) \<in> set (reference_findings ca) \<longleftrightarrow> (sid, s, q) \<in> orphan_keys ca)"
  proof (cases "ca_references ca")
    case (Inr rows)
    show ?thesis
    proof (cases "\<exists>(t, _) \<in> set rows. index_table t")
      case True
      then have some: "\<exists>y \<in> set rows. index_table (fst y)" by force
      show ?thesis
        by (cases "ca_orphans ca") (use True some in \<open>simp_all add: reference_findings_def reference_violations_def
          names_indexes_iff sqlite_err_def dangling_rows_def orphan_keys_def is_ok_def Inr image_iff Bex_def conj_commute\<close>)
    next
      case False
      then have none: "\<forall>y \<in> set rows. \<not> index_table (fst y)" by auto
      show ?thesis
        using False none by (force simp: reference_findings_def reference_violations_def
          names_indexes_iff sqlite_err_def dangling_rows_def orphan_keys_def Inr)
    qed
  qed (simp add: reference_findings_def reference_violations_def sqlite_err_def dangling_rows_def orphan_keys_def)
  then show "ForeignKeyProblem (DanglingRow t r p) \<in> set (reference_findings ca) \<longleftrightarrow> (t, r, p) \<in> dangling_rows ca"
    "ForeignKeyProblem (OrphanIndex sid s q) \<in> set (reference_findings ca) \<longleftrightarrow> (sid, s, q) \<in> orphan_keys ca"
    by blast+
qed

lemma verify_ok:
  assumes "verify (reads_of a) ca depth = Inr rep"
  obtains lines found where "ca_lines ca depth = Inr lines" "check_lines lines [] = Inr found"
    "rep = \<lparr>rp_sources = length (ar_sources a),
            rp_streams = sum_list (map (\<lambda>src. length (all_streams a (src_id src))) (read_sources a)),
            rp_segments = sum_list (map (\<lambda>src. length (filter (\<lambda>r. sg_source r = src_id src) (ar_segments a))) (read_sources a)),
            rp_wal_rows = sum_list (map (\<lambda>src. length (filter (\<lambda>r. fst r = src_id src) (ar_wal a))) (read_sources a)),
            rp_problems = found @ reference_findings ca @ concat (map (\<lambda>src. concat (map (stream_problems a (src_id src))
                                                             (all_streams a (src_id src)))) (read_sources a))\<rparr>"
proof -
  obtain lines found found' where lines: "ca_lines ca depth = Inr lines" "check_lines lines [] = Inr found"
    and refs: "note_references ca found = Inr found'"
    and rest: "finish_report (walk_catalog (reads_of a) found') = Inr rep"
    using assms unfolding verify_def rbind_Inr_iff by (auto simp: sqlite_err_def split: sum.splits)
  have sources: "ct_sources (reads_of a) = Inr (read_sources a)" "ct_begin (reads_of a) = Inr ()"
      "length (read_sources a) = length (ar_sources a)"
    by (simp_all add: reads_of_def read_sources_def)
  have "found' = found @ reference_findings ca"
    using refs by (auto simp: note_references_def corrupt_def reference_findings_def split: sum.splits if_splits)
  then show thesis
    using that [OF lines] rest sources by (simp add: finish_report_def walk_catalog_def walk_sources_reads_of add_walk_def
        segments_by_stream wal_by_stream)
qed

lemma segment_problem_member:
  "p \<in> set (segment_problems a sid s) \<longleftrightarrow> (\<exists>g \<in> set (ar_segments a). sg_source g = sid \<and> sg_stream g = s
     \<and> (p = SegmentProblem sid s (sg_seq g) (RunsBackwards (meta_first_ts (sg_meta g)) (meta_last_ts (sg_meta g)))
          \<and> meta_last_ts (sg_meta g) < meta_first_ts (sg_meta g)
        \<or> p = SegmentProblem sid s (sg_seq g) ClaimsNoRows \<and> meta_rows (sg_meta g) = 0))"
  by (auto simp: segment_problems_def read_segment_meta_def set_stream_rows seg_of_def segment_faults_def Bex_def)

lemma length_filter_wal: "length (filter P (wal_of a sid s)) = length (filter (\<lambda>(i, r). i = sid \<and> row_stream r = s \<and> P r) (ar_wal a))"
  by (auto simp: wal_of_def filter_map comp_def case_prod_unfold intro!: arg_cong [where f = length] filter_cong)

definition shadowed_rows :: "archive \<Rightarrow> i64 \<Rightarrow> rstring \<Rightarrow> nat" where
  "shadowed_rows a sid s = length (filter (\<lambda>(i, r). i = sid \<and> row_stream r = s \<and> \<not> is_live a sid s (row_ts r)) (ar_wal a))"

lemma wal_problem_member:
  "p \<in> set (wal_problems a sid s) \<longleftrightarrow> p = UnreadableWalRows sid s (shadowed_rows a sid s) \<and> 0 < shadowed_rows a sid s"
proof -
  have "length (filter P xs) + length (filter (\<lambda>x. \<not> P x) xs) = length xs" for P and xs :: "wal_row list"
    by (rule sum_length_filter_compl)
  from this [of "\<lambda>r. is_live a sid s (row_ts r)" "wal_of a sid s"]
  have "total_wal_rows a sid s - span_rows (live_wal_span a sid s) = shadowed_rows a sid s"
    by (simp add: total_wal_rows_def live_wal_span_def Let_def shadowed_rows_def length_filter_wal [symmetric])
  then show ?thesis by (auto simp: wal_problems_def Let_def)
qed

lemma stream_absent:
  "s \<notin> set (all_streams a sid) \<Longrightarrow> shadowed_rows a sid s = 0"
  unfolding shadowed_rows_def length_filter_wal [symmetric] by (simp add: set_all_streams)

text \<open>The streams of a source are those its segments and WAL rows name, and the source is there.\<close>

lemma stream_known:
  assumes "refs_ok a"
  shows "sid \<in> source_ids a \<and> s \<in> set (all_streams a sid)
    \<longleftrightarrow> (sid, s) \<in> (\<lambda>g. (sg_source g, sg_stream g)) ` set (ar_segments a) \<union> (\<lambda>(i, r). (i, row_stream r)) ` set (ar_wal a)"
proof -
  have seg: "sg_source g \<in> source_ids a" if "g \<in> set (ar_segments a)" for g
    using assms that by (simp add: refs_ok_def)
  have wal: "i \<in> source_ids a" if "(i, r) \<in> set (ar_wal a)" for i r
    using assms that by (auto simp: refs_ok_def)
  have "s \<in> set (all_streams a sid)
      \<longleftrightarrow> (sid, s) \<in> (\<lambda>g. (sg_source g, sg_stream g)) ` set (ar_segments a) \<union> (\<lambda>(i, r). (i, row_stream r)) ` set (ar_wal a)"
    by (force simp: all_streams_def image_iff)
  with seg wal show ?thesis by auto
qed

lemma walk_member:
  assumes "refs_ok a"
  shows "p \<in> set (concat (map (\<lambda>src. concat (map (stream_problems a (src_id src)) (all_streams a (src_id src)))) (read_sources a)))
    \<longleftrightarrow> (\<exists>sid s. p \<in> set (segment_problems a sid s) \<or> p \<in> set (wal_problems a sid s))"
proof -
  have sids: "src_id ` set (read_sources a) = source_ids a"
    by (simp add: read_sources_def source_ids_def)
  have within: "sid \<in> source_ids a \<and> s \<in> set (all_streams a sid)"
    if "p \<in> set (segment_problems a sid s) \<or> p \<in> set (wal_problems a sid s)" for sid s
  proof (cases "p \<in> set (segment_problems a sid s)")
    case True
    then obtain g where "g \<in> set (ar_segments a)" "sg_source g = sid" "sg_stream g = s"
      unfolding segment_problem_member by blast
    then show ?thesis unfolding stream_known [OF assms] by blast
  next
    case False
    then have "0 < shadowed_rows a sid s" using that by (simp add: wal_problem_member)
    then obtain r where "(sid, r) \<in> set (ar_wal a)" "row_stream r = s"
      by (auto simp: shadowed_rows_def filter_empty_conv)
    then show ?thesis unfolding stream_known [OF assms] by (force simp: image_iff)
  qed
  then have "(\<exists>sid s. p \<in> set (segment_problems a sid s) \<or> p \<in> set (wal_problems a sid s))
      \<longleftrightarrow> (\<exists>sid \<in> source_ids a. \<exists>s \<in> set (all_streams a sid). p \<in> set (stream_problems a sid s))"
  proof (intro iffI)
    assume "\<exists>sid s. p \<in> set (segment_problems a sid s) \<or> p \<in> set (wal_problems a sid s)"
    then obtain sid s where "p \<in> set (segment_problems a sid s) \<or> p \<in> set (wal_problems a sid s)" by blast
    then show "\<exists>sid \<in> source_ids a. \<exists>s \<in> set (all_streams a sid). p \<in> set (stream_problems a sid s)"
      using within [of sid s] by (auto simp: stream_problems_def)
  qed (auto simp: stream_problems_def)
  then show ?thesis unfolding sids [symmetric] by simp
qed

lemma distinct_streams: "distinct (all_streams a sid)"
  by (simp add: all_streams_def)

lemma count_streams:
  assumes "archive_ok a"
  shows "sum_list (map (\<lambda>src. length (all_streams a (src_id src))) (read_sources a))
    = card ((\<lambda>g. (sg_source g, sg_stream g)) ` set (ar_segments a) \<union> (\<lambda>(i, r). (i, row_stream r)) ` set (ar_wal a))"
proof -
  let ?ids = "map src_id (read_sources a)"
  have d: "distinct ?ids" and sids: "set ?ids = source_ids a"
    using assms by (simp_all add: read_sources_def source_ids_def archive_ok_def keys_ok_def distinct_order_by)
  have "sum_list (map (\<lambda>src. length (all_streams a (src_id src))) (read_sources a))
      = sum_list (map (\<lambda>sid. card (set (all_streams a sid))) ?ids)"
    by (simp add: comp_def distinct_card [OF distinct_streams])
  also have "\<dots> = (\<Sum>sid \<in> source_ids a. card (set (all_streams a sid)))"
    by (simp only: sum_list_distinct_conv_sum_set [OF d] sids)
  also have "\<dots> = card (SIGMA sid : source_ids a. set (all_streams a sid))"
    unfolding sids [symmetric] by (intro card_SigmaI [symmetric]) auto
  also have "(SIGMA sid : source_ids a. set (all_streams a sid))
      = (\<lambda>g. (sg_source g, sg_stream g)) ` set (ar_segments a) \<union> (\<lambda>(i, r). (i, row_stream r)) ` set (ar_wal a)"
  proof (intro set_eqI)
    fix x
    have "refs_ok a" using assms by (simp add: archive_ok_def)
    then show "x \<in> (SIGMA sid : source_ids a. set (all_streams a sid))
      \<longleftrightarrow> x \<in> (\<lambda>g. (sg_source g, sg_stream g)) ` set (ar_segments a) \<union> (\<lambda>(i, r). (i, row_stream r)) ` set (ar_wal a)"
      using stream_known [of a "fst x" "snd x"] by (cases x) (simp only: mem_Sigma_iff fst_conv snd_conv)
  qed
  finally show ?thesis .
qed

lemma walk_Nil:
  assumes refs: "refs_ok a"
  shows "concat (map (\<lambda>src. concat (map (stream_problems a (src_id src)) (all_streams a (src_id src)))) (read_sources a)) = []
      \<longleftrightarrow> (\<forall>r \<in> set (ar_segments a).
                 meta_first_ts (sg_meta r) \<le> meta_last_ts (sg_meta r) \<and> meta_rows (sg_meta r) \<noteq> 0)
            \<and> (\<forall>(sid, r) \<in> set (ar_wal a). is_live a sid (row_stream r) (row_ts r))"
proof -
  have sids: "src_id ` set (read_sources a) = source_ids a"
    by (simp add: read_sources_def source_ids_def)
  have segs: "sg_source r \<in> source_ids a" if "r \<in> set (ar_segments a)" for r
    using refs that by (simp add: refs_ok_def)
  have wal: "fst r \<in> source_ids a" if "r \<in> set (ar_wal a)" for r
    using refs that by (simp add: refs_ok_def)
  have "concat (map (\<lambda>src. concat (map (stream_problems a (src_id src)) (all_streams a (src_id src)))) (read_sources a)) = []
      \<longleftrightarrow> (\<forall>sid \<in> source_ids a. concat (map (stream_problems a sid) (all_streams a sid)) = [])"
    unfolding sids[symmetric] by (simp only: concat_eq_Nil_conv set_map ball_simps)
  also have "\<dots> \<longleftrightarrow> (\<forall>r \<in> set (ar_segments a).
                 meta_first_ts (sg_meta r) \<le> meta_last_ts (sg_meta r) \<and> meta_rows (sg_meta r) \<noteq> 0)
            \<and> (\<forall>(sid, r) \<in> set (ar_wal a). is_live a sid (row_stream r) (row_ts r))"
    (is "_ \<longleftrightarrow> ?segments \<and> ?wal")
  proof -
    have "?segments \<longleftrightarrow> (\<forall>sid \<in> source_ids a. \<forall>r \<in> set (ar_segments a). sg_source r = sid
        \<longrightarrow> meta_first_ts (sg_meta r) \<le> meta_last_ts (sg_meta r) \<and> meta_rows (sg_meta r) \<noteq> 0)"
      using segs by blast
    moreover have "?wal \<longleftrightarrow> (\<forall>sid \<in> source_ids a. \<forall>r. (sid, r) \<in> set (ar_wal a)
        \<longrightarrow> is_live a sid (row_stream r) (row_ts r))"
      using wal by (simp add: Ball_def case_prod_unfold) (metis fst_conv)
    ultimately show ?thesis unfolding source_problems_Nil by (simp only: ball_conj_distrib)
  qed
  finally show ?thesis .
qed

text \<open>C15: A report on an archive whose keys and references hold counts every source, every
  stream, every segment and every WAL row once, and names exactly what is wrong: of the
  rows SQLite's reference check answers, those of the index table give way to the orphans
  its own query found and every other is listed, each segment whose span runs backwards or
  that claims no rows, and for each stream the number of its rows the watermark shadows. It
  is empty exactly when SQLite's check answered only "ok", its reference check answered
  nothing, or rows of the index table alone and no orphan, and there is no such segment
  and no such row.\<close>

theorem verify_correct:
  assumes ok: "archive_ok a" and run: "verify (reads_of a) ca depth = Inr rep"
  shows "rp_sources rep = length (ar_sources a)
       \<and> rp_streams rep = card ((\<lambda>g. (sg_source g, sg_stream g)) ` set (ar_segments a)
            \<union> (\<lambda>(i, r). (i, row_stream r)) ` set (ar_wal a))
       \<and> rp_segments rep = length (ar_segments a)
       \<and> rp_wal_rows rep = length (ar_wal a)
       \<and> (is_sound rep \<longleftrightarrow>
            (\<exists>lines. ca_lines ca depth = Inr lines \<and> set lines \<subseteq> {Inr (str ''ok'')})
            \<and> (\<exists>rows. ca_references ca = Inr rows \<and> (\<forall>(t, _) \<in> set rows. index_table t)
                 \<and> (rows \<noteq> [] \<longrightarrow> ca_orphans ca = Inr []))
            \<and> (\<forall>r \<in> set (ar_segments a).
                 meta_first_ts (sg_meta r) \<le> meta_last_ts (sg_meta r) \<and> meta_rows (sg_meta r) \<noteq> 0)
            \<and> (\<forall>(sid, r) \<in> set (ar_wal a). is_live a sid (row_stream r) (row_ts r)))
       \<and> (\<forall>t r p. ForeignKeyProblem (DanglingRow t r p) \<in> set (rp_problems rep) \<longleftrightarrow> (t, r, p) \<in> dangling_rows ca)
       \<and> (\<forall>sid s q. ForeignKeyProblem (OrphanIndex sid s q) \<in> set (rp_problems rep) \<longleftrightarrow> (sid, s, q) \<in> orphan_keys ca)
       \<and> (\<forall>sid s n. UnreadableWalRows sid s n \<in> set (rp_problems rep) \<longleftrightarrow> 0 < n \<and> n = shadowed_rows a sid s)
       \<and> (\<forall>sid s q f. SegmentProblem sid s q f \<in> set (rp_problems rep) \<longleftrightarrow>
            (\<exists>g \<in> set (ar_segments a). sg_source g = sid \<and> sg_stream g = s \<and> sg_seq g = q
               \<and> (f = RunsBackwards (meta_first_ts (sg_meta g)) (meta_last_ts (sg_meta g))
                    \<and> meta_last_ts (sg_meta g) < meta_first_ts (sg_meta g)
                  \<or> f = ClaimsNoRows \<and> meta_rows (sg_meta g) = 0)))"
proof -
  have keys: "keys_ok a" and refs: "refs_ok a" using ok by (simp_all add: archive_ok_def)
  let ?walk = "concat (map (\<lambda>src. concat (map (stream_problems a (src_id src)) (all_streams a (src_id src)))) (read_sources a))"
  have segs: "sg_source r \<in> source_ids a" if "r \<in> set (ar_segments a)" for r
    using refs that by (simp add: refs_ok_def)
  have wal: "fst r \<in> source_ids a" if "r \<in> set (ar_wal a)" for r
    using refs that by (simp add: refs_ok_def)
  obtain lines found where lines: "ca_lines ca depth = Inr lines" "check_lines lines [] = Inr found"
    and rep: "rep = \<lparr>rp_sources = length (ar_sources a),
            rp_streams = sum_list (map (\<lambda>src. length (all_streams a (src_id src))) (read_sources a)),
            rp_segments = sum_list (map (\<lambda>src. length (filter (\<lambda>r. sg_source r = src_id src) (ar_segments a))) (read_sources a)),
            rp_wal_rows = sum_list (map (\<lambda>src. length (filter (\<lambda>r. fst r = src_id src) (ar_wal a))) (read_sources a)),
            rp_problems = found @ reference_findings ca @ ?walk\<rparr>"
    by (rule verify_ok [OF run])
  have member: "p \<in> set ?walk \<longleftrightarrow> (\<exists>sid s. p \<in> set (segment_problems a sid s) \<or> p \<in> set (wal_problems a sid s))" for p
    by (rule walk_member [OF refs])
  have Nil: "?walk = [] \<longleftrightarrow> (\<forall>r \<in> set (ar_segments a).
                 meta_first_ts (sg_meta r) \<le> meta_last_ts (sg_meta r) \<and> meta_rows (sg_meta r) \<noteq> 0)
            \<and> (\<forall>(sid, r) \<in> set (ar_wal a). is_live a sid (row_stream r) (row_ts r))"
    by (rule walk_Nil [OF refs])
  have refp: "set (reference_findings ca) \<subseteq> range Corrupt \<union> range ForeignKeyProblem"
    by (auto simp: reference_findings_def split: sum.splits)
  have cor: "set found \<subseteq> range Corrupt" using check_lines_corrupt [OF lines(2)] by simp
  have fk: "ForeignKeyProblem v \<notin> set ?walk" for v
    unfolding member segment_problem_member wal_problem_member problem.distinct by blast
  have unread: "UnreadableWalRows sid s n \<in> set ?walk \<longleftrightarrow> 0 < n \<and> n = shadowed_rows a sid s" for sid s n
    unfolding member segment_problem_member wal_problem_member problem.distinct problem.inject by blast
  have seg: "SegmentProblem sid s q f \<in> set ?walk \<longleftrightarrow>
            (\<exists>g \<in> set (ar_segments a). sg_source g = sid \<and> sg_stream g = s \<and> sg_seq g = q
               \<and> (f = RunsBackwards (meta_first_ts (sg_meta g)) (meta_last_ts (sg_meta g))
                    \<and> meta_last_ts (sg_meta g) < meta_first_ts (sg_meta g)
                  \<or> f = ClaimsNoRows \<and> meta_rows (sg_meta g) = 0))" for sid s q f
    unfolding member segment_problem_member wal_problem_member problem.distinct problem.inject by blast
  have refm: "ForeignKeyProblem v \<in> set (rp_problems rep) \<longleftrightarrow> ForeignKeyProblem v \<in> set (reference_findings ca)" for v
    using cor fk [of v] by (auto simp: rep simp del: set_concat)
  have unreadm: "UnreadableWalRows sid s n \<in> set (rp_problems rep) \<longleftrightarrow> 0 < n \<and> n = shadowed_rows a sid s" for sid s n
    using cor refp unread [of sid s n] by (auto simp: rep simp del: set_concat)
  have segm: "SegmentProblem sid s q f \<in> set (rp_problems rep) \<longleftrightarrow>
            (\<exists>g \<in> set (ar_segments a). sg_source g = sid \<and> sg_stream g = s \<and> sg_seq g = q
               \<and> (f = RunsBackwards (meta_first_ts (sg_meta g)) (meta_last_ts (sg_meta g))
                    \<and> meta_last_ts (sg_meta g) < meta_first_ts (sg_meta g)
                  \<or> f = ClaimsNoRows \<and> meta_rows (sg_meta g) = 0))" for sid s q f
    unfolding seg [symmetric] using cor refp by (auto simp: rep simp del: set_concat)
  have sound: "is_sound rep \<longleftrightarrow> found = [] \<and> reference_findings ca = [] \<and> ?walk = []"
    by (simp only: rep is_sound_def report.simps append_is_Nil_conv)
  have counts: "rp_sources rep = length (ar_sources a)"
    "rp_streams rep = card ((\<lambda>g. (sg_source g, sg_stream g)) ` set (ar_segments a) \<union> (\<lambda>(i, r). (i, row_stream r)) ` set (ar_wal a))"
    "rp_segments rep = length (ar_segments a)" "rp_wal_rows rep = length (ar_wal a)"
    using count_streams [OF ok] by_source [OF keys, of "ar_segments a" sg_source] by_source [OF keys, of "ar_wal a" fst] segs wal
    by (simp_all add: rep)
  have clean: "found = [] \<longleftrightarrow> (\<exists>lines. ca_lines ca depth = Inr lines \<and> set lines \<subseteq> {Inr (str ''ok'')})"
    using check_lines_found [OF lines(2)] lines(1) by simp
  show ?thesis
    unfolding refm unreadm segm reference_findings_members sound clean Nil reference_findings_Nil using counts by blast
qed

text \<open>An archive whose one stream has a sealed segment and a row the watermark shadows.\<close>

definition shadowed_archive :: archive where
  "shadowed_archive =
     create_archive\<lparr>ar_sources := [sample_source],
       ar_segments := [\<lparr>sg_source = 1, sg_stream = str ''cpu'', sg_seq = 0,
          sg_meta = \<lparr>meta_rows = 2, meta_first_ts = 10, meta_last_ts = 20\<rparr>,
          sg_bytes = [], sg_column_index = None\<rparr>],
       ar_wal := [(1, \<lparr>row_stream = str ''cpu'', row_ts = 15, row_wall_offset = 0, row_payload = []\<rparr>)]\<rparr>"

definition clean_answers :: check_answers where
  "clean_answers =
     \<lparr>ca_lines = (\<lambda>_. Inr [Inr (str ''ok'')]), ca_references = Inr [], ca_orphans = Inr []\<rparr>"

lemma verify_correct_witness:
  "\<exists>rep. verify (reads_of shadowed_archive)
         (clean_answers\<lparr>ca_references := Inr [(str ''wal_rows'', Some 3, str ''sources'')]\<rparr>) Quick = Inr rep
     \<and> rp_streams rep = 1 \<and> rp_segments rep = 1 \<and> rp_wal_rows rep = 1
     \<and> UnreadableWalRows 1 (str ''cpu'') 1 \<in> set (rp_problems rep)
     \<and> ForeignKeyProblem (DanglingRow (str ''wal_rows'') (Some 3) (str ''sources'')) \<in> set (rp_problems rep)
     \<and> \<not> is_sound rep"
proof -
  let ?ca = "clean_answers\<lparr>ca_references := Inr [(str ''wal_rows'', Some 3, str ''sources'')]\<rparr>"
  have ok: "archive_ok shadowed_archive"
    by (simp add: archive_ok_def keys_ok_def refs_ok_def shadowed_archive_def create_archive_def
        source_ids_def sample_source_def)
  have "is_ok (verify (reads_of shadowed_archive) ?ca Quick)" by code_simp
  then obtain rep where rep: "verify (reads_of shadowed_archive) ?ca Quick = Inr rep"
    unfolding is_ok_def by (auto split: sum.splits)
  have t: "\<not> index_table (str ''wal_rows'')" unfolding names_indexes_iff [symmetric] by code_simp
  have d: "(str ''wal_rows'', Some 3, str ''sources'') \<in> dangling_rows ?ca" using t by (simp add: dangling_rows_def)
  have s: "shadowed_rows shadowed_archive 1 (str ''cpu'') = 1" by code_simp
  have n: "\<not> is_live shadowed_archive 1 (str ''cpu'') 15" by code_simp
  show ?thesis using rep d n s t verify_correct [OF ok rep] by (simp add: shadowed_archive_def create_archive_def)
qed

end
