(* ===== verification/Writer_Upkeep.thy ===== *)
theory Writer_Upkeep
  imports Writer_Handles Archive_Check
begin

section \<open>The writer's upkeep (\<open>src/writer.rs\<close>)\<close>

text \<open>
  What the writer thread does that no message asks for: its two timers, the pages it
  hands back to the file system, and how it is started over a file. The clock is a
  parameter, as the instants its readings return, in nanoseconds; so is what SQLite's
  \<open>incremental_vacuum\<close> does to a file's page counts.
\<close>

subsection \<open>The timers\<close>

definition checkpoint_interval :: nat where "checkpoint_interval = 10 * 10 ^ 9"
definition heartbeat_interval :: nat where "heartbeat_interval = 5 * 10 ^ 9"

record cadence =
  cd_checkpoint_every :: nat
  cd_heartbeat_every :: nat

definition checkpointing_every :: "nat \<Rightarrow> cadence" where
  "checkpointing_every every =
     \<lparr>cd_checkpoint_every = every, cd_heartbeat_every = heartbeat_interval\<rparr>"

record timers =
  tm_last_beat :: nat
  tm_last_checkpoint :: nat

text \<open>The timeout given to \<open>recv_timeout\<close>; subtraction on naturals saturates as Rust's does.\<close>

definition wait_for :: "cadence \<Rightarrow> timers \<Rightarrow> nat \<Rightarrow> nat" where
  "wait_for cd tm now =
     min (cd_checkpoint_every cd - (now - tm_last_checkpoint tm))
         (cd_heartbeat_every cd - (now - tm_last_beat tm))"

text \<open>
  One turn of the loop up to the message: the instants at which the wait began and
  ended, the beat was done, and the checkpoint was checked for and done.
\<close>

record turn =
  tn_top :: nat
  tn_wake :: nat
  tn_beaten :: nat
  tn_check :: nat
  tn_checked :: nat

definition beats_at :: "cadence \<Rightarrow> timers \<Rightarrow> turn \<Rightarrow> bool" where
  "beats_at cd tm t \<longleftrightarrow> cd_heartbeat_every cd \<le> tn_wake t - tm_last_beat tm"

definition checkpoints_at :: "cadence \<Rightarrow> timers \<Rightarrow> turn \<Rightarrow> bool" where
  "checkpoints_at cd tm t \<longleftrightarrow> cd_checkpoint_every cd \<le> tn_check t - tm_last_checkpoint tm"

definition run_timers :: "cadence \<Rightarrow> turn \<Rightarrow> timers \<Rightarrow> timers" where
  "run_timers cd t tm =
     tm\<lparr>tm_last_beat := (if beats_at cd tm t then tn_beaten t else tm_last_beat tm),
        tm_last_checkpoint := (if checkpoints_at cd tm t then tn_checked t else tm_last_checkpoint tm)\<rparr>"

text \<open>The turn on the writer's state: a beat that fails is only logged, and a checkpoint moves no row.\<close>

definition timed_turn :: "cadence \<Rightarrow> turn \<Rightarrow> timers \<times> writer_state \<Rightarrow> timers \<times> writer_state" where
  "timed_turn cd t = (\<lambda>(tm, w). (run_timers cd t tm, if beats_at cd tm t then timer_beat w else w))"

subsection \<open>Handing pages back\<close>

definition reclaim_pages_per_pass :: u32 where "reclaim_pages_per_pass = 100"
definition reclaim_freelist_divisor :: nat where "reclaim_freelist_divisor = 10"
definition reclaim_at_close_budget :: nat where "reclaim_at_close_budget = 2 * 10 ^ 9"

record page_counts =
  pc_pages :: u32
  pc_free :: u32

definition reclaim_if_fragmented ::
  "(u32 \<Rightarrow> page_counts \<Rightarrow> page_counts result) \<Rightarrow> page_counts \<Rightarrow> page_counts result" where
  "reclaim_if_fragmented vacuum p =
     (if should_reclaim (pc_free p) (pc_pages p) then vacuum reclaim_pages_per_pass p else Inr p)"

text \<open>\<open>elapsed k\<close> is the time since the start, read after pass \<open>k\<close>.\<close>

partial_function (option) reclaim_passes ::
  "(u32 \<Rightarrow> page_counts \<Rightarrow> page_counts result) \<Rightarrow> (nat \<Rightarrow> nat) \<Rightarrow> nat \<Rightarrow> page_counts
   \<Rightarrow> page_counts result option" where
  "reclaim_passes vacuum elapsed k p =
     (if pc_free p = 0 then Some (Inr p)
      else case vacuum reclaim_pages_per_pass p of
             Inl e \<Rightarrow> Some (Inl e)
           | Inr p' \<Rightarrow>
               if reclaim_at_close_budget \<le> elapsed k then Some (Inr p')
               else reclaim_passes vacuum elapsed (k + 1) p')"

definition reclaim_all ::
  "(u32 \<Rightarrow> page_counts \<Rightarrow> page_counts result) \<Rightarrow> (nat \<Rightarrow> nat) \<Rightarrow> page_counts
   \<Rightarrow> page_counts result option" where
  "reclaim_all vacuum elapsed p = reclaim_passes vacuum elapsed 0 p"

subsection \<open>Starting a writer over a file\<close>

text \<open>
  \<open>ensure_heartbeat_columns\<close> on the columns of \<open>sources\<close>: \<open>listed\<close> is the outcome of
  inspecting them, \<open>altered\<close> of the one transaction that adds what is missing.
\<close>

definition heartbeat_columns :: "rstring list" where
  "heartbeat_columns = [str ''heartbeat'', str ''heartbeat_interval_ns'']"

definition ensure_heartbeat_columns ::
  "rusqlite_error + unit \<Rightarrow> rusqlite_error + unit \<Rightarrow> rstring list \<Rightarrow> unit result \<times> rstring list" where
  "ensure_heartbeat_columns listed altered columns =
     (case sqlite_err ''failed to inspect'' listed of
        Inl e \<Rightarrow> (Inl e, columns)
      | Inr _ \<Rightarrow>
          let missing = filter (\<lambda>c. c \<notin> set columns) heartbeat_columns
          in if missing = [] then (Inr (), columns)
             else (case altered of
                     Inl e \<Rightarrow> (Inl (Sqlite ''failed to add the heartbeat columns'' e), columns)
                   | Inr _ \<Rightarrow> (Inr (), columns @ missing)))"

text \<open>
  \<open>spawn\<close> on the files: \<open>spawned\<close> is whether the system started the thread. A file that
  was just created is removed when it did not.
\<close>

definition spawn :: "bool \<Rightarrow> (rstring \<Rightarrow> bool) \<Rightarrow> rstring \<Rightarrow> bool \<Rightarrow> db \<Rightarrow> rstring set
   \<Rightarrow> writer_handle result \<times> rstring set" where
  "spawn spawned removable path created d files =
     (if spawned then (Inr (spawn_writer d), files)
      else (Inl (Message ''failed to spawn the archive writer thread''),
            if created then remove_archive removable path files else files))"

definition writer_create :: "create_env \<Rightarrow> bool \<Rightarrow> sqlite_code option list \<Rightarrow> rstring \<Rightarrow> rstring set
   \<Rightarrow> writer_handle result \<times> rstring set" where
  "writer_create env spawned faults path files =
     (case create env path files of
        ((Inl e, _), files') \<Rightarrow> (Inl e, files')
      | ((Inr _, _), files') \<Rightarrow>
          spawn spawned (ce_removable env) path True
            \<lparr>db_archive = create_archive, db_faults = faults\<rparr> files')"

text \<open>
  \<open>Writer::open\<close> on a file that holds the archive \<open>a\<close>: the log is what its connection
  was sent, the columns those of \<open>sources\<close>.
\<close>

definition writer_open ::
  "rusqlite_error + connection \<Rightarrow> rusqlite_error + unit \<Rightarrow> rusqlite_error + unit \<Rightarrow> bool
   \<Rightarrow> sqlite_code option list \<Rightarrow> rstring \<Rightarrow> archive \<Rightarrow> rstring list \<Rightarrow> rstring set
   \<Rightarrow> writer_handle result \<times> rstring list \<times> rstring set" where
  "writer_open opened listed altered spawned faults path a columns files =
     (case open_for_write path opened [] of
        (Inl e, _) \<Rightarrow> (Inl e, columns, files)
      | (Inr _, _) \<Rightarrow>
          (case ensure_heartbeat_columns listed altered columns of
             (Inl e, columns') \<Rightarrow> (Inl e, columns', files)
           | (Inr _, columns') \<Rightarrow>
               let (r, files') = spawn spawned (\<lambda>_. True) path False
                                   \<lparr>db_archive = a, db_faults = faults\<rparr> files
               in (r, columns', files')))"

text \<open>\<open>single\<close>: a new archive and its one source. \<open>drop\<close> of the handle is a join.\<close>

definition single :: "writer_env \<Rightarrow> create_env \<Rightarrow> bool \<Rightarrow> sqlite_code option list \<Rightarrow> rstring \<Rightarrow> source_meta
   \<Rightarrow> rstring set \<Rightarrow> (writer_handle \<times> source_writer) result \<times> rstring set" where
  "single env cenv spawned faults path seed files =
     (case writer_create cenv spawned faults path files of
        (Inl e, files') \<Rightarrow> (Inl e, files')
      | (Inr h, files') \<Rightarrow>
          (case writer_add_source env seed h of
             (Inl e, _) \<Rightarrow> (Inl e, files')
           | (Inr sw, h') \<Rightarrow> (Inr (h', sw), files')))"

definition finalize_single :: "writer_env \<Rightarrow> writer_handle \<Rightarrow> source_writer \<Rightarrow> i64 \<times> i64
   \<Rightarrow> unit result \<times> writer_handle" where
  "finalize_single env h sw offset =
     (let (queued, t) = finalize env sw offset (wh_thread h);
          (joined, h') = join_writer env (h\<lparr>wh_thread := t\<rparr>)
      in (case queued of Inl e \<Rightarrow> Inl e | Inr _ \<Rightarrow> joined, h'))"

definition drop_writer :: "writer_env \<Rightarrow> writer_handle \<Rightarrow> writer_handle" where
  "drop_writer env h = snd (join_writer env h)"

end
