(* ===== verification/Writer_Upkeep_Properties.thy ===== *)
theory Writer_Upkeep_Properties
  imports Writer_Upkeep Archive_Open_Properties Archive_Check_Properties
begin

section \<open>What the upkeep guarantees\<close>

text \<open>Lemmas and properties of theory \<open>Writer_Upkeep\<close>.\<close>

subsection \<open>A timely run of the loop\<close>

text \<open>
  The instants of a turn in order; the wait ends at most \<open>slack\<close> after its timeout, the
  upkeep of a turn takes at most \<open>work\<close> and the handling of its message \<open>busy\<close>.
\<close>

record delays =
  dl_slack :: nat
  dl_work :: nat
  dl_busy :: nat

definition timely_turn :: "cadence \<Rightarrow> delays \<Rightarrow> timers \<Rightarrow> turn \<Rightarrow> bool" where
  "timely_turn cd dl tm t \<longleftrightarrow>
     tn_top t \<le> tn_wake t \<and> tn_wake t \<le> tn_beaten t \<and> tn_beaten t \<le> tn_check t \<and> tn_check t \<le> tn_checked t
     \<and> tn_wake t \<le> tn_top t + wait_for cd tm (tn_top t) + dl_slack dl
     \<and> tn_checked t \<le> tn_wake t + dl_work dl"

fun timely_run :: "cadence \<Rightarrow> delays \<Rightarrow> timers \<Rightarrow> turn list \<Rightarrow> bool" where
  "timely_run cd dl tm [] = True"
| "timely_run cd dl tm (t # ts) \<longleftrightarrow>
     timely_turn cd dl tm t
     \<and> (case ts of [] \<Rightarrow> True | u # _ \<Rightarrow> tn_checked t \<le> tn_top u \<and> tn_top u \<le> tn_checked t + dl_busy dl)
     \<and> timely_run cd dl (run_timers cd t tm) ts"

fun beat_times :: "cadence \<Rightarrow> timers \<Rightarrow> turn list \<Rightarrow> nat list" where
  "beat_times cd tm [] = []"
| "beat_times cd tm (t # ts) =
     (if beats_at cd tm t then [tn_beaten t] else []) @ beat_times cd (run_timers cd t tm) ts"

fun checkpoint_ages :: "cadence \<Rightarrow> timers \<Rightarrow> turn list \<Rightarrow> nat list" where
  "checkpoint_ages cd tm [] = []"
| "checkpoint_ages cd tm (t # ts) =
     (tn_check t - tm_last_checkpoint tm) # checkpoint_ages cd (run_timers cd t tm) ts"

text \<open>The longest time between two beats, and between two checkpoints.\<close>

definition beat_gap :: "cadence \<Rightarrow> delays \<Rightarrow> nat" where
  "beat_gap cd dl = cd_heartbeat_every cd + dl_slack dl + 2 * dl_work dl + dl_busy dl"

definition checkpoint_gap :: "cadence \<Rightarrow> delays \<Rightarrow> nat" where
  "checkpoint_gap cd dl = cd_checkpoint_every cd + dl_slack dl + 2 * dl_work dl + dl_busy dl"

definition punctual :: "cadence \<Rightarrow> delays \<Rightarrow> timers \<Rightarrow> turn list \<Rightarrow> bool" where
  "punctual cd dl tm ts \<longleftrightarrow>
     (case ts of [] \<Rightarrow> True
      | t # _ \<Rightarrow> tm_last_beat tm \<le> tn_top t \<and> tm_last_checkpoint tm \<le> tn_top t
          \<and> tn_top t - tm_last_beat tm \<le> cd_heartbeat_every cd + dl_work dl + dl_busy dl
          \<and> tn_top t - tm_last_checkpoint tm \<le> cd_checkpoint_every cd + dl_work dl + dl_busy dl)"

lemma punctual_step:
  assumes "timely_run cd dl tm (t # ts)" "punctual cd dl tm (t # ts)"
  shows "punctual cd dl (run_timers cd t tm) ts"
  using assms
  by (cases ts) (auto simp: punctual_def timely_turn_def run_timers_def beats_at_def checkpoints_at_def)

lemma woken_in_time:
  assumes "timely_turn cd dl tm t" "punctual cd dl tm (t # ts)"
  shows "tn_beaten t - tm_last_beat tm \<le> beat_gap cd dl"
    and "tn_check t - tm_last_checkpoint tm \<le> checkpoint_gap cd dl"
  using assms by (auto simp: timely_turn_def punctual_def wait_for_def beat_gap_def checkpoint_gap_def)

text \<open>C37: While the machine keeps up, no copy of a live archive is staler than the cadence
  and its delays: at every turn of the loop the last checkpoint is at most one interval old,
  plus the slack of the timer, the upkeep of two turns and the handling of one message.\<close>

theorem checkpoint_age_bounded:
  assumes "timely_run cd dl tm ts" "punctual cd dl tm ts"
  shows "\<forall>age \<in> set (checkpoint_ages cd tm ts). age \<le> checkpoint_gap cd dl"
  using assms
proof (induction ts arbitrary: tm)
  case (Cons t ts)
  then have run: "timely_turn cd dl tm t" "timely_run cd dl (run_timers cd t tm) ts" by simp_all
  show ?case
    using Cons.IH[OF run(2) punctual_step[OF Cons.prems]] woken_in_time(2)[OF run(1) Cons.prems(2)]
    by simp
qed simp

lemma beat_within_gap:
  assumes "timely_run cd dl tm ts" "punctual cd dl tm ts" "ts \<noteq> []" "0 < cd_heartbeat_every cd"
    and "tm_last_beat tm \<le> t" "t + beat_gap cd dl \<le> t'" "t' \<le> tn_wake (last ts)"
  shows "\<exists>b \<in> set (beat_times cd tm ts). t < b \<and> b \<le> t'"
  using assms
proof (induction ts arbitrary: tm)
  case (Cons u us)
  have turn: "timely_turn cd dl tm u" using Cons.prems(1) by simp
  have gap: "cd_heartbeat_every cd \<le> beat_gap cd dl" by (simp add: beat_gap_def)
  have beaten: "tn_beaten u \<le> t'"
    using woken_in_time(1)[OF turn Cons.prems(2)] Cons.prems(5,6) by linarith
  have next_run: "timely_run cd dl (run_timers cd u tm) us" "punctual cd dl (run_timers cd u tm) us"
    using Cons.prems(1) punctual_step[OF Cons.prems(1,2)] by simp_all
  show ?case
  proof (cases "beats_at cd tm u")
    case True
    show ?thesis
    proof (cases "t < tn_beaten u")
      case True
      then show ?thesis using \<open>beats_at cd tm u\<close> beaten by auto
    next
      case False
      have "us \<noteq> []"
        using False Cons.prems(6,7) turn gap Cons.prems(4) by (auto simp: timely_turn_def)
      moreover have "tm_last_beat (run_timers cd u tm) \<le> t"
        using False True by (simp add: run_timers_def)
      ultimately show ?thesis using Cons.IH[OF next_run] Cons.prems(4,6,7) by auto
    qed
  next
    case False
    have "us \<noteq> []"
      using False Cons.prems(5,6,7) gap by (auto simp: beats_at_def)
    moreover have "tm_last_beat (run_timers cd u tm) \<le> t"
      using False Cons.prems(5) by (simp add: run_timers_def)
    ultimately show ?thesis using Cons.IH[OF next_run] Cons.prems(4,6,7) False by auto
  qed
qed simp

text \<open>A writer that beats every ten, checkpoints every twenty, and is one late everywhere.\<close>

definition sample_cadence :: cadence where
  "sample_cadence = \<lparr>cd_checkpoint_every = 20, cd_heartbeat_every = 10\<rparr>"

definition sample_delays :: delays where
  "sample_delays = \<lparr>dl_slack = 1, dl_work = 1, dl_busy = 1\<rparr>"

definition sample_timers :: timers where
  "sample_timers = \<lparr>tm_last_beat = 0, tm_last_checkpoint = 0\<rparr>"

definition sample_turns :: "turn list" where
  "sample_turns =
     [\<lparr>tn_top = 0, tn_wake = 10, tn_beaten = 11, tn_check = 11, tn_checked = 11\<rparr>,
      \<lparr>tn_top = 12, tn_wake = 21, tn_beaten = 22, tn_check = 22, tn_checked = 22\<rparr>,
      \<lparr>tn_top = 23, tn_wake = 33, tn_beaten = 33, tn_check = 34, tn_checked = 34\<rparr>]"

lemma sample_run:
  "timely_run sample_cadence sample_delays sample_timers sample_turns"
  "punctual sample_cadence sample_delays sample_timers sample_turns"
  "beat_times sample_cadence sample_timers sample_turns = [11, 22, 33]"
  "checkpoint_ages sample_cadence sample_timers sample_turns = [11, 22, 12]"
  by code_simp+

lemma sample_span:
  "tm_last_beat sample_timers = 0" "tn_wake (last sample_turns) = 33" "sample_turns \<noteq> []"
  by (simp_all add: sample_timers_def sample_turns_def)

lemma checkpoint_age_bounded_witness:
  "checkpoint_gap sample_cadence sample_delays = 24
   \<and> list_all (\<lambda>age. age \<le> 24) (checkpoint_ages sample_cadence sample_timers sample_turns)"
proof -
  have gap: "checkpoint_gap sample_cadence sample_delays = 24"
    by (simp add: checkpoint_gap_def sample_cadence_def sample_delays_def)
  from checkpoint_age_bounded[OF sample_run(1,2)] show ?thesis
    unfolding gap list_all_iff by simp
qed

subsection \<open>A writer that beats is never called stopped\<close>

definition beats_by :: "nat list \<Rightarrow> nat \<Rightarrow> nat" where
  "beats_by beats t = length (filter (\<lambda>b. b \<le> t) beats)"

lemma beats_by_less:
  assumes "b \<in> set beats" "t < b" "b \<le> t'"
  shows "beats_by beats t < beats_by beats t'"
proof -
  have "length (filter (\<lambda>x. x \<le> t) (filter (\<lambda>x. x \<le> t') beats)) < length (filter (\<lambda>x. x \<le> t') beats)"
    by (rule length_filter_less[of b]) (use assms in auto)
  moreover have "filter (\<lambda>x. x \<le> t) (filter (\<lambda>x. x \<le> t') beats) = filter (\<lambda>x. x \<le> t) beats"
    using assms by (auto intro: filter_cong)
  ultimately show ?thesis by (simp add: beats_by_def)
qed

text \<open>C25: The writer's heartbeat and the reader's watch fit together. While the loop's delays
  between two beats stay within three intervals, a reader that looks at the catalog at any
  instants of the run, however it spaces them, is told at the last of them that the writer
  is live.\<close>

theorem live_writer_reads_live:
  assumes run: "timely_run cd dl tm ts" "punctual cd dl tm ts" "ts \<noteq> []"
    and every: "0 < cd_heartbeat_every cd" "beat_gap cd dl \<le> 3 * cd_heartbeat_every cd"
    and obs: "obs \<noteq> []"
      "\<And>beat t. (beat, t) \<in> set obs \<Longrightarrow> tm_last_beat tm \<le> t \<and> t \<le> tn_wake (last ts)
         \<and> beat = first + int (beats_by (beat_times cd tm ts) t)"
  shows "fst (watch_run src (int (cd_heartbeat_every cd)) obs) = WriterLive"
proof -
  let ?i = "int (cd_heartbeat_every cd)"
  obtain now beat where last: "last obs = (beat, now)" "(beat, now) \<in> set obs"
    using last_in_set[OF obs(1)] by (metis prod.collapse)
  have since: "(beat, unchanged_since obs) \<in> set obs"
    using unchanged_since_in[OF obs(1)] last(1) by simp
  have "\<not> unchanged_since obs + beat_gap cd dl \<le> now"
  proof
    assume "unchanged_since obs + beat_gap cd dl \<le> now"
    then obtain b where "b \<in> set (beat_times cd tm ts)" "unchanged_since obs < b" "b \<le> now"
      using beat_within_gap[OF run every(1)] obs(2)[OF since] obs(2)[OF last(2)] by blast
    then have "beats_by (beat_times cd tm ts) (unchanged_since obs) < beats_by (beat_times cd tm ts) now"
      by (rule beats_by_less)
    then show False using obs(2)[OF since] obs(2)[OF last(2)] by simp
  qed
  then have "\<not> nat ?i * 3 \<le> now - unchanged_since obs" using every by simp
  moreover have "0 < ?i" using every(1) by simp
  ultimately show ?thesis using watch_run_verdict[OF _ obs(1), of ?i src] last(1) by simp
qed

lemma live_writer_reads_live_witness:
  "fst (watch_run sample_source 10 [(7, 3), (7, 9), (8, 14), (9, 32)]) = WriterLive"
proof -
  have "tm_last_beat sample_timers \<le> t \<and> t \<le> tn_wake (last sample_turns)
      \<and> beat = 7 + int (beats_by (beat_times sample_cadence sample_timers sample_turns) t)"
    if "(beat, t) \<in> set [(7, 3), (7, 9), (8, 14), (9, 32)]" for beat t
    using that by (auto simp: sample_run(3) sample_span beats_by_def)
  then show ?thesis
    using live_writer_reads_live[OF sample_run(1,2), of "[(7, 3), (7, 9), (8, 14), (9, 32)]" 7 sample_source]
    by (simp add: sample_span(3) sample_cadence_def sample_delays_def beat_gap_def)
qed

subsection \<open>The reclaim at close ends\<close>

definition vacuums :: "bool \<Rightarrow> (u32 \<Rightarrow> page_counts \<Rightarrow> page_counts result) \<Rightarrow> bool" where
  "vacuums incremental vacuum \<longleftrightarrow>
     (\<forall>n p p'. 0 < n \<longrightarrow> vacuum n p = Inr p' \<longrightarrow>
        (if incremental
         then unat (pc_free p') = unat (pc_free p) - unat n
            \<and> unat (pc_pages p') = unat (pc_pages p) - (unat (pc_free p) - unat (pc_free p'))
         else p' = p))"

text \<open>The file after \<open>n\<close> passes of 100 pages.\<close>

fun vacuumed :: "(u32 \<Rightarrow> page_counts \<Rightarrow> page_counts result) \<Rightarrow> nat \<Rightarrow> page_counts \<Rightarrow> page_counts result" where
  "vacuumed vacuum 0 p = Inr p"
| "vacuumed vacuum (Suc n) p = rbind (vacuum 100 p) (vacuumed vacuum n)"

text \<open>The passes before the last: each left pages free and ended within the two seconds.\<close>

definition goes_on :: "(u32 \<Rightarrow> page_counts \<Rightarrow> page_counts result) \<Rightarrow> (nat \<Rightarrow> nat) \<Rightarrow> nat \<Rightarrow> nat \<Rightarrow> page_counts \<Rightarrow> bool" where
  "goes_on vacuum elapsed i n p \<longleftrightarrow>
     (\<exists>q. vacuumed vacuum n p = Inr q \<and> pc_free q \<noteq> 0) \<and> (n = 0 \<or> elapsed (i + n - 1) < 2 * 10 ^ 9)"

definition ends_at :: "(u32 \<Rightarrow> page_counts \<Rightarrow> page_counts result) \<Rightarrow> (nat \<Rightarrow> nat) \<Rightarrow> nat \<Rightarrow> nat \<Rightarrow> page_counts \<Rightarrow> bool" where
  "ends_at vacuum elapsed i n p \<longleftrightarrow>
     (\<forall>k < n. goes_on vacuum elapsed i k p) \<and> \<not> goes_on vacuum elapsed i n p"

lemma goes_on_Suc:
  assumes "pc_free p \<noteq> 0" and "vacuum 100 p = Inr p1" and "elapsed i < 2 * 10 ^ 9"
  shows "goes_on vacuum elapsed i (Suc n) p \<longleftrightarrow> goes_on vacuum elapsed (Suc i) n p1"
  using assms by (cases n) (auto simp: goes_on_def result_simps)

lemma ends_at_Suc:
  assumes "pc_free p \<noteq> 0" and "vacuum 100 p = Inr p1" and "elapsed i < 2 * 10 ^ 9" and "ends_at vacuum elapsed (Suc i) n p1"
  shows "ends_at vacuum elapsed i (Suc n) p"
proof -
  have "goes_on vacuum elapsed i 0 p" using assms(1) by (simp add: goes_on_def)
  then show ?thesis
    using assms(4) unfolding ends_at_def
    by (auto simp: less_Suc_eq_0_disj goes_on_Suc [of p vacuum p1 elapsed i, OF assms(1) assms(2) assms(3)])
qed

lemma reclaim_passes_unfold:
  "reclaim_passes vacuum elapsed i p =
     (if pc_free p = 0 then Some (Inr p)
      else case vacuum 100 p of
             Inl e \<Rightarrow> Some (Inl e)
           | Inr p' \<Rightarrow> if 2 * 10 ^ 9 \<le> elapsed i then Some (Inr p') else reclaim_passes vacuum elapsed (i + 1) p')"
  unfolding reclaim_passes.simps [of vacuum elapsed i p] reclaim_pages_per_pass_def reclaim_at_close_budget_def ..

lemma reclaim_passes_ends:
  "ends_at vacuum elapsed i n p \<Longrightarrow> reclaim_passes vacuum elapsed i p = Some (vacuumed vacuum n p)"
proof (induction n arbitrary: i p)
  case 0
  then have "pc_free p = 0" by (auto simp: ends_at_def goes_on_def)
  then show ?case by (subst reclaim_passes_unfold) simp
next
  case (Suc n)
  have free: "pc_free p \<noteq> 0" using Suc.prems by (auto simp: ends_at_def goes_on_def)
  show ?case
  proof (cases "vacuum 100 p")
    case (Inl e)
    then show ?thesis using free by (subst reclaim_passes_unfold) simp
  next
    case (Inr p1)
    show ?thesis
    proof (cases "elapsed i < 2 * 10 ^ 9")
      case True
      have "ends_at vacuum elapsed (Suc i) n p1"
        using Suc.prems goes_on_Suc [of p vacuum p1 elapsed i, OF free Inr True] by (auto simp: ends_at_def)
      from Suc.IH [OF this] show ?thesis using free Inr True by (subst reclaim_passes_unfold) simp
    next
      case False
      have "n = 0"
      proof (rule ccontr)
        assume "n \<noteq> 0"
        then have "goes_on vacuum elapsed i 1 p" using Suc.prems by (auto simp: ends_at_def)
        then show False using False by (simp add: goes_on_def)
      qed
      then show ?thesis using free Inr False by (subst reclaim_passes_unfold) simp
    qed
  qed
qed

lemma vacuumsD:
  assumes "vacuums True vacuum" and "vacuum 100 p = Inr p1"
  shows "unat (pc_free p1) = unat (pc_free p) - 100"
    and "unat (pc_pages p1) = unat (pc_pages p) - (unat (pc_free p) - unat (pc_free p1))"
  using assms unfolding vacuums_def by (auto dest!: spec [of _ "100 :: u32"])

lemma vacuumed_counts:
  assumes "vacuums True vacuum" and "vacuumed vacuum n p = Inr p'"
  shows "unat (pc_free p') = unat (pc_free p) - 100 * n
    \<and> unat (pc_pages p') = unat (pc_pages p) - min (100 * n) (unat (pc_free p))"
  using assms(2)
proof (induction n arbitrary: p)
  case (Suc n)
  then obtain p1 where "vacuum 100 p = Inr p1" "vacuumed vacuum n p1 = Inr p'" by (auto simp: result_simps)
  with Suc.IH [of p1] vacuumsD [OF assms(1), of p p1] show ?case by auto
qed simp

text \<open>C38: The reclaim at a clean close returns, on every file in incremental mode whatever the
  clock says, and on any other as soon as the clock reaches two seconds. It ran some number
  of passes of 100 pages, each but the first because the one before left pages free and
  ended within the two seconds, and it stops at the first that leaves none, that ends
  after them, or that fails, whose error it returns. In incremental mode \<open>n\<close> passes take
  \<open>100 * n\<close> pages off the free list, or all of it, and as many off the file.\<close>

theorem reclaim_all_returns:
  assumes "vacuums incremental vacuum" and "incremental \<or> (\<exists>j. 2 * 10 ^ 9 \<le> elapsed j)"
  shows "\<exists>n. reclaim_all vacuum elapsed p = Some (vacuumed vacuum n p)
    \<and> (\<forall>k < n. (\<exists>q. vacuumed vacuum k p = Inr q \<and> pc_free q \<noteq> 0) \<and> (0 < k \<longrightarrow> elapsed (k - 1) < 2 * 10 ^ 9))
    \<and> (\<forall>p'. vacuumed vacuum n p = Inr p' \<longrightarrow>
         (pc_free p' = 0 \<or> 0 < n \<and> 2 * 10 ^ 9 \<le> elapsed (n - 1))
         \<and> (incremental \<longrightarrow> n \<le> (unat (pc_free p) + 99) div 100
              \<and> unat (pc_free p') = unat (pc_free p) - 100 * n
              \<and> unat (pc_pages p') = unat (pc_pages p) - min (100 * n) (unat (pc_free p))))"
proof -
  have "\<exists>n. \<not> goes_on vacuum elapsed 0 n p"
  proof (rule ccontr)
    assume "\<not> ?thesis"
    then have all: "goes_on vacuum elapsed 0 n p" for n by blast
    show False
    proof (cases incremental)
      case True
      let ?n = "unat (pc_free p) + 1"
      obtain q where "vacuumed vacuum ?n p = Inr q" "pc_free q \<noteq> 0" using all [of ?n] by (auto simp: goes_on_def)
      then show False using vacuumed_counts [of vacuum ?n p q] assms(1) True by (simp add: unat_eq_0)
    next
      case False
      then obtain j where "2 * 10 ^ 9 \<le> elapsed j" using assms(2) by blast
      then show False using all [of "Suc j"] by (simp add: goes_on_def)
    qed
  qed
  then obtain n where n: "\<not> goes_on vacuum elapsed 0 n p" "\<forall>k < n. goes_on vacuum elapsed 0 k p"
    using exists_least_iff [of "\<lambda>n. \<not> goes_on vacuum elapsed 0 n p"] by blast
  then have ends: "ends_at vacuum elapsed 0 n p" by (simp add: ends_at_def)
  have before: "(\<exists>q. vacuumed vacuum k p = Inr q \<and> pc_free q \<noteq> 0) \<and> (0 < k \<longrightarrow> elapsed (k - 1) < 2 * 10 ^ 9)" if "k < n" for k
    using n(2) that by (auto simp: goes_on_def)
  have passes: "n \<le> (unat (pc_free p) + 99) div 100" if inc: incremental
  proof (cases n)
    case (Suc k)
    then obtain q where q: "vacuumed vacuum k p = Inr q" "pc_free q \<noteq> 0" using before [of k] by auto
    then have "unat (pc_free q) \<noteq> 0" by (simp add: unat_eq_zero)
    then have "100 * k < unat (pc_free p)"
      using vacuumed_counts [of vacuum k p q] assms(1) inc q(1) by simp
    then show ?thesis using Suc by linarith
  qed simp
  have "pc_free p' = 0 \<or> 0 < n \<and> 2 * 10 ^ 9 \<le> elapsed (n - 1)" if "vacuumed vacuum n p = Inr p'" for p'
    using n(1) that by (auto simp: goes_on_def)
  then show ?thesis
    using reclaim_passes_ends [OF ends] before passes vacuumed_counts [of vacuum n p] assms(1)
    by (intro exI [of _ n]) (auto simp: reclaim_all_def)
qed


definition sample_vacuum :: "u32 \<Rightarrow> page_counts \<Rightarrow> page_counts result" where
  "sample_vacuum n p =
     (if pc_pages p < pc_free p then Inl (Message ''database disk image is malformed'')
      else let k = min n (pc_free p)
           in Inr \<lparr>pc_pages = pc_pages p - k, pc_free = pc_free p - k\<rparr>)"

lemma sample_vacuum_vacuums: "vacuums True sample_vacuum"
  unfolding vacuums_def
proof (intro allI impI)
  fix n p p'
  assume run: "sample_vacuum n p = Inr p'"
  define k where "k = min n (pc_free p)"
  have "\<not> pc_pages p < pc_free p"
    using run unfolding sample_vacuum_def by (auto split: if_splits)
  moreover have "k \<le> pc_free p" by (simp add: k_def)
  ultimately have le: "k \<le> pc_free p" "k \<le> pc_pages p" "\<not> pc_pages p < pc_free p"
    by (simp_all add: not_less)
  have p': "p' = \<lparr>pc_pages = pc_pages p - k, pc_free = pc_free p - k\<rparr>"
    using run le(3) unfolding k_def sample_vacuum_def by (simp add: Let_def)
  have "unat k = min (unat n) (unat (pc_free p))"
    unfolding k_def by (simp add: min_def word_le_nat_alt)
  then show "if True
         then unat (pc_free p') = unat (pc_free p) - unat n
            \<and> unat (pc_pages p') = unat (pc_pages p) - (unat (pc_free p) - unat (pc_free p'))
         else p' = p"
    using le(1,2) by (auto simp: p' unat_sub word_le_nat_alt)
qed

lemma reclaim_all_returns_witness:
  "reclaim_all sample_vacuum (\<lambda>k. 10 ^ 9 * k) \<lparr>pc_pages = 1000, pc_free = 450\<rparr>
     = Some (Inr \<lparr>pc_pages = 700, pc_free = 150\<rparr>)"
proof -
  let ?p = "\<lparr>pc_pages = 1000, pc_free = 450\<rparr> :: page_counts"
  have runs: "vacuumed sample_vacuum 0 ?p = Inr \<lparr>pc_pages = 1000, pc_free = 450\<rparr>"
    "vacuumed sample_vacuum 1 ?p = Inr \<lparr>pc_pages = 900, pc_free = 350\<rparr>"
    "vacuumed sample_vacuum 2 ?p = Inr \<lparr>pc_pages = 800, pc_free = 250\<rparr>"
    "vacuumed sample_vacuum 3 ?p = Inr \<lparr>pc_pages = 700, pc_free = 150\<rparr>"
    by code_simp+
  obtain n where n: "reclaim_all sample_vacuum (\<lambda>k. 10 ^ 9 * k) ?p = Some (vacuumed sample_vacuum n ?p)"
    "\<forall>k < n. 0 < k \<longrightarrow> 10 ^ 9 * (k - 1) < 2 * (10 ^ 9 :: nat)"
    "\<forall>p'. vacuumed sample_vacuum n ?p = Inr p' \<longrightarrow>
       (pc_free p' = 0 \<or> 0 < n \<and> 2 * 10 ^ 9 \<le> 10 ^ 9 * (n - 1))"
    using reclaim_all_returns [OF sample_vacuum_vacuums, of "\<lambda>k. 10 ^ 9 * k" ?p] by auto
  have "n \<le> 3" using n(2) [rule_format, of 3] by (cases "3 < n") auto
  moreover have "n \<notin> {0, 1, 2}"
  proof
    assume "n \<in> {0, 1, 2}"
    then show False using n(3) runs by (auto simp del: vacuumed.simps One_nat_def)
  qed
  ultimately have "n = 3" by auto
  then show ?thesis using n(1) runs(4) by simp
qed

subsection \<open>Starting a writer\<close>

text \<open>C26: Starting a writer on a new path leaves either the archive it serves or nothing at
  all. On success the path was free and now holds an archive created in the order that fixes
  its geometry, and the thread serves an empty archive; on any failure, the thread's spawn
  included, the files are those there were before.\<close>

theorem writer_create_correct:
  assumes left: "ce_left env \<subseteq> {sidecar path ''-wal'', sidecar path ''-shm''}"
    and free: "sidecar path ''-wal'' \<notin> files" "sidecar path ''-shm'' \<notin> files"
    and removable: "\<And>p. ce_removable env p"
    and made: "writer_create env spawned faults path files = (r, files')"
  shows "case r of
           Inl e \<Rightarrow> files' = files
         | Inr h \<Rightarrow> path \<notin> files \<and> files' = insert path files \<union> ce_left env
             \<and> h = spawn_writer \<lparr>db_archive = create_archive, db_faults = faults\<rparr>
             \<and> (\<exists>checkpoint \<le> wal_autocheckpoint_bytes.
                  fst (create env path files) = (Inr LayoutTable, creation_order page_size checkpoint))"
proof -
  obtain c sent files1 where c: "create env path files = ((c, sent), files1)"
    by (metis prod.collapse)
  note created = create_correct[OF left free removable c]
  show ?thesis
  proof (cases c)
    case (Inl e)
    then show ?thesis using made created c by (auto simp: writer_create_def)
  next
    case (Inr layout)
    have "remove_archive (ce_removable env) path files1 = files"
      using created Inr left free by (auto simp: remove_archive_all[OF removable])
    then show ?thesis using made created c Inr
      by (auto simp: writer_create_def spawn_def split: if_splits)
  qed
qed

lemma writer_create_correct_witness:
  "snd (writer_create (full_disk_env\<lparr>ce_opened := Inr sample_connection\<rparr>) False [] (str ''a.dendro'')
          {str ''b.dendro''}) = {str ''b.dendro''}"
proof -
  let ?env = "full_disk_env\<lparr>ce_opened := Inr sample_connection\<rparr>"
  obtain r files' where made: "writer_create ?env False [] (str ''a.dendro'') {str ''b.dendro''} = (r, files')"
    by (metis prod.collapse)
  have names: "sidecar (str ''a.dendro'') ''-wal'' = str ''a.dendro-wal''"
      "sidecar (str ''a.dendro'') ''-wal'' \<noteq> str ''b.dendro''"
      "sidecar (str ''a.dendro'') ''-shm'' \<noteq> str ''b.dendro''"
    by code_simp+
  have failed: "\<exists>e. r = Inl e"
    using made by (auto simp: writer_create_def spawn_def split: prod.splits sum.splits)
  then show ?thesis
    using writer_create_correct[of ?env "str ''a.dendro''" "{str ''b.dendro''}" False "[]" r files']
      made names by (auto simp: full_disk_env_def)
qed

end
