(* ===== verification/Writer_Check.thy ===== *)
theory Writer_Check
  imports Writer_Properties Archive_Check_Properties
begin

section \<open>What a writer leaves, checked over\<close>

text \<open>
  The writer's invariant against the reader's report: which problems \<open>verify\<close> can
  find in an archive only a writer of this crate has written.
\<close>

lemma stream_problems_of_good:
  assumes good: "good st" and p: "p \<in> set (stream_problems (ss_archive st) sid s)"
  shows "\<exists>n w. p = UnreadableWalRows sid s n \<and> watermark (ss_archive st) sid s = Some w"
proof -
  let ?a = "ss_archive st"
  have "segment_problems ?a sid s = []"
    using good by (auto simp: segment_problems_Nil good_def segments_ascend_def meta_ok_def)
  then have p: "p \<in> set (wal_problems ?a sid s)" using p by (simp add: stream_problems_def)
  then have "wal_problems ?a sid s \<noteq> []" by auto
  then have "\<exists>r \<in> set (wal_of ?a sid s). \<not> is_live ?a sid s (row_ts r)" by (simp add: wal_problems_Nil)
  then have "watermark ?a sid s \<noteq> None" by (auto simp: is_live_def split: option.splits)
  then show ?thesis using p by (auto simp: wal_problems_def Let_def split: if_splits)
qed

lemma orphan_indexes_of_good: "good st \<Longrightarrow> orphan_indexes (ss_archive st) = []"
  by (auto simp: good_def writer_ok_def archive_ok_def refs_ok_def orphan_indexes_def filter_empty_conv)

lemma clean_verify:
  assumes clean: "ca_lines ca depth = Inr lines" "set lines \<subseteq> {Inr (str ''ok'')}" "ca_references ca = Inr []"
  shows "\<exists>rep. verify (reads_of a) ca depth = Inr rep
    \<and> rp_problems rep = concat (map (\<lambda>src. concat (map (stream_problems a (src_id src))
                                                     (all_streams a (src_id src)))) (read_sources a))"
proof -
  have "check_lines lines [] = Inr []" using clean(2) by (induction lines) auto
  moreover have "note_references ca [] = Inr []"
    using clean(3) by (simp add: note_references_def reference_violations_def sqlite_err_def)
  moreover have "ct_sources (reads_of a) = Inr (read_sources a)" "ct_begin (reads_of a) = Inr ()"
    by (simp_all add: reads_of_def)
  ultimately show ?thesis
    using clean(1)
    by (simp add: verify_def sqlite_err_def finish_report_def walk_catalog_def walk_sources_reads_of add_walk_def)
qed

lemma clean_verify_returns:
  "\<exists>rep. verify (reads_of a) clean_answers depth = Inr rep
    \<and> rp_problems rep = concat (map (\<lambda>src. concat (map (stream_problems a (src_id src))
                                                     (all_streams a (src_id src)))) (read_sources a))"
  using clean_verify[of clean_answers depth "[Inr (str ''ok'')]" a] by (auto simp: clean_answers_def)

text \<open>C16: In every state a writer reaches, the archive it has written checks out but for one
  thing: where SQLite's own checks are clean, \<open>verify\<close> returns a report, no segment index
  is an orphan, and every problem the report lists is unreadable rows of a stream that has
  been sealed, which is what the seal leaves for the prune that follows it.\<close>

theorem writer_archive_verifies:
  assumes reached: "writer_step\<^sup>*\<^sup>* (start_writer d) w"
    and start: "archive_ok (db_archive d)" "segments_ascend (db_archive d)"
    and clean: "ca_lines ca depth = Inr lines" "set lines \<subseteq> {Inr (str ''ok'')}" "ca_references ca = Inr []"
  shows "\<exists>rep. verify (reads_of (wr_archive w)) ca depth = Inr rep
    \<and> orphan_indexes (wr_archive w) = []
    \<and> (\<forall>p \<in> set (rp_problems rep). \<exists>sid s n wm.
         p = UnreadableWalRows sid s n \<and> watermark (wr_archive w) sid s = Some wm)"
proof -
  let ?a = "wr_archive w"
  have good: "good (wr_seal w)" by (rule writer_reachable_good[OF reached start])
  obtain rep where rep: "verify (reads_of ?a) ca depth = Inr rep"
      "rp_problems rep = concat (map (\<lambda>src. concat (map (stream_problems ?a (src_id src))
                                                     (all_streams ?a (src_id src)))) (read_sources ?a))"
    using clean_verify[OF clean] by blast
  have "\<exists>sid s n wm. p = UnreadableWalRows sid s n \<and> watermark ?a sid s = Some wm"
    if "p \<in> set (rp_problems rep)" for p
    using that stream_problems_of_good[OF good] unfolding rep(2) by fastforce
  then show ?thesis using rep(1) orphan_indexes_of_good[OF good] by blast
qed

text \<open>
  A seal whose first prune meets a busy database: the seal is in, the retry finds
  nothing left to seal and so nothing to prune, and the rows stay until the stream's
  next seal.
\<close>

lemma unpruned_step:
  "\<exists>w. writer_step (sample_writer [None, Some DatabaseBusy]) w
     \<and> wal_of (wr_archive w) 1 (str ''cpu'') \<noteq> [] \<and> live_wal (wr_archive w) 1 (str ''cpu'') = []"
proof -
  have "(case handle sample_env (Seal 1 [str ''cpu''] 10) (sample_writer [None, Some DatabaseBusy]) of
      (Running w, _) \<Rightarrow> wal_of (wr_archive w) 1 (str ''cpu'') \<noteq> []
        \<and> live_wal (wr_archive w) 1 (str ''cpu'') = [] | _ \<Rightarrow> False)" by code_simp
  then obtain w r where "handle sample_env (Seal 1 [str ''cpu''] 10) (sample_writer [None, Some DatabaseBusy]) = (Running w, r)"
    "wal_of (wr_archive w) 1 (str ''cpu'') \<noteq> []" "live_wal (wr_archive w) 1 (str ''cpu'') = []"
    by (auto split: prod.splits outcome.splits)
  then show ?thesis using writer_step.message by blast
qed

lemma writer_archive_verifies_witness:
  "\<exists>w rep. writer_step\<^sup>*\<^sup>* (sample_writer [None, Some DatabaseBusy]) w
     \<and> verify (reads_of (wr_archive w)) clean_answers Full = Inr rep
     \<and> list_all (\<lambda>p. \<exists>sid s n. p = UnreadableWalRows sid s n) (rp_problems rep)"
proof -
  obtain w where w: "writer_step (sample_writer [None, Some DatabaseBusy]) w" using unpruned_step by blast
  then have reached: "writer_step\<^sup>*\<^sup>* (start_writer (sample_db\<lparr>db_faults := [None, Some DatabaseBusy]\<rparr>)) w"
    by (auto simp: sample_writer_def)
  have "\<exists>rep. verify (reads_of (wr_archive w)) clean_answers Full = Inr rep
      \<and> orphan_indexes (wr_archive w) = []
      \<and> (\<forall>p \<in> set (rp_problems rep). \<exists>sid s n wm.
           p = UnreadableWalRows sid s n \<and> watermark (wr_archive w) sid s = Some wm)"
    by (rule writer_archive_verifies[OF reached, of clean_answers Full "[Inr (str ''ok'')]"])
       (simp_all add: sample_db_def archive_ok_sample segments_ascend_sample clean_answers_def)
  moreover have "writer_step\<^sup>*\<^sup>* (sample_writer [None, Some DatabaseBusy]) w" using w by blast
  ultimately show ?thesis by (fastforce simp: list_all_iff)
qed

text \<open>So a current writer, too, leaves rows the report calls unreadable.\<close>

lemma prune_points_one: "\<forall>x \<in> set es. en_stream x = en_stream e \<Longrightarrow> prune_points (e # es) = [last (e # es)]"
proof (induction es arbitrary: e)
  case (Cons f es)
  have "en_stream f = en_stream e" by (rule bspec [OF Cons.prems]) simp
  moreover from this have "prune_points (f # es) = [last (f # es)]"
    by (intro Cons.IH ballI) (metis Cons.prems list.set_intros(2))
  ultimately show ?case by (simp add: prune_points.simps(3))
qed simp

lemma install_wal:
  assumes "install_batch sid es obs a = Inr b"
  shows "ar_wal b = ar_wal a \<and> ar_sources b = ar_sources a"
proof -
  obtain c where c: "rfold (insert_encoded sid) a es = Inr c"
    and i: "(case obs of None \<Rightarrow> Inr c | Some (ts, off) \<Rightarrow> insert_clock_offset sid ts off c) = Inr b"
    using assms by (auto simp: install_batch_def result_simps)
  have "ar_wal c = ar_wal a \<and> ar_sources c = ar_sources a"
    using c by (induction es arbitrary: a) (auto simp: result_simps insert_encoded_def dest!: insert_segment_frame)
  then show ?thesis using i insert_clock_offset_frame by (cases obs) fastforce+
qed

text \<open>A seal of one stream that encodes the whole live tail.\<close>

lemma encode_whole_tail:
  assumes "has_source a sid" and "ps \<noteq> []"
    and "split_seal enc (seal_context a sid s) (live_wal a sid s) n = Inr ps"
    and "seg_last_ts (last ps) = row_ts (last (live_wal a sid s))"
  shows "\<exists>obs. encode_batch a sid nxt n enc [s] = Inr (number_parts s (or_zero (nxt (sid, s))) ps, obs)"
proof -
  have ne: "live_wal a sid s \<noteq> []" using assms(2,3) by (auto simp: split_seal_def opt_list_def)
  then have "find (\<lambda>r. row_ts r = seg_last_ts (last ps)) (rev (live_wal a sid s)) \<noteq> None"
    unfolding find_None_iff set_rev using assms(4) [symmetric] last_in_set [OF ne] by blast
  then obtain r where r: "find (\<lambda>r. row_ts r = seg_last_ts (last ps)) (rev (live_wal a sid s)) = Some r" by blast
  obtain uuid where uuid: "source_uuid a sid = Inr uuid"
    using assms(1) by (auto simp: has_source_def source_uuid_def)
  then show ?thesis
    using assms(2,3) r ne by (simp add: encode_batch_def encode_stream_def seal_context_def Let_def)
qed

lemma tail_above_all:
  assumes "keys_ok a" and "live_wal a sid s \<noteq> []" and "r \<in> set (wal_of a sid s)"
  shows "row_ts r \<le> row_ts (last (live_wal a sid s))"
proof (cases "r \<in> set (live_wal a sid s)")
  case True
  have "sorted_wrt (<) (map row_ts (live_wal a sid s))" using assms(1) by (rule sorted_live_wal)
  then have "sorted (map row_ts (live_wal a sid s))" by (rule strict_sorted_imp_sorted)
  then show ?thesis using True by (cases "live_wal a sid s" rule: rev_cases) (auto simp: sorted_append)
next
  case False
  then have "\<not> is_live a sid s (row_ts r)" using assms(3) by (auto simp: live_wal_def)
  moreover have "is_live a sid s (row_ts (last (live_wal a sid s)))"
    using last_in_set [OF assms(2)] by (auto simp: live_wal_def)
  ultimately show ?thesis by (auto simp: is_live_def split: option.splits)
qed

lemma whole_tail_installed:
  assumes ok: "writer_ok st" and held: "has_source (ss_archive st) sid" and ne: "ps \<noteq> []"
    and split: "split_seal enc (seal_context (ss_archive st) sid s) (live_wal (ss_archive st) sid s) n = Inr ps"
    and last: "seg_last_ts (last ps) = row_ts (last (live_wal (ss_archive st) sid s))"
  obtains es obs b where "encode_batch (ss_archive st) sid (ss_next_seq st) n enc [s] = Inr (es, obs)"
    "install_batch sid es obs (ss_archive st) = Inr b"
    "prune_points es = [last es]" "en_stream (last es) = s" "en_last (last es) = row_ts (last (live_wal (ss_archive st) sid s))"
    "live_wal b sid s = []" "length (stream_rows b sid s) = length (stream_rows (ss_archive st) sid s) + length ps"
    "ar_wal b = ar_wal (ss_archive st)" "ar_sources b = ar_sources (ss_archive st)"
proof -
  let ?a = "ss_archive st" and ?q = "or_zero (ss_next_seq st (sid, s))"
  define es where "es = number_parts s ?q ps"
  obtain obs where enc: "encode_batch ?a sid (ss_next_seq st) n enc [s] = Inr (es, obs)"
    using encode_whole_tail [OF held ne split last] by (auto simp: es_def)
  let ?st = "st\<lparr>ss_db := (ss_db st)\<lparr>db_faults := []\<rparr>\<rparr>"
  have "fst (seal_batch sid [s] n enc ?st) = Inr ()"
    by (rule seal_batch_commits [of _ _ _ _ _ es obs]) (use ok held enc in \<open>simp_all add: writer_ok_def maps_ok_def\<close>)
  then have "\<exists>b. install_batch sid es obs ?a = Inr b"
    using enc by (cases "install_batch sid es obs ?a")
      (simp_all add: seal_batch_def transaction_def next_fault_def unit_body_def)
  then obtain b where b: "install_batch sid es obs ?a = Inr b" by blast
  have C: "commits ?a sid (ss_next_seq st) n enc [s] es b"
    using ok enc b by (auto simp: commits_def writer_ok_def)
  have parts: "batch_parts ?a sid n enc [s] s = ps" using split by (simp add: batch_parts_def stream_parts_def)
  have "seam_of ?a (prune_list sid (take 0 (prune_points es)) b) sid s ?q ps"
    using commits_seam [OF C, of 0 s] parts by simp
  then obtain new where new: "stream_rows b sid s = stream_rows ?a sid s @ new"
    "map (\<lambda>x. (sg_seq x, sg_meta x, sg_bytes x)) new = map (\<lambda>e. (en_seq e, en_meta e, en_bytes e)) (number_parts s ?q ps)"
    and live: "live_wal b sid s = filter (\<lambda>r. seg_last_ts (last ps) < row_ts r) (live_wal ?a sid s)"
    using ne by (auto simp: seam_of_def prune_list_def)
  have "row_ts r \<le> row_ts (last (live_wal ?a sid s))" if "r \<in> set (live_wal ?a sid s)" for r
  proof (rule tail_above_all)
    show "keys_ok ?a" using ok by (simp add: writer_ok_def archive_ok_def)
    show "live_wal ?a sid s \<noteq> []" using that by auto
    show "r \<in> set (wal_of ?a sid s)" using that by (simp add: live_wal_def)
  qed
  then have gone: "live_wal b sid s = []" unfolding live last by (fastforce simp: filter_empty_conv)
  have "length new = length ps" using arg_cong [OF new(2), of length] by (simp add: number_parts_def)
  then have more: "length (stream_rows b sid s) = length (stream_rows ?a sid s) + length ps" by (simp add: new(1))
  have es: "es \<noteq> []" "\<forall>e \<in> set es. en_stream e = s" using ne number_parts_stream by (auto simp: es_def)
  have "en_last (last es) = row_ts (last (live_wal ?a sid s))" "en_stream (last es) = s"
    using last_number_parts [OF ne, of s ?q] last es(2) last_in_set [OF es(1)] by (simp_all add: es_def)
  moreover have "prune_points es = [last es]"
    using es prune_points_one [of "tl es" "hd es"] by (cases es) simp_all
  ultimately show thesis using that [OF enc b _ _ _ gone more] install_wal [OF b] by blast
qed


text \<open>The prune is refused as busy: the batch is in, and the retry has nothing to seal.\<close>

lemma seal_busy_prune:
  assumes "encode_batch (ss_archive st) sid (ss_next_seq st) n enc [s] = Inr (es, obs)"
    "install_batch sid es obs (ss_archive st) = Inr b" "prune_points es = [e]"
    and "db_faults (ss_db st) = [None, Some DatabaseBusy]"
  shows "seal_batch sid [s] n enc st
    = (Inl (Fails (Sqlite ''failed to commit transaction'' (SqliteFailure DatabaseBusy))),
       (advance_maps sid es st)\<lparr>ss_db := \<lparr>db_archive = b, db_faults = []\<rparr>\<rparr>)"
  using assms by (simp add: seal_batch_def transaction_def next_fault_def unit_body_def)

lemma seal_nothing:
  assumes "live_wal (ss_archive st) sid s = []" "has_source (ss_archive st) sid" "db_faults (ss_db st) = []"
  shows "seal_batch sid [s] n enc st = (Inr (), st)"
proof -
  obtain uuid where "source_uuid (ss_archive st) sid = Inr uuid"
    using assms(2) by (auto simp: has_source_def source_uuid_def)
  then have "encode_batch (ss_archive st) sid (ss_next_seq st) n enc [s] = Inr ([], None)"
    using assms(1) by (simp add: encode_batch_def encode_stream_def)
  moreover have "transaction (unit_body (install_batch sid [] None)) (ss_db st) = (Inr (), ss_db st)"
    using assms(3) by (simp add: transaction_def next_fault_def unit_body_def install_batch_def)
  ultimately show ?thesis by (simp add: seal_batch_def advance_maps_def)
qed

lemma seal_unfaulted:
  assumes "encode_batch (ss_archive st) sid (ss_next_seq st) n enc [s] = Inr (es, obs)"
    "install_batch sid es obs (ss_archive st) = Inr b" "prune_points es = [e]"
    and "db_faults (ss_db st) = []"
  shows "seal_batch sid [s] n enc st
    = (Inr (), (advance_maps sid es st)\<lparr>ss_db := \<lparr>db_archive = prune_wal sid (en_stream e) (en_last e) b, db_faults = []\<rparr>\<rparr>)"
  using assms by (simp add: seal_batch_def transaction_def next_fault_def unit_body_def)

lemma bt_get_remove_all: "k \<in> set ks \<Longrightarrow> bt_get (bt_remove_all ks m) k = None"
  by (induction m) (auto simp: bt_remove_all_def bt_get_def)

lemma unreadable_reported:
  assumes "rp_problems rep = concat (map (\<lambda>src. concat (map (stream_problems a (src_id src))
                                                     (all_streams a (src_id src)))) (read_sources a))"
    and "has_source a sid" "wal_of a sid s \<noteq> []" "live_wal a sid s = []"
  shows "UnreadableWalRows sid s (length (wal_of a sid s)) \<in> set (rp_problems rep)"
proof -
  have "span_rows (live_wal_span a sid s) = 0"
    using assms(4) by (simp add: live_wal_def live_wal_span_def Let_def)
  then have "UnreadableWalRows sid s (length (wal_of a sid s)) \<in> set (stream_problems a sid s)"
    using assms(3) by (simp add: stream_problems_def wal_problems_def total_wal_rows_def)
  moreover have "s \<in> set (all_streams a sid)" using assms(3) by (simp add: set_all_streams)
  moreover obtain src where "src \<in> set (read_sources a)" "src_id src = sid"
    using assms(2) by (auto simp: has_source_iff source_ids_def read_sources_def)
  ultimately show ?thesis unfolding assms(1) by auto
qed

text \<open>C39: The documentation of \<open>UnreadableWalRows\<close> says that an archive written before a
  writer dropped late appends carries such rows and a current writer's does not. A current
  writer leaves them too. In any state it reaches, let it seal a stream whole, and let
  SQLite answer the prune after the commit as busy once and nothing else so: the writer
  runs on with nothing deferred, the stream has gained the segments and no live row is
  left, every WAL row the stream had is still there, and a report on the archive names
  them all as unreadable. Had SQLite not been busy, the same seal would have left no WAL
  row of the stream.\<close>

theorem current_writer_leaves_unreadable_rows:
  assumes reached: "writer_step\<^sup>*\<^sup>* (start_writer d) w"
    and start: "archive_ok (db_archive d)" "segments_ascend (db_archive d)"
    and split: "split_seal (we_encoder env) (seal_context (wr_archive w) sid s) (live_wal (wr_archive w) sid s) n = Inr ps"
    and whole: "ps \<noteq> []" "seg_last_ts (last ps) = row_ts (last (live_wal (wr_archive w) sid s))"
    and clean: "ca_lines ca depth = Inr lines" "set lines \<subseteq> {Inr (str ''ok'')}" "ca_references ca = Inr []"
  shows "(db_faults (ss_db (wr_seal w)) = [None, Some DatabaseBusy] \<longrightarrow>
      (\<exists>w' rep. handle env (Seal sid [s] n) w = (Running w', NoReply)
         \<and> length (stream_rows (wr_archive w') sid s) = length (stream_rows (wr_archive w) sid s) + length ps
         \<and> live_wal (wr_archive w') sid s = []
         \<and> wal_of (wr_archive w') sid s = wal_of (wr_archive w) sid s
         \<and> bt_get (wr_deferred w' sid) s = None
         \<and> verify (reads_of (wr_archive w')) ca depth = Inr rep
         \<and> UnreadableWalRows sid s (length (wal_of (wr_archive w) sid s)) \<in> set (rp_problems rep)))
    \<and> (db_faults (ss_db (wr_seal w)) = [] \<longrightarrow>
      (\<exists>w'. handle env (Seal sid [s] n) w = (Running w', NoReply)
         \<and> length (stream_rows (wr_archive w') sid s) = length (stream_rows (wr_archive w) sid s) + length ps
         \<and> live_wal (wr_archive w') sid s = [] \<and> wal_of (wr_archive w') sid s = []))"
proof -
  let ?st = "wr_seal w" and ?a = "wr_archive w"
  have "good ?st" by (rule writer_reachable_good [OF reached start])
  then have ok: "writer_ok ?st" by (simp add: good_def)
  then have refs: "refs_ok ?a" and keys: "keys_ok ?a" by (simp_all add: writer_ok_def archive_ok_def)
  have live: "live_wal ?a sid s \<noteq> []" using split whole(1) by auto
  then have wal: "wal_of ?a sid s \<noteq> []" by (auto simp: live_wal_def)
  then have held: "has_source ?a sid"
    using refs by (force simp: has_source_iff refs_ok_def wal_of_def filter_empty_conv)
  obtain es obs b where seal: "encode_batch ?a sid (ss_next_seq ?st) n (we_encoder env) [s] = Inr (es, obs)"
    "install_batch sid es obs ?a = Inr b" "prune_points es = [last es]"
    and e: "en_stream (last es) = s" "en_last (last es) = row_ts (last (live_wal ?a sid s))"
    and b: "live_wal b sid s = []" "length (stream_rows b sid s) = length (stream_rows ?a sid s) + length ps"
      "ar_wal b = ar_wal ?a" "ar_sources b = ar_sources ?a"
    using whole_tail_installed [OF ok held whole(1) split whole(2)] by blast
  have b_wal: "wal_of b sid s = wal_of ?a sid s" using b(3) by (simp add: wal_of_def)
  have b_held: "has_source b sid" using held b(4) by (simp add: has_source_def find_source_def)
  have run: "\<exists>w'. handle env (Seal sid [s] n) w = (Running w', NoReply) \<and> wr_seal w' = st' \<and> bt_get (wr_deferred w' sid) s = None"
    if "with_retries failure_retryable (on_seal (seal_batch sid [s] n (we_encoder env))) w = (Inr (), w\<lparr>wr_seal := st'\<rparr>)" for st'
    using that by (simp add: handle_seal_def bt_get_remove_all)
  have busy: "\<exists>w' rep. handle env (Seal sid [s] n) w = (Running w', NoReply)
         \<and> length (stream_rows (wr_archive w') sid s) = length (stream_rows (wr_archive w) sid s) + length ps
         \<and> live_wal (wr_archive w') sid s = [] \<and> wal_of (wr_archive w') sid s = wal_of (wr_archive w) sid s
         \<and> bt_get (wr_deferred w' sid) s = None
         \<and> verify (reads_of (wr_archive w')) ca depth = Inr rep
         \<and> UnreadableWalRows sid s (length (wal_of (wr_archive w) sid s)) \<in> set (rp_problems rep)"
    if f: "db_faults (ss_db ?st) = [None, Some DatabaseBusy]"
  proof -
    let ?st' = "(advance_maps sid es ?st)\<lparr>ss_db := \<lparr>db_archive = b, db_faults = []\<rparr>\<rparr>"
    have "seal_batch sid [s] n (we_encoder env) ?st' = (Inr (), ?st')"
      by (rule seal_nothing) (simp_all add: b(1) b_held)
    then have "with_retries failure_retryable (on_seal (seal_batch sid [s] n (we_encoder env))) w = (Inr (), w\<lparr>wr_seal := ?st'\<rparr>)"
      using seal_busy_prune [OF seal f]
      by (simp add: with_retries_def retry_backoff_def numeral_3_eq_3 on_seal_def is_retryable_def retryable_code_def)
    from run [OF this] obtain w' where w': "handle env (Seal sid [s] n) w = (Running w', NoReply)" "wr_seal w' = ?st'"
      "bt_get (wr_deferred w' sid) s = None" by blast
    obtain rep where rep: "verify (reads_of b) ca depth = Inr rep"
      "rp_problems rep = concat (map (\<lambda>src. concat (map (stream_problems b (src_id src)) (all_streams b (src_id src)))) (read_sources b))"
      using clean_verify [OF clean] by blast
    have "UnreadableWalRows sid s (length (wal_of ?a sid s)) \<in> set (rp_problems rep)"
      using unreadable_reported [OF rep(2) b_held _ b(1)] wal by (simp add: b_wal)
    then show ?thesis using w' rep(1) b(1,2) b_wal by auto
  qed
  have quiet: "\<exists>w'. handle env (Seal sid [s] n) w = (Running w', NoReply)
         \<and> length (stream_rows (wr_archive w') sid s) = length (stream_rows (wr_archive w) sid s) + length ps
         \<and> live_wal (wr_archive w') sid s = [] \<and> wal_of (wr_archive w') sid s = []"
    if f: "db_faults (ss_db ?st) = []"
  proof -
    let ?p = "prune_wal sid s (row_ts (last (live_wal ?a sid s))) b"
    let ?st' = "(advance_maps sid es ?st)\<lparr>ss_db := \<lparr>db_archive = ?p, db_faults = []\<rparr>\<rparr>"
    have "with_retries failure_retryable (on_seal (seal_batch sid [s] n (we_encoder env))) w = (Inr (), w\<lparr>wr_seal := ?st'\<rparr>)"
      using seal_unfaulted [OF seal f] e
      by (simp add: with_retries_def retry_backoff_def numeral_3_eq_3 on_seal_def)
    from run [OF this] obtain w' where w': "handle env (Seal sid [s] n) w = (Running w', NoReply)" "wr_seal w' = ?st'" by blast
    have gone: "wal_of ?p sid s = []"
      using tail_above_all [OF keys live] by (auto simp: wal_of_prune b_wal filter_empty_conv not_less)
    then have "live_wal ?p sid s = []" by (simp add: live_wal_def)
    then show ?thesis using w' gone b(2) by (auto simp: frame_simps)
  qed
  show ?thesis using busy quiet by blast
qed

lemma current_writer_leaves_unreadable_rows_witness:
  "\<exists>w' rep. handle sample_env (Seal 1 [str ''cpu''] 10) (sample_writer [None, Some DatabaseBusy]) = (Running w', NoReply)
     \<and> live_wal (wr_archive w') 1 (str ''cpu'') = []
     \<and> verify (reads_of (wr_archive w')) clean_answers Quick = Inr rep
     \<and> UnreadableWalRows 1 (str ''cpu'') (length (wal_of sample_archive 1 (str ''cpu''))) \<in> set (rp_problems rep)"
proof -
  let ?w = "sample_writer [None, Some DatabaseBusy]"
  let ?ps = "[\<lparr>seg_bytes = [7, 7], seg_rows = 2, seg_first_ts = 25, seg_last_ts = 30, seg_index = None\<rparr>]"
  have ps: "split_seal (we_encoder sample_env) (seal_context (wr_archive ?w) 1 (str ''cpu'')) (live_wal (wr_archive ?w) 1 (str ''cpu'')) 10 = Inr ?ps"
    "?ps \<noteq> []" "seg_last_ts (last ?ps) = row_ts (last (live_wal (wr_archive ?w) 1 (str ''cpu'')))" by code_simp+
  have reached: "writer_step\<^sup>*\<^sup>* (start_writer (sample_db\<lparr>db_faults := [None, Some DatabaseBusy]\<rparr>)) ?w"
    by (simp add: sample_writer_def)
  have f: "db_faults (ss_db (wr_seal ?w)) = [None, Some DatabaseBusy]" by (simp add: sample_writer_def start_writer_def)
  from current_writer_leaves_unreadable_rows [OF reached _ _ ps, of clean_answers Quick "[Inr (str ''ok'')]"] f
  show ?thesis by (auto simp: sample_db_def archive_ok_sample segments_ascend_sample clean_answers_def)
qed

end
