(* ===== verification/Archive_Handle.thy ===== *)
theory Archive_Handle
  imports Eviction Documents
begin

section \<open>The write handle (\<open>src/archive/sqlite.rs\<close>)\<close>

text \<open>
  \<open>ArchiveMut\<close> and \<open>Transaction\<close> as an archive is assembled with them, without a
  writer: the methods of the handle, each a commit of its own, and the closure given
  to \<open>transaction\<close> as the list of the writes it makes. What a closure computes between
  its writes is its caller's; it stops at the first write that fails.
\<close>

subsection \<open>The methods that commit on their own\<close>

definition am_insert_source :: "bytes \<Rightarrow> source_meta \<Rightarrow> db \<Rightarrow> i64 result \<times> db" where
  "am_insert_source random meta = transaction (insert_source_sql random meta None)"

definition am_insert_source_with_uuid ::
  "bytes \<Rightarrow> source_meta \<Rightarrow> rstring option \<Rightarrow> db \<Rightarrow> i64 result \<times> db" where
  "am_insert_source_with_uuid random meta uuid = transaction (insert_source_sql random meta uuid)"

definition am_insert_segment ::
  "i64 \<Rightarrow> rstring \<Rightarrow> nat \<Rightarrow> segment_meta \<Rightarrow> bytes \<Rightarrow> db \<Rightarrow> unit result \<times> db" where
  "am_insert_segment sid s q meta payload =
     transaction (unit_body (insert_segment_with_index sid s q meta payload None))"

definition am_insert_segment_with_index ::
  "i64 \<Rightarrow> rstring \<Rightarrow> nat \<Rightarrow> segment_meta \<Rightarrow> bytes \<Rightarrow> bytes option \<Rightarrow> db \<Rightarrow> unit result \<times> db" where
  "am_insert_segment_with_index sid s q meta payload caller_index =
     transaction (unit_body (insert_segment_with_index sid s q meta payload caller_index))"

definition am_insert_wal_rows :: "i64 \<Rightarrow> wal_row list \<Rightarrow> db \<Rightarrow> unit result \<times> db" where
  "am_insert_wal_rows sid rows = transaction (unit_body (insert_wal_rows sid rows))"

text \<open>\<open>prune_wal\<close> answers how many rows it deleted.\<close>

definition am_prune_wal :: "i64 \<Rightarrow> rstring \<Rightarrow> i64 \<Rightarrow> db \<Rightarrow> nat result \<times> db" where
  "am_prune_wal sid s bound =
     transaction (\<lambda>a. let b = prune_wal sid s bound a
                      in Inr (length (ar_wal a) - length (ar_wal b), b))"

definition am_insert_caller_rows :: "i64 \<Rightarrow> rstring \<Rightarrow> caller_row list \<Rightarrow> db \<Rightarrow> unit result \<times> db" where
  "am_insert_caller_rows sid s rows = transaction (unit_body (insert_caller_rows sid s rows))"

definition am_mark_complete :: "i64 \<Rightarrow> db \<Rightarrow> unit result \<times> db" where
  "am_mark_complete sid = transaction (\<lambda>a. Inr ((), mark_complete sid a))"

subsection \<open>The writes of a transaction\<close>

text \<open>\<open>Transaction::set_source_identity\<close>: both maps as given, with no key kept.\<close>

definition tx_set_source_identity :: "i64 \<Rightarrow> label_map \<Rightarrow> label_map \<Rightarrow> archive \<Rightarrow> archive result" where
  "tx_set_source_identity sid labels metadata =
     update_existing_source sid (\<lambda>r. r\<lparr>src_meta := (src_meta r)\<lparr>sm_labels := labels, sm_metadata := metadata\<rparr>\<rparr>)"

datatype tx_write =
    TxInsertSource bytes source_meta "rstring option"
  | TxInsertSegment i64 rstring nat segment_meta bytes "bytes option"
  | TxDeleteSegment i64 rstring nat
  | TxInsertWalRows i64 "wal_row list"
  | TxInsertClockOffset i64 i64 i64
  | TxInsertCallerRows i64 rstring "caller_row list"
  | TxMarkComplete i64
  | TxMarkIncomplete i64
  | TxSetSourceIdentity i64 label_map label_map
  | TxSetHeartbeat i64 "i64 option" "i64 option"
  | TxSetHeartbeatInterval i64 i64
  | TxBeat "i64 list"
  | TxPutDocument bytes i64 rstring rstring rstring rstring "rstring option option"
  | TxDeleteDocument bytes i64 rstring rstring

fun tx_apply :: "(rstring \<Rightarrow> bool) \<Rightarrow> archive \<Rightarrow> tx_write \<Rightarrow> archive result" where
  "tx_apply is_json a (TxInsertSource random meta uuid) = rmap snd (insert_source_sql random meta uuid a)"
| "tx_apply is_json a (TxInsertSegment sid s q meta payload index) =
     insert_segment_with_index sid s q meta payload index a"
| "tx_apply is_json a (TxDeleteSegment sid s q) = Inr (delete_segment sid s q a)"
| "tx_apply is_json a (TxInsertWalRows sid rows) = insert_wal_rows sid rows a"
| "tx_apply is_json a (TxInsertClockOffset sid ts offset) = insert_clock_offset sid ts offset a"
| "tx_apply is_json a (TxInsertCallerRows sid s rows) = insert_caller_rows sid s rows a"
| "tx_apply is_json a (TxMarkComplete sid) = Inr (mark_complete sid a)"
| "tx_apply is_json a (TxMarkIncomplete sid) = mark_incomplete sid a"
| "tx_apply is_json a (TxSetSourceIdentity sid labels metadata) = tx_set_source_identity sid labels metadata a"
| "tx_apply is_json a (TxSetHeartbeat sid heartbeat interval) = Inr (set_heartbeat sid heartbeat interval a)"
| "tx_apply is_json a (TxSetHeartbeatInterval sid interval) = Inr (set_heartbeat_interval sid interval a)"
| "tx_apply is_json a (TxBeat ids) = Inr (beat ids a)"
| "tx_apply is_json a (TxPutDocument random now kind name schema body expected) =
     rmap snd (put_revision is_json random now kind name schema body expected a)"
| "tx_apply is_json a (TxDeleteDocument random now kind name) =
     rmap snd (delete_revision random now kind name a)"

definition am_transaction :: "(rstring \<Rightarrow> bool) \<Rightarrow> tx_write list \<Rightarrow> db \<Rightarrow> unit result \<times> db" where
  "am_transaction is_json writes = transaction (unit_body (\<lambda>a. rfold (tx_apply is_json) a writes))"

subsection \<open>A sequence of calls on the handle\<close>

datatype handle_call =
    Transact "tx_write list"
  | PruneWal i64 rstring i64
  | PatchMetadata i64 label_map
  | UpdateMetadata i64 label_map
  | UpdateLabels i64 label_map
  | SetIdentity i64 label_map label_map
  | EvictBefore i64 i64 "caller_row_floor option"
  | EvictStreams i64 i64 "rstring list" "caller_row_floor option"

definition dropping :: "'a result \<times> db \<Rightarrow> unit result \<times> db" where
  "dropping = (\<lambda>(r, d). (rmap (\<lambda>_. ()) r, d))"

fun handle_call_on :: "(rstring \<Rightarrow> bool) \<Rightarrow> handle_call \<Rightarrow> db \<Rightarrow> unit result \<times> db" where
  "handle_call_on is_json (Transact writes) d = am_transaction is_json writes d"
| "handle_call_on is_json (PruneWal sid s bound) d = dropping (am_prune_wal sid s bound d)"
| "handle_call_on is_json (PatchMetadata sid patch) d = transaction (unit_body (patch_source_metadata sid patch)) d"
| "handle_call_on is_json (UpdateMetadata sid metadata) d =
     transaction (unit_body (update_source_metadata sid metadata)) d"
| "handle_call_on is_json (UpdateLabels sid labels) d = transaction (unit_body (update_source_labels sid labels)) d"
| "handle_call_on is_json (SetIdentity sid labels metadata) d =
     transaction (unit_body (set_source_identity sid labels metadata)) d"
| "handle_call_on is_json (EvictBefore sid cutoff floor) d =
     dropping (transaction (\<lambda>a. Inr (evict_source sid cutoff floor a)) d)"
| "handle_call_on is_json (EvictStreams sid cutoff chosen floor) d =
     dropping (evict_streams sid cutoff (\<lambda>s. s \<in> set chosen) floor d)"

fun run_calls :: "(rstring \<Rightarrow> bool) \<Rightarrow> handle_call list \<Rightarrow> db \<Rightarrow> db" where
  "run_calls is_json [] d = d"
| "run_calls is_json (c # cs) d = run_calls is_json cs (snd (handle_call_on is_json c d))"

end
