(* ===== verification/Archive_Handle_Properties.thy ===== *)
theory Archive_Handle_Properties
  imports Archive_Handle Writer_Invariant
begin

section \<open>What the write handle keeps\<close>

text \<open>Lemmas and properties of theory \<open>Archive_Handle\<close>.\<close>

lemma archive_ok_beat: "archive_ok a \<Longrightarrow> archive_ok (beat ids a)"
  by (rule shrinks_ok[OF shrinks_beat])

lemma archive_ok_update_existing:
  assumes "archive_ok a" "update_existing_source sid f a = Inr b" "\<And>r. src_id (f r) = src_id r"
  shows "archive_ok b"
  using assms archive_ok_update_source[of a f sid] by (auto simp: update_existing_source_def split: if_splits)

lemma tx_apply_ok:
  assumes "archive_ok a" "tx_apply is_json a w = Inr b"
  shows "archive_ok b"
proof (cases w)
  case (TxInsertSource random meta uuid)
  then show ?thesis using assms
    by (cases "insert_source_sql random meta uuid a") (auto intro: archive_ok_insert_source)
next
  case (TxPutDocument random now kind name schema body expected)
  then show ?thesis using assms
    by (cases "put_revision is_json random now kind name schema body expected a")
       (auto intro: shrinks_ok[OF shrinks_put])
next
  case (TxDeleteDocument random now kind name)
  then show ?thesis using assms
    by (cases "delete_revision random now kind name a") (auto intro: shrinks_ok[OF shrinks_delete])
qed (use assms in \<open>auto intro: archive_ok_insert_segment archive_ok_insert_wal_rows archive_ok_clock
      archive_ok_caller archive_ok_beat archive_ok_update_existing
      simp: delete_segment_def mark_complete_def set_heartbeat_def set_heartbeat_interval_def
        mark_incomplete_def tx_set_source_identity_def
      intro!: archive_ok_delete_segments_where archive_ok_update_source\<close>)

lemma rfold_tx_ok: "archive_ok a \<Longrightarrow> rfold (tx_apply is_json) a ws = Inr b \<Longrightarrow> archive_ok b"
  by (erule rfold_invariant [where I = archive_ok]) (auto intro: tx_apply_ok)

lemma dropping_unit [simp]: "dropping p = (p :: unit result \<times> db)"
  by (cases p; cases "fst p") (simp_all add: dropping_def)

text \<open>Each call is one transaction: its body, the result forgotten.\<close>

lemma handle_call_cases:
  obtains e where "handle_call_on is_json c d = (Inl e, d\<lparr>db_faults := tl (db_faults d)\<rparr>)"
  | a where "handle_call_on is_json c d = (Inr (), d\<lparr>db_archive := a, db_faults := tl (db_faults d)\<rparr>)"
      "archive_ok (db_archive d) \<Longrightarrow> archive_ok a"
proof -
  note alternatives = that
  have body: thesis
    if run: "handle_call_on is_json c d = dropping (transaction f d)"
      and ok: "\<And>x a. archive_ok (db_archive d) \<Longrightarrow> f (db_archive d) = Inr (x, a) \<Longrightarrow> archive_ok a"
    for f :: "archive \<Rightarrow> ('x \<times> archive) result"
    by (rule transaction_cases[of f d]) (use run ok alternatives in \<open>auto simp: dropping_def\<close>)
  show thesis
  proof (cases c)
    case (Transact ws)
    show ?thesis
      by (rule body[of "unit_body (\<lambda>a. rfold (tx_apply is_json) a ws)"])
         (auto simp: Transact am_transaction_def unit_body_Inr intro: rfold_tx_ok)
  next
    case (PruneWal sid s bound)
    show ?thesis
      by (rule body) (auto simp: PruneWal am_prune_wal_def Let_def intro: archive_ok_prune)
  next
    case (PatchMetadata sid patch)
    show ?thesis
      by (rule body[of "unit_body (patch_source_metadata sid patch)"])
         (auto simp: PatchMetadata unit_body_Inr intro: shrinks_ok[OF shrinks_patch])
  next
    case (UpdateMetadata sid metadata)
    show ?thesis
      by (rule body[of "unit_body (update_source_metadata sid metadata)"])
         (auto simp: UpdateMetadata unit_body_Inr update_source_metadata_def
            intro: archive_ok_update_existing)
  next
    case (UpdateLabels sid labels)
    show ?thesis
      by (rule body[of "unit_body (update_source_labels sid labels)"])
         (auto simp: UpdateLabels unit_body_Inr update_source_labels_def
            intro: archive_ok_update_existing)
  next
    case (SetIdentity sid labels metadata)
    show ?thesis
      by (rule body[of "unit_body (set_source_identity sid labels metadata)"])
         (auto simp: SetIdentity unit_body_Inr intro: shrinks_ok[OF shrinks_identity])
  next
    case (EvictBefore sid cutoff floor)
    show ?thesis
      by (rule body[of "\<lambda>a. Inr (evict_source sid cutoff floor a)"])
         (use shrinks_ok[OF shrinks_evict_source, of "db_archive d" sid cutoff floor] in \<open>auto simp: EvictBefore\<close>)
  next
    case (EvictStreams sid cutoff chosen floor)
    define ss where "ss = filter (\<lambda>s. s \<in> set chosen) (evictable_streams (db_archive d) sid)"
    show ?thesis
      by (rule body[of "\<lambda>a. Inr (evict_chosen_streams sid cutoff floor ss a)"])
         (use shrinks_ok[OF shrinks_evict_chosen, of "db_archive d" sid cutoff floor ss] in
           \<open>auto simp: EvictStreams evict_streams_def ss_def\<close>)
  qed
qed

text \<open>C22: However an archive is assembled through its write handle, under whatever faults
  SQLite raises, its keys stay distinct and its references hold; and a call that fails,
  a transaction of many writes included, has changed nothing.\<close>

theorem write_handle_sound:
  assumes "archive_ok (db_archive d)"
  shows "archive_ok (db_archive (run_calls is_json cs d))
    \<and> (\<forall>c d' e d''. handle_call_on is_json c d' = (Inl e, d'') \<longrightarrow> db_archive d'' = db_archive d')"
proof
  show "archive_ok (db_archive (run_calls is_json cs d))"
    using assms
  proof (induction cs arbitrary: d)
    case (Cons c cs)
    have "archive_ok (db_archive (snd (handle_call_on is_json c d)))"
      by (rule handle_call_cases[of is_json c d]) (use Cons.prems in auto)
    then show ?case using Cons.IH by simp
  qed simp
  show "\<forall>c d' e d''. handle_call_on is_json c d' = (Inl e, d'') \<longrightarrow> db_archive d'' = db_archive d'"
  proof (intro allI impI)
    fix c d' e d''
    assume "handle_call_on is_json c d' = (Inl e, d'')"
    then show "db_archive d'' = db_archive d'"
      by (rule_tac handle_call_cases[of is_json c d']) auto
  qed
qed

text \<open>
  An archive assembled in one commit, a second commit that fails at its last write, and
  an eviction that meets a busy database.
\<close>

definition sample_meta_of :: "nat \<Rightarrow> segment_meta" where
  "sample_meta_of n = \<lparr>meta_rows = n, meta_first_ts = 10, meta_last_ts = 20\<rparr>"

definition sample_calls :: "handle_call list" where
  "sample_calls =
     [Transact [TxInsertSource (replicate 16 7) sample_meta None,
                TxInsertSegment 1 (str ''cpu'') 0 (sample_meta_of 2) [1, 2] (Some [3]),
                TxMarkComplete 1],
      Transact [TxDeleteSegment 1 (str ''cpu'') 0,
                TxInsertSegment 9 (str ''cpu'') 1 (sample_meta_of 2) [4] None],
      EvictBefore 1 100 None]"

definition new_db :: db where
  "new_db = \<lparr>db_archive = create_archive, db_faults = [None, None, Some DatabaseBusy]\<rparr>"

lemma write_handle_sound_witness:
  "archive_ok (db_archive (run_calls (\<lambda>_. True) sample_calls new_db))
   \<and> length (ar_segments (db_archive (run_calls (\<lambda>_. True) sample_calls new_db))) = 1
   \<and> length (ar_indexes (db_archive (run_calls (\<lambda>_. True) sample_calls new_db))) = 1"
proof -
  have "length (ar_segments (db_archive (run_calls (\<lambda>_. True) sample_calls new_db))) = 1
      \<and> length (ar_indexes (db_archive (run_calls (\<lambda>_. True) sample_calls new_db))) = 1"
    by code_simp
  moreover have "archive_ok (db_archive new_db)" by (simp add: new_db_def archive_ok_create)
  ultimately show ?thesis using write_handle_sound[of new_db "\<lambda>_. True" sample_calls] by blast
qed

end
