(* ===== verification/Writer_History.thy ===== *)
theory Writer_History
  imports Writer_Properties "HOL-Library.Sublist"
begin

section \<open>What no writer takes away\<close>

text \<open>
  Which facts about an archive outlast every message of a writer. A relation between
  an archive and a later one that the kinds of statement the crate runs respect
  (\<open>archive_monitor\<close>) holds between any two states a writer goes through. It is
  interpreted twice: the revisions of the documents and the sources' identities are
  only ever appended to, and the schema an archive was created with stays.
\<close>

subsection \<open>A relation every statement respects\<close>

definition source_key :: "source_row \<Rightarrow> i64 \<times> rstring option \<times> i64" where
  "source_key r = (src_id r, src_uuid r, sm_clock_anchor (src_meta r))"

text \<open>The tables a statement that moves rows, segments or offsets leaves alone.\<close>

definition same_catalog :: "archive \<Rightarrow> archive \<Rightarrow> bool" where
  "same_catalog a b \<longleftrightarrow> ar_sources b = ar_sources a \<and> ar_documents b = ar_documents a
     \<and> ar_layout b = ar_layout a \<and> ar_user_version b = ar_user_version a"

lemma same_catalog_refl [simp]: "same_catalog a a"
  by (simp add: same_catalog_def)

lemma same_catalog_trans: "same_catalog a b \<Longrightarrow> same_catalog b c \<Longrightarrow> same_catalog a c"
  by (simp add: same_catalog_def)

lemma same_catalog_rfold:
  assumes "rfold f a xs = Inr b" and "\<And>x a b. f a x = Inr b \<Longrightarrow> same_catalog a b"
  shows "same_catalog a b"
  by (rule rfold_invariant [OF assms(1)]) (auto intro: assms(2) same_catalog_trans)

named_theorems catalog_intros \<open>statements that leave the catalog alone\<close>

lemma catalog_segment [catalog_intros]: "insert_segment_with_index sid s q m p ix a = Inr b \<Longrightarrow> same_catalog a b"
  by (auto simp: insert_segment_with_index_def Let_def constraint_error_def same_catalog_def
      split: if_splits index_layout.splits)

lemma catalog_wal_rows [catalog_intros]: "insert_wal_rows sid rows a = Inr b \<Longrightarrow> same_catalog a b"
  unfolding insert_wal_rows_def
  by (erule same_catalog_rfold) (auto simp: insert_wal_row_def constraint_error_def same_catalog_def split: if_splits)

lemma catalog_wal_batch [catalog_intros]: "insert_wal_rows_batch ticks a = Inr b \<Longrightarrow> same_catalog a b"
  unfolding insert_wal_rows_batch_def by (erule same_catalog_rfold) (auto intro: catalog_wal_rows)

lemma catalog_clock [catalog_intros]: "insert_clock_offset sid ts off a = Inr b \<Longrightarrow> same_catalog a b"
  by (auto simp: insert_clock_offset_def constraint_error_def same_catalog_def split: if_splits)

lemma catalog_caller [catalog_intros]: "insert_caller_rows sid s rows a = Inr b \<Longrightarrow> same_catalog a b"
  by (drule insert_caller_rows_eq) (simp add: same_catalog_def)

lemma catalog_prune [catalog_intros]: "same_catalog a (prune_wal sid s bound a)"
  by (simp add: prune_wal_def same_catalog_def)

lemma catalog_prune_list [catalog_intros]: "same_catalog a (prune_list sid es a)"
  unfolding prune_list_def
  by (induction es arbitrary: a) (auto intro: same_catalog_trans catalog_prune)

lemma catalog_encoded: "rfold (insert_encoded sid) a es = Inr b \<Longrightarrow> same_catalog a b"
  by (erule same_catalog_rfold) (auto simp: insert_encoded_def intro: catalog_segment)

lemma catalog_install [catalog_intros]: "install_batch sid es obs a = Inr b \<Longrightarrow> same_catalog a b"
  unfolding install_batch_def
  by (auto simp: result_simps split: option.splits dest!: catalog_encoded catalog_clock elim: same_catalog_trans)

lemma catalog_delete_segments [catalog_intros]: "same_catalog a (delete_segments_where P a)"
  by (simp add: delete_segments_where_def Let_def same_catalog_def)

lemma catalog_caller_eviction [catalog_intros]: "same_catalog a (snd (evict_caller_rows sid s c f a))"
  by (simp add: evict_caller_rows_def Let_def same_catalog_def)

lemma catalog_caller_evictions [catalog_intros]: "same_catalog a (snd (evict_caller_rows_of sid c f ss a))"
  by (induction ss arbitrary: a) (auto simp: Let_def case_prod_beta intro: same_catalog_trans catalog_caller_eviction)

lemma catalog_evict_source [catalog_intros]: "same_catalog a (snd (evict_source sid c f a))"
proof -
  let ?a1 = "delete_segments_where (expired_segment sid c) a"
  let ?a3 = "?a1\<lparr>ar_wal := filter (\<lambda>r. \<not> expired_wal sid c r) (ar_wal ?a1),
      ar_clock := filter (\<lambda>(i, ts, _). \<not> (i = sid \<and> ts < c)) (ar_clock ?a1)\<rparr>"
  have "same_catalog a ?a3" by (simp add: same_catalog_def delete_segments_where_def Let_def)
  then show ?thesis
    using catalog_caller_evictions [of ?a3 sid c f]
    by (cases f) (auto simp: evict_source_def Let_def case_prod_beta same_catalog_def)
qed

lemma catalog_evict_stream [catalog_intros]: "same_catalog (snd ta) (snd (evict_stream sid c f s ta))"
  by (auto simp: evict_stream_def Let_def case_prod_beta evict_caller_rows_def delete_segments_where_def same_catalog_def)

lemma catalog_evict_streams [catalog_intros]: "same_catalog a (snd (evict_chosen_streams sid c f ss a))"
proof -
  have "same_catalog (snd ta) (snd (fold (evict_stream sid c f) ss ta))" for ta
  proof (induction ss arbitrary: ta)
    case (Cons s ss)
    show ?case using same_catalog_trans [OF catalog_evict_stream Cons.IH] by simp
  qed simp
  from this [of "(no_evicted, a)"] show ?thesis
    by (simp add: evict_chosen_streams_def Let_def case_prod_beta same_catalog_def)
qed

locale archive_monitor =
  fixes R :: "archive \<Rightarrow> archive \<Rightarrow> bool"
  assumes trans: "R a b \<Longrightarrow> R b c \<Longrightarrow> R a c"
    and catalog: "same_catalog a b \<Longrightarrow> R a b"
    and sources: "map source_key ss = map source_key (ar_sources a) \<Longrightarrow> R a (a\<lparr>ar_sources := ss\<rparr>)"
    and source_added: "insert_source_sql random meta uuid a = Inr (i, b) \<Longrightarrow> R a b"
    and revision_added: "insert_revision nr a = Inr (j, b) \<Longrightarrow> R a b"
begin

lemma refl [simp]: "R a a"
  by (rule catalog) simp

subsection \<open>Statements\<close>

lemma updated:
  "(\<And>r. source_key (f r) = source_key r) \<Longrightarrow> R a (update_source sid f a)"
  unfolding update_source_def by (rule sources) simp

lemma updated_existing:
  "update_existing_source sid f a = Inr b \<Longrightarrow> (\<And>r. source_key (f r) = source_key r) \<Longrightarrow> R a b"
  by (auto simp: update_existing_source_def updated split: if_splits)

lemma beaten: "R a (beat ids a)"
proof (induction ids arbitrary: a)
  case Nil
  then show ?case by (simp add: beat_def)
next
  case (Cons i ids)
  let ?f = "\<lambda>r. r\<lparr>src_heartbeat := Some ((case src_heartbeat r of None \<Rightarrow> 0 | Some n \<Rightarrow> n) + 1)\<rparr>"
  have "R a (update_source i ?f a)" by (rule updated) (simp add: source_key_def)
  from trans [OF this Cons.IH] show ?case by (simp add: beat_def)
qed

lemma patched: "patch_source_metadata sid p a = Inr b \<Longrightarrow> R a b"
  by (auto simp: patch_source_metadata_def update_source_metadata_def result_simps source_key_def
      intro: updated_existing)

lemma identified: "set_source_identity sid l md a = Inr b \<Longrightarrow> R a b"
  by (auto simp: set_source_identity_def result_simps Let_def source_key_def intro: updated_existing)

lemma reopened: "mark_incomplete sid a = Inr b \<Longrightarrow> R a b"
  by (auto simp: mark_incomplete_def source_key_def intro: updated_existing)

lemma put: "put_revision j rand now k n s body e a = Inr (rid, b) \<Longrightarrow> R a b"
  by (rule revision_added [OF put_revision_Inr(6)])

lemma deleted: "delete_revision rand now k n a = Inr (rid, b) \<Longrightarrow> R a b"
  by (auto simp: delete_revision_def result_simps split: if_splits option.splits intro: revision_added)

lemma finalized: "rmap (mark_complete sid) (insert_clock_offset sid ts off a) = Inr b \<Longrightarrow> R a b"
  by (auto simp: result_simps mark_complete_def source_key_def
      intro: trans [OF catalog [OF catalog_clock] updated])

subsection \<open>Transactions\<close>

lemma transacted:
  assumes "\<And>x b. f (db_archive d) = Inr (x, b) \<Longrightarrow> R (db_archive d) b"
  shows "R (db_archive d) (db_archive (snd (transaction f d)))"
  by (rule transaction_cases [of f d]) (auto intro: assms)

lemma unit_transacted:
  assumes "\<And>b. f (db_archive d) = Inr b \<Longrightarrow> R (db_archive d) b"
  shows "R (db_archive d) (db_archive (snd (transaction (unit_body f) d)))"
  by (rule transacted) (auto simp: unit_body_Inr intro: assms)

lemma evicted_call: "R (db_archive d) (db_archive (snd (eviction_call sid c streams floor d)))"
proof -
  have 1: "R (db_archive d) (db_archive (snd (transaction (\<lambda>a. Inr (evict_source sid c f a)) d)))" for f
    by (rule transacted) (metis Inr_inject catalog catalog_evict_source snd_conv)
  have 2: "R (db_archive d) (db_archive (snd (transaction (\<lambda>a. Inr (evict_chosen_streams sid c f ss a)) d)))" for f ss
    by (rule transacted) (metis Inr_inject catalog catalog_evict_streams snd_conv)
  show ?thesis
    unfolding eviction_call_def evict_streams_before_with_floor_def evict_streams_before_def
      evict_before_with_floor_def evict_before_def evict_streams_def
    using 1 2 by (auto split: option.split)
qed

lemma metadata_patched: "R (db_archive d) (db_archive (snd (patch_metadata sid p d)))"
  unfolding patch_metadata_def by (rule unit_transacted) (rule patched)

lemma session_recorded: "R (db_archive d) (db_archive (snd (record_session env sid anchor after d)))"
  using metadata_patched by (auto simp: record_session_def Let_def split: sum.split prod.split)

lemma heartbeat_started: "R (db_archive d) (db_archive (start_heartbeat env sid d))"
proof -
  have "R a (beat [sid] (set_heartbeat_interval sid n a))" for a n
    by (rule trans [OF _ beaten]) (auto simp: set_heartbeat_interval_def source_key_def intro: updated)
  then show ?thesis unfolding start_heartbeat_def by (intro transacted) auto
qed

lemma source_inserted: "R (db_archive d) (db_archive (snd (add_source env seed uuid d)))"
proof -
  obtain r1 d1 where t: "transaction (insert_source_sql (we_random env) seed uuid) d = (r1, d1)" by fastforce
  have 1: "R (db_archive d) (db_archive d1)"
    using transacted [of "insert_source_sql (we_random env) seed uuid" d] t by (auto intro: source_added)
  have 2: "R (db_archive d) (db_archive d2)" if "record_session env i anchor after d1 = (r2, d2)" for i anchor after r2 d2
    using trans [OF 1 session_recorded [of d1 env i anchor after]] that by simp
  have 3: "R (db_archive d) (db_archive d4)"
    if "record_session env i anchor after d1 = (r2, d2)" "patch_metadata i p (start_heartbeat env i d2) = (r4, d4)"
    for i anchor after r2 d2 p r4 d4
    using trans [OF trans [OF 2 [OF that(1)] heartbeat_started] metadata_patched [of "start_heartbeat env i d2" i p]] that(2) by simp
  show ?thesis
    using 1 2 3 trans [OF 2 heartbeat_started]
    by (auto simp: add_source_def t Let_def split: sum.split prod.split option.split)
qed

lemma source_resumed: "R (db_archive d) (db_archive (snd (resume_source env sid anchor d)))"
proof -
  obtain r1 d1 where t: "transaction (unit_body (mark_incomplete sid)) d = (r1, d1)" by fastforce
  have 1: "R (db_archive d) (db_archive d1)"
    using unit_transacted [of "mark_incomplete sid" d, OF reopened] t by simp
  have 2: "R (db_archive d) (db_archive d2)" if "record_session env sid anchor after d1 = (r2, d2)" for after r2 d2
    using trans [OF 1 session_recorded [of d1 env sid anchor after]] that by simp
  show ?thesis
    using 1 2 by (auto simp: resume_source_def t Let_def split: sum.split prod.split option.split)
qed

subsection \<open>Seals, adoptions and messages\<close>

definition follows :: "writer_state \<Rightarrow> writer_state \<Rightarrow> bool" where
  "follows w w' \<longleftrightarrow> R (wr_archive w) (wr_archive w')"

lemma follows_refl [simp]: "follows w w"
  by (simp add: follows_def)

lemma follows_trans: "follows a b \<Longrightarrow> follows b c \<Longrightarrow> follows a c"
  unfolding follows_def by (rule trans)

lemma follows_on_db:
  assumes "\<And>d. R (db_archive d) (db_archive (snd (op d)))" shows "follows w (snd (on_db op w))"
  using assms [of "ss_db (wr_seal w)"] by (simp add: follows_def on_db_def set_db_def case_prod_beta)

lemma follows_retry_db:
  assumes "\<And>d. R (db_archive d) (db_archive (snd (op d)))" shows "follows w (snd (with_retries p (on_db op) w))"
  by (rule with_retries_rel [where R = follows, OF follows_on_db follows_trans]) (rule assms)

lemma follows_on_seal:
  assumes "\<And>st. R (ss_archive st) (ss_archive (snd (op st)))" shows "follows w (snd (with_retries p (on_seal op) w))"
  by (rule with_retries_rel [where R = follows, OF _ follows_trans])
    (use assms in \<open>auto simp: follows_def on_seal_def case_prod_beta\<close>)

lemma sealed: "R (ss_archive st) (ss_archive (snd (seal_batch sid batch n enc st)))"
  by (rule seal_batch_cases [of sid batch n enc st "fst (seal_batch sid batch n enc st)" "snd (seal_batch sid batch n enc st)"])
    (auto intro: trans catalog catalog_install catalog_prune_list)

lemma adopted: "R (ss_archive st) (ss_archive (snd (adopt_segment sid seg st)))"
  by (rule adopt_segment_cases [of sid seg st "fst (adopt_segment sid seg st)" "snd (adopt_segment sid seg st)"])
    (auto intro: catalog catalog_segment)

lemma follows_retry_seal:
  "with_retries p (on_seal (seal_batch sid batch n enc)) w = (r, w') \<Longrightarrow> follows w w'"
  using follows_on_seal [of "seal_batch sid batch n enc" w p, OF sealed] by simp

lemma follows_wal_rows:
  "with_retries p (on_db (transaction (unit_body (insert_wal_rows sid rows)))) w = (r, w') \<Longrightarrow> follows w w'"
  "with_retries p (on_db (transaction (unit_body (insert_wal_rows_batch ts)))) w = (r, w') \<Longrightarrow> follows w w'"
  using follows_retry_db [of "transaction (unit_body (insert_wal_rows sid rows))" w p,
      OF unit_transacted [OF catalog [OF catalog_wal_rows]]]
    follows_retry_db [of "transaction (unit_body (insert_wal_rows_batch ts))" w p,
      OF unit_transacted [OF catalog [OF catalog_wal_batch]]]
  by simp_all

lemma follows_same: "wr_archive w' = wr_archive w'' \<Longrightarrow> follows w w'' \<Longrightarrow> follows w w'"
  by (simp add: follows_def)

lemma follows_health: "health_dropped w = (r, w') \<Longrightarrow> wr_archive w' = wr_archive w"
  by (auto simp: health_dropped_def Let_def split: if_splits)

lemma follows_commit_sources: "commit_sources ticks any w = (r, w') \<Longrightarrow> follows w w'"
proof (induction ticks arbitrary: any w)
  case Nil
  then show ?case by simp
next
  case (Cons t ticks)
  obtain sid rows where t: "t = (sid, rows)" by force
  obtain x w1 where c: "with_retries is_retryable (on_db (transaction (unit_body (insert_wal_rows sid rows)))) w = (x, w1)"
    by fastforce
  note 1 = follows_wal_rows(1) [OF c]
  show ?case
  proof (cases x)
    case (Inr u)
    with Cons.prems have "commit_sources ticks True w1 = (r, w')" by (simp add: t c)
    then show ?thesis using Cons.IH follows_trans [OF 1] by blast
  next
    case (Inl e)
    obtain y w2 where h: "health_dropped w1 = (y, w2)" by fastforce
    have 2: "follows w w2" by (rule follows_same [OF follows_health [OF h] 1])
    show ?thesis
      using Cons.prems Inl h 1 2 Cons.IH follows_trans
      by (auto simp: t c split: if_splits sum.splits)
  qed
qed

lemma follows_commit_tick: "commit_tick ticks w = (r, w') \<Longrightarrow> follows w w'"
proof -
  let ?w = "w\<lparr>wr_shadowed := count_shadowed (wr_floors w) (ss_watermarks (wr_seal w)) ticks (wr_shadowed w)\<rparr>"
  let ?ts = "admitted (wr_floors w) (ss_watermarks (wr_seal w)) ticks"
  assume run: "commit_tick ticks w = (r, w')"
  obtain x w1 where c: "with_retries is_retryable (on_db (transaction (unit_body (insert_wal_rows_batch ?ts)))) ?w = (x, w1)"
    by fastforce
  have 1: "follows w w1" using follows_wal_rows(2) [OF c] by (simp add: follows_def)
  obtain y w2 where s: "commit_sources ?ts False w1 = (y, w2)" by fastforce
  have 2: "follows w w2" by (rule follows_trans [OF 1 follows_commit_sources [OF s]])
  obtain z w3 where h: "health_dropped w1 = (z, w3)" by fastforce
  have 3: "follows w w3" by (rule follows_same [OF follows_health [OF h] 1])
  show ?thesis
    using run c s h 1 2 3
    by (cases x; cases y)
      (auto simp: commit_tick_def Let_def follows_def health_committed_def split: if_splits)
qed

lemma follows_retry_listed: "retry_listed env sid listed held w = (r, w') \<Longrightarrow> follows w w'"
proof (induction listed arbitrary: held w)
  case Nil
  then show ?case by simp
next
  case (Cons x listed)
  obtain s cap where x: "x = (s, cap)" by force
  obtain y w1 where c: "with_retries failure_retryable (on_seal (seal_batch sid [s] cap (we_encoder env))) w = (y, w1)"
    by fastforce
  note 1 = follows_retry_seal [OF c]
  show ?case
    using Cons.prems Cons.IH follows_trans [OF 1] 1
    by (auto simp: x c split: if_splits sum.splits failure.splits)
qed

lemma follows_deferred: "retry_deferred_seals env sid w = (r, w') \<Longrightarrow> follows w w'"
proof -
  let ?w = "w\<lparr>wr_deferred := (wr_deferred w)(sid := [])\<rparr>"
  assume run: "retry_deferred_seals env sid w = (r, w')"
  obtain y w1 where c: "retry_listed env sid (wr_deferred w sid) [] ?w = (y, w1)" by fastforce
  have "follows w w1" using follows_retry_listed [OF c] by (simp add: follows_def)
  then show ?thesis using run c by (auto simp: retry_deferred_seals_def follows_def split: sum.splits)
qed

lemma follows_evict: "handle_evict env sid c streams floor w = (Running w', r) \<Longrightarrow> follows w w'"
proof -
  assume run: "handle_evict env sid c streams floor w = (Running w', r)"
  obtain y w1 where d: "retry_deferred_seals env sid w = (y, w1)" by fastforce
  note deferred = follows_deferred [OF d]
  show ?thesis
  proof (cases y)
    case (Inl f)
    with run d show ?thesis by (simp add: handle_evict_def)
  next
    case (Inr streams_held)
    let ?held = "filter (\<lambda>s. case streams of None \<Rightarrow> True | Some evict \<Rightarrow> evict s) streams_held"
    let ?streams = "if ?held = [] then streams
      else Some (\<lambda>s. s \<notin> set ?held \<and> (case streams of None \<Rightarrow> True | Some evict \<Rightarrow> evict s))"
    have "fst (handle_evict env sid c streams floor w) = Running (snd (on_db (eviction_call sid c ?streams floor) w1))"
      unfolding handle_evict_def Let_def case_prod_beta d Inr by simp
    then have "w' = snd (on_db (eviction_call sid c ?streams floor) w1)" unfolding run by simp
    with follows_trans [OF deferred follows_on_db [OF evicted_call]] show ?thesis by simp
  qed
qed

lemma follows_drop:
  assumes "drop_on_retryable body w = Running w'" and "\<And>a b. body a = Inr b \<Longrightarrow> R a b"
  shows "follows w w'"
proof -
  obtain x w1 where c: "with_retries is_retryable (on_db (transaction (unit_body body))) w = (x, w1)" by fastforce
  have "follows w w1"
    using follows_retry_db [of "transaction (unit_body body)" w is_retryable, OF unit_transacted [OF assms(2)]] c by simp
  then show ?thesis
    using assms(1) c by (auto simp: drop_on_retryable_def follows_def health_committed_def
        dest: follows_health split: sum.splits if_splits prod.splits)
qed

lemma follows_finalize: "handle_finalize sid off w = Running w' \<Longrightarrow> follows w w'"
proof -
  let ?f = "\<lambda>a. rmap (mark_complete sid) (insert_clock_offset sid (fst off) (snd off) a)"
  assume run: "handle_finalize sid off w = Running w'"
  obtain x w1 where c: "with_retries is_retryable (on_db (transaction (unit_body ?f))) w = (x, w1)" by fastforce
  have "follows w w1"
    using follows_retry_db [of "transaction (unit_body ?f)" w is_retryable, OF unit_transacted [OF finalized]] c by simp
  then show ?thesis using run c by (auto simp: handle_finalize_def follows_def split: sum.splits)
qed

lemma follows_resume: "handle_resume_source env sid anchor w = (Running w', r) \<Longrightarrow> follows w w'"
proof -
  assume run: "handle_resume_source env sid anchor w = (Running w', r)"
  obtain x w1 where c: "on_db (resume_source env sid anchor) w = (x, w1)" by fastforce
  have 1: "follows w w1" using follows_on_db [of "resume_source env sid anchor" w, OF source_resumed] c by simp
  let ?w2 = "set_db w1 (start_heartbeat env sid (ss_db (wr_seal w1)))"
  have "follows w1 (snd (on_db (\<lambda>d. ((), start_heartbeat env sid d)) w1))"
    by (rule follows_on_db) (simp add: heartbeat_started)
  then have 2: "follows w ?w2" using follows_trans [OF 1] by (simp add: on_db_def)
  show ?thesis
  proof (cases x)
    case (Inl e)
    with run c 1 show ?thesis by (simp add: handle_resume_source_def)
  next
    case (Inr s)
    then have "wr_archive w' = wr_archive ?w2"
      using run c by (cases "rs_last_ts s") (auto simp: handle_resume_source_def added_source_def Let_def)
    with 2 show ?thesis by (simp add: follows_def)
  qed
qed

lemma follows_handle: "handle env m w = (Running w', r) \<Longrightarrow> follows w w'"
proof (cases m)
  case (AddSource seed uuid)
  assume run: "handle env m w = (Running w', r)"
  obtain x w1 where c: "on_db (add_source env seed uuid) w = (x, w1)" by fastforce
  have "follows w w1" using follows_on_db [of "add_source env seed uuid" w, OF source_inserted] c by simp
  then show ?thesis using run c AddSource by (cases x) (auto simp: follows_def added_source_def)
next
  case (Wal ticks)
  assume run: "handle env m w = (Running w', r)"
  obtain x w1 where c: "commit_tick ticks w = (x, w1)" by fastforce
  show ?thesis using run c Wal follows_commit_tick [OF c] by (auto simp: run_tick_def split: sum.splits)
next
  case (Seal sid batch n)
  assume run: "handle env m w = (Running w', r)"
  obtain x w1 where c: "with_retries failure_retryable (on_seal (seal_batch sid batch n (we_encoder env))) w = (x, w1)"
    by fastforce
  show ?thesis
    using run c Seal follows_retry_seal [OF c] by (auto simp: handle_seal_def follows_def split: sum.splits if_splits)
next
  case (AdoptSegment sid seg)
  assume "handle env m w = (Running w', r)"
  then show ?thesis
    using AdoptSegment follows_on_seal [of "adopt_segment sid seg" w is_retryable, OF adopted] by (auto split: prod.splits)
next
  case (UpdateMetadata sid p)
  assume "handle env m w = (Running w', r)"
  then show ?thesis using UpdateMetadata follows_retry_db [OF metadata_patched] by auto
next
  case (SetIdentity sid l md)
  assume "handle env m w = (Running w', r)"
  then show ?thesis using SetIdentity follows_retry_db [OF unit_transacted [OF identified]] by auto
next
  case (PutDocument p)
  assume run: "handle env m w = (Running w', r)"
  let ?put = "put_revision (we_is_json env) (we_random env) (we_now env)
      (dp_kind p) (dp_name p) (dp_schema p) (dp_body p) (dp_expected p)"
  obtain x w1 where c: "with_retries is_retryable (on_db (transaction ?put)) w = (x, w1)" by fastforce
  show ?thesis using run c PutDocument follows_retry_db [of "transaction ?put" w is_retryable, OF transacted [OF put]] by simp
next
  case (DeleteDocument k n)
  assume run: "handle env m w = (Running w', r)"
  let ?delete = "delete_document (we_random env) (we_now env) k n"
  obtain x w1 where c: "with_retries is_retryable (on_db ?delete) w = (x, w1)" by fastforce
  have "follows w (snd (with_retries is_retryable (on_db ?delete) w))"
    unfolding delete_document_def tx_delete_document_def by (rule follows_retry_db [OF transacted [OF deleted]])
  then show ?thesis using run c DeleteDocument by simp
next
  case (ClockOffset sid ts off)
  assume "handle env m w = (Running w', r)"
  then show ?thesis using ClockOffset follows_drop [OF _ catalog [OF catalog_clock]] by auto
next
  case (CallerRows sid s rows)
  assume "handle env m w = (Running w', r)"
  then show ?thesis using CallerRows follows_drop [OF _ catalog [OF catalog_caller]] by auto
qed (auto simp: close_loop_def intro: follows_evict follows_finalize follows_resume simp del: handle_resume_source_def)

lemma follows_timer: "follows w (timer_beat w)"
  by (auto simp: timer_beat_def intro!: follows_on_db transacted beaten)

lemma follows_step: "writer_step w w' \<Longrightarrow> follows w w'"
  by (auto elim!: writer_stepE intro: follows_handle follows_timer)

lemma follows_steps: "writer_step\<^sup>*\<^sup>* w w' \<Longrightarrow> R (wr_archive w) (wr_archive w')"
  unfolding follows_def [symmetric]
  by (induction rule: rtranclp_induct) (auto intro: follows_trans follows_step)

end

subsection \<open>The history an archive keeps\<close>

text \<open>The revisions of its documents and its sources' identities: appended to, never changed.\<close>

definition keeps_history :: "archive \<Rightarrow> archive \<Rightarrow> bool" where
  "keeps_history a b \<longleftrightarrow> (docs_ok a \<longrightarrow> docs_ok b) \<and> prefix (doc_rows a) (doc_rows b)
     \<and> prefix (map source_key (ar_sources a)) (map source_key (ar_sources b))"

text \<open>What an archive was created as: its schema version and the tables that go with it.\<close>

definition keeps_schema :: "archive \<Rightarrow> archive \<Rightarrow> bool" where
  "keeps_schema a b \<longleftrightarrow> ar_user_version b = ar_user_version a \<and> ar_layout b = ar_layout a
     \<and> has_documents b = has_documents a"

lemma doc_rows_sources [simp]: "doc_rows (a\<lparr>ar_sources := ss\<rparr>) = doc_rows a"
  by (simp add: doc_rows_def)

lemma docs_ok_sources [simp]: "docs_ok (a\<lparr>ar_sources := ss\<rparr>) = docs_ok a"
  by (simp add: docs_ok_def)

lemma docs_ok_rows: "doc_rows b = doc_rows a \<Longrightarrow> docs_ok b = docs_ok a"
  by (simp add: docs_ok_def)

lemma keeps_history_revision: "insert_revision nr a = Inr (j, b) \<Longrightarrow> keeps_history a b"
proof -
  assume ins: "insert_revision nr a = Inr (j, b)"
  have "ar_sources b = ar_sources a" using arg_cong [OF insert_revision_Inr(5) [OF ins], of ar_sources] by simp
  then show ?thesis
    using insert_revision_Inr(1) [OF ins] docs_ok_insert [OF _ ins] by (auto simp: keeps_history_def)
qed

lemma keeps_schema_revision: "insert_revision nr a = Inr (j, b) \<Longrightarrow> keeps_schema a b"
proof -
  assume ins: "insert_revision nr a = Inr (j, b)"
  define rows where "rows = doc_rows b"
  have b: "b = a\<lparr>ar_documents := Some rows\<rparr>" unfolding rows_def by (rule insert_revision_Inr(5) [OF ins])
  have "has_documents a" by (rule insert_revision_Inr(6) [OF ins])
  then show ?thesis unfolding b keeps_schema_def has_documents_def by simp
qed

lemma keeps_history_trans: "keeps_history a b \<Longrightarrow> keeps_history b c \<Longrightarrow> keeps_history a c"
  unfolding keeps_history_def by (auto intro: prefix_order.trans)

interpretation history: archive_monitor keeps_history
proof
  show "keeps_history a c" if "keeps_history a b" "keeps_history b c" for a b c
    by (rule keeps_history_trans [OF that])
  show "keeps_history a b" if "same_catalog a b" for a b
    using that docs_ok_rows [of b a] by (simp add: same_catalog_def keeps_history_def doc_rows_def)
  show "keeps_history a (a\<lparr>ar_sources := ss\<rparr>)" if "map source_key ss = map source_key (ar_sources a)" for a ss
    using that by (simp add: keeps_history_def)
  show "keeps_history a b" if "insert_source_sql random meta uuid a = Inr (i, b)" for random meta uuid a i b
    using insert_source_Inr [OF that] by (auto simp: keeps_history_def)
qed (rule keeps_history_revision)

interpretation schema: archive_monitor keeps_schema
proof
  show "keeps_schema a b" if "insert_source_sql random meta uuid a = Inr (i, b)" for random meta uuid a i b
    using insert_source_Inr [OF that] by (auto simp: keeps_schema_def has_documents_def)
  show "keeps_schema a c" if "keeps_schema a b" "keeps_schema b c" for a b c
    using that by (simp add: keeps_schema_def)
qed (rule keeps_schema_revision; assumption | simp add: keeps_schema_def same_catalog_def has_documents_def)+

text \<open>C17: Whatever messages a writer serves, under whatever faults and retries, and however
  its timer beats in between, the archive's history only grows: every revision of every
  document it held is held unchanged, in place, new ones follow it, with identifiers that
  stay distinct and ordered and with every superseded revision present; a source keeps its
  row id, its identity and its clock anchor for good; and the schema the archive was
  created with, the tables it has included, is never migrated in place.\<close>

theorem writer_keeps_history:
  assumes "writer_step\<^sup>*\<^sup>* w w'"
  shows "(\<exists>new. doc_rows (wr_archive w') = doc_rows (wr_archive w) @ new)
     \<and> (docs_ok (wr_archive w) \<longrightarrow> docs_ok (wr_archive w'))
     \<and> (\<exists>added. map source_key (ar_sources (wr_archive w')) = map source_key (ar_sources (wr_archive w)) @ added)
     \<and> ar_user_version (wr_archive w') = ar_user_version (wr_archive w)
     \<and> ar_layout (wr_archive w') = ar_layout (wr_archive w)
     \<and> has_documents (wr_archive w') = has_documents (wr_archive w)"
  using history.follows_steps [OF assms] schema.follows_steps [OF assms]
  by (auto simp: keeps_history_def keeps_schema_def prefix_def)

text \<open>A document put beside one already there.\<close>

definition sample_document_writer :: writer_state where
  "sample_document_writer = start_writer \<lparr>db_archive = doc_archive [sample_doc 1 [1]], db_faults = []\<rparr>"

definition sample_document :: document_put where
  "sample_document = \<lparr>dp_kind = str ''note'', dp_name = str ''b'', dp_schema = str ''v1'', dp_body = str ''{}'',
     dp_expected = None\<rparr>"

lemma sample_put_step:
  "\<exists>w. writer_step sample_document_writer w \<and> map doc_name (doc_rows (wr_archive w)) = [str ''a'', str ''b'']"
proof -
  have "(case handle sample_env (PutDocument sample_document) sample_document_writer of
      (Running w, _) \<Rightarrow> map doc_name (doc_rows (wr_archive w)) = [str ''a'', str ''b''] | _ \<Rightarrow> False)" by code_simp
  then obtain w r where "handle sample_env (PutDocument sample_document) sample_document_writer = (Running w, r)"
    "map doc_name (doc_rows (wr_archive w)) = [str ''a'', str ''b'']"
    by (auto split: prod.splits outcome.splits)
  note run = this
  show ?thesis by (rule exI, rule conjI [OF writer_step.message [OF run(1)] run(2)])
qed

lemma writer_keeps_history_witness:
  "\<exists>w. writer_step\<^sup>*\<^sup>* sample_document_writer w
     \<and> map doc_name (doc_rows (wr_archive w)) = [str ''a'', str ''b'']
     \<and> hd (doc_rows (wr_archive w)) = sample_doc 1 [1] \<and> docs_ok (wr_archive w)"
proof -
  obtain w where w: "writer_step\<^sup>*\<^sup>* sample_document_writer w"
    and names: "map doc_name (doc_rows (wr_archive w)) = [str ''a'', str ''b'']"
    using sample_put_step by (metis r_into_rtranclp)
  have start: "wr_archive sample_document_writer = doc_archive [sample_doc 1 [1]]"
    by (simp add: sample_document_writer_def start_writer_def)
  have "doc_rows (doc_archive [sample_doc 1 [1]]) = [sample_doc 1 [1]]"
    by (simp add: doc_rows_def doc_archive_def)
  then obtain added where rows: "doc_rows (wr_archive w) = [sample_doc 1 [1]] @ added"
    using writer_keeps_history [OF w, unfolded start] by metis
  have "docs_ok (wr_archive w)"
    using writer_keeps_history [OF w, unfolded start] docs_ok_sample(2) by metis
  from rows have "hd (doc_rows (wr_archive w)) = sample_doc 1 [1]" by simp
  with w names \<open>docs_ok (wr_archive w)\<close> show ?thesis by metis
qed

end
