(* ===== verification/Stagger.thy ===== *)
theory Stagger
  imports Seal_Policy
begin

section \<open>The stagger hash on six bits (\<open>src/seal.rs\<close>)\<close>

text \<open>
  A bucket is the low six bits of a 64-bit hash, and each step of the hash keeps the
  low six bits to themselves, so the hash reduces to one of six-bit words
  (\<open>bucket6\<close>). Every step is a bijection there. Two streams therefore collide under
  every source key or under none: how well a key spreads a set of streams does not
  depend on the key.
\<close>

definition absorb6 :: "6 word \<Rightarrow> 8 word \<Rightarrow> 6 word" where
  "absorb6 h b = (((h XOR ucast b) * 51) XOR ucast (drop_bit 6 b)) * 51"

definition bucket6 :: "rstring \<Rightarrow> rstring \<Rightarrow> nat" where
  "bucket6 stream key = unat (foldl absorb6 (absorb6 (foldl absorb6 37 stream) 0xff) key)"

lemma cast_times: "(ucast (a * b :: 64 word) :: 6 word) = ucast a * ucast b"
proof transfer
  fix a b :: int
  show "take_bit LENGTH(6) (take_bit LENGTH(64) (a * b)) =
    take_bit LENGTH(6) (take_bit LENGTH(64) a * take_bit LENGTH(64) b)"
    using take_bit_mult [of 6 a b] take_bit_mult [of 6 "take_bit 64 a" "take_bit 64 b"] by simp
qed

lemma cast_xor: "(ucast (a XOR b :: 64 word) :: 6 word) = ucast a XOR ucast b"
  by (rule bit_word_eqI) (simp add: bit_simps)

lemma cast_byte: "(ucast (ucast (b :: 8 word) :: 64 word) :: 6 word) = ucast b"
  by (rule bit_word_eqI) (simp add: bit_simps)

lemma cast_shift: "(ucast (drop_bit 6 (ucast (b :: 8 word) :: 64 word)) :: 6 word) = ucast (drop_bit 6 b)"
  by (rule bit_word_eqI) (auto simp: bit_simps)

lemma cast_absorb: "(ucast (absorb h (ucast b)) :: 6 word) = absorb6 (ucast h) b"
proof -
  have "(ucast fnv_prime :: 6 word) = 51" by (simp add: fnv_prime_def)
  then show ?thesis
    by (simp add: absorb_def absorb6_def cast_times cast_xor cast_byte cast_shift)
qed

lemma cast_absorb_bytes: "(ucast (absorb_bytes h bs) :: 6 word) = foldl absorb6 (ucast h) bs"
  unfolding absorb_bytes_def by (induction bs arbitrary: h) (simp_all add: cast_absorb)

lemma bucket6: "unat (stagger_bucket s k) = bucket6 s k"
proof -
  have m: "unat (w mod 64) = unat (ucast w :: 6 word)" for w :: "64 word"
    by (simp add: unat_mod take_bit_eq_mod unsigned_ucast_eq)
  have x: "absorb h 0xff = absorb h (ucast (0xff :: 8 word))" for h by simp
  have y: "(ucast fnv_basis :: 6 word) = 37" by (simp add: fnv_basis_def)
  show ?thesis
    unfolding stagger_bucket_def stagger_buckets_def bucket6_def
    by (simp only: of_nat_numeral m cast_absorb_bytes x cast_absorb y)
qed

lemma same_bucket: "stagger_bucket s a = stagger_bucket s b \<longleftrightarrow> bucket6 s a = bucket6 s b"
  unfolding bucket6 [symmetric] by (simp add: word_unat_eq_iff)

subsection \<open>Streams collide for every key or for none\<close>

lemma absorb6_inject: "absorb6 g b = absorb6 h b \<longleftrightarrow> g = h"
proof -
  have unit: "51 * 59 = (1 :: 6 word)" by simp
  have inv: "x * 51 * 59 = x" for x :: "6 word" by (simp only: mult.assoc unit mult_1_right)
  have "x * 51 = y * 51 \<longleftrightarrow> x = y" for x y :: "6 word" by (metis inv)
  moreover have "x XOR c = y XOR c \<longleftrightarrow> x = y" for x y c :: "6 word"
    by (metis xor.assoc xor_self_eq xor.right_neutral)
  ultimately show ?thesis by (simp add: absorb6_def)
qed

lemma fold6_inject: "foldl absorb6 g bs = foldl absorb6 h bs \<longleftrightarrow> g = h"
  by (induction bs arbitrary: g h) (simp_all add: absorb6_inject)

lemma bucket6_streams: "bucket6 s k = bucket6 t k \<longleftrightarrow> foldl absorb6 37 s = foldl absorb6 37 t"
  by (simp add: bucket6_def word_unat_eq_iff [symmetric] fold6_inject absorb6_inject)

lemma streams_collide:
  "stagger_bucket s k = stagger_bucket t k \<longleftrightarrow> foldl absorb6 37 s = foldl absorb6 37 t"
  using bucket6_streams [of s k t] unfolding bucket6 [symmetric] by (simp add: word_unat_eq_iff)

text \<open>
  C40: two streams draw the same bucket under every source key or under none, so
  the spread of a stream set is the same number for every key.
\<close>

theorem streams_collide_for_every_key_or_none:
  "stagger_bucket s k = stagger_bucket t k \<longleftrightarrow> stagger_bucket s k' = stagger_bucket t k'"
  by (simp add: streams_collide)

end
