(* ===== verification/Seal_Tests.thy ===== *)
theory Seal_Tests
  imports Stagger
begin

section \<open>The tests of \<open>src/seal.rs\<close>\<close>

text \<open>
  The file's own unit tests on the model: one definition per test, its assertions as
  a conjunction in the order the test makes them, and a lemma that it passes. The
  literals the tests pin (the buckets 32 and 19 of two stream names) tie the hash of
  the model to the code's. \<open>Instant::now()\<close> is one frozen instant, and the ratio
  \<open>clumping\<close> is compared with its denominators multiplied out.
\<close>

subsection \<open>Alignment\<close>

definition usize_limit :: nat where "usize_limit = 2 ^ 64 - 1"

definition test_policy :: "nat \<Rightarrow> i64 option \<Rightarrow> seal_policy" where
  "test_policy rows align =
     \<lparr>pol_max_bytes = usize_limit, pol_max_rows = rows, pol_max_age = 3600 * 10 ^ 9, pol_align = align\<rparr>"

definition alignment_cuts_on_the_bucket_a_row_belongs_to :: "nat \<Rightarrow> bool" where
  "alignment_cuts_on_the_bucket_a_row_belongs_to now \<longleftrightarrow>
    (let policy = test_policy usize_limit (Some 100);
         a0 = open_first (str ''s'') single_source_key policy now;
         a1 = add_row a0 1 250;
         a2 = add_row a1 1 299;
         a3 = add_row (rotate_account a2 policy now) 1 300;
         b = add_row (add_row (open_first (str ''s'') single_source_key policy now) 1 299) 1 300
     in \<not> starts_new_bucket a0 250 \<and> \<not> starts_new_bucket a1 299 \<and> \<not> is_due a2 now
        \<and> starts_new_bucket a2 300 \<and> \<not> is_due a3 now \<and> is_due b now)"

definition alignment_buckets_negative_timestamps_correctly :: "nat \<Rightarrow> bool" where
  "alignment_buckets_negative_timestamps_correctly now \<longleftrightarrow>
    (let a = add_row (open_first (str ''s'') single_source_key (test_policy usize_limit (Some 100)) now) 1 (-1)
     in starts_new_bucket a 1 \<and> \<not> starts_new_bucket a (-100))"

fun add_checked :: "i64 list \<Rightarrow> segment_account \<Rightarrow> bool \<times> segment_account" where
  "add_checked [] a = (True, a)"
| "add_checked (ts # tss) a =
    (let (ok, a') = add_checked tss (add_row a 1 ts) in (\<not> starts_new_bucket a ts \<and> ok, a'))"

definition without_alignment_timestamps_do_not_affect_sealing :: "nat \<Rightarrow> bool" where
  "without_alignment_timestamps_do_not_affect_sealing now \<longleftrightarrow>
    (let (ok, a) = add_checked [0, 1000000, -5, 7] (open_first (str ''s'') single_source_key (test_policy 4 None) now)
     in ok \<and> is_due a now)"

lemma bucket_s: "unat (stagger_bucket (str ''s'') single_source_key) = 3"
  unfolding bucket6 by code_simp

lemma open_s:
  "open_first (str ''s'') single_source_key (test_policy rows align) now =
    \<lparr>acc_align = align, acc_first_bucket = None, acc_last_bucket = None, acc_rows = 0, acc_approx_bytes = 0,
     acc_opened_at = now, acc_max_bytes = 18014398509481984002, acc_max_rows = max (rows - rows div 128 * 3) 1,
     acc_max_age = 3515625000000\<rparr>"
  unfolding open_first_def bucket_s test_policy_def usize_limit_def stagger_buckets_def Let_def by simp

lemma test_policy_fields:
  "pol_max_bytes (test_policy rows align) = 18446744073709551615" "pol_max_rows (test_policy rows align) = rows"
  "pol_max_age (test_policy rows align) = 3600000000000" "pol_align (test_policy rows align) = align"
  by (simp_all add: test_policy_def usize_limit_def)

lemmas account_steps = open_s add_row_def is_due_def starts_new_bucket_def bucket_of_def

lemma alignment_cuts_on_the_bucket_a_row_belongs_to: "alignment_cuts_on_the_bucket_a_row_belongs_to now"
  unfolding alignment_cuts_on_the_bucket_a_row_belongs_to_def
  by (simp add: account_steps rotate_account_def test_policy_fields usize_limit_def)

lemma alignment_buckets_negative_timestamps_correctly: "alignment_buckets_negative_timestamps_correctly now"
  unfolding alignment_buckets_negative_timestamps_correctly_def by (simp add: account_steps)

lemma without_alignment_timestamps_do_not_affect_sealing: "without_alignment_timestamps_do_not_affect_sealing now"
  unfolding without_alignment_timestamps_do_not_affect_sealing_def by (simp add: account_steps)

subsection \<open>The stagger\<close>

definition test_streams :: "rstring list" where
  "test_streams = map str
     [''cpu_usage'', ''cpu_perf'', ''cpu_bandwidth'', ''cpu_migrations'', ''cpu_tlb_flush'', ''cpu_frequency'',
      ''scheduler'', ''blockio_latency'', ''blockio_requests'', ''network_interfaces'', ''network_traffic'',
      ''syscall_counts'', ''syscall_latency'', ''tcp_connect_latency'', ''tcp_packet_latency'', ''tcp_receive'',
      ''tcp_retransmit'', ''tcp_traffic'', ''memory'', ''page_cache'', ''gpu_nvidia'', ''softirq'', ''weather'',
      ''cgroup_cpu'', ''cgroup_memory'', ''filesystem'']"

definition stagger_cases :: "(string \<times> string) list" where
  "stagger_cases =
     [(''arm=valkey'', ''arm=VALKEY''), (''arm=Ab'', ''arm=aB''), (''host=Web-01'', ''host=weB-01''),
      (''arm=redis'', ''arm=REDIS''), (''arm=ab'', ''arm=aB''), (''host=web-01'', ''host=webm01''),
      (''host=web-01'', ''host=web-02''), (''arm=a'', ''arm=ab''), (''arm=a'', ''arm=a'')]"

definition staggers_identically_agrees_with_the_hash :: bool where
  "staggers_identically_agrees_with_the_hash \<longleftrightarrow>
     list_all (\<lambda>(a, b). staggers_identically (str a) (str b)
         = list_all (\<lambda>s. stagger_bucket s (str a) = stagger_bucket s (str b)) test_streams) stagger_cases"

lemma staggers_identically_agrees_with_the_hash: "staggers_identically_agrees_with_the_hash"
  unfolding staggers_identically_agrees_with_the_hash_def same_bucket by code_simp

definition stagger_is_deterministic :: bool where
  "stagger_is_deterministic \<longleftrightarrow>
     stagger_bucket (str ''cpu_usage'') single_source_key = 32
   \<and> stagger_bucket (str ''scheduler'') single_source_key = 19
   \<and> unat (stagger_bucket (str ''anything_at_all'') single_source_key) < stagger_buckets"

lemma stagger_is_deterministic: "stagger_is_deterministic"
  unfolding stagger_is_deterministic_def
proof (intro conjI)
  show "stagger_bucket (str ''cpu_usage'') single_source_key = 32" by code_simp
  show "stagger_bucket (str ''scheduler'') single_source_key = 19" by code_simp
  show "unat (stagger_bucket (str ''anything_at_all'') single_source_key) < stagger_buckets"
    using stagger_bucket_lt by (simp add: stagger_buckets_def)
qed

definition label_key :: "(string \<times> string) list \<Rightarrow> rstring" where
  "label_key kvs = source_stagger_key (bt_extend [] (map (\<lambda>(k, v). (str k, str v)) kvs))"

definition hosts_that_alias_in_the_low_bits_still_desync :: bool where
  "hosts_that_alias_in_the_low_bits_still_desync \<longleftrightarrow>
    (let key = (\<lambda>host. label_key [(''host'', host), (''source'', ''weather'')]);
         streams = map str [''cpu_usage'', ''scheduler'', ''blockio_latency'', ''tcp_traffic'',
           ''syscall_latency'', ''cpu_bandwidth'']
     in list_all (\<lambda>(a, b). let ka = key a; kb = key b
          in length (filter (\<lambda>s. stagger_bucket s ka = stagger_bucket s kb) streams) = 0)
        [(''web-01'', ''webm01''), (''node1'', ''nodeq''), (''web.01'', ''webn01'')])"

lemma hosts_that_alias_in_the_low_bits_still_desync: "hosts_that_alias_in_the_low_bits_still_desync"
  unfolding hosts_that_alias_in_the_low_bits_still_desync_def same_bucket by code_simp

definition two_sources_do_not_share_a_streams_bucket :: bool where
  "two_sources_do_not_share_a_streams_bucket \<longleftrightarrow>
    (let a = label_key [(''host'', ''alpha'')];
         b = label_key [(''host'', ''beta'')];
         shared = map str [''cpu_usage'', ''scheduler'', ''blockio_latency'', ''tcp_traffic'']
     in length (filter (\<lambda>s. stagger_bucket s a = stagger_bucket s b) shared) = 0)"

lemma two_sources_do_not_share_a_streams_bucket: "two_sources_do_not_share_a_streams_bucket"
  unfolding two_sources_do_not_share_a_streams_bucket_def same_bucket by code_simp

definition same_host_different_arms_still_desync :: bool where
  "same_host_different_arms_still_desync \<longleftrightarrow>
    (let base = (\<lambda>arm. label_key [(''host'', ''alpha''), (''arm'', arm)]);
         a = base ''redis''; b = base ''valkey''
     in a \<noteq> b \<and> \<not> stagger_bucket (str ''cpu_usage'') a = stagger_bucket (str ''cpu_usage'') b)"

lemma same_host_different_arms_still_desync: "same_host_different_arms_still_desync"
  unfolding same_host_different_arms_still_desync_def same_bucket by code_simp

definition the_two_arms_of_an_ab_land_in_different_buckets :: bool where
  "the_two_arms_of_an_ab_land_in_different_buckets \<longleftrightarrow>
    (let key = (\<lambda>arm. label_key [(''host'', ''alpha''), (''arm'', arm)])
     in \<not> stagger_bucket (str ''cpu_usage'') (key ''redis'') = stagger_bucket (str ''cpu_usage'') (key ''valkey''))"

lemma the_two_arms_of_an_ab_land_in_different_buckets: "the_two_arms_of_an_ab_land_in_different_buckets"
  unfolding the_two_arms_of_an_ab_land_in_different_buckets_def same_bucket by code_simp

subsection \<open>How the stagger spreads\<close>

definition colliding_pairs :: "rstring \<Rightarrow> rstring list \<Rightarrow> nat" where
  "colliding_pairs key streams =
    (let drawn = map (\<lambda>s. unat (stagger_bucket s key)) streams
     in \<Sum>b\<leftarrow>[0..<stagger_buckets]. let c = length (filter (\<lambda>d. d = b) drawn) in c * (c - 1) div 2)"

definition web_key :: "nat \<Rightarrow> rstring" where
  "web_key i = str ''host=web-'' @ map (\<lambda>d. of_nat (48 + d)) [i div 100, i div 10 mod 10, i mod 10]
     @ [1] @ str ''source=weather''"

definition the_stagger_spreads_a_real_stream_set_better_than_random :: bool where
  "the_stagger_spreads_a_real_stream_set_better_than_random \<longleftrightarrow>
     list_all (\<lambda>i. colliding_pairs (web_key i) (take 12 test_streams) = 0
       \<and> colliding_pairs (web_key i) (take 26 test_streams) * (2 * stagger_buckets) < 26 * 25) [0..<200]"

definition bucket_after :: "rstring \<Rightarrow> 6 word \<Rightarrow> nat" where
  "bucket_after key x = unat (foldl absorb6 (absorb6 x 0xff) key)"

lemma bucket_after: "unat (stagger_bucket s key) = bucket_after key (foldl absorb6 37 s)"
  by (simp add: bucket6 bucket6_def bucket_after_def)

lemma bucket_after_inject: "bucket_after key x = bucket_after key y \<longleftrightarrow> x = y"
  by (simp add: bucket_after_def word_unat_eq_iff [symmetric] fold6_inject absorb6_inject)

lemma bucket_after_bij: "bij_betw (bucket_after key) UNIV {0..<64}"
proof -
  have inj: "inj (bucket_after key)" by (simp add: inj_def bucket_after_inject)
  have "range (bucket_after key) \<subseteq> {0..<64}"
  proof
    fix b assume "b \<in> range (bucket_after key)"
    then obtain x where "b = unat (foldl absorb6 (absorb6 x 0xff) key)" by (auto simp: bucket_after_def)
    then show "b \<in> {0..<64}" using unsigned_less [of "foldl absorb6 (absorb6 x 0xff) key"] by simp
  qed
  moreover have "card (range (bucket_after key)) = card {0..<64::nat}"
    by (simp add: card_image inj card_word)
  ultimately have "range (bucket_after key) = {0..<64}" by (intro card_subset_eq) simp_all
  with inj show ?thesis by (simp add: bij_betw_def)
qed

text \<open>The number of colliding pairs does not depend on the key.\<close>

lemma colliding_pairs_states:
  "colliding_pairs key streams =
     (\<Sum>x\<in>UNIV. let c = length (filter (\<lambda>s. foldl absorb6 37 s = x) streams) in c * (c - 1) div 2)"
proof -
  have "colliding_pairs key streams = (\<Sum>b\<in>{0..<64}.
      let c = length (filter (\<lambda>s. bucket_after key (foldl absorb6 37 s) = b) streams) in c * (c - 1) div 2)"
    by (simp add: colliding_pairs_def stagger_buckets_def filter_map o_def bucket_after
        sum_set_upt_conv_sum_list_nat [symmetric])
  also have "\<dots> = (\<Sum>x\<in>UNIV.
      let c = length (filter (\<lambda>s. bucket_after key (foldl absorb6 37 s) = bucket_after key x) streams) in c * (c - 1) div 2)"
    by (rule sum.reindex_bij_betw [OF bucket_after_bij, symmetric])
  finally show ?thesis by (simp add: bucket_after_inject)
qed

lemma colliding_pairs_any_key: "colliding_pairs key streams = colliding_pairs [] streams"
  by (simp add: colliding_pairs_states)

lemma pairs_of_test_streams:
  "colliding_pairs [] (take 12 test_streams) = 0" "colliding_pairs [] (take 26 test_streams) = 3"
  unfolding colliding_pairs_def bucket6 by code_simp+

lemma the_stagger_spreads_a_real_stream_set_better_than_random:
  "the_stagger_spreads_a_real_stream_set_better_than_random"
  unfolding the_stagger_spreads_a_real_stream_set_better_than_random_def
  by (subst (1 2) colliding_pairs_any_key) (simp add: pairs_of_test_streams stagger_buckets_def list_all_iff)

subsection \<open>The byte cap\<close>

definition byte_policy :: seal_policy where
  "byte_policy = \<lparr>pol_max_bytes = 8 * 1024 * 1024, pol_max_rows = 900, pol_max_age = 300 * 10 ^ 9, pol_align = None\<rparr>"

definition fed :: "segment_account \<Rightarrow> nat \<Rightarrow> segment_account" where
  "fed acc rows = ((\<lambda>x. add_row x (64 * 1024) 0) ^^ rows) acc"

definition the_byte_cap_is_staggered_across_sources :: "nat \<Rightarrow> bool" where
  "the_byte_cap_is_staggered_across_sources now \<longleftrightarrow>
    (let opened = (\<lambda>host. open_first (str ''cpu_usage'') (label_key [(''host'', host)]) byte_policy now);
         a = opened ''alpha''; b = opened ''beta'';
         agree = (\<lambda>row. is_due (fed a row) now = is_due (fed b row) now);
         rows = [1..<Suc (pol_max_rows byte_policy)]
     in list_all (\<lambda>row. row < pol_max_rows byte_policy) (takeWhile agree rows)
        \<and> find (\<lambda>row. \<not> agree row) rows \<noteq> None
        \<and> list_all (\<lambda>host. byte_target (opened host) > pol_max_bytes byte_policy div 2 - 1
              \<and> byte_target (opened host) \<le> pol_max_bytes byte_policy) [''alpha'', ''beta'', ''gamma''])"

lemma fed_fields:
  assumes "acc_align a = None"
  shows "acc_rows (fed a r) = acc_rows a + r" "acc_approx_bytes (fed a r) = acc_approx_bytes a + 65536 * r"
    "acc_align (fed a r) = None" "acc_max_bytes (fed a r) = acc_max_bytes a" "acc_max_rows (fed a r) = acc_max_rows a"
    "acc_max_age (fed a r) = acc_max_age a" "acc_opened_at (fed a r) = acc_opened_at a"
    "acc_first_bucket (fed a r) = acc_first_bucket a" "acc_last_bucket (fed a r) = acc_last_bucket a"
  using assms by (induction r) (simp_all add: fed_def add_row_def bucket_of_def)

lemma cpu_usage_buckets:
  "unat (stagger_bucket (str ''cpu_usage'') (label_key [(''host'', ''alpha'')])) = 46"
  "unat (stagger_bucket (str ''cpu_usage'') (label_key [(''host'', ''beta'')])) = 39"
  "unat (stagger_bucket (str ''cpu_usage'') (label_key [(''host'', ''gamma'')])) = 13"
  unfolding bucket6 by code_simp+

lemma opened_at:
  assumes "unat (stagger_bucket s k) = n"
  shows "open_first s k byte_policy now =
    \<lparr>acc_align = None, acc_first_bucket = None, acc_last_bucket = None, acc_rows = 0, acc_approx_bytes = 0,
     acc_opened_at = now, acc_max_bytes = max (8388608 - 65536 * n) 1, acc_max_rows = max (900 - 7 * n) 1,
     acc_max_age = 300000000000 - 2343750000 * n\<rparr>"
  using assms by (simp add: open_first_def byte_policy_def stagger_buckets_def)

lemma the_byte_cap_is_staggered_across_sources: "the_byte_cap_is_staggered_across_sources now"
proof -
  let ?o = "\<lambda>host. open_first (str ''cpu_usage'') (label_key [(''host'', host)]) byte_policy now"
  let ?agree = "\<lambda>row. is_due (fed (?o ''alpha'') row) now = is_due (fed (?o ''beta'') row) now"
  note at = opened_at [OF cpu_usage_buckets(1)] opened_at [OF cpu_usage_buckets(2)] opened_at [OF cpu_usage_buckets(3)]
  have rows: "[1..<Suc (pol_max_rows byte_policy)] = [1..<82] @ 82 # [83..<901]"
    using upt_add_eq_append [of 1 82 819] upt_conv_Cons [of 82 901] by (simp add: byte_policy_def)
  have split: "\<not> ?agree 82"
    by (simp add: is_due_def fed_fields at)
  have "takeWhile ?agree [1..<Suc (pol_max_rows byte_policy)] = takeWhile ?agree [1..<82]"
    unfolding rows by (rule takeWhile_tail) (rule split)
  then have "list_all (\<lambda>row. row < pol_max_rows byte_policy) (takeWhile ?agree [1..<Suc (pol_max_rows byte_policy)])"
    by (auto simp: list_all_iff byte_policy_def dest!: set_takeWhileD)
  moreover have "find (\<lambda>row. \<not> ?agree row) [1..<Suc (pol_max_rows byte_policy)] \<noteq> None"
    unfolding find_None_iff rows using split by auto
  moreover have "list_all (\<lambda>host. byte_target (?o host) > pol_max_bytes byte_policy div 2 - 1
      \<and> byte_target (?o host) \<le> pol_max_bytes byte_policy) [''alpha'', ''beta'', ''gamma'']"
    by (simp add: at byte_target_def) (simp add: byte_policy_def)
  ultimately show ?thesis
    unfolding the_byte_cap_is_staggered_across_sources_def Let_def by blast
qed

end
