(* ===== verification/Wire_Tests.thy ===== *)
theory Wire_Tests
  imports Wire_Frames "HOL-Library.Sublist"
begin

section \<open>The tests of \<open>src/replicate/wire.rs\<close>\<close>

text \<open>
  The file's own unit tests on the model: one definition per test, in the order of the
  source, and a lemma that it passes. A reader over a \<open>Cursor\<close> is one over bytes that
  end without a fault. Error texts are the fixed words the model keeps, so the version
  number the last test looks for is not in them.
\<close>

definition test_map :: "(string \<times> string) list \<Rightarrow> label_map" where
  "test_map pairs = bt_extend [] (map (\<lambda>(k, v). (str k, str v)) pairs)"

definition payload_of :: "frame \<Rightarrow> bytes result" where
  "payload_of f = rmap (drop length_prefix_bytes) (encode f)"

definition decodes_back :: "frame \<Rightarrow> bool" where
  "decodes_back f \<longleftrightarrow> (case payload_of f of Inl _ \<Rightarrow> False | Inr p \<Rightarrow> decode_payload p = Inr f)"

definition cursor_over :: "bytes \<Rightarrow> byte_source" where
  "cursor_over bs = \<lparr>io_bytes = bs, io_fault = None\<rparr>"

definition test_frames :: "frame list" where
  "test_frames =
     [Handshake 0 (Some (str ''3f2b1c4d-0000-4000-8000-000000000001''))
        (test_map [(''host'', ''web-01''), (''arm'', ''a'')]) (test_map [(''encoder'', ''v3'')]) (- 1000) True,
      Index 1 (str ''cpu'') 42 Full (7, 9) [1, 2, 3, 4],
      Index 1 (str ''cpu'') 43 Delta (11, 13) [],
      Rows 2 99 (7, 9)
        [\<lparr>row_stream = str ''cpu'', row_ts = 1, row_wall_offset = - 5, row_payload = [0xDE, 0xAD]\<rparr>,
         \<lparr>row_stream = str ''mem'', row_ts = 2, row_wall_offset = 5, row_payload = []\<rparr>],
      Segment 3 (str ''cpu'') \<lparr>meta_rows = 10, meta_first_ts = - 9, meta_last_ts = 9\<rparr>
        (str ''PAR1payloadPAR1'') (Some [9, 9]),
      ClockOffset 4 i64_min i64_max,
      SourceUpdate 5 1700000000000000000 (test_map [(''host'', ''a''), (''source'', ''x'')])
        (test_map [(''metriken.layer.user'', ''{}'')]),
      SourceUpdate 6 (- 1) [] []]"

definition every_frame_round_trips :: bool where
  "every_frame_round_trips \<longleftrightarrow>
     list_all (\<lambda>frame. case encode frame of Inl _ \<Rightarrow> False | Inr bs \<Rightarrow>
         from_le (take length_prefix_bytes bs) = length bs - length_prefix_bytes
         \<and> decode_payload (drop length_prefix_bytes bs) = Inr frame) test_frames"

definition absent_and_empty :: "(frame \<times> frame) list" where
  "absent_and_empty =
    (let meta = \<lparr>meta_rows = 1, meta_first_ts = 0, meta_last_ts = 0\<rparr>
     in [(Segment 0 (str ''s'') meta [1] None, Segment 0 (str ''s'') meta [1] (Some [])),
         (Handshake 0 None [] [] 0 False, Handshake 0 (Some []) [] [] 0 False)])"

definition absent_is_not_empty :: bool where
  "absent_is_not_empty \<longleftrightarrow>
     list_all (\<lambda>(absent, empty). encode absent \<noteq> encode empty \<and> decodes_back absent \<and> decodes_back empty)
       absent_and_empty"

definition the_keepalive_round_trips :: bool where
  "the_keepalive_round_trips \<longleftrightarrow> decodes_back (Rows 0 0 no_index_state [])"

definition a_truncated_frame_is_an_error_not_a_panic :: bool where
  "a_truncated_frame_is_an_error_not_a_panic \<longleftrightarrow>
    (case payload_of (Rows 1 2 (3, 4)
        [\<lparr>row_stream = str ''cpu'', row_ts = 5, row_wall_offset = 6, row_payload = [7, 8, 9]\<rparr>]) of
       Inl _ \<Rightarrow> False
     | Inr payload \<Rightarrow> list_all (\<lambda>cut. \<not> is_ok (decode_payload (take cut payload))) [0..<length payload])"

definition trailing_bytes_are_refused :: bool where
  "trailing_bytes_are_refused \<longleftrightarrow>
    (case payload_of (ClockOffset 0 1 2) of Inl _ \<Rightarrow> False | Inr payload \<Rightarrow> \<not> is_ok (decode_payload (payload @ [0])))"

definition an_unknown_kind_is_refused :: bool where
  "an_unknown_kind_is_refused \<longleftrightarrow> \<not> is_ok (decode_payload [200, 0, 0, 0, 0])"

definition says :: "string \<Rightarrow> 'a result \<Rightarrow> bool" where
  "says words r \<longleftrightarrow> (case r of Inl (Message m) \<Rightarrow> sublist words m | _ \<Rightarrow> False)"

definition an_oversized_length_is_refused_before_allocating :: bool where
  "an_oversized_length_is_refused_before_allocating \<longleftrightarrow>
    (case new_reader (cursor_over (write_preamble [] @ le_bytes 4 (2 ^ 32 - 1))) of
       Inl _ \<Rightarrow> False
     | Inr reader \<Rightarrow> says ''limit'' (fst (next_frame reader)) \<and> fr_buf (snd (next_frame reader)) = [])"

definition stream_frames :: "frame list" where
  "stream_frames = [Handshake 0 None (test_map [(''host'', ''a'')]) [] 1 False, Rows 0 0 no_index_state [], ClockOffset 0 2 3]"

fun reads_each :: "frame list \<Rightarrow> frame_reader \<Rightarrow> bool" where
  "reads_each [] r \<longleftrightarrow> fst (next_frame r) = Inr None"
| "reads_each (want # rest) r \<longleftrightarrow> fst (next_frame r) = Inr (Some want) \<and> reads_each rest (snd (next_frame r))"

definition a_stream_reads_back_in_order :: bool where
  "a_stream_reads_back_in_order \<longleftrightarrow>
    (case put_all (map encode_frame stream_frames) (write_preamble []) of
       (Inl _, _) \<Rightarrow> False
     | (Inr _, bs) \<Rightarrow> (case new_reader (cursor_over bs) of Inl _ \<Rightarrow> False | Inr reader \<Rightarrow> reads_each stream_frames reader))"

definition a_stream_cut_mid_frame_is_an_error :: bool where
  "a_stream_cut_mid_frame_is_an_error \<longleftrightarrow>
    (case encode_frame (ClockOffset 0 1 2) (write_preamble []) of
       (Inl _, _) \<Rightarrow> False
     | (Inr _, bs) \<Rightarrow>
         (case new_reader (cursor_over (take (length bs - 3) bs)) of
            Inl _ \<Rightarrow> False
          | Inr reader \<Rightarrow> \<not> is_ok (fst (next_frame reader))))"

definition a_wrong_preamble_says_so :: bool where
  "a_wrong_preamble_says_so \<longleftrightarrow>
     says ''not a dendro replication stream'' (new_reader (cursor_over (str ''not a stream'')))
   \<and> says ''protocol version'' (new_reader (cursor_over (magic @ le_bytes 2 99)))"

subsection \<open>They pass\<close>

lemma encoded_frame:
  assumes "frame_ok f" and "encode f = Inr bs"
  obtains p where "bs = le_bytes 4 (length p) @ p" "length p \<le> max_frame_bytes" "decodes p f"
proof -
  obtain p where p: "emits (put_payload f) = Some p" "length p \<le> max_frame_bytes" "bs = le_bytes 4 (length p) @ p"
    using assms(2) encode_Inr by auto
  have "decodes p f" using payload_decodes [OF assms(1) p(1)] max_frame_usize [OF p(2)] by blast
  with p(2,3) show thesis using that by blast
qed

lemma decode_payload_fails: "\<not> is_ok (decode_known q) \<Longrightarrow> \<not> is_ok (decode_payload q)"
  by (cases "decode_known q") (simp_all add: decode_payload_def)

lemma payload_of_frame:
  assumes "frame_ok f" "is_ok (encode f)"
  obtains p where "payload_of f = Inr p" "decodes p f" "decode_payload p = Inr f" "length p \<le> max_frame_bytes"
    "encode f = Inr (le_bytes 4 (length p) @ p)"
proof -
  obtain bs where "encode f = Inr bs" using assms(2) by (cases "encode f") auto
  moreover obtain p where "bs = le_bytes 4 (length p) @ p" "length p \<le> max_frame_bytes" "decodes p f"
    using encoded_frame [OF assms(1) calculation] by blast
  ultimately show thesis
    using that by (auto simp: payload_of_def length_prefix_bytes_def decodes_def decode_payload_def)
qed

lemmas encode_steps = emits_then_eq field_appends put_u8_def put_u32_def put_u64_def put_i64_def put_str_def
  put_bytes_def put_length_def put_map_def put_entry_def put_row_def put_opt_bytes_def put_bool_def put_index_kind_def str_def

lemma is_ok_encode_iff:
  "is_ok (encode f) \<longleftrightarrow> (case emits (put_payload f) of None \<Rightarrow> False | Some p \<Rightarrow> length p \<le> max_frame_bytes)"
proof -
  have "is_ok (encode f) \<longleftrightarrow> (\<exists>bs. encode f = Inr bs)" by (cases "encode f") auto
  then show ?thesis by (auto simp: encode_Inr split: option.split)
qed

lemmas encodes_def = is_ok_encode_iff encode_steps max_frame_bytes_def
lemma test_words:
  "list_all (\<lambda>s. utf8_ok (str s)) [''3f2b1c4d-0000-4000-8000-000000000001'', ''host'', ''web-01'', ''arm'', ''a'',
     ''encoder'', ''v3'', ''cpu'', ''mem'', ''s'', ''source'', ''x'', ''metriken.layer.user'', ''{}'']"
  unfolding list.pred_inject(2) by (intro conjI list.pred_inject(1); rule utf8_str, code_simp)

lemma test_order:
  "str ''arm'' < str ''host''" "\<not> str ''source'' < str ''host''" "\<not> str ''source'' = str ''host''"
  "str ''host'' < str ''source''"
  by code_simp+

lemmas well_formed_def = row_ok_def map_ok_def meta_ok_def i64_ok_def i64_min_def i64_max_def bt_ok_def test_order

lemma test_maps:
  "test_map [(''host'', ''web-01''), (''arm'', ''a'')] = [(str ''arm'', str ''a''), (str ''host'', str ''web-01'')]"
  "test_map [(''host'', ''a''), (''source'', ''x'')] = [(str ''host'', str ''a''), (str ''source'', str ''x'')]"
  "test_map [(k, v)] = [(str k, str v)]"
  by (simp_all add: test_map_def test_order)

lemma test_frames_ok: "list_all frame_ok test_frames"
  using test_words
  by (simp add: test_frames_def test_maps well_formed_def)

lemma test_frames_encode: "list_all (\<lambda>f. is_ok (encode f)) test_frames"
  by (simp add: test_frames_def test_maps encodes_def del: put_all_two)

lemma encodes_some: "is_ok (encode f) \<Longrightarrow> encode f = Inr (projr (encode f))"
  by (cases "encode f") simp_all

lemma decodes_back: "frame_ok f \<Longrightarrow> is_ok (encode f) \<Longrightarrow> decodes_back f"
  by (rule payload_of_frame [of f]) (simp_all add: decodes_back_def)

lemma every_frame_round_trips: "every_frame_round_trips"
proof -
  have "case encode f of Inl _ \<Rightarrow> False | Inr bs \<Rightarrow>
      from_le (take length_prefix_bytes bs) = length bs - length_prefix_bytes
      \<and> decode_payload (drop length_prefix_bytes bs) = Inr f" if "frame_ok f" "is_ok (encode f)" for f
    by (rule payload_of_frame [OF that])
      (simp add: length_prefix_bytes_def from_le_le_bytes max_frame_bytes_def)
  then show ?thesis
    using test_frames_ok test_frames_encode by (simp add: every_frame_round_trips_def list_all_iff)
qed

lemma absent_and_empty_ok:
  "list_all (\<lambda>(a, b). frame_ok a \<and> is_ok (encode a) \<and> frame_ok b \<and> is_ok (encode b) \<and> a \<noteq> b) absent_and_empty"
  using test_words by (simp add: absent_and_empty_def Let_def well_formed_def encodes_def del: put_all_two)

lemma absent_is_not_empty: "absent_is_not_empty"
proof -
  have "encode a \<noteq> encode b" if "frame_ok a" "is_ok (encode a)" "frame_ok b" "is_ok (encode b)" "a \<noteq> b" for a b
    using decodes_back [OF that(1,2)] decodes_back [OF that(3,4)] that(5)
    by (auto simp: decodes_back_def payload_of_def split: sum.splits)
  with absent_and_empty_ok decodes_back show ?thesis
    by (fastforce simp: absent_is_not_empty_def list_all_iff)
qed

lemma the_keepalive_round_trips: "the_keepalive_round_trips"
  unfolding the_keepalive_round_trips_def no_index_state_def
proof (rule decodes_back)
  show "is_ok (encode (Rows 0 0 (0, 0) []))"
    by (simp add: encodes_def del: put_all_two)
qed simp

lemma a_truncated_frame_is_an_error_not_a_panic: "a_truncated_frame_is_an_error_not_a_panic"
proof -
  let ?f = "Rows 1 2 (3, 4) [\<lparr>row_stream = str ''cpu'', row_ts = 5, row_wall_offset = 6, row_payload = [7, 8, 9]\<rparr>]"
  have "frame_ok ?f" using test_words by (simp add: well_formed_def)
  moreover have "is_ok (encode ?f)"
    by (simp add: encodes_def del: put_all_two)
  ultimately obtain p where "payload_of ?f = Inr p" "decodes p ?f" using payload_of_frame by metis
  then show ?thesis
    using decode_payload_fails
    by (simp add: a_truncated_frame_is_an_error_not_a_panic_def list_all_iff decodes_def)
qed

lemma clock_frame:
  "frame_ok (ClockOffset 0 1 2)"
  "emits (put_payload (ClockOffset 0 1 2)) = Some ([5] @ le_bytes 4 0 @ le_bytes 8 1 @ le_bytes 8 2)"
  by (simp add: i64_ok_def i64_min_def i64_max_def)
    (simp add: encode_steps kind_defs i64_bits_def del: put_all_two)

lemma trailing_bytes_are_refused: "trailing_bytes_are_refused"
proof -
  have "is_ok (encode (ClockOffset 0 1 2))"
    by (rule is_ok_encode [OF clock_frame(2)]) (simp add: max_frame_bytes_def)
  then obtain p where p: "payload_of (ClockOffset 0 1 2) = Inr p" "decodes p (ClockOffset 0 1 2)" "length p \<le> max_frame_bytes"
    using payload_of_frame [OF clock_frame(1)] by metis
  then have "\<not> is_ok (decode_known (p @ [0]))" by (simp add: decodes_def max_frame_bytes_def usize_max_def)
  then show ?thesis using p(1) decode_payload_fails by (simp add: trailing_bytes_are_refused_def)
qed

lemma an_unknown_kind_is_refused: "an_unknown_kind_is_refused"
  by (simp add: an_unknown_kind_is_refused_def decode_payload_def decode_known_Cons usize_max_def
      fields_of_def kind_defs)

lemma an_oversized_length_is_refused_before_allocating: "an_oversized_length_is_refused_before_allocating"
proof -
  let ?r = "\<lparr>fr_inner = \<lparr>io_bytes = le_bytes 4 (2 ^ 32 - 1), io_fault = None\<rparr>, fr_buf = [], fr_skipped = 0\<rparr>"
  have n: "new_reader (cursor_over (write_preamble [] @ le_bytes 4 (2 ^ 32 - 1))) = Inr ?r"
    unfolding cursor_over_def by (rule new_reader_preamble)
  have l: "from_le (le_bytes 4 (2 ^ 32 - 1)) = 2 ^ 32 - 1" by (simp add: from_le_le_bytes del: le_bytes.simps)
  have p: "read_payload ?r = (Inl (Message ''a replication frame claims bytes above the limit''),
      ?r\<lparr>fr_inner := \<lparr>io_bytes = [], io_fault = None\<rparr>\<rparr>)"
    using l by (simp add: read_payload_def read_exact_def length_prefix_bytes_def max_frame_bytes_def)
  have f: "next_frame ?r = (Inl (Message ''a replication frame claims bytes above the limit''),
      ?r\<lparr>fr_inner := \<lparr>io_bytes = [], io_fault = None\<rparr>\<rparr>)"
    by (subst next_frame.simps) (simp only: p fst_conv snd_conv sum.case)
  have "sublist ''limit'' ''a replication frame claims bytes above the limit''" by code_simp
  then show ?thesis
    unfolding an_oversized_length_is_refused_before_allocating_def n sum.case f fst_conv snd_conv
    by (simp add: says_def)
qed

lemma next_frame_whole:
  assumes "io_bytes (fr_inner r) = le_bytes 4 (length p) @ p @ rest" "length p \<le> max_frame_bytes" "decodes p f"
  shows "next_frame r = (Inr (Some f), r\<lparr>fr_inner := (fr_inner r)\<lparr>io_bytes := rest\<rparr>, fr_buf := p\<rparr>)"
  by (subst next_frame.simps) (use assms(3) in \<open>simp add: read_payload_whole [OF assms(1,2)] decodes_def\<close>)

lemma reads_each_frames:
  assumes "list_all (\<lambda>f. frame_ok f \<and> is_ok (encode f)) fs" "io_fault (fr_inner r) = None"
    "io_bytes (fr_inner r) = concat (map (\<lambda>f. projr (encode f)) fs)"
  shows "reads_each fs r"
  using assms
proof (induction fs arbitrary: r)
  case Nil
  then have "read_payload r = (Inr None, r\<lparr>fr_inner := (fr_inner r)\<lparr>io_bytes := []\<rparr>\<rparr>)"
    by (simp add: read_payload_def read_exact_def length_prefix_bytes_def)
  then show ?case by simp (subst next_frame.simps, simp)
next
  case (Cons f fs)
  then obtain p where p: "decodes p f" "length p \<le> max_frame_bytes" "encode f = Inr (le_bytes 4 (length p) @ p)"
    using payload_of_frame [of f] by auto
  then have "next_frame r = (Inr (Some f), r\<lparr>fr_inner := (fr_inner r)\<lparr>io_bytes := concat (map (\<lambda>f. projr (encode f)) fs)\<rparr>, fr_buf := p\<rparr>)"
    using Cons.prems by (intro next_frame_whole) simp_all
  then show ?case using Cons by simp
qed

lemma put_all_frames:
  "list_all (\<lambda>f. is_ok (encode f)) fs \<Longrightarrow>
   put_all (map encode_frame fs) out = (Inr (), out @ concat (map (\<lambda>f. projr (encode f)) fs))"
proof (induction fs arbitrary: out)
  case (Cons f fs)
  then obtain p where "emits (put_payload f) = Some p" "length p \<le> max_frame_bytes" "encode f = Inr (le_bytes 4 (length p) @ p)"
    using encodes_some [of f] encode_Inr [of f "projr (encode f)"] by auto
  then have "encode_frame f out = (Inr (), out @ projr (encode f))" by (simp add: encode_frame_cases)
  then show ?case using Cons by (simp add: then_put_def)
qed (simp add: done_put_def)

lemma stream_frames_ok: "list_all (\<lambda>f. frame_ok f \<and> is_ok (encode f)) stream_frames"
  using test_words by (simp add: stream_frames_def test_maps no_index_state_def well_formed_def encodes_def del: put_all_two)

lemma a_stream_reads_back_in_order: "a_stream_reads_back_in_order"
proof -
  have "put_all (map encode_frame stream_frames) (write_preamble [])
      = (Inr (), write_preamble [] @ concat (map (\<lambda>f. projr (encode f)) stream_frames))"
    using stream_frames_ok by (intro put_all_frames) (simp add: list_all_iff)
  moreover have "reads_each stream_frames
      \<lparr>fr_inner = \<lparr>io_bytes = concat (map (\<lambda>f. projr (encode f)) stream_frames), io_fault = None\<rparr>, fr_buf = [], fr_skipped = 0\<rparr>"
    by (rule reads_each_frames [OF stream_frames_ok]) simp_all
  ultimately show ?thesis
    by (simp add: a_stream_reads_back_in_order_def cursor_over_def new_reader_preamble)
qed

lemma a_stream_cut_mid_frame_is_an_error: "a_stream_cut_mid_frame_is_an_error"
proof -
  let ?p = "[5] @ le_bytes 4 0 @ le_bytes 8 1 @ le_bytes 8 2 :: bytes"
  let ?cut = "take 22 (le_bytes 4 (length ?p) @ ?p)"
  let ?r = "\<lparr>fr_inner = \<lparr>io_bytes = ?cut, io_fault = None\<rparr>, fr_buf = [], fr_skipped = 0\<rparr>"
  have len: "length ?p = 21" by simp
  have e: "encode_frame (ClockOffset 0 1 2) (write_preamble []) = (Inr (), write_preamble [] @ le_bytes 4 (length ?p) @ ?p)"
    unfolding encode_frame_cases clock_frame(2) by (simp add: max_frame_bytes_def del: le_bytes.simps)
  have cut: "take (length (write_preamble [] @ le_bytes 4 (length ?p) @ ?p) - 3) (write_preamble [] @ le_bytes 4 (length ?p) @ ?p)
      = write_preamble [] @ ?cut"
    by simp
  have "\<not> is_ok (fst (read_payload ?r))"
    using read_payload_cut [of ?r 22 ?p] len by (simp add: max_frame_bytes_def del: le_bytes.simps)
  then have "\<not> is_ok (fst (next_frame ?r))"
    by (subst next_frame.simps) (cases "fst (read_payload ?r)", simp_all)
  then show ?thesis
    unfolding a_stream_cut_mid_frame_is_an_error_def e prod.case sum.case cut cursor_over_def new_reader_preamble
    by simp
qed

lemma a_wrong_preamble_says_so: "a_wrong_preamble_says_so"
proof -
  have "length magic = 12" "length (str ''not a stream'') = 12" "str ''not a stream'' \<noteq> magic"
    by (simp_all add: magic_def str_def)
  moreover have "sublist ''not a dendro replication stream'' ''this is not a dendro replication stream: the magic does not match''"
    "sublist ''protocol version'' ''replication protocol version: this build speaks v1''"
    by code_simp+
  moreover have "from_le (le_bytes 2 99) \<noteq> protocol_version" by (simp add: protocol_version_def from_le_le_bytes)
  ultimately show ?thesis
    by (simp add: a_wrong_preamble_says_so_def says_def new_reader_def read_exact_def cursor_over_def del: le_bytes.simps)
qed

end
