(* ===== verification/Archive_Tests.thy ===== *)
theory Archive_Tests
  imports Archive_Handle Error_Display
begin

section \<open>The tests of \<open>src/archive/sqlite.rs\<close>\<close>

text \<open>
  The file's unit tests that read and write rows, on the model: one definition per
  test, the same calls in the same order, its assertions as a conjunction, and a lemma
  that it passes. \<open>unwrap\<close> is Rust's, so a test whose call fails is false. SQLite
  raises no fault. The tests of pragmas, query plans and files ask SQLite and
  the system and have no counterpart; nor has the one of \<open>archive_bytes\<close>, which counts pages.
\<close>

subsection \<open>Fixtures\<close>

definition created :: db where
  "created = \<lparr>db_archive = create_archive, db_faults = []\<rparr>"

definition unwrap :: "'a result \<times> db \<Rightarrow> ('a \<Rightarrow> db \<Rightarrow> bool) \<Rightarrow> bool" where
  "unwrap p k = (case p of (Inl _, _) \<Rightarrow> False | (Inr x, d) \<Rightarrow> k x d)"

definition seed :: bytes where "seed = replicate 16 7"

definition strings :: "(string \<times> string) list \<Rightarrow> label_map" where
  "strings pairs = bt_extend [] (map (\<lambda>(k, v). (str k, str v)) pairs)"

definition source_of :: "(string \<times> string) list \<Rightarrow> (string \<times> string) list \<Rightarrow> i64 \<Rightarrow> source_meta" where
  "source_of labels metadata anchor =
     \<lparr>sm_labels = strings labels, sm_metadata = strings metadata, sm_clock_anchor = anchor\<rparr>"

definition with_source :: "(i64 \<Rightarrow> db \<Rightarrow> bool) \<Rightarrow> bool" where
  "with_source = unwrap (am_insert_source seed (source_of [] [] 0) created)"

definition with_two_sources :: "(i64 \<Rightarrow> i64 \<Rightarrow> db \<Rightarrow> bool) \<Rightarrow> bool" where
  "with_two_sources k =
     unwrap (am_insert_source seed (source_of [(''host'', ''h1'')] [] 0) created) (\<lambda>r1 d.
     unwrap (am_insert_source seed (source_of [(''host'', ''h2'')] [] 0) d) (\<lambda>r2 d. k r1 r2 d))"

definition test_meta :: "nat \<Rightarrow> i64 \<Rightarrow> i64 \<Rightarrow> segment_meta" where
  "test_meta rows first_ts last_ts = \<lparr>meta_rows = rows, meta_first_ts = first_ts, meta_last_ts = last_ts\<rparr>"

definition sealing :: "i64 \<Rightarrow> string \<Rightarrow> nat \<Rightarrow> segment_meta \<Rightarrow> string \<Rightarrow> db \<Rightarrow> (db \<Rightarrow> bool) \<Rightarrow> bool" where
  "sealing sid s q m payload d k = unwrap (am_insert_segment sid (str s) q m (str payload) d) (\<lambda>_. k)"

definition one_byte_row :: "rstring \<Rightarrow> i64 \<Rightarrow> bytes \<Rightarrow> wal_row" where
  "one_byte_row s ts payload = \<lparr>row_stream = s, row_ts = ts, row_wall_offset = 0, row_payload = payload\<rparr>"

definition test_row :: "rstring \<Rightarrow> i64 \<Rightarrow> wal_row" where
  "test_row s ts =
     \<lparr>row_stream = s, row_ts = ts, row_wall_offset = ts, row_payload = str ''row@'' @ dec_int ts\<rparr>"

definition appending :: "i64 \<Rightarrow> (string \<times> i64) list \<Rightarrow> db \<Rightarrow> (db \<Rightarrow> bool) \<Rightarrow> bool" where
  "appending sid rows d k = unwrap (am_insert_wal_rows sid (map (\<lambda>(s, ts). test_row (str s) ts) rows) d) (\<lambda>_. k)"

text \<open>Rows of one byte, a commit each.\<close>

fun one_by_one :: "i64 \<Rightarrow> i64 list \<Rightarrow> db \<Rightarrow> (db \<Rightarrow> bool) \<Rightarrow> bool" where
  "one_by_one sid [] d k = k d"
| "one_by_one sid (ts # tss) d k =
     unwrap (am_insert_wal_rows sid [one_byte_row (str ''s'') ts [1]] d) (\<lambda>_ d. one_by_one sid tss d k)"

definition live_ts :: "db \<Rightarrow> i64 \<Rightarrow> string \<Rightarrow> i64 list" where
  "live_ts d sid s = map row_ts (live_wal (db_archive d) sid (str s))"

definition wal_ts :: "db \<Rightarrow> i64 \<Rightarrow> string \<Rightarrow> i64 list" where
  "wal_ts d sid s = map row_ts (read_wal (db_archive d) sid (str s))"

definition payloads :: "db \<Rightarrow> i64 \<Rightarrow> string \<Rightarrow> bytes list" where
  "payloads d sid s = map sr_bytes (read_segments (db_archive d) sid (str s))"

text \<open>\<open>streams\<close>, which only the tests have: those with a segment.\<close>

definition streams :: "archive \<Rightarrow> i64 \<Rightarrow> rstring list" where
  "streams a sid = distinct_sorted (map sg_stream (filter (\<lambda>r. sg_source r = sid) (ar_segments a)))"

definition hit_constraint :: "'a result \<Rightarrow> bool" where
  "hit_constraint r = (case r of Inl e \<Rightarrow> is_constraint e | Inr _ \<Rightarrow> False)"

subsection \<open>Sources\<close>

definition schema_round_trips_a_source :: bool where
  "schema_round_trips_a_source \<longleftrightarrow>
     unwrap (am_insert_source seed
       (source_of [(''host'', ''h1'')] [(''source'', ''weather'')] 1700000000000000000) created) (\<lambda>i d.
     case read_sources (db_archive d) of
       [got] \<Rightarrow> src_id got = i
         \<and> bt_get (sm_labels (src_meta got)) (str ''host'') = Some (str ''h1'')
         \<and> bt_get (sm_metadata (src_meta got)) (str ''source'') = Some (str ''weather'')
         \<and> sm_clock_anchor (src_meta got) = 1700000000000000000
         \<and> \<not> src_complete got
     | _ \<Rightarrow> False)"

lemma schema_round_trips_a_source: schema_round_trips_a_source
  by code_simp

definition a_sources_labels_are_replaced :: bool where
  "a_sources_labels_are_replaced \<longleftrightarrow>
    (let host = (\<lambda>h. source_of [(''host'', h)] [(''source'', ''weather'')] 1);
         labels = strings [(''host'', ''h1''), (''arm'', ''baseline'')]
     in unwrap (am_insert_source seed (host ''h1'') created) (\<lambda>a d.
        unwrap (am_insert_source seed (host ''h2'') d) (\<lambda>b d.
        let before = read_sources (db_archive d)
        in unwrap (transaction (unit_body (update_source_labels a labels)) d) (\<lambda>_ d.
           let got = read_sources (db_archive d);
               want = (hd before)\<lparr>src_meta := (src_meta (hd before))\<lparr>sm_labels := labels\<rparr>\<rparr>
           in got = [want, before ! 1] \<and> src_id (got ! 1) = b
              \<and> \<not> is_ok (fst (transaction (unit_body (update_source_labels (b + 1) labels)) d))))))"

lemma a_sources_labels_are_replaced: a_sources_labels_are_replaced
  by code_simp

subsection \<open>Segments\<close>

definition segments_read_back_in_seq_order_not_insertion_order :: bool where
  "segments_read_back_in_seq_order_not_insertion_order \<longleftrightarrow>
     with_source (\<lambda>i d.
     sealing i ''cpu_usage'' 1 (test_meta 10 90 99) ''seq-one-bytes'' d (\<lambda>d.
     sealing i ''cpu_usage'' 0 (test_meta 5 100 200) ''seq-zero-bytes'' d (\<lambda>d.
       map (\<lambda>s. (sr_seq s, sr_bytes s)) (read_segments (db_archive d) i (str ''cpu_usage''))
         = [(0, str ''seq-zero-bytes''), (1, str ''seq-one-bytes'')])))"

lemma segments_read_back_in_seq_order_not_insertion_order: segments_read_back_in_seq_order_not_insertion_order
  by code_simp

definition total_rows_sums_across_segments :: bool where
  "total_rows_sums_across_segments \<longleftrightarrow>
     with_source (\<lambda>i d.
     sealing i ''cpu_usage'' 0 (test_meta 3 0 29) ''a'' d (\<lambda>d.
     sealing i ''cpu_usage'' 1 (test_meta 2 30 49) ''b'' d (\<lambda>d.
       total_rows (db_archive d) i (str ''cpu_usage'') = 5)))"

lemma total_rows_sums_across_segments: total_rows_sums_across_segments
  by code_simp

definition streams_lists_each_stream_once :: bool where
  "streams_lists_each_stream_once \<longleftrightarrow>
     with_source (\<lambda>i d.
     sealing i ''cpu_usage'' 0 (test_meta 1 0 9) ''a'' d (\<lambda>d.
     sealing i ''cpu_usage'' 1 (test_meta 1 0 9) ''b'' d (\<lambda>d.
     sealing i ''blockio'' 0 (test_meta 1 0 9) ''c'' d (\<lambda>d.
       streams (db_archive d) i = [str ''blockio'', str ''cpu_usage'']))))"

lemma streams_lists_each_stream_once: streams_lists_each_stream_once
  by code_simp

definition all_streams_includes_a_stream_that_has_never_sealed :: bool where
  "all_streams_includes_a_stream_that_has_never_sealed \<longleftrightarrow>
     with_source (\<lambda>i d.
     sealing i ''cpu_usage'' 0 (test_meta 1 0 9) ''a'' d (\<lambda>d.
     appending i [(''drivehealth'', 5)] d (\<lambda>d.
       streams (db_archive d) i = [str ''cpu_usage'']
       \<and> all_streams (db_archive d) i = [str ''cpu_usage'', str ''drivehealth''])))"

lemma all_streams_includes_a_stream_that_has_never_sealed: all_streams_includes_a_stream_that_has_never_sealed
  by code_simp

text \<open>For every stream, not those of the test alone.\<close>

lemma all_streams_streams:
  "set (all_streams a sid) = set (streams a sid) \<union> {s. wal_of a sid s \<noteq> []}"
proof -
  have "(row_stream \<circ> snd) ` {(i, r) \<in> set (ar_wal a). i = sid} = {s. wal_of a sid s \<noteq> []}"
    by (force simp: wal_of_def filter_empty_conv)
  then show ?thesis by (auto simp: all_streams_def streams_def)
qed

definition segment_sizes_are_oldest_first_and_measure_the_payload :: bool where
  "segment_sizes_are_oldest_first_and_measure_the_payload \<longleftrightarrow>
     with_source (\<lambda>i d.
     unwrap (am_insert_segment i (str ''b'') 0 (test_meta 1 90 99) (replicate 300 0) d) (\<lambda>_ d.
     unwrap (am_insert_segment i (str ''a'') 0 (test_meta 1 0 9) (replicate 100 0) d) (\<lambda>_ d.
       segment_sizes (db_archive d) i = [(9, 100), (99, 300)])))"

lemma segment_sizes_are_oldest_first_and_measure_the_payload: segment_sizes_are_oldest_first_and_measure_the_payload
  by code_simp

definition segments_are_scoped_per_source :: bool where
  "segments_are_scoped_per_source \<longleftrightarrow>
     with_two_sources (\<lambda>r1 r2 d.
     sealing r1 ''cpu_usage'' 0 (test_meta 1 0 9) ''r1-bytes'' d (\<lambda>d.
     sealing r2 ''cpu_usage'' 0 (test_meta 1 0 9) ''r2-bytes'' d (\<lambda>d.
       payloads d r1 ''cpu_usage'' = [str ''r1-bytes'']
       \<and> payloads d r2 ''cpu_usage'' = [str ''r2-bytes'']
       \<and> total_rows (db_archive d) r1 (str ''cpu_usage'') = 1
       \<and> streams (db_archive d) r1 = [str ''cpu_usage''])))"

lemma segments_are_scoped_per_source: segments_are_scoped_per_source
  by code_simp

definition segment_span_summarizes_the_catalog_without_reading_a_blob :: bool where
  "segment_span_summarizes_the_catalog_without_reading_a_blob \<longleftrightarrow>
     with_source (\<lambda>i d.
     sealing i ''cpu_usage'' 0 (test_meta 3 10 29) ''not-parquet'' d (\<lambda>d.
     sealing i ''cpu_usage'' 1 (test_meta 2 30 49) ''not-parquet-either'' d (\<lambda>d.
     sealing i ''blockio'' 0 (test_meta 99 0 99) ''nor-this'' d (\<lambda>d.
       segment_span (db_archive d) i (str ''cpu_usage'')
         = (2, \<lparr>span_rows = 5, span_first_ts = Some 10, span_last_ts = Some 49\<rparr>)
       \<and> segment_span (db_archive d) i (str ''drivehealth'')
         = (0, \<lparr>span_rows = 0, span_first_ts = None, span_last_ts = None\<rparr>)))))"

lemma segment_span_summarizes_the_catalog_without_reading_a_blob:
  segment_span_summarizes_the_catalog_without_reading_a_blob
  by code_simp

subsection \<open>The live tail\<close>

definition timestamps_span_the_whole_signed_range :: bool where
  "timestamps_span_the_whole_signed_range \<longleftrightarrow>
    (let least = - (2 ^ 63); most = 2 ^ 63 - 1; extremes = [least, -1000000000, 0, 1, most]
     in unwrap (am_insert_source seed (source_of [] [] least) created) (\<lambda>i d.
        one_by_one i extremes d (\<lambda>d.
        live_ts d i ''s'' = extremes
        \<and> map (\<lambda>r. sm_clock_anchor (src_meta r)) (read_sources (db_archive d)) = [least]
        \<and> sealing i ''s'' 0 (test_meta 3 least 0) ''x'' d (\<lambda>d. live_ts d i ''s'' = [1, most]))))"

lemma timestamps_span_the_whole_signed_range: timestamps_span_the_whole_signed_range
  by code_simp

definition a_row_at_timestamp_zero_is_live :: bool where
  "a_row_at_timestamp_zero_is_live \<longleftrightarrow>
     with_source (\<lambda>i d. one_by_one i [0, 1, 2] d (\<lambda>d.
       live_ts d i ''s'' = [0, 1, 2]
       \<and> span_rows (live_wal_span (db_archive d) i (str ''s'')) = 3
       \<and> sealing i ''s'' 0 (test_meta 2 0 1) ''x'' d (\<lambda>d. live_ts d i ''s'' = [2])))"

lemma a_row_at_timestamp_zero_is_live: a_row_at_timestamp_zero_is_live
  by code_simp

definition live_wal_excludes_rows_already_covered_by_a_sealed_segment :: bool where
  "live_wal_excludes_rows_already_covered_by_a_sealed_segment \<longleftrightarrow>
     with_source (\<lambda>i d.
     sealing i ''cpu_usage'' 0 (test_meta 3 10 30) ''sealed-bytes'' d (\<lambda>d.
     appending i (map (Pair ''cpu_usage'') [10, 20, 30, 40]) d (\<lambda>d.
       live_ts d i ''cpu_usage'' = [40] \<and> length (read_wal (db_archive d) i (str ''cpu_usage'')) = 4)))"

lemma live_wal_excludes_rows_already_covered_by_a_sealed_segment:
  live_wal_excludes_rows_already_covered_by_a_sealed_segment
  by code_simp

definition live_wal_returns_everything_when_nothing_has_sealed :: bool where
  "live_wal_returns_everything_when_nothing_has_sealed \<longleftrightarrow>
     with_source (\<lambda>i d. appending i [(''drivehealth'', 5), (''drivehealth'', 15)] d (\<lambda>d.
       live_ts d i ''drivehealth'' = [5, 15]))"

lemma live_wal_returns_everything_when_nothing_has_sealed: live_wal_returns_everything_when_nothing_has_sealed
  by code_simp

definition live_wal_watermark_is_scoped_to_its_own_stream_and_source :: bool where
  "live_wal_watermark_is_scoped_to_its_own_stream_and_source \<longleftrightarrow>
     with_two_sources (\<lambda>r1 r2 d.
     sealing r1 ''cpu_usage'' 0 (test_meta 3 10 30) ''r1-cpu_usage-sealed'' d (\<lambda>d.
     appending r1 [(''cpu_usage'', 40), (''blockio'', 5)] d (\<lambda>d.
     appending r2 [(''cpu_usage'', 5)] d (\<lambda>d.
       live_ts d r1 ''blockio'' = [5] \<and> live_ts d r2 ''cpu_usage'' = [5] \<and> live_ts d r1 ''cpu_usage'' = [40]))))"

lemma live_wal_watermark_is_scoped_to_its_own_stream_and_source:
  live_wal_watermark_is_scoped_to_its_own_stream_and_source
  by code_simp

definition live_wal_span_counts_the_same_rows_live_wal_returns :: bool where
  "live_wal_span_counts_the_same_rows_live_wal_returns \<longleftrightarrow>
     with_source (\<lambda>i d.
     sealing i ''cpu_usage'' 0 (test_meta 3 10 30) ''not-parquet'' d (\<lambda>d.
     appending i (map (Pair ''cpu_usage'') [10, 20, 30, 40, 50]) d (\<lambda>d.
       (let span = live_wal_span (db_archive d) i (str ''cpu_usage'')
        in span_rows span = length (live_wal (db_archive d) i (str ''cpu_usage'')) \<and> span_rows span = 2
           \<and> span_first_ts span = Some 40 \<and> span_last_ts span = Some 50)
       \<and> appending i [(''drivehealth'', 5)] d (\<lambda>d.
           live_wal_span (db_archive d) i (str ''drivehealth'')
             = \<lparr>span_rows = 1, span_first_ts = Some 5, span_last_ts = Some 5\<rparr>))))"

lemma live_wal_span_counts_the_same_rows_live_wal_returns: live_wal_span_counts_the_same_rows_live_wal_returns
  by code_simp

definition wal_rows_are_scoped_per_source :: bool where
  "wal_rows_are_scoped_per_source \<longleftrightarrow>
     with_two_sources (\<lambda>r1 r2 d.
     appending r1 [(''cpu_usage'', 10)] d (\<lambda>d.
     appending r2 [(''cpu_usage'', 20)] d (\<lambda>d.
       wal_ts d r1 ''cpu_usage'' = [10] \<and> wal_ts d r2 ''cpu_usage'' = [20] \<and> live_ts d r1 ''cpu_usage'' = [10])))"

lemma wal_rows_are_scoped_per_source: wal_rows_are_scoped_per_source
  by code_simp

subsection \<open>Retention\<close>

definition an_unbounded_cutoff_evicts_everything_rather_than_nothing :: bool where
  "an_unbounded_cutoff_evicts_everything_rather_than_nothing \<longleftrightarrow>
     with_source (\<lambda>i d.
     sealing i ''s'' 0 (test_meta 1 10 20) ''x'' d (\<lambda>d. one_by_one i [30] d (\<lambda>d.
     unwrap (evict_before i (2 ^ 63 - 1) d) (\<lambda>evicted d.
       ev_segments evicted = 1 \<and> ev_wal_rows evicted = 1 \<and> all_streams (db_archive d) i = []))))"

lemma an_unbounded_cutoff_evicts_everything_rather_than_nothing:
  an_unbounded_cutoff_evicts_everything_rather_than_nothing
  by code_simp

fun old_and_new :: "i64 \<Rightarrow> string list \<Rightarrow> db \<Rightarrow> (db \<Rightarrow> bool) \<Rightarrow> bool" where
  "old_and_new sid [] d k = k d"
| "old_and_new sid (s # ss) d k =
     sealing sid s 0 (test_meta 1 0 9) ''old'' d (\<lambda>d.
     sealing sid s 1 (test_meta 1 100 109) ''new'' d (\<lambda>d. old_and_new sid ss d k))"

definition per_stream_eviction_leaves_the_streams_it_was_not_given :: bool where
  "per_stream_eviction_leaves_the_streams_it_was_not_given \<longleftrightarrow>
     with_source (\<lambda>i d. old_and_new i [''debug/a'', ''debug/b'', ''metric/c''] d (\<lambda>d.
     unwrap (evict_streams_before i 50 (\<lambda>s. take 6 s = str ''debug/'') d) (\<lambda>evicted d.
       ev_segments evicted = 2
       \<and> payloads d i ''debug/a'' = [str ''new''] \<and> payloads d i ''debug/b'' = [str ''new'']
       \<and> length (payloads d i ''metric/c'') = 2)))"

lemma per_stream_eviction_leaves_the_streams_it_was_not_given:
  per_stream_eviction_leaves_the_streams_it_was_not_given
  by code_simp

definition per_stream_eviction_takes_the_wal_rows_its_segments_shadowed :: bool where
  "per_stream_eviction_takes_the_wal_rows_its_segments_shadowed \<longleftrightarrow>
     with_source (\<lambda>i d.
     sealing i ''s'' 0 (test_meta 2 0 20) ''sealed'' d (\<lambda>d. one_by_one i [10, 20, 30] d (\<lambda>d.
       length (live_ts d i ''s'') = 1
       \<and> unwrap (evict_streams_before i 25 (\<lambda>_. True) d) (\<lambda>_ d.
           payloads d i ''s'' = [] \<and> live_ts d i ''s'' = [30]))))"

lemma per_stream_eviction_takes_the_wal_rows_its_segments_shadowed:
  per_stream_eviction_takes_the_wal_rows_its_segments_shadowed
  by code_simp

definition prune_is_idempotent_and_bounded_to_one_stream :: bool where
  "prune_is_idempotent_and_bounded_to_one_stream \<longleftrightarrow>
     with_source (\<lambda>i d.
     appending i [(''cpu_usage'', 10), (''cpu_usage'', 20), (''blockio'', 10), (''blockio'', 20)] d (\<lambda>d.
     unwrap (am_prune_wal i (str ''cpu_usage'') 10 d) (\<lambda>deleted d.
     unwrap (am_prune_wal i (str ''cpu_usage'') 10 d) (\<lambda>deleted_again d.
       deleted = 1 \<and> deleted_again = 0
       \<and> length (wal_ts d i ''blockio'') = 2 \<and> wal_ts d i ''cpu_usage'' = [20]))))"

lemma prune_is_idempotent_and_bounded_to_one_stream: prune_is_idempotent_and_bounded_to_one_stream
  by code_simp

subsection \<open>Commits\<close>

definition insert_wal_rows_inserts_every_row_in_the_batch :: bool where
  "insert_wal_rows_inserts_every_row_in_the_batch \<longleftrightarrow>
    (let names = map (\<lambda>i. str ''stream_'' @ dec_nat i) [0..<26]
     in with_source (\<lambda>i d.
        unwrap (am_insert_wal_rows i (map (\<lambda>s. test_row s 100) names) d) (\<lambda>_ d.
          list_all (\<lambda>s. length (read_wal (db_archive d) i s) = 1) names)))"

lemma insert_wal_rows_inserts_every_row_in_the_batch: insert_wal_rows_inserts_every_row_in_the_batch
  by code_simp

definition insert_wal_rows_is_one_transaction_for_the_whole_tick :: bool where
  "insert_wal_rows_is_one_transaction_for_the_whole_tick \<longleftrightarrow>
     with_source (\<lambda>i d.
     let (r, d) = am_insert_wal_rows i
           [test_row (str ''cpu_usage'') 10, test_row (str ''blockio'') 10, test_row (str ''cpu_usage'') 10] d
     in hit_constraint r \<and> wal_ts d i ''cpu_usage'' = [] \<and> wal_ts d i ''blockio'' = [])"

lemma insert_wal_rows_is_one_transaction_for_the_whole_tick:
  insert_wal_rows_is_one_transaction_for_the_whole_tick
  by code_simp

definition a_transaction_commits_the_whole_batch_or_none_of_it :: bool where
  "a_transaction_commits_the_whole_batch_or_none_of_it \<longleftrightarrow>
    (let insert = (\<lambda>i s q start stop payload. TxInsertSegment i (str s) q (test_meta 1 start stop) (str payload) None)
     in with_source (\<lambda>i d.
        unwrap (am_transaction (\<lambda>_. True)
          [insert i ''cpu_usage'' 0 10 19 ''cpu-0'', insert i ''blockio'' 0 10 19 ''blk-0'',
           TxInsertWalRows i [test_row (str ''cpu_usage'') 20]] d) (\<lambda>_ d.
          length (payloads d i ''cpu_usage'') = 1 \<and> length (payloads d i ''blockio'') = 1
          \<and> length (wal_ts d i ''cpu_usage'') = 1
          \<and> (let (r, d) = am_transaction (\<lambda>_. True)
                [insert i ''cpu_usage'' 1 20 29 ''cpu-1'', insert i ''blockio'' 1 20 29 ''blk-1'',
                 insert i ''cpu_usage'' 1 20 29 ''dup''] d
             in hit_constraint r
                \<and> length (payloads d i ''cpu_usage'') = 1 \<and> length (payloads d i ''blockio'') = 1))))"

lemma a_transaction_commits_the_whole_batch_or_none_of_it: a_transaction_commits_the_whole_batch_or_none_of_it
  by code_simp

end
