(* ===== verification/Killed_Writer.thy ===== *)
theory Killed_Writer
  imports Writer_Upkeep Writer_Properties Read_Path Error_Display
begin

section \<open>The crash-test program (\<open>src/bin/append-until-killed.rs\<close>)\<close>

text \<open>
  A program over the library: it starts a writer on a new archive or an existing one,
  adds a source, appends the rows \<open>1..=rows\<close> of one stream, seals once, syncs, and is
  killed. What the kill leaves is the archive of the writer's last commit: no handle is
  dropped. An \<open>expect\<close> that fails ends the program, here with \<open>None\<close>.
  \<open>kf_faults\<close> lists what SQLite answers the writer's transactions, as \<open>db_faults\<close> does.
\<close>

subsection \<open>The program\<close>

fun join_with :: "bytes \<Rightarrow> bytes list \<Rightarrow> bytes" where
  "join_with sep [] = []"
| "join_with sep [x] = x"
| "join_with sep (x # y # ys) = x @ sep @ join_with sep (y # ys)"

definition tags_of :: "i64 list \<Rightarrow> bytes" where
  "tags_of ts = join_with (str '','') (map dec_int ts)"

definition tags_encoder :: encoder where
  "tags_encoder = plain_encoder (\<lambda>ctx rows.
     if rows = [] then Encoded_Nothing
     else Encoded_Segment \<lparr>seg_bytes = tags_of (map row_ts rows), seg_rows = length rows,
            seg_first_ts = row_ts (hd rows), seg_last_ts = row_ts (last rows), seg_index = None\<rparr>)"

abbreviation killed_stream :: rstring where "killed_stream \<equiv> str ''s''"

definition killed_row :: "i64 \<Rightarrow> wal_row" where
  "killed_row ts = \<lparr>row_stream = killed_stream, row_ts = ts, row_wall_offset = 0, row_payload = [1]\<rparr>"

definition killed_seed :: source_meta where
  "killed_seed = \<lparr>sm_labels = [(str ''source'', str ''killed'')], sm_metadata = [], sm_clock_anchor = 1000\<rparr>"

text \<open>What SQLite answers on the way to an open handle, and the archive the file holds.\<close>

record killed_files =
  kf_created :: create_env
  kf_opened :: "rusqlite_error + connection"
  kf_listed :: "rusqlite_error + unit"
  kf_altered :: "rusqlite_error + unit"
  kf_spawned :: bool
  kf_archive :: archive
  kf_faults :: "sqlite_code option list"   \<comment> \<open>SQLite's answers to the writer's transactions\<close>
  kf_columns :: "rstring list"
  kf_files :: "rstring set"

definition killed_start ::
  "writer_env \<Rightarrow> killed_files \<Rightarrow> rstring \<Rightarrow> (writer_handle \<times> source_writer) option" where
  "killed_start env kf path =
     (if path \<in> kf_files kf
      then case writer_open (kf_opened kf) (kf_listed kf) (kf_altered kf) (kf_spawned kf) (kf_faults kf) path
                  (kf_archive kf) (kf_columns kf) (kf_files kf) of
             (Inl _, _) \<Rightarrow> None
           | (Inr h, _) \<Rightarrow>
               (case writer_add_source env killed_seed h of
                  (Inl _, _) \<Rightarrow> None | (Inr sw, h') \<Rightarrow> Some (h', sw))
      else case single env (kf_created kf) (kf_spawned kf) (kf_faults kf) path killed_seed (kf_files kf) of
             (Inl _, _) \<Rightarrow> None | (Inr hs, _) \<Rightarrow> Some hs)"

fun append_rows ::
  "writer_env \<Rightarrow> source_writer \<Rightarrow> i64 \<Rightarrow> i64 list \<Rightarrow> writer_thread \<Rightarrow> writer_thread option" where
  "append_rows env sw seal_after [] t = Some t"
| "append_rows env sw seal_after (ts # tss) t =
     (case wal env sw [killed_row ts] t of
        (Inl _, _) \<Rightarrow> None
      | (Inr _, t1) \<Rightarrow>
          if ts = seal_after
          then case seal env sw [killed_stream] t1 of
                 (Inl _, _) \<Rightarrow> None | (Inr _, t2) \<Rightarrow> append_rows env sw seal_after tss t2
          else append_rows env sw seal_after tss t1)"

definition append_until_killed ::
  "writer_env \<Rightarrow> killed_files \<Rightarrow> rstring \<Rightarrow> i64 \<Rightarrow> i64 \<Rightarrow> (source_writer \<times> writer_thread) option" where
  "append_until_killed env kf path rows seal_after =
     Option.bind (killed_start env kf path) (\<lambda>(h, sw).
     Option.bind (append_rows env sw seal_after [1..rows] (wh_thread h)) (\<lambda>t.
       case sync_writer env t of (Inl _, _) \<Rightarrow> None | (Inr _, t') \<Rightarrow> Some (sw, t')))"

subsection \<open>What the archive holds on the way\<close>

text \<open>The stream with its rows up to \<open>n\<close> appended, those up to \<open>k\<close> in one segment.\<close>

definition unfinished_source :: "archive \<Rightarrow> i64 \<Rightarrow> bool" where
  "unfinished_source a sid \<longleftrightarrow> (\<exists>src. find_source a sid = Some src \<and> \<not> src_complete src)"

definition tagged_segment :: "i64 \<Rightarrow> i64 \<Rightarrow> segment_table_row" where
  "tagged_segment sid k =
     \<lparr>sg_source = sid, sg_stream = killed_stream, sg_seq = 0,
      sg_meta = \<lparr>meta_rows = nat k, meta_first_ts = 1, meta_last_ts = k\<rparr>,
      sg_bytes = tags_of [1..k], sg_column_index = None\<rparr>"

definition others_kept :: "archive \<Rightarrow> i64 \<Rightarrow> archive \<Rightarrow> bool" where
  "others_kept a sid b \<longleftrightarrow>
     (\<forall>i t. i \<noteq> sid \<longrightarrow> stream_rows b i t = stream_rows a i t \<and> wal_of b i t = wal_of a i t)"

definition appended :: "archive \<Rightarrow> i64 \<Rightarrow> i64 \<Rightarrow> i64 \<Rightarrow> writer_state \<Rightarrow> bool" where
  "appended a\<^sub>0 sid k n w \<longleftrightarrow>
     db_faults (ss_db (wr_seal w)) = [] \<and> unfinished_source (wr_archive w) sid \<and> wr_floors w sid = None
     \<and> wal_of (wr_archive w) sid killed_stream = map killed_row [k + 1..n]
     \<and> stream_rows (wr_archive w) sid killed_stream = (if k = 0 then [] else [tagged_segment sid k])
     \<and> ss_watermarks (wr_seal w) (sid, killed_stream) = (if k = 0 then None else Some k)
     \<and> (k = 0 \<longrightarrow> ss_next_seq (wr_seal w) (sid, killed_stream) = None)
     \<and> others_kept a\<^sub>0 sid (wr_archive w)"

lemma killed_row_fields [simp]:
  "row_stream (killed_row ts) = killed_stream" "row_ts (killed_row ts) = ts" "row_wall_offset (killed_row ts) = 0"
  by (simp_all add: killed_row_def)

lemma has_unfinished: "unfinished_source a sid \<Longrightarrow> has_source a sid"
  by (auto simp: unfinished_source_def has_source_def)

lemma live_appended:
  assumes "appended a\<^sub>0 sid k n w" "0 \<le> k"
  shows "live_wal (wr_archive w) sid killed_stream = map killed_row [k + 1..n]"
proof -
  have "watermark (wr_archive w) sid killed_stream = (if k = 0 then None else Some k)"
    using assms by (auto simp: appended_def watermark_def tagged_segment_def col_max_def)
  then have "live_wal (wr_archive w) sid killed_stream = order_by row_ts (map killed_row [k + 1..n])"
    using assms by (auto simp: live_wal_def is_live_def appended_def filter_id_conv)
  then show ?thesis by (simp add: order_by_sorted comp_def)
qed

subsection \<open>One append\<close>

lemma fresh_wal_key:
  assumes "wal_of a sid s = map killed_row [k + 1..n]" "s = killed_stream"
  shows "wal_key (sid, killed_row (n + 1)) \<notin> wal_key ` set (ar_wal a)"
proof
  assume "wal_key (sid, killed_row (n + 1)) \<in> wal_key ` set (ar_wal a)"
  then obtain r where "(sid, r) \<in> set (ar_wal a)" "row_stream r = killed_stream" "row_ts r = n + 1"
    by (auto simp: wal_key_def)
  then have "r \<in> set (wal_of a sid s)" by (simp add: set_wal_of assms(2))
  then show False using assms(1) \<open>row_ts r = n + 1\<close> by auto
qed

lemma append_step:
  assumes ap: "appended a\<^sub>0 sid k n w" and "0 \<le> k" "k \<le> n"
  shows "\<exists>w'. commit_tick [(sid, [killed_row (n + 1)])] w = (Inr (), w') \<and> appended a\<^sub>0 sid k (n + 1) w'"
proof -
  let ?a = "wr_archive w"
  let ?t = "[(sid, [killed_row (n + 1)])]"
  let ?b = "?a\<lparr>ar_wal := ar_wal ?a @ [(sid, killed_row (n + 1))]\<rparr>"
  let ?w1 = "w\<lparr>wr_shadowed := count_shadowed (wr_floors w) (ss_watermarks (wr_seal w)) ?t (wr_shadowed w)\<rparr>"
  have adm: "admitted (wr_floors w) (ss_watermarks (wr_seal w)) ?t = ?t"
    using ap assms(2,3) by (auto simp: admitted_def floored_def shadows_def appended_def opt_holds_def Let_def)
  have wal: "wal_of ?a sid killed_stream = map killed_row [k + 1..n]" using ap by (simp add: appended_def)
  have ins: "insert_wal_rows_batch ?t ?a = Inr ?b"
    using fresh_wal_key [OF wal refl] has_unfinished [of ?a sid] ap
    by (auto simp: insert_wal_rows_batch_def insert_wal_rows_def insert_wal_row_def appended_def)
  have run: "transaction (unit_body (insert_wal_rows_batch ?t)) (ss_db (wr_seal ?w1)) =
      (Inr (), (ss_db (wr_seal w))\<lparr>db_archive := ?b\<rparr>)"
    using transaction_no_fault [of "ss_db (wr_seal w)" "insert_wal_rows_batch ?t", OF _ ins] ap by (simp add: appended_def)
  let ?w' = "health_committed (set_db ?w1 ((ss_db (wr_seal w))\<lparr>db_archive := ?b\<rparr>))"
  have "commit_tick ?t w = (Inr (), ?w')"
    using run unfolding commit_tick_def adm Let_def
    by (simp add: with_retries_def retry_backoff_def on_db_def numeral_3_eq_3)
  moreover have "[k + 1..n + 1] = [k + 1..n] @ [n + 1]" using assms(3) by (simp add: upto_rec2)
  then have "appended a\<^sub>0 sid k (n + 1) ?w'"
    using ap by (auto simp: appended_def health_committed_def set_db_def wal_of_def stream_rows_def
        unfinished_source_def find_source_def others_kept_def)
  ultimately show ?thesis by blast
qed

subsection \<open>The seal\<close>

definition tagged :: "i64 \<Rightarrow> segment" where
  "tagged n = \<lparr>seg_bytes = tags_of [1..n], seg_rows = nat n, seg_first_ts = 1, seg_last_ts = n, seg_index = None\<rparr>"

lemma materialize_tags_rows:
  assumes "rows \<noteq> []" and "row_ts (hd rows) \<le> row_ts (last rows)"
    and "\<And>r. r \<in> set rows \<Longrightarrow> row_ts (hd rows) \<le> row_ts r \<and> row_ts r \<le> row_ts (last rows)"
  shows "materialize tags_encoder ctx rows =
    Inr (Some \<lparr>seg_bytes = tags_of (map row_ts rows), seg_rows = length rows, seg_first_ts = row_ts (hd rows),
               seg_last_ts = row_ts (last rows), seg_index = None\<rparr>)"
proof -
  have "filter (\<lambda>r. row_ts (hd rows) \<le> row_ts r \<and> row_ts r \<le> row_ts (last rows)) rows = rows"
    using assms(3) by (simp add: filter_id_conv)
  with assms(1,2) show ?thesis
    by (cases rows) (auto simp: materialize_def materialize_after_def tags_encoder_def plain_encoder_def covered_rows_def)
qed

lemma materialize_tags:
  assumes "lo \<le> hi"
  shows "materialize tags_encoder ctx (map killed_row [lo..hi]) =
    Inr (Some \<lparr>seg_bytes = tags_of [lo..hi], seg_rows = nat (hi - lo + 1), seg_first_ts = lo, seg_last_ts = hi,
               seg_index = None\<rparr>)"
proof -
  let ?rows = "map killed_row [lo..hi]"
  have "[lo..hi] = lo # [lo + 1..hi]" and "[lo..hi] = [lo..hi - 1] @ [hi]"
    using upto_rec1 [OF assms] upto_rec2 [OF assms] by blast+
  then have "hd ?rows = killed_row lo" "last ?rows = killed_row hi"
    by (metis list.sel(1) list.simps(9), metis last_snoc list.simps(8,9) map_append)
  moreover have "map row_ts ?rows = [lo..hi]" by (simp add: comp_def)
  moreover have "lo \<le> row_ts r \<and> row_ts r \<le> hi" if "r \<in> set ?rows" for r using that by auto
  ultimately show ?thesis
    using materialize_tags_rows [of ?rows ctx] assms by simp
qed

lemma seal_step:
  assumes ap: "appended a\<^sub>0 sid 0 n w" and "1 \<le> n" "n < 2 ^ 63" and enc: "we_encoder env = tags_encoder"
  shows "\<exists>w'. handle_seal env sid [killed_stream] usize_limit w = Running w' \<and> appended a\<^sub>0 sid n n w'"
proof -
  let ?a = "wr_archive w" and ?s = killed_stream
  obtain src where src: "find_source ?a sid = Some src" "\<not> src_complete src"
    using ap by (auto simp: appended_def unfinished_source_def)
  have live: "live_wal ?a sid ?s = map killed_row [1..n]" using live_appended [OF ap] by simp
  have parts: "split_seal tags_encoder ctx (map killed_row [1..n]) usize_limit = Inr [tagged n]" for ctx
  proof -
    have "nat n \<le> 2 ^ 64 - 1" using assms(3) by simp
    then show ?thesis using materialize_tags [of 1 n ctx] assms(2)
      by (simp add: split_seal_def usize_limit_def opt_list_def tagged_def)
  qed
  have snoc: "[1..n] = [1..n - 1] @ [n]" using assms(2) by (simp add: upto_rec2)
  have seen: "find (\<lambda>r. row_ts r = seg_last_ts (tagged n)) (rev (map killed_row [1..n])) = Some (killed_row n)"
    unfolding snoc by (simp add: tagged_def)
  let ?e = "encoded_part ?s 0 (tagged n)"
  have nxt: "ss_next_seq (wr_seal w) (sid, ?s) = None" using ap by (simp add: appended_def)
  have ne: "map killed_row [1..n] \<noteq> []" using assms(2) by simp
  have encoded: "encode_batch ?a sid (ss_next_seq (wr_seal w)) usize_limit (we_encoder env) [?s] = Inr ([?e], Some (n, 0))"
    using ne seen by (simp add: encode_batch_def source_uuid_def src enc encode_stream_def live parts nxt
        number_parts_def or_zero_def Let_def del: upto.simps)
  have free: "\<not> segment_key_taken ?a sid ?s 0"
    using ap by (auto simp: appended_def segment_key_taken_def seg_key_def stream_rows_def seg_of_def filter_empty_conv)
  have held: "has_source ?a sid" using src by (simp add: has_source_def)
  obtain b where b: "insert_encoded sid ?a ?e = Inr b" "ar_segments b = ar_segments ?a @ [tagged_segment sid n]"
    "ar_wal b = ar_wal ?a" "ar_sources b = ar_sources ?a"
    using free held assms(2)
    by (cases "ar_layout ?a")
       (simp_all add: insert_encoded_def encoded_part_def insert_segment_with_index_def tagged_def tagged_segment_def)
  have "has_source b sid" using held b(4) by (simp add: has_source_def find_source_def)
  then have "\<exists>c. insert_clock_offset sid n 0 b = Inr c" by (simp add: insert_clock_offset_def)
  then obtain c where c: "insert_clock_offset sid n 0 b = Inr c" ..
  obtain cs where clock: "c = b\<lparr>ar_clock := cs\<rparr>" using insert_clock_offset_frame [OF c] by blast
  have install: "install_batch sid [?e] (Some (n, 0)) ?a = Inr c" using b(1) c by (simp add: install_batch_def)
  let ?d = "(ss_db (wr_seal w))\<lparr>db_archive := prune_wal sid ?s n c\<rparr>"
  have none: "db_faults (ss_db (wr_seal w)) = []" using ap by (simp add: appended_def)
  have last: "en_last ?e = n" "en_stream ?e = ?s" by (simp_all add: encoded_part_def tagged_def)
  let ?st = "(advance_maps sid [?e] (wr_seal w))\<lparr>ss_db := ?d\<rparr>"
  have run: "seal_batch sid [?s] usize_limit (we_encoder env) (wr_seal w) = (Inr (), ?st)"
    unfolding seal_batch_def encoded
    using transaction_no_fault [where f = "install_batch sid [?e] (Some (n, 0))", OF none install] last none
      transaction_no_fault [of "(ss_db (wr_seal w))\<lparr>db_archive := c\<rparr>" "\<lambda>a. Inr (prune_wal sid ?s n a)"]
    by simp
  let ?w = "w\<lparr>wr_seal := ?st, wr_deferred := (wr_deferred w)(sid := bt_remove_all [?s] (wr_deferred w sid))\<rparr>"
  have "handle_seal env sid [?s] usize_limit w = Running ?w"
    using run by (simp add: handle_seal_def with_retries_def retry_backoff_def on_seal_def numeral_3_eq_3)
  moreover have "appended a\<^sub>0 sid n n ?w"
  proof -
    have wal: "wal_of (prune_wal sid ?s n c) sid ?s = []"
    proof -
      have "wal_of c sid ?s = map killed_row [1..n]" using ap b(3) clock by (auto simp: wal_of_def appended_def)
      then show ?thesis by (simp add: wal_of_prune filter_empty_conv)
    qed
    have "stream_rows (prune_wal sid ?s n c) sid ?s = [tagged_segment sid n]"
    proof -
      have "stream_rows (prune_wal sid ?s n c) sid ?s = stream_rows b sid ?s" by (simp add: frame_simps clock)
      also have "\<dots> = stream_rows ?a sid ?s @ [tagged_segment sid n]"
        by (simp add: stream_rows_def b(2) seg_of_def tagged_segment_def)
      finally show ?thesis using ap by (simp add: appended_def)
    qed
    moreover have "find_source (prune_wal sid ?s n c) sid = find_source ?a sid"
      using b(4) clock by (auto simp: prune_wal_def find_source_def)
    moreover have "stream_rows b i x = stream_rows ?a i x" "wal_of b i x = wal_of ?a i x" if "i \<noteq> sid" for i x
      using that by (simp_all add: stream_rows_def b(2,3) seg_of_def tagged_segment_def wal_of_def)
    then have "stream_rows (prune_wal sid ?s n c) i x = stream_rows ?a i x"
      "wal_of (prune_wal sid ?s n c) i x = wal_of ?a i x" if "i \<noteq> sid" for i x
      using that by (simp_all add: frame_simps clock wal_of_prune)
    then have "others_kept a\<^sub>0 sid (prune_wal sid ?s n c)" using ap by (simp add: appended_def others_kept_def)
    ultimately show ?thesis
      using ap wal assms(2) src none last by (simp add: appended_def unfinished_source_def advance_maps_def)
  qed
  ultimately show ?thesis by blast
qed

subsection \<open>The start\<close>

definition kept :: "i64 \<Rightarrow> db \<Rightarrow> db \<Rightarrow> bool" where
  "kept sid d d' \<longleftrightarrow> (db_faults d = [] \<longrightarrow> db_faults d' = [])
     \<and> ar_segments (db_archive d') = ar_segments (db_archive d) \<and> ar_wal (db_archive d') = ar_wal (db_archive d)
     \<and> (unfinished_source (db_archive d) sid \<longrightarrow> unfinished_source (db_archive d') sid)"

lemma kept_refl [simp]: "kept sid d d"
  by (simp add: kept_def)

lemma kept_trans: "kept sid a b \<Longrightarrow> kept sid b c \<Longrightarrow> kept sid a c"
  by (auto simp: kept_def)

lemma unfinished_update:
  assumes "\<And>r. src_id (f r) = src_id r" and "\<And>r. src_complete (f r) = src_complete r"
  shows "unfinished_source (update_source i f a) sid = unfinished_source a sid"
  by (auto simp: unfinished_source_def find_source_update [OF assms(1)] assms(2))

lemma update_source_rows [simp]:
  "ar_segments (update_source i f a) = ar_segments a" "ar_wal (update_source i f a) = ar_wal a"
  by (simp_all add: update_source_def)

lemma kept_transaction:
  assumes "\<And>x b. f (db_archive d) = Inr (x, b) \<Longrightarrow>
    ar_segments b = ar_segments (db_archive d) \<and> ar_wal b = ar_wal (db_archive d)
    \<and> (unfinished_source (db_archive d) sid \<longrightarrow> unfinished_source b sid)"
  shows "kept sid d (snd (transaction f d))"
  by (rule transaction_cases [of f d]) (auto simp: kept_def assms)

lemma kept_patch: "kept sid d (snd (patch_metadata i p d))"
  unfolding patch_metadata_def
  by (rule kept_transaction)
     (auto simp: unit_body_Inr patch_source_metadata_def update_source_metadata_def update_existing_source_def
        result_simps unfinished_update split: if_splits)

lemma kept_session: "kept sid d (snd (record_session env i anchor after d))"
  by (auto simp: record_session_def Let_def intro: kept_patch split: sum.split)

lemma kept_beat: "kept sid d (start_heartbeat env i d)"
  unfolding start_heartbeat_def
  by (rule kept_transaction)
     (auto simp: beat_def set_heartbeat_interval_def unfinished_update)

lemma add_source_kept:
  assumes "add_source env seed uuid d = (Inr i, d')" and "db_faults d = []"
  shows "i \<notin> source_ids (db_archive d) \<and> db_faults d' = [] \<and> unfinished_source (db_archive d') i
    \<and> ar_segments (db_archive d') = ar_segments (db_archive d) \<and> ar_wal (db_archive d') = ar_wal (db_archive d)"
proof -
  obtain x d1 where t: "transaction (insert_source_sql (we_random env) seed uuid) d = (x, d1)" by fastforce
  obtain y d2 where s: "record_session env i (sm_clock_anchor seed) None d1 = (y, d2)" by fastforce
  have x: "x = Inr i" and d': "kept i d2 d'"
    using assms(1) t s kept_trans [OF kept_beat [of i d2 env i] kept_patch [of i "start_heartbeat env i d2" i]]
    by (auto simp: add_source_def Let_def kept_beat split: sum.splits option.splits prod.splits)
       (metis kept_trans kept_beat kept_patch snd_conv)+
  have "insert_source_sql (we_random env) seed uuid (db_archive d) = Inr (i, db_archive d1) \<and> db_faults d1 = []"
    using t assms(2) by (auto simp: x transaction_def next_fault_def split: sum.splits)
  then obtain row where row: "db_archive d1 = (db_archive d)\<lparr>ar_sources := ar_sources (db_archive d) @ [row]\<rparr>"
    "src_id row = i" "\<not> src_complete row" "i \<notin> source_ids (db_archive d)" "db_faults d1 = []"
    using insert_source_Inr by blast
  have "find (\<lambda>r. src_id r = i) (ar_sources (db_archive d)) = None"
    using row(4) by (auto simp: find_None_iff source_ids_def)
  then have "find_source (db_archive d1) i = Some row"
    using row(1,2) by (simp add: find_source_def find_append)
  then have "unfinished_source (db_archive d1) i" using row(3) by (simp add: unfinished_source_def)
  moreover have "kept i d1 d'" using kept_trans [OF _ d'] kept_session [of i d1 env i "sm_clock_anchor seed" None] s by simp
  ultimately show ?thesis using row by (simp add: kept_def)
qed

definition killed_base :: "killed_files \<Rightarrow> rstring \<Rightarrow> archive" where
  "killed_base kf path = (if path \<in> kf_files kf then kf_archive kf else create_archive)"

lemma started_source:
  assumes "writer_add_source env seed (spawn_writer \<lparr>db_archive = a, db_faults = []\<rparr>) = (Inr sw, h)"
    and "archive_ok a"
  shows "\<exists>w. wh_thread h = Serving w \<and> sw_floor_ts sw = None \<and> appended a (sw_source_id sw) 0 0 w"
proof -
  let ?d = "\<lparr>db_archive = a, db_faults = []\<rparr>"
  obtain x d' where s: "add_source env seed None ?d = (x, d')" by fastforce
  have "\<exists>i. x = Inr i \<and> sw_source_id sw = i \<and> sw_floor_ts sw = None
      \<and> wh_thread h = Serving (added_source i (set_db (start_writer ?d) d'))"
    using assms(1) s
    by (cases x) (auto simp: writer_add_source_def add_source_with_uuid_def spawn_writer_def on_db_def start_writer_def
        thread_of_def)
  then obtain i where i: "x = Inr i" "sw_source_id sw = i" "sw_floor_ts sw = None"
    "wh_thread h = Serving (added_source i (set_db (start_writer ?d) d'))" by blast
  have kept: "i \<notin> source_ids a" "db_faults d' = []" "unfinished_source (db_archive d') i"
    "ar_segments (db_archive d') = ar_segments a" "ar_wal (db_archive d') = ar_wal a"
    using add_source_kept [OF s [unfolded i(1)]] by simp_all
  have same: "stream_rows (db_archive d') = stream_rows a" "wal_of (db_archive d') = wal_of a"
    by (simp_all add: fun_eq_iff stream_rows_def wal_of_def kept(4,5))
  have "stream_rows a i t = []" "wal_of a i t = []" for t
    using assms(2) kept(1)
    by (auto simp: archive_ok_def refs_ok_def stream_rows_def wal_of_def seg_of_def filter_empty_conv)
  then have "appended a i 0 0 (added_source i (set_db (start_writer ?d) d'))"
    using kept(2,3)
    by (simp add: appended_def added_source_def set_db_def start_writer_def same sealed_watermarks_def watermark_def
        next_seqs_def max_seq_def others_kept_def col_max_def)
  then show ?thesis using i by blast
qed

lemma killed_start_appended:
  assumes "killed_start env kf path = Some (h, sw)" and "archive_ok (kf_archive kf)" and "kf_faults kf = []"
  shows "\<exists>w. wh_thread h = Serving w \<and> sw_floor_ts sw = None
     \<and> appended (killed_base kf path) (sw_source_id sw) 0 0 w"
proof (cases "path \<in> kf_files kf")
  case True
  then have "\<exists>h'. writer_add_source env killed_seed (spawn_writer \<lparr>db_archive = kf_archive kf, db_faults = []\<rparr>) = (Inr sw, h)"
    using assms(1,3) by (auto simp: killed_start_def writer_open_def spawn_def Let_def
        split: prod.splits sum.splits if_splits)
  then show ?thesis using started_source assms(2) True by (auto simp: killed_base_def)
next
  case False
  then have "writer_add_source env killed_seed (spawn_writer \<lparr>db_archive = create_archive, db_faults = []\<rparr>) = (Inr sw, h)"
    using assms(1,3) by (auto simp: killed_start_def single_def writer_create_def spawn_def
        split: prod.splits sum.splits if_splits)
  then show ?thesis using started_source archive_ok_create False by (auto simp: killed_base_def)
qed

subsection \<open>The run\<close>

lemma append_rows_run:
  assumes "appended a\<^sub>0 (sw_source_id sw) k n w" and "sw_floor_ts sw = None" and "we_encoder env = tags_encoder"
    and "0 \<le> k" "k \<le> n" "n \<le> rows" "rows < 2 ^ 63" and "n < seal_after \<Longrightarrow> k = 0"
  shows "\<exists>w'. append_rows env sw seal_after [n + 1..rows] (Serving w) = Some (Serving w')
    \<and> appended a\<^sub>0 (sw_source_id sw) (if n < seal_after \<and> seal_after \<le> rows then seal_after else k) rows w'"
  using assms(1,4-6,8)
proof (induction "nat (rows - n)" arbitrary: n k w)
  case 0
  then show ?case by auto
next
  case (Suc m)
  let ?sid = "sw_source_id sw"
  have more: "n < rows" using Suc.hyps(2) by simp
  then have cons: "[n + 1..rows] = (n + 1) # [n + 1 + 1..rows]" by (simp add: upto_rec1)
  obtain w1 where w1: "commit_tick [(?sid, [killed_row (n + 1)])] w = (Inr (), w1)" "appended a\<^sub>0 ?sid k (n + 1) w1"
    using append_step Suc.prems by blast
  have wal: "wal env sw [killed_row (n + 1)] (Serving w) = (Inr (), Serving w1)"
    by (simp add: wal_def assms(2) w1(1) run_tick_def thread_of_def)
  have m: "m = nat (rows - (n + 1))" using Suc.hyps(2) by simp
  show ?case
  proof (cases "n + 1 = seal_after")
    case True
    have k: "k = 0" using Suc.prems(5) True by simp
    obtain w2 where w2: "handle_seal env ?sid [killed_stream] usize_limit w1 = Running w2" "appended a\<^sub>0 ?sid (n + 1) (n + 1) w2"
      using seal_step [of a\<^sub>0 ?sid "n + 1" w1 env] w1(2) k assms(3,7) more Suc.prems(2,3) by auto
    have "seal env sw [killed_stream] (Serving w1) = (Inr (), Serving w2)"
      using w2(1) by (simp add: seal_def seal_capped_def thread_of_def usize_limit_def)
    moreover have "\<exists>w'. append_rows env sw seal_after [n + 1 + 1..rows] (Serving w2) = Some (Serving w')
        \<and> appended a\<^sub>0 ?sid (n + 1) rows w'"
      using Suc.hyps(1) [OF m w2(2)] Suc.prems(2,3) more True by auto
    ultimately show ?thesis using True wal more unfolding cons by simp
  next
    case False
    have "\<exists>w'. append_rows env sw seal_after [n + 1 + 1..rows] (Serving w1) = Some (Serving w')
        \<and> appended a\<^sub>0 ?sid (if n + 1 < seal_after \<and> seal_after \<le> rows then seal_after else k) rows w'"
      using Suc.hyps(1) [OF m w1(2)] Suc.prems more by auto
    moreover have "n + 1 < seal_after \<longleftrightarrow> n < seal_after" using False by linarith
    ultimately show ?thesis using False wal by (simp add: cons)
  qed
qed

lemma read_appended:
  assumes ap: "appended a\<^sub>0 sid k n w" and "0 \<le> k" "k \<le> n"
  shows "stream_segments (wr_archive w) sid killed_stream tags_encoder =
    Inr ((if k = 0 then [] else [tags_of [1..k]]) @ (if k = n then [] else [tags_of [k + 1..n]]))"
proof -
  let ?a = "wr_archive w"
  have live: "live_wal ?a sid killed_stream = map killed_row [k + 1..n]" by (rule live_appended [OF ap assms(2)])
  obtain src where src: "find_source ?a sid = Some src" using ap by (auto simp: appended_def unfinished_source_def)
  have segs: "map sr_bytes (read_segments ?a sid killed_stream) = (if k = 0 then [] else [tags_of [1..k]])"
    using ap by (simp add: appended_def read_segments_def to_segment_row_def tagged_segment_def)
  have version: "enc_version tags_encoder = None" by (simp add: tags_encoder_def plain_encoder_def)
  obtain tail where tail: "materialize_tail ?a tags_encoder sid killed_stream (live_wal ?a sid killed_stream) = Inr tail"
    "opt_list (map_option seg_bytes tail) = (if k = n then [] else [tags_of [k + 1..n]])"
  proof (cases "k = n")
    case True
    then show thesis using that [of None] by (simp add: live materialize_tail_def opt_list_def)
  next
    case False
    then have "k + 1 \<le> n" using assms(3) by simp
    from materialize_tags [OF this] show thesis
      using that False assms(3) by (auto simp: live materialize_tail_def source_uuid_def src opt_list_def simp del: upto.simps)
  qed
  then show ?thesis
    by (simp add: stream_segments_def check_encoder_of_def version stream_segments_snapshotted_def segs)
qed

text \<open>C8: The program of the crash test, on a new archive or an existing one, where SQLite
  fails none of the writer's transactions (a database that stays busy would drop a tick
  without an error): once the writer has started no \<open>expect\<close> fails, and a kill at \<open>ready\<close> leaves
  every row it appended, those up to the seal in one segment and the rest in the live
  tail, so a reader is handed exactly the rows \<open>1..=rows\<close> in order; the source is still
  unfinished, and no stream of another source has changed.\<close>

theorem killed_archive_holds_every_row:
  assumes "killed_start env kf path = Some (h, sw)" and "archive_ok (kf_archive kf)"
    and "kf_faults kf = []" and "we_encoder env = tags_encoder" and "0 \<le> rows" "rows < 2 ^ 63"
  shows "\<exists>w. append_until_killed env kf path rows seal_after = Some (sw, Serving w)
    \<and> unfinished_source (wr_archive w) (sw_source_id sw)
    \<and> others_kept (killed_base kf path) (sw_source_id sw) (wr_archive w)
    \<and> (let k = (if 0 < seal_after \<and> seal_after \<le> rows then seal_after else 0)
       in live_wal (wr_archive w) (sw_source_id sw) killed_stream = map killed_row [k + 1..rows]
          \<and> stream_segments (wr_archive w) (sw_source_id sw) killed_stream tags_encoder =
              Inr ((if k = 0 then [] else [tags_of [1..k]]) @ (if k = rows then [] else [tags_of [k + 1..rows]])))"
proof -
  define k where "k = (if 0 < seal_after \<and> seal_after \<le> rows then seal_after else 0)"
  obtain w0 where w0: "wh_thread h = Serving w0" "sw_floor_ts sw = None"
    "appended (killed_base kf path) (sw_source_id sw) 0 0 w0"
    using killed_start_appended [OF assms(1-3)] by blast
  obtain w where run: "append_rows env sw seal_after [0 + 1..rows] (Serving w0) = Some (Serving w)"
    and ap: "appended (killed_base kf path) (sw_source_id sw) k rows w"
    using append_rows_run [OF w0(3,2) assms(4) _ _ assms(5,6), of seal_after] by (auto simp: k_def)
  have "append_until_killed env kf path rows seal_after = Some (sw, Serving w)"
    using run by (simp add: append_until_killed_def assms(1) w0(1) sync_writer_def thread_of_def)
  moreover have k: "0 \<le> k" "k \<le> rows" using assms(5) by (auto simp: k_def)
  ultimately show ?thesis
    unfolding k_def [symmetric] Let_def
    using live_appended [OF ap k(1)] read_appended [OF ap k] ap by (auto simp: appended_def)
qed

text \<open>On a new archive, five rows sealed after the third.\<close>

definition killed_connection :: connection where
  "killed_connection = \<lparr>cn_application_id = Inr 0, cn_user_version = Inr 5, cn_has_indexes = Inr True,
     cn_segment_columns = Inr [], cn_is_readonly = Inr False, cn_page_size = Inr 4096,
     cn_source_counts = Inr (0, 0), cn_exec = (\<lambda>s. Inr (if s = SetJournalModeWal then str ''wal'' else []))\<rparr>"

definition killed_sample :: killed_files where
  "killed_sample = \<lparr>kf_created = \<lparr>ce_claimable = True, ce_opened = Inr killed_connection, ce_left = {}, ce_removable = (\<lambda>_. True)\<rparr>,
     kf_opened = Inr killed_connection, kf_listed = Inr (), kf_altered = Inr (), kf_spawned = True,
     kf_archive = create_archive, kf_faults = [], kf_columns = [], kf_files = {}\<rparr>"

lemma killed_sample_created: "\<exists>sent. fst (create (kf_created killed_sample) path {}) = (Inr LayoutTable, sent)"
proof -
  have "eq_ignore_ascii_case (str ''wal'') (str ''wal'')" by (simp add: eq_ignore_ascii_case_def)
  then show ?thesis
    by (simp add: create_def create_with_page_size_def init_created_def io_bind_def io_return_def send_def set_pragma_def
        apply_connection_pragmas_def pragma_u32_def sqlite_err_def set_journal_mode_wal_def create_schema_def
        stamp_header_def killed_connection_def killed_sample_def Let_def)
qed

lemma killed_sample_source:
  "is_ok (fst (writer_add_source (sample_env\<lparr>we_encoder := tags_encoder\<rparr>) killed_seed
     (spawn_writer \<lparr>db_archive = create_archive, db_faults = []\<rparr>)))"
  by code_simp

lemma killed_sample_start:
  "killed_start (sample_env\<lparr>we_encoder := tags_encoder\<rparr>) killed_sample (str ''a.dendro'') \<noteq> None"
  using killed_sample_created [of "str ''a.dendro''"] killed_sample_source
  by (auto simp: killed_start_def single_def writer_create_def spawn_def killed_sample_def is_ok_def
      split: prod.splits sum.splits)

lemma killed_archive_holds_every_row_witness:
  "\<exists>sw w. append_until_killed (sample_env\<lparr>we_encoder := tags_encoder\<rparr>) killed_sample (str ''a.dendro'') 5 3 = Some (sw, Serving w)
    \<and> stream_segments (wr_archive w) (sw_source_id sw) killed_stream tags_encoder = Inr [str ''1,2,3'', str ''4,5'']"
proof -
  obtain h sw where s: "killed_start (sample_env\<lparr>we_encoder := tags_encoder\<rparr>) killed_sample (str ''a.dendro'') = Some (h, sw)"
    using killed_sample_start by auto
  have tags: "tags_of [1..3] = str ''1,2,3''" "tags_of [4, 5] = str ''4,5''" by code_simp+
  have "archive_ok (kf_archive killed_sample)" "kf_faults killed_sample = []"
    by (simp_all add: killed_sample_def archive_ok_create)
  from killed_archive_holds_every_row [OF s this, of 5 3] show ?thesis
    by (auto simp: tags Let_def)
qed

end
