(* ===== verification/Projection.thy ===== *)
theory Projection
  imports Compaction_Properties
begin

section \<open>What a projection keeps\<close>

text \<open>
  \<open>project_segment_columns\<close> of \<open>src/rewrite.rs\<close>, over a Parquet library that selects the
  columns it is asked for and writes the key-value metadata it is given.
\<close>

subsection \<open>What the code relies on\<close>

definition projection_contract :: "('ty, 'col, 'ws) parquet \<Rightarrow> bool" where
  "projection_contract lib \<longleftrightarrow>
     (\<forall>schema indices projected. pq_project_schema lib schema indices = Inr projected \<longrightarrow>
        sch_fields projected = map ((!) (sch_fields schema)) indices)
     \<and> (\<forall>b indices b'. pq_project_batch lib b indices = Inr b' \<longrightarrow>
          rb_rows b' = rb_rows b \<and> rb_fields b' = map ((!) (rb_fields b)) indices
          \<and> rb_columns b' = map ((!) (rb_columns b)) indices)
     \<and> (\<forall>schema props bs blob f. pq_close lib schema props bs = Inr blob \<longrightarrow> pq_open lib blob = Inr f \<longrightarrow>
          file_kv f = without_arrow_schema (case wp_key_values props of None \<Rightarrow> [] | Some kv \<Rightarrow> kv))"

lemma projection_contractD:
  assumes "projection_contract lib"
  shows "pq_project_schema lib schema indices = Inr projected \<Longrightarrow>
      sch_fields projected = map ((!) (sch_fields schema)) indices"
    and "pq_project_batch lib b indices = Inr b' \<Longrightarrow>
      rb_rows b' = rb_rows b \<and> rb_fields b' = map ((!) (rb_fields b)) indices
      \<and> rb_columns b' = map ((!) (rb_columns b)) indices"
    and "pq_close lib schema props bs = Inr blob \<Longrightarrow> pq_open lib blob = Inr f \<Longrightarrow>
      file_kv f = without_arrow_schema (case wp_key_values props of None \<Rightarrow> [] | Some kv \<Rightarrow> kv)"
  using assms unfolding projection_contract_def by blast+

subsection \<open>Columns\<close>

lemma kept_indices_filter: "kept_indices keep cols = filter (\<lambda>i. cf_keep keep (cols ! i)) [0..<length cols]"
proof -
  have "enumerate 0 cols = map (\<lambda>i. (i, cols ! i)) [0..<length cols]"
    by (rule nth_equalityI) (simp_all add: nth_enumerate_eq)
  then show ?thesis by (simp add: kept_indices_def filter_map comp_def)
qed

lemma index_of_nth: "distinct (map fd_name fs) \<Longrightarrow> p < length fs \<Longrightarrow> index_of fs (fd_name (fs ! p)) = Some p"
proof (induction fs arbitrary: p)
  case (Cons f fs)
  show ?case
  proof (cases p)
    case (Suc q)
    then have "fs ! q \<in> set fs" using Cons.prems by simp
    then have "fd_name f \<noteq> fd_name (fs ! q)" using Cons.prems(1) by auto
    then show ?thesis using Cons Suc by simp
  qed simp
qed simp

lemma index_of_projected:
  assumes names: "distinct (map fd_name fs)" and i: "i < length fs"
  shows "index_of (map ((!) fs) (kept_indices keep fs)) (fd_name (fs ! i)) =
     (if cf_keep keep (fs ! i) then index_of (map ((!) fs) (kept_indices keep fs)) (fd_name (fs ! i)) else None)"
    and "cf_keep keep (fs ! i) \<Longrightarrow> \<exists>p < length (kept_indices keep fs). kept_indices keep fs ! p = i
      \<and> index_of (map ((!) fs) (kept_indices keep fs)) (fd_name (fs ! i)) = Some p"
proof -
  let ?is = "kept_indices keep fs" and ?gs = "map ((!) fs) (kept_indices keep fs)"
  have sub: "set ?is = {i. i < length fs \<and> cf_keep keep (fs ! i)}" by (auto simp: kept_indices_filter)
  have same: "j = i" if "j < length fs" "fd_name (fs ! j) = fd_name (fs ! i)" for j
    using names i that nth_eq_iff_index_eq [of "map fd_name fs" j i] by simp
  show "index_of ?gs (fd_name (fs ! i)) = (if cf_keep keep (fs ! i) then index_of ?gs (fd_name (fs ! i)) else None)"
    using sub same by (auto simp: index_of_None)
  have "distinct (map (\<lambda>j. fd_name (fs ! j)) ?is)"
  proof -
    have "inj_on (\<lambda>j. fd_name (fs ! j)) (set ?is)"
      using names sub nth_eq_iff_index_eq [of "map fd_name fs"] by (auto simp: inj_on_def)
    moreover have "distinct ?is" by (simp add: kept_indices_filter)
    ultimately show ?thesis by (simp add: distinct_map)
  qed
  then have dist: "distinct (map fd_name ?gs)" by (simp add: comp_def)
  assume "cf_keep keep (fs ! i)"
  then have "i \<in> set ?is" using sub i by simp
  then obtain p where p: "p < length ?is" "?is ! p = i" by (auto simp: in_set_conv_nth)
  have "index_of ?gs (fd_name (?gs ! p)) = Some p" by (rule index_of_nth [OF dist]) (simp add: p(1))
  then show "\<exists>p < length ?is. ?is ! p = i \<and> index_of ?gs (fd_name (fs ! i)) = Some p"
    using p by auto
qed

text \<open>A kept column as it was, another as nulls.\<close>

definition projected_column :: "bool \<Rightarrow> 'v option list \<Rightarrow> 'v option list" where
  "projected_column kept vs = (if kept then vs else map (\<lambda>_. None) vs)"

lemma projected_column_concat:
  "projected_column kept (concat vss) = concat (map (projected_column kept) vss)"
proof (induction vss)
  case (Cons vs vss)
  then show ?case by (simp add: projected_column_def split: if_splits)
qed (simp add: projected_column_def)

lemma batch_column_projected:
  assumes P: "projection_contract lib" and b: "batch_ok vals fs b" and names: "distinct (map fd_name fs)"
    and i: "i < length fs" and p: "pq_project_batch lib b (kept_indices keep fs) = Inr b'"
  shows "batch_column vals b' (fd_name (fs ! i)) =
    projected_column (cf_keep keep (fs ! i)) (batch_column vals b (fd_name (fs ! i)))"
proof -
  let ?is = "kept_indices keep fs"
  note b' = projection_contractD(2) [OF P p]
  have fs: "rb_fields b = fs" "length (rb_columns b) = length fs" using b by (simp_all add: batch_ok_def)
  have col: "batch_column vals b (fd_name (fs ! i)) = vals (rb_columns b ! i)"
    by (simp add: batch_column_def fs index_of_nth [OF names i])
  have len: "length (vals (rb_columns b ! i)) = rb_rows b" using b i by (simp add: batch_ok_def)
  show ?thesis
  proof (cases "cf_keep keep (fs ! i)")
    case True
    then obtain q where "q < length ?is" "?is ! q = i" "index_of (map ((!) fs) ?is) (fd_name (fs ! i)) = Some q"
      using index_of_projected(2) [OF names i] by blast
    then show ?thesis using True b' col by (simp add: batch_column_def fs projected_column_def)
  next
    case False
    then have "index_of (map ((!) fs) ?is) (fd_name (fs ! i)) = None"
      using index_of_projected(1) [OF names i, of keep] by simp
    then show ?thesis using False b' col len
      by (simp add: batch_column_def fs projected_column_def map_replicate_const)
  qed
qed

subsection \<open>The file\<close>

lemma written_projected:
  assumes "rfold (write_projected lib schema props indices) written bs = Inr written'"
  shows "\<exists>ws. written' = written @ ws
    \<and> list_all2 (\<lambda>x y. \<exists>z. x = Inr z \<and> pq_project_batch lib z indices = Inr y) bs ws"
  using assms
proof (induction bs arbitrary: written)
  case (Cons x bs)
  then obtain w where w: "write_projected lib schema props indices written x = Inr w"
    "rfold (write_projected lib schema props indices) w bs = Inr written'"
    by (auto simp: result_simps)
  then obtain z y where z: "x = Inr z" "pq_project_batch lib z indices = Inr y" "w = written @ [y]"
    by (auto simp: write_projected_def result_simps)
  from Cons.IH [OF w(2)] z show ?case by fastforce
qed simp

lemma projected_batches:
  assumes "list_all2 (\<lambda>x y. \<exists>z. x = Inr z \<and> pq_project_batch lib z indices = Inr y) bs ws"
  shows "list_all2 (\<lambda>z y. pq_project_batch lib z indices = Inr y) (rights bs) ws"
  using assms by (rule list_all2_rights)

lemma list_all2_mem2:
  assumes "list_all2 P xs ys" and "y \<in> set ys"
  obtains x where "x \<in> set xs" "P x y"
  using assms by (induction xs ys rule: list_all2_induct) auto

text \<open>The metadata the copy is written with: the file's own, over the settings'.\<close>

lemma carried_metadata:
  "set (without_arrow_schema carried) \<subseteq>
     set (without_arrow_schema (case wp_key_values (with_file_metadata props carried) of None \<Rightarrow> [] | Some kv \<Rightarrow> kv))"
  by (auto simp: with_file_metadata_def without_arrow_schema_def Let_def filter_empty_conv)

lemma file_kv_carried: "without_arrow_schema (file_kv f) = file_kv f"
  by (auto simp: file_kv_def without_arrow_schema_def split: option.splits)

text \<open>C20: A projection that the filter leaves no data column is \<open>None\<close>, and only such a one.
  Any other opens again, and reads as the file it was made from: each column the filter
  keeps with the same values, every other as if the file had never had it, over the same
  rows; and it carries every key-value entry of the file's own metadata.\<close>

theorem projection_keeps_columns:
  assumes "parquet_contract lib vals" and "projection_contract lib" and "pq_open lib blob = Inr f"
    and "distinct (map fd_name (sch_fields (pf_schema f)))"
    and "project_segment_columns lib blob keep props = Inr r"
  shows "case r of
      None \<Rightarrow> \<forall>fd \<in> set (sch_fields (pf_schema f)). \<not> (cf_keep keep fd \<and> cf_is_data keep fd)
    | Some out \<Rightarrow> (\<exists>fd \<in> set (sch_fields (pf_schema f)). cf_keep keep fd \<and> cf_is_data keep fd)
        \<and> (\<exists>g. pq_open lib out = Inr g
             \<and> (\<forall>fd \<in> set (sch_fields (pf_schema f)). file_column vals g (fd_name fd) =
                  projected_column (cf_keep keep fd) (file_column vals f (fd_name fd)))
             \<and> set (file_kv f) \<subseteq> set (file_kv g))"
proof -
  let ?fs = "sch_fields (pf_schema f)"
  let ?is = "kept_indices keep ?fs" and ?props = "with_file_metadata props (file_kv f)"
  show ?thesis
  proof (cases r)
    case None
    then show ?thesis using assms(3,5)
      by (auto simp: project_segment_columns_def Let_def result_simps list_ex_iff split: if_splits)
  next
    case (Some out)
    then obtain schema batches written where data: "list_ex (\<lambda>f. cf_keep keep f \<and> cf_is_data keep f) ?fs"
      and schema: "pq_project_schema lib (pf_schema f) ?is = Inr schema"
      and batches: "pf_batches f = Inr batches"
      and written: "rfold (write_projected lib schema ?props ?is) [] batches = Inr written"
      and closed: "pq_close lib schema ?props written = Inr out"
      using assms(3,5) by (auto simp: project_segment_columns_def Let_def result_simps split: if_splits)
    have pairs: "list_all2 (\<lambda>z y. pq_project_batch lib z ?is = Inr y) (file_batches f) written"
      using written_projected [OF written] projected_batches by (auto simp: file_batches_def batches)
    have ok: "batch_ok vals ?fs b" if "b \<in> set (file_batches f)" for b
      by (rule parquet_contractD(3) [OF assms(1,3) that])
    have fields: "rb_fields y = sch_fields schema" if "y \<in> set written" for y
    proof -
      obtain z where z: "z \<in> set (file_batches f)" "pq_project_batch lib z ?is = Inr y"
        using list_all2_mem2 [OF pairs \<open>y \<in> set written\<close>] by metis
      then show ?thesis
        using projection_contractD(1) [OF assms(2) schema] projection_contractD(2) [OF assms(2) z(2)] ok [OF z(1)]
        by (simp add: batch_ok_def)
    qed
    obtain g where g: "pq_open lib out = Inr g"
      and columns: "\<And>name. file_column vals g name = concat (map (\<lambda>b. batch_column vals b name) written)"
      using parquet_contractD(4) [OF assms(1) fields closed] by blast
    have column: "file_column vals g (fd_name fd) = projected_column (cf_keep keep fd) (file_column vals f (fd_name fd))"
      if fd: "fd \<in> set ?fs" for fd
    proof -
      obtain i where i: "i < length ?fs" "fd = ?fs ! i" using fd by (metis in_set_conv_nth)
      have "list_all2 (\<lambda>z y. batch_column vals y (fd_name fd) =
          projected_column (cf_keep keep fd) (batch_column vals z (fd_name fd))) (file_batches f) written"
        using pairs batch_column_projected [OF assms(2) ok assms(4) i(1)]
        by (auto simp: list_all2_conv_all_nth i(2))
      then have "map (\<lambda>b. batch_column vals b (fd_name fd)) written =
          map (\<lambda>b. projected_column (cf_keep keep fd) (batch_column vals b (fd_name fd))) (file_batches f)"
        by (auto simp: list_all2_conv_all_nth intro: nth_equalityI)
      then show ?thesis by (simp add: columns file_column_def [of vals f] projected_column_concat comp_def)
    qed
    have "file_kv g = without_arrow_schema (case wp_key_values ?props of None \<Rightarrow> [] | Some kv \<Rightarrow> kv)"
      by (rule projection_contractD(3) [OF assms(2) closed g])
    then have "set (file_kv f) \<subseteq> set (file_kv g)"
      using carried_metadata [of "file_kv f" props] by (simp add: file_kv_carried)
    with Some data g column show ?thesis by (auto simp: list_ex_iff)
  qed
qed

subsection \<open>A library of two columns, for the witness\<close>

text \<open>
  The first byte of a file is its kind: \<open>2\<close> for a file of two columns tagged with an
  entry of metadata, \<open>1\<close> for one of the first column alone, with the tag, which is the
  only kind a writer makes.
\<close>

definition toy_tag :: key_value where
  "toy_tag = KeyValue (str ''unit'') (Some (str ''ms''))"

definition toy_other_field :: "unit field" where
  "toy_other_field = toy_field\<lparr>fd_name := str ''w''\<rparr>"

definition toy_batch :: "unit field list \<Rightarrow> u8 list list \<Rightarrow> nat \<Rightarrow> (unit, u8 option list) batch" where
  "toy_batch fs cols n = \<lparr>rb_fields = fs, rb_rows = n, rb_columns = map (map Some) cols\<rparr>"

definition toy_tagged_file :: "unit field list \<Rightarrow> u8 list list \<Rightarrow> nat \<Rightarrow> (unit, u8 option list) parquet_file" where
  "toy_tagged_file fs cols n = \<lparr>pf_key_values = Some [toy_tag], pf_num_rows = int n,
     pf_schema = \<lparr>sch_fields = fs, sch_metadata = []\<rparr>, pf_batches = Inr [Inr (toy_batch fs cols n)]\<rparr>"

fun toy_open :: "bytes \<Rightarrow> string + (unit, u8 option list) parquet_file" where
  "toy_open [] = Inl ''empty''"
| "toy_open (k # body) =
     (let n = length body div 2
      in if k = 1 then Inr (toy_tagged_file [toy_field] [body] (length body))
         else if k = 2 then Inr (toy_tagged_file [toy_field, toy_other_field] [take n body, take n (drop n body)] n)
         else Inl ''kind'')"

fun toy_close :: "unit schema \<Rightarrow> unit writer_props \<Rightarrow> (unit, u8 option list) batch list \<Rightarrow> string + bytes" where
  "toy_close schema props [b] =
     (if sch_fields schema = [toy_field] \<and> wp_key_values props = Some [toy_tag] \<and> toy_writable b
      then Inr (1 # map the (hd (rb_columns b))) else Inl ''close'')"
| "toy_close schema props bs = Inl ''close''"

definition toy_columns :: "(unit, u8 option list, unit) parquet" where
  "toy_columns = toy_parquet\<lparr>pq_open := toy_open, pq_close := toy_close,
     pq_project_schema := (\<lambda>schema indices. Inr (schema\<lparr>sch_fields := map ((!) (sch_fields schema)) indices\<rparr>)),
     pq_project_batch := (\<lambda>b indices. Inr (b\<lparr>rb_fields := map ((!) (rb_fields b)) indices,
        rb_columns := map ((!) (rb_columns b)) indices\<rparr>))\<rparr>"

lemma toy_close_Inr:
  assumes "toy_close schema props bs = Inr blob"
  obtains b body where "bs = [b]" "sch_fields schema = [toy_field]" "wp_key_values props = Some [toy_tag]"
    "rb_columns b = [map Some body]" "rb_rows b = length body" "blob = 1 # body"
proof -
  from assms obtain b where b: "bs = [b]" "sch_fields schema = [toy_field]" "wp_key_values props = Some [toy_tag]"
    "toy_writable b" "blob = 1 # map the (hd (rb_columns b))"
    by (cases "(schema, props, bs)" rule: toy_close.cases) (auto split: if_splits)
  then obtain c where c: "rb_columns b = [c]" "\<forall>v \<in> set c. v \<noteq> None" "length c = rb_rows b"
    by (auto simp: toy_writable_def list_all_iff split: list.splits)
  then have "map Some (map the c) = c" by (simp add: map_idI)
  with b c that [of b "map the c"] show thesis by simp
qed

lemma toy_columns_contract: "parquet_contract toy_columns (\<lambda>c. c)"
proof -
  have close: "\<exists>f. toy_open blob = Inr f
      \<and> (\<forall>name. file_column (\<lambda>c. c) f name = concat (map (\<lambda>b. batch_column (\<lambda>c. c) b name) bs))"
    if bs: "\<forall>b \<in> set bs. rb_fields b = sch_fields schema" and c: "toy_close schema props bs = Inr blob"
    for schema :: "unit schema" and props bs blob
  proof -
    from c obtain b body where "bs = [b]" "sch_fields schema = [toy_field]"
      "rb_columns b = [map Some body]" "rb_rows b = length body" "blob = 1 # body"
      by (rule toy_close_Inr)
    with bs show ?thesis
      by (auto simp: file_column_def file_batches_def rights_def toy_tagged_file_def toy_batch_def batch_column_def)
  qed
  have opened: "batch_ok (\<lambda>c. c) (sch_fields (pf_schema f)) b"
    if "toy_open blob = Inr f" "b \<in> set (file_batches f)" for blob f b
    using that by (cases blob)
      (auto simp: toy_tagged_file_def toy_batch_def file_batches_def rights_def batch_ok_def Let_def split: if_splits)
  show ?thesis
    unfolding parquet_contract_def
    using close opened by (intro conjI allI impI) (auto simp: toy_columns_def toy_parquet_def)
qed

lemma toy_projection_contract: "projection_contract toy_columns"
proof -
  have "file_kv f = without_arrow_schema (case wp_key_values props of None \<Rightarrow> [] | Some kv \<Rightarrow> kv)"
    if c: "toy_close schema props bs = Inr blob" and "toy_open blob = Inr f" for schema props bs blob f
  proof -
    from c obtain b body where "wp_key_values props = Some [toy_tag]" "blob = 1 # body" by (rule toy_close_Inr)
    with that(2) show ?thesis by (auto simp: toy_tagged_file_def file_kv_def)
  qed
  then show ?thesis
    by (auto simp: projection_contract_def toy_columns_def)
qed

definition keep_first :: "unit column_filter" where
  "keep_first = \<lparr>cf_keep = (\<lambda>f. fd_name f = str ''v''), cf_is_data = (\<lambda>_. True), cf_projects = (\<lambda>_. True)\<rparr>"

theorem projection_keeps_columns_witness:
  "\<exists>g. pq_open toy_columns [1, 7, 8] = Inr g
     \<and> file_column (\<lambda>c. c) g (str ''v'') = [Some 7, Some 8] \<and> file_column (\<lambda>c. c) g (str ''w'') = [None, None]
     \<and> toy_tag \<in> set (file_kv g)"
proof -
  let ?f = "toy_tagged_file [toy_field, toy_other_field] [[7, 8], [9, 9]] 2"
  have f: "pq_open toy_columns [2, 7, 8, 9, 9] = Inr ?f" by code_simp
  have p: "project_segment_columns toy_columns [2, 7, 8, 9, 9] keep_first (pq_default_props toy_columns)
      = Inr (Some [1, 7, 8])" by code_simp
  have d: "distinct (map fd_name (sch_fields (pf_schema ?f)))" by code_simp
  have v: "file_column (\<lambda>c. c) ?f (str ''v'') = [Some 7, Some 8]" by code_simp
  have w: "file_column (\<lambda>c. c) ?f (str ''w'') = [Some 9, Some 9]" by code_simp
  have t: "toy_tag \<in> set (file_kv ?f)" by code_simp
  have k: "cf_keep keep_first toy_field" "\<not> cf_keep keep_first toy_other_field"
    "fd_name toy_field = str ''v''" "fd_name toy_other_field = str ''w''"
    "sch_fields (pf_schema ?f) = [toy_field, toy_other_field]" by code_simp+
  from projection_keeps_columns [OF toy_columns_contract toy_projection_contract f d p] v w t
  show ?thesis by (auto simp: k projected_column_def)
qed

end
