(* ===== verification/Spec2Isabelle.thy ===== *)
theory Spec2Isabelle
  imports Seal_Policy Writer_Properties Wire_Frames Replication Source_Copy_Properties
    Archive_Open_Properties Archive_Check_Properties Writer_Upkeep_Properties Writer_Check
    Archive_Handle_Properties Writer_History Error_Display Seal_Tests Wire_Tests
    Archive_Tests Killed_Writer Projection
begin

text \<open>
  \<^bold>\<open>Dendro: a verification library.\<close> Dendro stores telemetry in an archive, one SQLite
  file. A writer thread appends the rows of a tick to a write-ahead table, and seals
  each stream's live rows into immutable Parquet segments made by the caller's
  encoder; retention evicts old segments and rows; readers see the segments with the
  unsealed rows spliced on; a publisher tails an archive as frames that a subscriber
  applies to another archive; rewrites merge segments and copy sources. The theories
  below model that program from its Rust source and prove what makes each part right.

  \<^bold>\<open>The parts, bottom up.\<close> Each theory names the file it models; a definition carries
  the name of the Rust function or type, with a suffix where HOL has that name.

  \<^item> \<open>Dendro_Prelude\<close>: bytes, strings as UTF-8 bytes, \<open>i64\<close>, results (\<open>Inl\<close> is \<open>Err\<close>,
    \<open>rbind\<close> is the \<open>?\<close> operator, \<open>rfold\<close> a loop that stops at the first error),
    \<open>BTreeMap\<close>, \<open>BTreeSet\<close>, \<open>ORDER BY\<close> as a stable sort, \<open>MAX\<close> and \<open>MIN\<close> of a column.
  \<^item> \<open>Dendro_Error\<close>, \<open>Error_Display\<close> (\<open>src/error.rs\<close>): the error type, its classification, its
    text, causes and conversions.
  \<^item> \<open>Seal_Policy\<close> (\<open>src/seal.rs\<close>): when an open segment is due, alignment to buckets,
    the FNV hash that staggers first segments, and \<open>staggers_identically\<close>. The hash is
    on 64-bit words, with its wrap-around. \<open>Stagger\<close> is its algebra modulo 64, and
    \<open>Seal_Tests\<close> the file's own unit tests on the model.
  \<^item> \<open>Segment_Contract\<close> (\<open>src/segment.rs\<close>, \<open>src/archive/mod.rs\<close>): the encoder, a record of
    functions that every later definition takes as a parameter and about which nothing
    is assumed, and \<open>materialize_after\<close>, which checks what it returns.
  \<^item> \<open>Archive_Store\<close>, \<open>Archive_Ops\<close>, \<open>Eviction\<close> (\<open>src/archive/sqlite.rs\<close>): the tables as a
    record, each query as the meaning of its SQL text, each write as a function that
    fails with a constraint violation where the schema says so, and transactions.
    \<open>archive_ok\<close> is the schema: primary keys distinct, foreign keys present.
  \<^item> \<open>Archive_Open\<close>, \<open>Archive_Open_Properties\<close> (\<open>src/archive/sqlite.rs\<close>): the header stamp and
    \<open>sniff\<close>, the gate, every way a file is opened or created, the dump, and the close of
    a read handle. A \<open>connection\<close> is what SQLite answers; the statements sent on it are
    logged in order.
  \<^item> \<open>Archive_Check\<close>, \<open>Archive_Check_Properties\<close> (\<open>src/archive/sqlite.rs\<close>): \<open>HeartbeatWatch\<close> and
    \<open>verify\<close>.
  \<^item> \<open>Documents\<close> (\<open>src/archive/sqlite/documents.rs\<close>): revisions, conditional saves,
    deletions, copies between archives and the ancestry walk.
  \<^item> \<open>Archive_Handle\<close>, \<open>Archive_Handle_Properties\<close> (\<open>src/archive/sqlite.rs\<close>): the methods of
    \<open>ArchiveMut\<close> and \<open>Transaction\<close>, as an archive is assembled with them without a writer.
  \<^item> \<open>Archive_Tests\<close>: the unit tests of \<open>sqlite.rs\<close> that read and write rows, on the model.
  \<^item> \<open>Seal_Store\<close>, \<open>Writer_Seal\<close>, \<open>Seal_Seam\<close> (\<open>src/writer.rs\<close>): \<open>split_seal\<close>, \<open>seal_batch\<close> and
    \<open>adopt_segment\<close>. \<open>Seal_Store\<close> states as the locale \<open>seal_store\<close> what sealing needs of
    an archive and interprets it on the archive's own operations.
  \<^item> \<open>Writer_Loop\<close>, \<open>Writer_Invariant\<close>, \<open>Writer_Properties\<close> (\<open>src/writer.rs\<close>): the loop, one
    definition per message, as a step relation over \<open>handle\<close> and the heartbeat timer;
    the invariant of its reachable states; the properties of single messages.
  \<^item> \<open>Writer_Handles\<close> (\<open>src/writer.rs\<close>): the calls of \<open>Writer\<close> and \<open>SourceWriter\<close> over the loop.
  \<^item> \<open>Writer_Upkeep\<close>, \<open>Writer_Upkeep_Properties\<close> (\<open>src/writer.rs\<close>): the loop's heartbeat and
    checkpoint timers over the readings of a clock, the reclaim of pages, and how a writer
    is started over a new or an existing file.
  \<^item> \<open>Writer_Check\<close>: the writer's invariant against \<open>verify\<close>.
  \<^item> \<open>Writer_History\<close>: what no message takes away. The locale \<open>archive_monitor\<close> is a relation
    between archives that every kind of statement respects; it holds along a writer's
    steps, and is interpreted on the growth of the documents and sources and on the schema.
  \<^item> \<open>Read_Path\<close>, \<open>Read_Properties\<close> (\<open>src/read.rs\<close>): the catalog and its overview, probes,
    range and whole reads, indexes.
  \<^item> \<open>Rewrite_Parquet\<close>, \<open>Merge_Properties\<close>, \<open>Compaction\<close>, \<open>Compaction_Properties\<close>, \<open>Projection\<close>,
    \<open>Source_Copy\<close>, \<open>Source_Copy_Properties\<close> (\<open>src/rewrite.rs\<close>): merging and projecting segments over a
    Parquet library taken as a parameter, compaction, and copies of sources.
  \<^item> \<open>Frames\<close>, \<open>Wire\<close>, \<open>Wire_Codec\<close>, \<open>Wire_Frames\<close> (\<open>src/replicate/frame.rs\<close>, \<open>wire.rs\<close>): the
    frames, the encoder with the caller's buffer, the decoding cursor and the reader of
    a byte stream. The locale \<open>field_codec\<close> is one field's encoder and decoder; it is
    interpreted on each field type of the format. \<open>Wire_Tests\<close> is the unit tests of
    \<open>wire.rs\<close> on the model.
  \<^item> \<open>Publisher\<close>, \<open>Publisher_Properties\<close>, \<open>Subscriber\<close>, \<open>Replication\<close>
    (\<open>src/replicate/publisher.rs\<close>, \<open>subscriber.rs\<close>): cursors and polls, frames applied
    through the writer's handles, and the two on one connection.
  \<^item> \<open>Killed_Writer\<close> (\<open>src/bin/append-until-killed.rs\<close>): the crash-test program, from the start
    of its writer to the kill, over the writer's handles, the seal and the read path.

  \<^bold>\<open>What is proved.\<close>

  \<^item> Writing: every reachable writer state is well formed and its in-memory maps agree
    with the archive (C1); a seal is all or nothing and every row that leaves the live
    tail is in exactly one new segment (C2); a seal that covers the tail changes no
    byte a reader is handed (C3); a split tiles its rows (C4); an adopted segment goes
    above what is sealed and below what is live, and one the watermark covers is passed over
    without an error (C5); a tick stores live rows only
    (C6); retention spares the streams whose seal is deferred; nothing but SQLite
    refuses a seal; retries and dropped ticks are bounded; a source resumes only behind
    a clock past its rows.
  \<^item> Storing: any calls of the write handle keep the schema and a failed one changes
    nothing; a writer only appends to documents' revisions and sources' identities;
    a kill of the crash-test program leaves exactly the rows it appended, while SQLite
    fails nothing; eviction deletes what its cutoff names, counts it, touches nothing
    else and revives no shadowed row; documents keep their history, conditional saves lose no update, copies are
    idempotent and the ancestry walk ends on any table.
  \<^item> Opening and checking: a read handle never writes and never reads past a sidecar it
    cannot see; \<open>sniff\<close> and the gate agree where SQLite reads the header as its file
    format says; a file the gate refuses is left alone; a
    failed creation leaves nothing behind; \<open>verify\<close> lists exactly what is wrong,
    and all it can report of an archive a writer wrote is rows that await their prune.
  \<^item> Upkeep: a checkpoint is never older than its interval and the loop's delays; a
    writer whose beats come within three intervals is never called stopped by a reader;
    the reclaim at close ends, on a file in incremental mode with its free list empty or
    the two seconds spent, on any other once they are.
  \<^item> Reading: the catalog agrees with the queries it stands for, and a range read with
    the whole read.
  \<^item> Rewriting: compaction keeps every column, row total and live tail, on errors too;
    a whole copy reads as its original, its unsealed tail included; a projection keeps the
    values of the columns it keeps, the rows and the file's metadata.
  \<^item> Replicating: frames and streams of frames round-trip, whatever decodes is well
    formed, a cut stream is an error; a poll ships each row past the cursors once and
    is refused exactly when a seal passed a cursor; a frame applied sends the writer the
    one message it stands for, as a tracker of what rows need allows, and on one connection no row is skipped.
  \<^item> Seven theorems state behaviour that falls short of what the source says of itself:
    \<open>off_row_segment_ends_writer\<close>, \<open>contract_allows_last_ts_off_rows\<close>, \<open>stream_cut\<close>,
    \<open>one_tick_can_stop_the_writer\<close>, \<open>current_writer_leaves_unreadable_rows\<close>,
    \<open>streams_collide_for_every_key_or_none\<close> and \<open>staggers_identically_not_exact\<close>, its counterexamples.

  \<^bold>\<open>Modelling choices.\<close>

  \<^item> SQLite is its tables. A read runs on one archive value, which is what a read
    snapshot gives; no read fails but for a source that is absent. \<open>db_faults\<close> lists the
    code each coming transaction fails with, if any; a failing one changes nothing. A
    source's heartbeat columns are taken to be there, and the JSON of its maps is held
    decoded.
  \<^item> The writer's thread is taken to have drained its queue before the next call of a
    handle. Its loop, panics included, is a function of the message and the state.
  \<^item> Row counts and sequence numbers of segments are natural numbers; the replication
    sequence is a \<open>u64\<close> and wraps. Timestamps are integers, compared and never added,
    but where the code adds one the sum is written out; theorems that need their 64-bit
    range name it (\<open>ts_ok\<close>).
  \<^item> A message built with \<open>format!\<close> keeps the fixed words of its format string and drops what
    it interpolates; the text of a structured error is complete.
  \<^item> Opening a file, the clock, the start of a thread and \<open>incremental_vacuum\<close> answer what
    their parameters say; \<open>vacuums\<close> states what SQLite documents of the last,
    for a file in incremental mode and for one that is not.
  \<^item> No definition has fuel. \<open>reclaim_passes\<close>, which waits on the clock, is a partial function
    proved to return where a pass makes progress or the clock does; other loops are structural recursion or a \<open>function\<close> with a measure:
    the rows left in \<open>split_parts\<close>, the segments left in \<open>compact_from\<close>, the revisions
    not yet seen in \<open>ancestry_from\<close>, the bytes left in \<open>next_frame\<close>; a retry runs over the list of its delays, three, so four
    tries.
  \<^item> The Parquet and Arrow libraries are the record \<open>parquet\<close>. What compaction relies on,
    that a file reads back what was written and a batch has its schema's fields, is the
    predicate \<open>parquet_contract\<close>; \<open>toy_parquet\<close> shows it can hold. What a projection
    relies on besides, that the library selects the columns it is asked for and keeps the
    metadata it is given, is \<open>projection_contract\<close> in \<open>Projection\<close>, which \<open>toy_columns\<close> meets.

  \<^bold>\<open>Not modelled.\<close> The bytes SQLite writes: \<open>serialize\<close>, \<open>VACUUM INTO\<close>'s copy, the sidecars
  and the file lock are SQLite's, and only what the code asks of them is here. The channel
  between a handle and the thread, which the model takes as drained. The tests that ask
  SQLite for pragmas, query plans and page counts. \<open>src/bin/measure-compaction.rs\<close>, which
  times reads and prints a table, and the crate root but for the keys dendro writes.
\<close>

end
